(* ===== verification/Prelude.thy ===== *)
theory Prelude
  imports Main "HOL-Library.Signed_Division" "HOL-Library.Word"
begin

unbundle bit_operations_syntax

text \<open>
  Shared vocabulary of the development.

  \<^item> C integers are HOL integers that carry the value of a C object; the conversions
    between C types are \<open>u64\<close>, \<open>s64\<close>, \<open>u32\<close> and \<open>s32\<close> (reduction modulo the width,
    then the signed or unsigned reading, as gcc on x86-64 does for every conversion), and
    the wrap-around of unsigned arithmetic is written out with them.
  \<^item> What ends a run early is a value: \<open>Exit n\<close> for \<open>exit(n)\<close>, \<open>Trap t\<close> for a signal or
    for undefined behaviour of the C abstract machine.
  \<^item> A piece of C code with state \<open>'w\<close> is a \<open>prog\<close>: it returns a value or a stop, and the
    state at that point in either case.  \<open>bindP\<close> is the semicolon.
  \<^item> \<open>wp\<close> is the weakest precondition of a program for a normal and an early end; the
    collection \<open>wp_simps\<close> computes it.
\<close>

section \<open>C integer conversions\<close>

definition u64 :: "int \<Rightarrow> int" where
  "u64 x = x mod 2 ^ 64"

definition s64 :: "int \<Rightarrow> int" where
  "s64 x = (x + 2 ^ 63) mod 2 ^ 64 - 2 ^ 63"

definition u32 :: "int \<Rightarrow> int" where
  "u32 x = x mod 2 ^ 32"

definition s32 :: "int \<Rightarrow> int" where
  "s32 x = (x + 2 ^ 31) mod 2 ^ 32 - 2 ^ 31"

named_theorems cint_simps \<open>conversions of values that are in range, and their bounds\<close>

text \<open>\<open>time / count\<close> with a \<open>long long\<close> and an \<open>unsigned long long\<close>, printed with \<open>%lld\<close>\<close>

definition per_op :: "int \<Rightarrow> int \<Rightarrow> int" where
  "per_op time count = s64 (u64 time div count)"

lemma u64_id [cint_simps]: "0 \<le> x \<Longrightarrow> x < 2 ^ 64 \<Longrightarrow> u64 x = x"
  by (simp add: u64_def)

lemma s64_id [cint_simps]: "- (2 ^ 63) \<le> x \<Longrightarrow> x < 2 ^ 63 \<Longrightarrow> s64 x = x"
  by (simp add: s64_def)

lemma u32_id [cint_simps]: "0 \<le> x \<Longrightarrow> x < 2 ^ 32 \<Longrightarrow> u32 x = x"
  by (simp add: u32_def)

lemma s32_id [cint_simps]: "- (2 ^ 31) \<le> x \<Longrightarrow> x < 2 ^ 31 \<Longrightarrow> s32 x = x"
  by (simp add: s32_def)

lemma u64_nonneg [simp]: "0 \<le> u64 x"
  and u64_less [simp]: "u64 x < 2 ^ 64"
  by (simp_all add: u64_def)

lemma u64_neg: "- (2 ^ 64) \<le> x \<Longrightarrow> x < 0 \<Longrightarrow> u64 x = x + 2 ^ 64"
proof -
  assume "- (2 ^ 64) \<le> x" "x < 0"
  then have "(x + 2 ^ 64) mod 2 ^ 64 = x + 2 ^ 64"
    by (intro mod_pos_pos_trivial) simp_all
  moreover have "(x + 2 ^ 64) mod 2 ^ 64 = x mod 2 ^ 64" by (rule mod_add_self2)
  ultimately show ?thesis unfolding u64_def by (rule trans [OF sym, rotated])
qed

lemma s32_bounds [simp]: "- (2 ^ 31) \<le> s32 x" "s32 x < 2 ^ 31"
  by (simp_all add: s32_def)

lemma s64_bounds [simp]: "- (2 ^ 63) \<le> s64 x" "s64 x < 2 ^ 63"
  by (simp_all add: s64_def)

section \<open>Early ends and the program monad\<close>

datatype trap =
    Buffer_Overflow      \<comment> \<open>a copy past the end of an array\<close>
  | Out_Of_Bounds        \<comment> \<open>an index outside its array\<close>
  | Div_By_Zero          \<comment> \<open>SIGFPE\<close>
  | Int_Overflow         \<comment> \<open>signed overflow\<close>
  | Null_Deref           \<comment> \<open>an access through a null pointer\<close>
  | Seg_Fault            \<comment> \<open>SIGSEGV: unmapped or protected memory\<close>
  | Bus_Error            \<comment> \<open>SIGBUS: a mapped page past the end of the file\<close>
  | Assert_Failed        \<comment> \<open>SIGABRT from \<open>assert\<close>\<close>

datatype stop = Exit int | Trap trap

type_synonym ('w, 'a) prog = "'w \<Rightarrow> (stop + 'a) \<times> 'w"

definition ret :: "'a \<Rightarrow> ('w, 'a) prog" where
  "ret a = (\<lambda>w. (Inr a, w))"

definition halt :: "stop \<Rightarrow> ('w, 'a) prog" where
  "halt e = (\<lambda>w. (Inl e, w))"

abbreviation trap :: "trap \<Rightarrow> ('w, 'a) prog" where
  "trap t \<equiv> halt (Trap t)"

abbreviation exit_with :: "int \<Rightarrow> ('w, 'a) prog" where
  "exit_with n \<equiv> halt (Exit n)"

definition bindP :: "('w, 'a) prog \<Rightarrow> ('a \<Rightarrow> ('w, 'b) prog) \<Rightarrow> ('w, 'b) prog" where
  "bindP m k = (\<lambda>w. case m w of (Inl e, w') \<Rightarrow> (Inl e, w') | (Inr a, w') \<Rightarrow> k a w')"

text \<open>A call that always returns: a function on the state.\<close>

definition call :: "('w \<Rightarrow> 'a \<times> 'w) \<Rightarrow> ('w, 'a) prog" where
  "call f = (\<lambda>w. (Inr (fst (f w)), snd (f w)))"

definition update :: "('w \<Rightarrow> 'w) \<Rightarrow> ('w, unit) prog" where
  "update f = (\<lambda>w. (Inr (), f w))"

definition query :: "('w \<Rightarrow> 'a) \<Rightarrow> ('w, 'a) prog" where
  "query f = (\<lambda>w. (Inr (f w), w))"

text \<open>A computation without state that may trap.\<close>

definition try_res :: "trap + 'a \<Rightarrow> ('w, 'a) prog" where
  "try_res r = (case r of Inl t \<Rightarrow> trap t | Inr a \<Rightarrow> ret a)"

definition whenP :: "bool \<Rightarrow> ('w, unit) prog \<Rightarrow> ('w, unit) prog" where
  "whenP b m = (if b then m else ret ())"

text \<open>
  \<open>for_int n i body a\<close> is \<open>for (; i < i0 + n; i++)\<close> with an \<open>int i\<close> that starts at \<open>i0\<close>:
  \<open>n\<close> rounds are left.  The increment of \<open>INT_MAX\<close> is signed overflow.
\<close>

fun for_int :: "nat \<Rightarrow> int \<Rightarrow> (int \<Rightarrow> 'a \<Rightarrow> ('w, 'a) prog) \<Rightarrow> 'a \<Rightarrow> ('w, 'a) prog" where
  "for_int 0 i body a = ret a"
| "for_int (Suc n) i body a =
     bindP (body i a) (\<lambda>a'. if i = 2147483647 then trap Int_Overflow
                            else for_int n (i + 1) body a')"

section \<open>Weakest preconditions\<close>

named_theorems wp_simps \<open>equations that compute weakest preconditions\<close>

definition wp :: "('w, 'a) prog \<Rightarrow> ('a \<Rightarrow> 'w \<Rightarrow> bool) \<Rightarrow> (stop \<Rightarrow> 'w \<Rightarrow> bool) \<Rightarrow> 'w \<Rightarrow> bool" where
  "wp m Q E w = (case m w of (Inl e, w') \<Rightarrow> E e w' | (Inr a, w') \<Rightarrow> Q a w')"

text \<open>
  The equations are stated without the state argument, so that they also apply below the
  abstraction of a sequential composition.
\<close>

lemma wp_ret [wp_simps]: "wp (ret a) Q E = Q a"
  by (simp add: wp_def ret_def fun_eq_iff)

lemma wp_halt [wp_simps]: "wp (halt e) Q E = E e"
  by (simp add: wp_def halt_def fun_eq_iff)

lemma wp_bindP [wp_simps]: "wp (bindP m k) Q E = wp m (\<lambda>a. wp (k a) Q E) E"
  by (simp add: wp_def bindP_def fun_eq_iff split: prod.splits sum.splits)

lemma wp_call [wp_simps]: "wp (call f) Q E = (\<lambda>w. Q (fst (f w)) (snd (f w)))"
  by (simp add: wp_def call_def fun_eq_iff)

lemma wp_update [wp_simps]: "wp (update f) Q E = (\<lambda>w. Q () (f w))"
  by (simp add: wp_def update_def fun_eq_iff)

lemma wp_query [wp_simps]: "wp (query f) Q E = (\<lambda>w. Q (f w) w)"
  by (simp add: wp_def query_def fun_eq_iff)

lemma wp_try_res [wp_simps]:
  "wp (try_res r) Q E = (\<lambda>w. case r of Inl t \<Rightarrow> E (Trap t) w | Inr a \<Rightarrow> Q a w)"
  by (simp add: try_res_def wp_simps fun_eq_iff split: sum.splits)

lemma wp_if [wp_simps]:
  "wp (if b then m else n) Q E = (\<lambda>w. if b then wp m Q E w else wp n Q E w)"
  by (simp add: fun_eq_iff)

lemma wp_whenP [wp_simps]:
  "wp (whenP b m) Q E = (\<lambda>w. if b then wp m Q E w else Q () w)"
  by (simp add: whenP_def wp_simps fun_eq_iff)

lemma wp_mono:
  assumes "wp m Q E w"
    and "\<And>a w'. Q a w' \<Longrightarrow> Q' a w'" and "\<And>e w'. E e w' \<Longrightarrow> E' e w'"
  shows "wp m Q' E' w"
  using assms by (auto simp: wp_def split: prod.splits sum.splits)

lemma wp_no_stop: "wp m Q (\<lambda>_ _. False) w \<Longrightarrow> wp m Q E w"
  by (erule wp_mono) simp_all

lemma wp_result: "wp m Q E w \<Longrightarrow> m w = (Inr a, w') \<Longrightarrow> Q a w'"
  by (simp add: wp_def)

lemma wp_stop: "wp m Q E w \<Longrightarrow> m w = (Inl e, w') \<Longrightarrow> E e w'"
  by (simp add: wp_def)

lemma wp_both: "wp m Q E w \<Longrightarrow> wp m Q' E w \<Longrightarrow> wp m (\<lambda>a w'. Q a w' \<and> Q' a w') E w"
  by (auto simp: wp_def split: prod.splits sum.splits)

text \<open>A program meets \<open>wp\<close> with no early end exactly if it returns.\<close>

lemma wp_returns: "wp m Q (\<lambda>_ _. False) w \<Longrightarrow> \<exists>a w'. m w = (Inr a, w') \<and> Q a w'"
  by (auto simp: wp_def split: prod.splits sum.splits)

lemma wpI: "(\<And>a w'. m w = (Inr a, w') \<Longrightarrow> Q a w') \<Longrightarrow> (\<And>e w'. m w = (Inl e, w') \<Longrightarrow> E e w')
  \<Longrightarrow> wp m Q E w"
  by (auto simp: wp_def split: prod.splits sum.splits)

text \<open>The rule for loops: an invariant over the number of rounds done.\<close>

lemma wp_for_int:
  assumes "I 0 a w"
    and "\<And>k a w. k < n \<Longrightarrow> I k a w \<Longrightarrow> wp (body (i + int k) a) (I (Suc k)) E w"
    and "i + int n \<le> 2147483647"
    and "\<And>a w. I n a w \<Longrightarrow> Q a w"
  shows "wp (for_int n i body a) Q E w"
proof -
  have "wp (for_int m (i + int k) body a) Q E w" if "k + m = n" "I k a w" for m k a w
    using that
  proof (induction m arbitrary: k a w)
    case 0
    then show ?case by (simp add: wp_simps assms(4))
  next
    case (Suc m)
    from Suc.prems have kn: "k < n" and I: "I k a w" by auto
    have "i + int k \<noteq> 2147483647"
      using kn assms(3) by linarith
    moreover have "wp (for_int m (i + int k + 1) body a') Q E w'" if "I (Suc k) a' w'" for a' w'
      using Suc.IH [of "Suc k" a' w'] Suc.prems(1) that by (simp add: ac_simps)
    ultimately show ?case
      using assms(2) [OF kn I] by (auto simp: wp_simps elim!: wp_mono)
  qed
  from this [of 0 n a w] assms(1) show ?thesis by simp
qed

text \<open>A loop over the whole range of \<open>int\<close> overflows its counter.\<close>

lemma for_int_overflow:
  assumes "i + int n = 2147483648" and "0 < n" and "I 0 a w"
    and "\<And>k a w. k < n \<Longrightarrow> I k a w \<Longrightarrow> wp (body (i + int k) a) (I (Suc k)) (\<lambda>_ _. False) w"
  shows "wp (for_int n i body a) (\<lambda>_ _. False) (\<lambda>e w. e = Trap Int_Overflow) w"
proof -
  let ?E = "\<lambda>e w. e = Trap Int_Overflow"
  have "wp (for_int m (i + int k) body a) (\<lambda>_ _. False) ?E w"
    if "k + m = n" "I k a w" "0 < m" for m k a w
    using that
  proof (induction m arbitrary: k a w)
    case 0
    then show ?case by simp
  next
    case (Suc m)
    then have b: "wp (body (i + int k) a) (I (Suc k)) (\<lambda>_ _. False) w"
      using assms(4) by simp
    have cnt: "i + int k = 2147483647 \<longleftrightarrow> m = 0"
      using Suc.prems(1) assms(1) by auto
    have "wp (if i + int k = 2147483647 then trap Int_Overflow
              else for_int m (i + int k + 1) body a') (\<lambda>_ _. False) ?E w'"
      if "I (Suc k) a' w'" for a' w'
      using Suc.IH [of "Suc k" a' w'] Suc.prems(1) that cnt by (auto simp: wp_simps ac_simps)
    with b show ?case by (auto simp: wp_simps elim!: wp_mono)
  qed
  from this [of 0 n a w] assms show ?thesis by simp
qed

text \<open>Both cases in one rule, for bodies that do not stop early.\<close>

lemma wp_for_int_any:
  assumes "I 0 a w"
    and "\<And>k a w. k < n \<Longrightarrow> I k a w \<Longrightarrow> wp (body (i + int k) a) (I (Suc k)) (\<lambda>_ _. False) w"
    and "i + int n \<le> 2147483648" and "i < 2147483648"
    and "\<And>a w. i + int n \<le> 2147483647 \<Longrightarrow> I n a w \<Longrightarrow> Q a w"
    and "\<And>w. i + int n = 2147483648 \<Longrightarrow> E (Trap Int_Overflow) w"
  shows "wp (for_int n i body a) Q E w"
proof (cases "i + int n = 2147483648")
  case True
  then have "0 < n" using assms(4) by auto
  from for_int_overflow [OF True this assms(1,2)] show ?thesis
    by (rule wp_mono) (auto simp: assms(6) [OF True])
next
  case False
  then have "i + int n \<le> 2147483647" using assms(3) by simp
  then show ?thesis
    using assms(1,2,5) by (intro wp_for_int [where I = I]) (auto intro: wp_no_stop)
qed

text \<open>The rule for bodies that may stop, over the whole range of the counter.\<close>

lemma wp_for_int_stops:
  assumes "I 0 a w"
    and "\<And>k a w. k < n \<Longrightarrow> I k a w \<Longrightarrow> wp (body (i + int k) a) (I (Suc k)) E w"
    and "i + int n \<le> 2147483648"
    and "\<And>a w. i + int n \<le> 2147483647 \<Longrightarrow> I n a w \<Longrightarrow> Q a w"
    and "\<And>a w. i + int n = 2147483648 \<Longrightarrow> I n a w \<Longrightarrow> E (Trap Int_Overflow) w"
    and "i < 2147483648"
  shows "wp (for_int n i body a) Q E w"
proof -
  have "wp (for_int m (i + int k) body a) Q E w" if "k + m = n" "I k a w" "i + int k < 2147483648" for m k a w
    using that
  proof (induction m arbitrary: k a w)
    case 0
    then show ?case using assms(4) by (auto simp: wp_simps)
  next
    case (Suc m)
    from Suc.prems have kn: "k < n" and I: "I k a w" by auto
    have cnt: "i + int k = 2147483647 \<Longrightarrow> i + int n = 2147483648 \<and> Suc k = n"
      using Suc.prems(1) assms(3) by linarith
    have "wp (if i + int k = 2147483647 then trap Int_Overflow
              else for_int m (i + int k + 1) body a') Q E w'" if I': "I (Suc k) a' w'" for a' w'
    proof (cases "i + int k = 2147483647")
      case True
      with cnt I' assms(5) show ?thesis by (auto simp: wp_simps)
    next
      case False
      have "wp (for_int m (i + int (Suc k)) body a') Q E w'"
        using Suc.prems(1,3) I' False by (intro Suc.IH) simp_all
      with False show ?thesis by (simp add: ac_simps)
    qed
    then show ?case
      using assms(2) [OF kn I] by (auto simp: wp_bindP elim!: wp_mono)
  qed
  from this [of 0 n a w] assms(1,6) show ?thesis by simp
qed

section \<open>Bytes\<close>

type_synonym byte = "8 word"

text \<open>A buffer is a function from indices to bytes; its size travels beside it.\<close>

type_synonym buffer = "nat \<Rightarrow> byte"

definition memset :: "buffer \<Rightarrow> nat \<Rightarrow> byte \<Rightarrow> nat \<Rightarrow> buffer" where
  "memset b off c n = (\<lambda>i. if off \<le> i \<and> i < off + n then c else b i)"

definition blit :: "buffer \<Rightarrow> nat \<Rightarrow> buffer \<Rightarrow> nat \<Rightarrow> nat \<Rightarrow> buffer" where
  \<comment> \<open>\<open>memcpy(dst + d, src + s, n)\<close> for areas that do not overlap\<close>
  "blit dst d src s n = (\<lambda>i. if d \<le> i \<and> i < d + n then src (s + (i - d)) else dst i)"

lemma memset_at [simp]: "memset b off c n i = (if off \<le> i \<and> i < off + n then c else b i)"
  by (simp add: memset_def)

lemma blit_at [simp]: "blit dst d src s n i = (if d \<le> i \<and> i < d + n then src (s + (i - d)) else dst i)"
  by (simp add: blit_def)

lemma memset_0 [simp]: "memset b off c 0 = b"
  by (auto simp: memset_def fun_eq_iff)

lemma blit_0 [simp]: "blit dst d src s 0 = dst"
  by (auto simp: blit_def fun_eq_iff)

end
