(* ===== verification/Posix.thy ===== *)
theory Posix
  imports Prelude
begin

text \<open>
  The part of the C library and of POSIX that the test programs use: a directory, files
  (inodes) as byte functions with a size, the table of file descriptors, the calls \<open>open\<close>,
  \<open>close\<close>, \<open>read\<close>, \<open>write\<close>, \<open>pread\<close>, \<open>pwrite\<close>, \<open>lseek\<close>, \<open>ftruncate\<close>, \<open>unlink\<close>,
  and what the programs print about errors.  Memory mappings are in \<open>Mapping_Io\<close>.  Nothing here
  models code of the repository; the theories of the programs are written on top of it.

  Permissions, directories other than a flat name space and I/O errors other than a full
  file system are not modelled.  Parameters of the environment are fields of the state:
  \<open>w_fmax\<close> bounds the size of a file (a write past it is short, then fails), \<open>w_mem\<close> is the
  largest block \<open>posix_memalign\<close> still returns, \<open>w_junk\<close> is what fresh memory holds, \<open>w_dio\<close>
  is the alignment the file system asks of \<open>O_DIRECT\<close> transfers (1 where it asks none).
\<close>

section \<open>The state\<close>

record inode =
  i_data :: buffer
  i_size :: nat

record ofile =
  o_ino :: nat
  o_off :: nat
  o_rd :: bool
  o_wr :: bool
  o_app :: bool
  o_dio :: bool

datatype event =
    Err_Size int int          \<comment> \<open>requested and returned size differ\<close>
  | Err_Char byte byte byte   \<comment> \<open>expected byte, first and last byte read\<close>
  | Err_Plain                 \<comment> \<open>"ERROR" without detail\<close>
  | Usage                     \<comment> \<open>the usage line\<close>
  | Bad_Unit                  \<comment> \<open>"FILE_SIZE should be #K/M/G format"\<close>
  | No_Mem                    \<comment> \<open>"POSIX NOMEM"\<close>
  | Report int int            \<comment> \<open>a result line: request size and number of requests\<close>

record world =
  w_dir :: "string \<Rightarrow> nat option"
  w_ino :: "nat \<Rightarrow> inode"
  w_next :: nat
  w_fds :: "ofile option list"
  w_fmax :: nat
  w_mem :: int
  w_junk :: buffer
  w_dio :: nat
  w_log :: "event list"

type_synonym 'a wprog = "(world, 'a) prog"

definition say :: "event \<Rightarrow> unit wprog" where
  "say e = update (\<lambda>w. w\<lparr>w_log := w_log w @ [e]\<rparr>)"

section \<open>Descriptors\<close>

text \<open>\<open>open\<close> returns the lowest free descriptor.\<close>

fun put_fd :: "ofile \<Rightarrow> ofile option list \<Rightarrow> nat \<times> ofile option list" where
  "put_fd f [] = (0, [Some f])"
| "put_fd f (None # t) = (0, Some f # t)"
| "put_fd f (Some x # t) = (let (n, t') = put_fd f t in (Suc n, Some x # t'))"

definition get_fd :: "world \<Rightarrow> int \<Rightarrow> ofile option" where
  "get_fd w fd = (if 0 \<le> fd \<and> nat fd < length (w_fds w) then w_fds w ! nat fd else None)"

definition set_fd :: "int \<Rightarrow> ofile option \<Rightarrow> world \<Rightarrow> world" where
  "set_fd fd f w = w\<lparr>w_fds := (w_fds w)[nat fd := f]\<rparr>"

definition set_ino :: "nat \<Rightarrow> inode \<Rightarrow> world \<Rightarrow> world" where
  "set_ino n i w = w\<lparr>w_ino := (w_ino w)(n := i)\<rparr>"

datatype oflag = O_RDONLY | O_WRONLY | O_RDWR | O_CREAT | O_EXCL | O_TRUNC | O_APPEND | O_DIRECT

definition flags_ofile :: "oflag list \<Rightarrow> nat \<Rightarrow> ofile" where
  "flags_ofile fl n =
     \<lparr>o_ino = n, o_off = 0,
      o_rd = (O_WRONLY \<notin> set fl), o_wr = (O_WRONLY \<in> set fl \<or> O_RDWR \<in> set fl),
      o_app = (O_APPEND \<in> set fl), o_dio = (O_DIRECT \<in> set fl)\<rparr>"

definition empty_inode :: inode where
  "empty_inode = \<lparr>i_data = (\<lambda>_. 0), i_size = 0\<rparr>"

definition install :: "oflag list \<Rightarrow> nat \<Rightarrow> world \<Rightarrow> int \<times> world" where
  "install fl n w =
     (let (fd, t) = put_fd (flags_ofile fl n) (w_fds w) in (int fd, w\<lparr>w_fds := t\<rparr>))"

definition sys_open :: "string \<Rightarrow> oflag list \<Rightarrow> world \<Rightarrow> int \<times> world" where
  "sys_open path fl w =
     (if path = [] then (-1, w) else case w_dir w path of
        Some n \<Rightarrow>
          if O_CREAT \<in> set fl \<and> O_EXCL \<in> set fl then (-1, w)
          else install fl n (if O_TRUNC \<in> set fl then set_ino n empty_inode w else w)
      | None \<Rightarrow>
          if O_CREAT \<in> set fl
          then install fl (w_next w)
                 (set_ino (w_next w) empty_inode
                    (w\<lparr>w_dir := (w_dir w)(path := Some (w_next w)), w_next := Suc (w_next w)\<rparr>))
          else (-1, w))"

text \<open>\<open>fopen(path, "a")\<close>, with \<open>-1\<close> for the null pointer, and \<open>fclose\<close>, which crashes on it.\<close>

definition c_fopen_a :: "string \<Rightarrow> world \<Rightarrow> int \<times> world" where
  "c_fopen_a path = sys_open path [O_CREAT, O_WRONLY, O_APPEND]"

definition sys_close :: "int \<Rightarrow> world \<Rightarrow> int \<times> world" where
  "sys_close fd w = (case get_fd w fd of None \<Rightarrow> (-1, w) | Some _ \<Rightarrow> (0, set_fd fd None w))"

definition c_fclose :: "int \<Rightarrow> int wprog" where
  "c_fclose f = (if f < 0 then trap Null_Deref else call (sys_close f))"

definition sys_unlink :: "string \<Rightarrow> world \<Rightarrow> int \<times> world" where
  "sys_unlink path w =
     (case w_dir w path of None \<Rightarrow> (-1, w) | Some _ \<Rightarrow> (0, w\<lparr>w_dir := (w_dir w)(path := None)\<rparr>))"

section \<open>Reading and writing files\<close>

text \<open>Storing \<open>n\<close> bytes at \<open>off\<close>; a gap after the old end is filled with zeros.\<close>

definition ino_put :: "inode \<Rightarrow> nat \<Rightarrow> buffer \<Rightarrow> nat \<Rightarrow> inode" where
  "ino_put f off src n =
     (if n = 0 then f
      else \<lparr>i_data = (\<lambda>i. if off \<le> i \<and> i < off + n then src (i - off)
                          else if i < i_size f then i_data f i
                          else if i < off then 0 else i_data f i),
            i_size = max (i_size f) (off + n)\<rparr>)"

text \<open>How much of a transfer the file system takes: \<open>-1\<close> if nothing of a non-empty one.\<close>

definition room :: "nat \<Rightarrow> nat \<Rightarrow> nat \<Rightarrow> int" where
  "room fmax off n = (if 0 < n \<and> fmax \<le> off then -1 else int (min n (fmax - off)))"

definition dio_ok :: "world \<Rightarrow> ofile \<Rightarrow> nat \<Rightarrow> nat \<Rightarrow> bool" where
  "dio_ok w f off n \<longleftrightarrow> (o_dio f \<longrightarrow> off mod w_dio w = 0 \<and> n mod w_dio w = 0)"

definition write_at :: "ofile \<Rightarrow> nat \<Rightarrow> buffer \<Rightarrow> nat \<Rightarrow> world \<Rightarrow> int \<times> world" where
  "write_at f off src n w =
     (if \<not> o_wr f \<or> \<not> dio_ok w f off n then (-1, w)
      else let m = room (w_fmax w) off n
           in (m, set_ino (o_ino f) (ino_put (w_ino w (o_ino f)) off src (nat m)) w))"

definition sys_pwrite :: "int \<Rightarrow> buffer \<Rightarrow> nat \<Rightarrow> int \<Rightarrow> world \<Rightarrow> int \<times> world" where
  "sys_pwrite fd src n off w =
     (case get_fd w fd of None \<Rightarrow> (-1, w)
      | Some f \<Rightarrow> if off < 0 then (-1, w) else write_at f (nat off) src n w)"

definition sys_write :: "int \<Rightarrow> buffer \<Rightarrow> nat \<Rightarrow> world \<Rightarrow> int \<times> world" where
  "sys_write fd src n w =
     (case get_fd w fd of None \<Rightarrow> (-1, w)
      | Some f \<Rightarrow>
          let off = (if o_app f then i_size (w_ino w (o_ino f)) else o_off f);
              (m, w') = write_at f off src n w
          in (m, if m < 0 then w' else set_fd fd (Some (f\<lparr>o_off := off + nat m\<rparr>)) w'))"

definition avail :: "inode \<Rightarrow> nat \<Rightarrow> nat \<Rightarrow> nat" where
  "avail i off n = min n (i_size i - off)"

definition read_at :: "ofile \<Rightarrow> nat \<Rightarrow> buffer \<Rightarrow> nat \<Rightarrow> world \<Rightarrow> int \<times> buffer" where
  "read_at f off dst n w =
     (if \<not> o_rd f \<or> \<not> dio_ok w f off n then (-1, dst)
      else let i = w_ino w (o_ino f); m = avail i off n in (int m, blit dst 0 (i_data i) off m))"

definition sys_pread :: "int \<Rightarrow> buffer \<Rightarrow> nat \<Rightarrow> int \<Rightarrow> world \<Rightarrow> (int \<times> buffer) \<times> world" where
  "sys_pread fd dst n off w =
     (case get_fd w fd of None \<Rightarrow> ((-1, dst), w)
      | Some f \<Rightarrow> (if off < 0 then (-1, dst) else read_at f (nat off) dst n w, w))"

definition sys_read :: "int \<Rightarrow> buffer \<Rightarrow> nat \<Rightarrow> world \<Rightarrow> (int \<times> buffer) \<times> world" where
  "sys_read fd dst n w =
     (case get_fd w fd of None \<Rightarrow> ((-1, dst), w)
      | Some f \<Rightarrow>
          let (m, b) = read_at f (o_off f) dst n w
          in ((m, b), if m < 0 then w else set_fd fd (Some (f\<lparr>o_off := o_off f + nat m\<rparr>)) w))"

text \<open>\<open>lseek(fd, off, SEEK_SET)\<close>\<close>

definition sys_lseek :: "int \<Rightarrow> int \<Rightarrow> world \<Rightarrow> int \<times> world" where
  "sys_lseek fd off w =
     (case get_fd w fd of None \<Rightarrow> (-1, w)
      | Some f \<Rightarrow> if off < 0 then (-1, w) else (off, set_fd fd (Some (f\<lparr>o_off := nat off\<rparr>)) w))"

definition sys_ftruncate :: "int \<Rightarrow> int \<Rightarrow> world \<Rightarrow> int \<times> world" where
  "sys_ftruncate fd len w =
     (case get_fd w fd of None \<Rightarrow> (-1, w)
      | Some f \<Rightarrow>
          if len < 0 \<or> \<not> o_wr f \<or> int (w_fmax w) < len then (-1, w)
          else let i = w_ino w (o_ino f)
               in (0, set_ino (o_ino f)
                        (i\<lparr>i_data := (\<lambda>k. if k < min (i_size i) (nat len) then i_data i k else 0),
                           i_size := nat len\<rparr>) w))"

text \<open>\<open>fsync\<close> only reports whether the descriptor is open.\<close>

definition sys_fsync :: "int \<Rightarrow> world \<Rightarrow> int \<times> world" where
  "sys_fsync fd w = ((if get_fd w fd = None then -1 else 0), w)"

text \<open>\<open>posix_memalign\<close>: the block, or nothing.\<close>

definition sys_memalign :: "int \<Rightarrow> world \<Rightarrow> buffer option \<times> world" where
  "sys_memalign n w = ((if n \<le> w_mem w then Some (w_junk w) else None), w)"

text \<open>Inode numbers in use are below the next one to be given out.\<close>

definition wf_world :: "world \<Rightarrow> bool" where
  "wf_world w \<longleftrightarrow> (\<forall>p n. w_dir w p = Some n \<longrightarrow> n < w_next w)"

text \<open>An empty file system, for concrete runs.\<close>

definition fresh_world :: world where
  "fresh_world = \<lparr>w_dir = (\<lambda>_. None), w_ino = (\<lambda>_. empty_inode), w_next = 0, w_fds = [],
     w_fmax = 2147483648, w_mem = 67108864, w_junk = (\<lambda>_. 0), w_dio = 1, w_log = []\<rparr>"

lemma fresh_world_sel [simp]:
  "w_dir fresh_world p = None" "w_next fresh_world = 0" "w_fds fresh_world = []"
  "w_fmax fresh_world = 2147483648" "w_mem fresh_world = 67108864" "w_dio fresh_world = 1"
  "w_log fresh_world = []" "w_junk fresh_world = (\<lambda>_. 0)" "w_ino fresh_world n = empty_inode"
  by (simp_all add: fresh_world_def)

lemma wf_fresh_world [simp]: "wf_world fresh_world"
  by (simp add: wf_world_def)

section \<open>Facts about the calls\<close>

lemma set_ino_sel [simp]:
  "w_fds (set_ino n i w) = w_fds w" "w_ino (set_ino n i w) = (w_ino w)(n := i)"
  "w_fmax (set_ino n i w) = w_fmax w" "w_mem (set_ino n i w) = w_mem w"
  "w_dir (set_ino n i w) = w_dir w" "w_log (set_ino n i w) = w_log w"
  "w_junk (set_ino n i w) = w_junk w" "w_dio (set_ino n i w) = w_dio w"
  "w_next (set_ino n i w) = w_next w"
  by (simp_all add: set_ino_def)

lemma set_fd_sel [simp]:
  "w_ino (set_fd fd f w) = w_ino w" "w_fmax (set_fd fd f w) = w_fmax w"
  "w_mem (set_fd fd f w) = w_mem w" "w_dir (set_fd fd f w) = w_dir w"
  "w_log (set_fd fd f w) = w_log w" "w_junk (set_fd fd f w) = w_junk w"
  "w_dio (set_fd fd f w) = w_dio w" "w_next (set_fd fd f w) = w_next w"
  "length (w_fds (set_fd fd f w)) = length (w_fds w)"
  by (simp_all add: set_fd_def)

lemma get_fd_cong: "w_fds w' = w_fds w \<Longrightarrow> get_fd w' fd = get_fd w fd"
  by (simp add: get_fd_def)

lemma get_fd_set_ino [simp]: "get_fd (set_ino n i w) fd = get_fd w fd"
  by (rule get_fd_cong) simp

lemma get_fd_log [simp]: "get_fd (w\<lparr>w_log := l\<rparr>) fd = get_fd w fd"
  by (rule get_fd_cong) simp

lemma get_fd_set_fd:
  "get_fd w fd \<noteq> None \<Longrightarrow> get_fd (set_fd fd f w) fd' = (if fd' = fd then f else get_fd w fd')"
  by (auto simp: get_fd_def set_fd_def nth_list_update split: if_splits)

lemma put_fd_spec:
  assumes "put_fd f t = (n, t')"
  shows "n < length t' \<and> t' ! n = Some f \<and> (n < length t \<longrightarrow> t ! n = None)
    \<and> length t \<le> length t' \<and> (\<forall>k < length t. k \<noteq> n \<longrightarrow> t' ! k = t ! k)
    \<and> length t' \<le> Suc (max n (length t))"
  using assms
proof (induction f t arbitrary: n t' rule: put_fd.induct)
  case (3 f x t)
  obtain m s where ms: "put_fd f t = (m, s)" by (cases "put_fd f t") simp
  with 3 have n: "n = Suc m" "t' = Some x # s" by auto
  show ?case unfolding n using "3.IH" [OF ms] by (auto simp: nth_Cons split: nat.splits)
qed (auto simp: nth_Cons split: nat.splits)

text \<open>Opening: the new descriptor is there, the others are as they were.\<close>

lemma install_spec:
  assumes "install fl n w = (fd, w')"
  shows "get_fd w' fd = Some (flags_ofile fl n)"
    and "0 \<le> fd" and "get_fd w fd = None"
    and "get_fd w fd' \<noteq> None \<Longrightarrow> get_fd w' fd' = get_fd w fd'"
    and "w_ino w' = w_ino w" "w_dir w' = w_dir w" "w_fmax w' = w_fmax w" "w_mem w' = w_mem w"
    and "w_log w' = w_log w" "w_junk w' = w_junk w" "w_dio w' = w_dio w" "w_next w' = w_next w"
proof -
  obtain k t where kt: "put_fd (flags_ofile fl n) (w_fds w) = (k, t)"
    by (cases "put_fd (flags_ofile fl n) (w_fds w)") simp
  with assms have fd: "fd = int k" "w' = w\<lparr>w_fds := t\<rparr>" by (auto simp: install_def)
  note spec = put_fd_spec [OF kt]
  show "get_fd w' fd = Some (flags_ofile fl n)" "0 \<le> fd"
    using spec by (auto simp: fd get_fd_def)
  show "w_ino w' = w_ino w" "w_dir w' = w_dir w" "w_fmax w' = w_fmax w" "w_mem w' = w_mem w"
    "w_log w' = w_log w" "w_junk w' = w_junk w" "w_dio w' = w_dio w" "w_next w' = w_next w"
    by (simp_all add: fd)
  show free: "get_fd w fd = None" using spec by (auto simp: fd get_fd_def)
  show "get_fd w' fd' = get_fd w fd'" if "get_fd w fd' \<noteq> None"
  proof -
    have "fd' \<noteq> fd" using that free by auto
    with that spec show ?thesis by (auto simp: fd get_fd_def split: if_splits)
  qed
qed

text \<open>Opening with \<open>O_CREAT\<close> and without \<open>O_EXCL\<close> and \<open>O_TRUNC\<close> always succeeds.\<close>

lemma sys_open_creat:
  assumes "sys_open path fl w = (fd, w')" and "path \<noteq> []"
    and "O_CREAT \<in> set fl" "O_EXCL \<notin> set fl" "O_TRUNC \<notin> set fl"
  obtains n where "w_dir w' path = Some n" and "get_fd w' fd = Some (flags_ofile fl n)"
    and "0 \<le> fd" and "w_log w' = w_log w" and "w_mem w' = w_mem w" and "w_fmax w' = w_fmax w"
    and "w_dio w' = w_dio w" and "w_junk w' = w_junk w"
    and "\<And>p m. w_dir w p = Some m \<Longrightarrow> w_dir w' p = Some m"
    and "\<And>m. m \<noteq> w_next w \<Longrightarrow> w_ino w' m = w_ino w m"
    and "w_dir w path = Some n \<Longrightarrow> w_ino w' = w_ino w"
    and "w_dir w path = None \<Longrightarrow> n = w_next w \<and> w_ino w' n = empty_inode"
    and "\<And>fd'. get_fd w fd' \<noteq> None \<Longrightarrow> get_fd w' fd' = get_fd w fd'"
    and "wf_world w \<longrightarrow> wf_world w'"
proof (cases "w_dir w path")
  case (Some n)
  with assms have i: "install fl n w = (fd, w')" by (simp add: sys_open_def)
  show ?thesis
    using Some install_spec [OF i]
    by (intro that [of n]) (simp_all add: wf_world_def)
next
  case None
  define w1 where "w1 = set_ino (w_next w) empty_inode
    (w\<lparr>w_dir := (w_dir w)(path := Some (w_next w)), w_next := Suc (w_next w)\<rparr>)"
  have i: "install fl (w_next w) w1 = (fd, w')"
    using assms None by (simp add: sys_open_def w1_def)
  have g: "get_fd w1 fd' = get_fd w fd'" for fd'
    unfolding w1_def by (simp add: get_fd_def)
  show ?thesis
    using None install_spec [OF i] g
    by (intro that [of "w_next w"]) (auto simp: w1_def wf_world_def less_Suc_eq)
qed

text \<open>What a program sees of a file it writes in sequence: the descriptor and the inode.\<close>

lemma sys_write_plain:
  assumes "get_fd w fd = Some f" and "o_wr f" and "\<not> o_app f" and "\<not> o_dio f"
    and "o_off f + n \<le> w_fmax w" and "0 < n"
  shows "sys_write fd src n w =
    (int n, set_fd fd (Some (f\<lparr>o_off := o_off f + n\<rparr>))
              (set_ino (o_ino f) (ino_put (w_ino w (o_ino f)) (o_off f) src n) w))"
  using assms by (simp add: sys_write_def write_at_def dio_ok_def room_def Let_def)

lemma sys_read_plain:
  assumes "get_fd w fd = Some f" and "o_rd f" and "\<not> o_dio f"
    and "o_off f + n \<le> i_size (w_ino w (o_ino f))"
  shows "sys_read fd dst n w =
    ((int n, blit dst 0 (i_data (w_ino w (o_ino f))) (o_off f) n),
     set_fd fd (Some (f\<lparr>o_off := o_off f + n\<rparr>)) w)"
  using assms by (simp add: sys_read_def read_at_def dio_ok_def avail_def Let_def min_def)

lemma ino_put_size: "0 < n \<Longrightarrow> i_size (ino_put f off src n) = max (i_size f) (off + n)"
  by (simp add: ino_put_def)

lemma ino_put_data:
  "k < i_size (ino_put f off src n) \<Longrightarrow> i_data (ino_put f off src n) k =
     (if off \<le> k \<and> k < off + n then src (k - off) else if k < i_size f then i_data f k else 0)"
  by (auto simp: ino_put_def split: if_splits)

text \<open>What no transfer changes.\<close>

lemma sys_write_frame [simp]:
  "w_log (snd (sys_write fd b n w)) = w_log w" "w_dir (snd (sys_write fd b n w)) = w_dir w"
  "w_mem (snd (sys_write fd b n w)) = w_mem w" "w_fmax (snd (sys_write fd b n w)) = w_fmax w"
  "w_dio (snd (sys_write fd b n w)) = w_dio w" "w_junk (snd (sys_write fd b n w)) = w_junk w"
  "w_next (snd (sys_write fd b n w)) = w_next w"
  by (simp_all add: sys_write_def write_at_def Let_def split: option.splits)

lemma sys_read_frame [simp]:
  "w_log (snd (sys_read fd b n w)) = w_log w" "w_dir (snd (sys_read fd b n w)) = w_dir w"
  "w_mem (snd (sys_read fd b n w)) = w_mem w" "w_fmax (snd (sys_read fd b n w)) = w_fmax w"
  "w_dio (snd (sys_read fd b n w)) = w_dio w" "w_junk (snd (sys_read fd b n w)) = w_junk w"
  "w_next (snd (sys_read fd b n w)) = w_next w"
  "w_ino (snd (sys_read fd b n w)) = w_ino w"
  by (simp_all add: sys_read_def Let_def split: option.splits prod.splits)

lemma sys_close_frame [simp]:
  "w_log (snd (sys_close fd w)) = w_log w" "w_dir (snd (sys_close fd w)) = w_dir w"
  "w_mem (snd (sys_close fd w)) = w_mem w" "w_fmax (snd (sys_close fd w)) = w_fmax w"
  "w_ino (snd (sys_close fd w)) = w_ino w"
  "w_next (snd (sys_close fd w)) = w_next w" "w_junk (snd (sys_close fd w)) = w_junk w"
  "w_dio (snd (sys_close fd w)) = w_dio w"
  by (simp_all add: sys_close_def split: option.splits)

lemma sys_lseek_frame [simp]:
  "w_log (snd (sys_lseek fd off w)) = w_log w" "w_dir (snd (sys_lseek fd off w)) = w_dir w"
  "w_mem (snd (sys_lseek fd off w)) = w_mem w" "w_fmax (snd (sys_lseek fd off w)) = w_fmax w"
  "w_ino (snd (sys_lseek fd off w)) = w_ino w"
  "w_next (snd (sys_lseek fd off w)) = w_next w" "w_junk (snd (sys_lseek fd off w)) = w_junk w"
  "w_dio (snd (sys_lseek fd off w)) = w_dio w"
  by (simp_all add: sys_lseek_def split: option.splits)

lemma sys_memalign_eq [simp]:
  "sys_memalign n w = ((if n \<le> w_mem w then Some (w_junk w) else None), w)"
  by (simp add: sys_memalign_def)

text \<open>A transfer that does not fit is short.\<close>

lemma sys_write_short:
  assumes "get_fd w fd = Some f" and "\<not> o_app f" and "w_fmax w < o_off f + n" and "0 < n"
  shows "fst (sys_write fd src n w) < int n"
  using assms by (auto simp: sys_write_def write_at_def room_def Let_def)

lemma sys_write_ge: "- 1 \<le> fst (sys_write fd src n w)"
  by (auto simp: sys_write_def write_at_def room_def Let_def split: option.splits)

lemma sys_read_short:
  assumes "get_fd w fd = Some f" and "i_size (w_ino w (o_ino f)) < o_off f + n" and "0 < n"
  shows "fst (fst (sys_read fd dst n w)) < int n"
  using assms by (auto simp: sys_read_def read_at_def avail_def Let_def)

lemma sys_read_ge: "- 1 \<le> fst (fst (sys_read fd dst n w))"
  by (auto simp: sys_read_def read_at_def Let_def split: option.splits)

section \<open>Files written in equal chunks\<close>

text \<open>
  The contract that the sequential write tests rely on: a store that reads back what was put
  into a range and leaves the bytes before it alone.  Written chunk by chunk, the first \<open>k\<close>
  chunks hold what was put there.
\<close>

locale chunk_store =
  fixes put :: "'f \<Rightarrow> nat \<Rightarrow> buffer \<Rightarrow> nat \<Rightarrow> 'f"
    and get :: "'f \<Rightarrow> nat \<Rightarrow> byte"
    and size_of :: "'f \<Rightarrow> nat"
  assumes size_put: "0 < n \<Longrightarrow> size_of (put f off src n) = max (size_of f) (off + n)"
    and get_put: "0 < n \<Longrightarrow> off \<le> size_of f \<Longrightarrow> k < max (size_of f) (off + n) \<Longrightarrow>
      get (put f off src n) k = (if off \<le> k \<and> k < off + n then src (k - off) else get f k)"
begin

definition holds_chunks :: "'f \<Rightarrow> nat \<Rightarrow> (nat \<Rightarrow> byte) \<Rightarrow> nat \<Rightarrow> bool" where
  "holds_chunks f s pat k \<longleftrightarrow>
     k * s \<le> size_of f \<and> (\<forall>j < k * s. get f j = pat (j div s))"

lemma holds_chunks_0: "holds_chunks f s pat 0"
  by (simp add: holds_chunks_def)

lemma holds_chunks_Suc:
  assumes "0 < s" and "holds_chunks f s pat k" and "\<And>j. j < s \<Longrightarrow> src j = pat k"
  shows "holds_chunks (put f (k * s) src s) s pat (Suc k)"
proof -
  have le: "k * s \<le> size_of f" using assms(2) by (simp add: holds_chunks_def)
  have "get (put f (k * s) src s) j = pat (j div s)" if j: "j < Suc k * s" for j
  proof (cases "k * s \<le> j")
    case True
    then have "j div s = k" using j assms(1) by (intro div_nat_eqI) (simp_all add: mult.commute)
    moreover have "j - k * s < s" using True j by simp
    ultimately show ?thesis
      using True j le assms(1,3) by (simp add: get_put add.commute)
  next
    case False
    then show ?thesis
      using le assms(1,2) by (simp add: get_put holds_chunks_def)
  qed
  then show ?thesis using assms(1) by (simp add: holds_chunks_def size_put add.commute)
qed

lemma holds_chunks_byte:
  assumes "holds_chunks f s pat k" and "c < k" and "j < s"
  shows "get f (c * s + j) = pat c" and "c * s + s \<le> size_of f"
proof -
  have "(c + 1) * s \<le> k * s" using assms(2) by (intro mult_le_mono1) simp
  then have le: "c * s + s \<le> k * s" by simp
  have "(c * s + j) div s = c" using assms(3) by simp
  with le assms(1,3) show "get f (c * s + j) = pat c" by (simp add: holds_chunks_def)
  from le assms(1) show "c * s + s \<le> size_of f" by (simp add: holds_chunks_def)
qed

end

interpretation inode: chunk_store ino_put "\<lambda>f. i_data f" i_size
  by unfold_locales (simp_all add: ino_put_def)

end
