(* ===== verification/Size_Arg.thy ===== *)
theory Size_Arg
  imports Posix
begin

text \<open>
  The command-line arguments that almost every test program reads the same way: the file size
  with its unit letter, copied into a 20-byte array, and the request size.  \<open>size_arg\<close> is the
  block from the \<open>strcpy\<close> to the end of the \<open>switch\<close>, \<open>clamp_size\<close> the two comparisons after
  it, \<open>req_arg\<close> the request size and its comparison with \<open>END_SIZE\<close>, which is an
  \<open>unsigned long\<close>.  \<open>atoll\<close> and \<open>atoi\<close> are those of glibc: \<open>strtoll\<close> saturates and \<open>atoi\<close>
  keeps the low 32 bits.
\<close>

section \<open>Numbers in arguments\<close>

definition char_code :: "char \<Rightarrow> int" where
  "char_code c = of_char c"

definition is_space :: "char \<Rightarrow> bool" where
  "is_space c \<longleftrightarrow> char_code c = 32 \<or> (9 \<le> char_code c \<and> char_code c \<le> 13)"

definition is_digit :: "char \<Rightarrow> bool" where
  "is_digit c \<longleftrightarrow> 48 \<le> char_code c \<and> char_code c \<le> 57"

fun digits_value :: "int \<Rightarrow> string \<Rightarrow> int" where
  "digits_value acc [] = acc"
| "digits_value acc (c # cs) =
     (if is_digit c then digits_value (10 * acc + (char_code c - 48)) cs else acc)"

definition saturate64 :: "int \<Rightarrow> int" where
  "saturate64 v = max (- (2 ^ 63)) (min v (2 ^ 63 - 1))"

definition atoll :: "string \<Rightarrow> int" where
  "atoll s = saturate64
     (case dropWhile is_space s of
        [] \<Rightarrow> 0
      | c # cs \<Rightarrow> if c = CHR ''-'' then - digits_value 0 cs
                  else if c = CHR ''+'' then digits_value 0 cs
                  else digits_value 0 (c # cs))"

definition atoi :: "string \<Rightarrow> int" where
  "atoi s = s32 (atoll s)"

section \<open>The file size and the request size\<close>

definition c_strcpy :: "nat \<Rightarrow> string \<Rightarrow> trap + string" where
  \<comment> \<open>copying into an array of \<open>cap\<close> bytes, the final zero byte included\<close>
  "c_strcpy cap s = (if length s < cap then Inr s else Inl Buffer_Overflow)"

definition unit_factor :: "char \<Rightarrow> int option" where
  "unit_factor u =
     (if u = CHR ''K'' \<or> u = CHR ''k'' then Some 1024
      else if u = CHR ''M'' \<or> u = CHR ''m'' then Some 1048576
      else if u = CHR ''G'' \<or> u = CHR ''g'' then Some 1073741824
      else None)"

definition size_arg :: "string \<Rightarrow> trap + int option" where
  "size_arg s =
     (case c_strcpy 20 s of
        Inl t \<Rightarrow> Inl t
      | Inr b \<Rightarrow>
          if b = [] then Inl Out_Of_Bounds
          else Inr (map_option (\<lambda>k. u64 (u64 (atoll (butlast b)) * k)) (unit_factor (last b))))"

definition clamp_size :: "int \<Rightarrow> int \<Rightarrow> int" where
  "clamp_size lo fs =
     (let a = (if fs < lo then lo else fs) in if a > 2147483648 then 2147483648 else a)"

definition req_arg :: "int \<Rightarrow> string \<Rightarrow> int" where
  "req_arg end_size s = (let r = atoi s in if u64 r > end_size then end_size else r)"

section \<open>Bounds\<close>

lemma saturate64_bounds: "- (2 ^ 63) \<le> saturate64 v \<and> saturate64 v \<le> 2 ^ 63 - 1"
  by (simp add: saturate64_def)

lemma saturate64_id: "- (2 ^ 63) \<le> v \<Longrightarrow> v < 2 ^ 63 \<Longrightarrow> saturate64 v = v"
  by (simp add: saturate64_def)

lemma atoll_bounds: "- (2 ^ 63) \<le> atoll s \<and> atoll s \<le> 2 ^ 63 - 1"
  unfolding atoll_def by (rule saturate64_bounds)

lemma atoi_bounds: "- (2 ^ 31) \<le> atoi s" "atoi s < 2 ^ 31"
  by (simp_all only: atoi_def s32_bounds)

lemma size_arg_range: "size_arg s = Inr (Some n) \<Longrightarrow> 0 \<le> n \<and> n < 2 ^ 64"
  unfolding size_arg_def using u64_nonneg u64_less by (fastforce split: sum.splits if_splits)

lemma clamp_size_range:
  "lo \<le> 2147483648 \<Longrightarrow> lo \<le> clamp_size lo fs \<and> clamp_size lo fs \<le> 2147483648"
  by (simp add: clamp_size_def Let_def)

lemma clamp_size_id: "lo \<le> fs \<Longrightarrow> fs \<le> 2147483648 \<Longrightarrow> clamp_size lo fs = fs"
  by (simp add: clamp_size_def)

lemma req_arg_range:
  assumes "0 \<le> end_size" "end_size < 2 ^ 31"
  shows "0 \<le> req_arg end_size s \<and> req_arg end_size s \<le> end_size"
proof (cases "0 \<le> atoi s")
  case True
  then have "u64 (atoi s) = atoi s"
    using atoi_bounds [of s] by (intro u64_id) simp_all
  with True assms show ?thesis by (simp add: req_arg_def Let_def)
next
  case False
  then have "u64 (atoi s) = atoi s + 2 ^ 64"
    using atoi_bounds [of s] by (intro u64_neg) simp_all
  with False assms atoi_bounds [of s] show ?thesis by (simp add: req_arg_def Let_def)
qed

section \<open>Decimal numbers as arguments\<close>

text \<open>The decimal notation of a number, as a user writes it on the command line.\<close>

fun decimal :: "nat \<Rightarrow> string" where
  "decimal n = (if n < 10 then [char_of (48 + n)]
                else decimal (n div 10) @ [char_of (48 + n mod 10)])"

declare decimal.simps [simp del]

lemma char_code_digit: "d < 10 \<Longrightarrow> char_code (char_of (48 + d :: nat)) = 48 + int d"
proof -
  assume "d < 10"
  then have "of_char (char_of (48 + d :: nat)) = 48 + d" by simp
  then have "int (of_char (char_of (48 + d :: nat))) = int (48 + d)" by simp
  then show ?thesis by (simp only: char_code_def of_nat_of_char)
qed

lemma digit_is_digit [simp]: "d < 10 \<Longrightarrow> is_digit (char_of (48 + d :: nat))"
  by (simp add: is_digit_def char_code_digit)

lemma digits_value_append:
  "list_all is_digit xs \<Longrightarrow> digits_value acc (xs @ ys) = digits_value (digits_value acc xs) ys"
  by (induction xs arbitrary: acc) simp_all

lemma decimal_digits: "list_all is_digit (decimal n)"
proof (induction n rule: decimal.induct)
  case (1 n)
  then show ?case by (subst decimal.simps) simp
qed

lemma decimal_not_Nil [simp]: "decimal n \<noteq> []"
  by (subst decimal.simps) simp

lemma digits_value_decimal: "digits_value 0 (decimal n) = int n"
proof (induction n rule: decimal.induct)
  case (1 n)
  show ?case
  proof (cases "n < 10")
    case True
    then show ?thesis by (subst decimal.simps) (simp add: char_code_digit)
  next
    case False
    with 1 have "digits_value 0 (decimal (n div 10)) = int (n div 10)" by simp
    with False show ?thesis
      by (subst decimal.simps)
        (simp add: digits_value_append decimal_digits char_code_digit zdiv_int zmod_int)
  qed
qed

lemma digit_not_sign: "is_digit c \<Longrightarrow> \<not> is_space c \<and> c \<noteq> CHR ''-'' \<and> c \<noteq> CHR ''+''"
  by (auto simp: is_digit_def is_space_def char_code_def)

lemma atoll_decimal: "int n < 2 ^ 63 \<Longrightarrow> atoll (decimal n) = int n"
proof -
  assume n: "int n < 2 ^ 63"
  obtain c cs where d: "decimal n = c # cs"
    using decimal_not_Nil [of n] by (cases "decimal n") auto
  have "is_digit c" using decimal_digits [of n] d by simp
  then have "\<not> is_space c \<and> c \<noteq> CHR ''-'' \<and> c \<noteq> CHR ''+''" by (rule digit_not_sign)
  then have "atoll (decimal n) = saturate64 (digits_value 0 (decimal n))"
    by (simp add: atoll_def d del: digits_value.simps)
  with n show ?thesis by (simp add: digits_value_decimal saturate64_id)
qed

lemma size_arg_decimal:
  assumes "unit_factor u = Some k" and "length (decimal n) \<le> 18" and "int n < 2 ^ 63"
  shows "size_arg (decimal n @ [u]) = Inr (Some (u64 (int n * k)))"
  using assms by (simp add: size_arg_def c_strcpy_def atoll_decimal u64_id)

lemma atoi_decimal: "int n < 2 ^ 31 \<Longrightarrow> atoi (decimal n) = int n"
  by (simp add: atoi_def atoll_decimal s32_id)

lemma req_arg_decimal:
  "int n \<le> end_size \<Longrightarrow> end_size < 2 ^ 31 \<Longrightarrow> req_arg end_size (decimal n) = int n"
  by (simp add: req_arg_def atoi_decimal Let_def u64_id)

lemma decimal_inj: "decimal a = decimal b \<Longrightarrow> a = b"
proof -
  assume "decimal a = decimal b"
  then have "digits_value 0 (decimal a) = digits_value 0 (decimal b)" by (rule arg_cong)
  then show ?thesis unfolding digits_value_decimal by (rule of_nat_eq_iff [THEN iffD1])
qed

end
