(* ===== verification/Holetest.thy ===== *)
theory Holetest
  imports Size_Arg
begin

text \<open>
  \<open>holetest.c\<close>: two threads or processes mark every page of a file with their identity, through
  a memory mapping or with \<open>pwrite\<close>, at the same time; afterwards every marker is checked.  The
  file is sized in three ways.  The interleaving of the stores is an argument of the model (a
  list of pairs of a marker and a page), the identities of the markers and the page size are
  others; the properties hold for all of them.  Creating threads and processes succeeds; the
  loop of \<open>prefault_mapping\<close> only reads and prints and is left out.

  A shared mapping is the file itself; a private one is an overlay of the bytes a process has
  written, one overlay per process (process 0 is the parent).
\<close>

section \<open>Options and markers\<close>

record hopts =
  stoponerror :: bool
  use_wr0 :: bool
  prefault :: bool
  use_fork :: bool
  use_private :: bool

definition page_offs :: "nat \<Rightarrow> nat \<Rightarrow> nat" where
  "page_offs ps t = (let step = ps div 2 in step div 2 + t * step)"

definition use_wr :: "hopts \<Rightarrow> nat \<Rightarrow> bool" where
  "use_wr opts t \<longleftrightarrow> t = 0 \<and> use_wr0 opts"

text \<open>The bytes of a \<open>uint64_t\<close> in memory.\<close>

definition byte_at :: "64 word \<Rightarrow> nat \<Rightarrow> byte" where
  "byte_at v k = ucast (drop_bit (8 * k) v)"

definition holds64 :: "buffer \<Rightarrow> nat \<Rightarrow> 64 word \<Rightarrow> bool" where
  "holds64 b off v \<longleftrightarrow> (\<forall>k < 8. b (off + k) = byte_at v k)"

record hmem =
  h_world :: world
  h_over :: "nat \<Rightarrow> nat \<Rightarrow> byte option"    \<comment> \<open>what a process wrote into its private mapping\<close>
  h_mmap :: bool                          \<comment> \<open>whether \<open>mmap\<close> succeeds\<close>

type_synonym 'a hprog = "(hmem, 'a) prog"

definition onw :: "(world \<Rightarrow> 'a \<times> world) \<Rightarrow> 'a hprog" where
  "onw f = call (\<lambda>h. (fst (f (h_world h)), h\<lparr>h_world := snd (f (h_world h))\<rparr>))"

text \<open>The process that runs marker \<open>t\<close>, and what a process sees through its mapping of a file.\<close>

definition proc :: "hopts \<Rightarrow> nat \<Rightarrow> nat" where
  "proc opts t = (if use_fork opts then Suc t else 0)"

definition view :: "hopts \<Rightarrow> nat \<Rightarrow> nat \<Rightarrow> hmem \<Rightarrow> buffer" where
  "view opts ino p h = (\<lambda>i. case (if use_private opts then h_over h p i else None) of
     Some b \<Rightarrow> b | None \<Rightarrow> i_data (w_ino (h_world h) ino) i)"

text \<open>A mapped page exists up to the end of the file, rounded up to a page.\<close>

definition mapped_page :: "nat \<Rightarrow> nat \<Rightarrow> nat \<Rightarrow> hmem \<Rightarrow> bool" where
  "mapped_page ps ino off h \<longleftrightarrow> off div ps < (i_size (w_ino (h_world h) ino) + ps - 1) div ps"

definition store64 :: "hopts \<Rightarrow> nat \<Rightarrow> nat \<Rightarrow> nat \<Rightarrow> nat \<Rightarrow> 64 word \<Rightarrow> unit hprog" where
  "store64 opts ps ino p off v = (\<lambda>h.
     if \<not> mapped_page ps ino off h then (Inl (Trap Bus_Error), h)
     else if use_private opts
     then (Inr (), h\<lparr>h_over := (h_over h)(p := (\<lambda>i. if off \<le> i \<and> i < off + 8
                       then Some (byte_at v (i - off)) else h_over h p i))\<rparr>)
     else (Inr (), h\<lparr>h_world := set_ino ino ((w_ino (h_world h) ino)\<lparr>i_data :=
             (\<lambda>i. if off \<le> i \<and> i < off + 8 then byte_at v (i - off)
                  else i_data (w_ino (h_world h) ino) i)\<rparr>) (h_world h)\<rparr>))"

text \<open>One iteration of the marking loops of \<open>pt_page_marker\<close> and \<open>pt_write_marker\<close>.\<close>

definition mark_page :: "hopts \<Rightarrow> nat \<Rightarrow> (nat \<Rightarrow> 64 word) \<Rightarrow> int \<Rightarrow> nat \<Rightarrow> nat \<times> nat \<Rightarrow> unit hprog" where
  "mark_page opts ps ids fd ino ti =
     (let (t, i) = ti; off = page_offs ps t + i * ps in
      if use_wr opts t
      then bindP (onw (sys_pwrite fd (byte_at (ids t)) 8 (int off))) (\<lambda>_. ret ())
      else store64 opts ps ino (proc opts t) off (ids t))"

fun run_marks :: "hopts \<Rightarrow> nat \<Rightarrow> (nat \<Rightarrow> 64 word) \<Rightarrow> int \<Rightarrow> nat \<Rightarrow> (nat \<times> nat) list \<Rightarrow> unit hprog" where
  "run_marks opts ps ids fd ino [] = ret ()"
| "run_marks opts ps ids fd ino (x # xs) =
     bindP (mark_page opts ps ids fd ino x) (\<lambda>_. run_marks opts ps ids fd ino xs)"

section \<open>Checking\<close>

fun verify_mapping :: "nat \<Rightarrow> buffer \<Rightarrow> nat \<Rightarrow> nat \<Rightarrow> (nat \<Rightarrow> 64 word) \<Rightarrow> int" where
  "verify_mapping ps b va 0 expect = 0"
| "verify_mapping ps b va (Suc npages) expect =
     (if holds64 b (va + page_offs ps 0) (expect 0) then 0 else 1)
     + (if holds64 b (va + page_offs ps 1) (expect 1) then 0 else 1)
     + verify_mapping ps b (va + ps) npages expect"

text \<open>What \<open>pt_page_marker\<close> and \<open>pt_write_marker\<close> return once their marks are set.\<close>

definition marker_errors :: "hopts \<Rightarrow> nat \<Rightarrow> (nat \<Rightarrow> 64 word) \<Rightarrow> nat \<Rightarrow> nat \<Rightarrow> hmem \<Rightarrow> nat \<Rightarrow> int" where
  "marker_errors opts ps ids ino npages h t =
     (if \<not> use_wr opts t \<and> use_private opts \<and> use_fork opts
      then verify_mapping ps (view opts ino (proc opts t) h) 0 npages ((\<lambda>_. 0)(t := ids t))
      else 0)"

text \<open>
  \<open>test_this\<close>.  The count of failed threads is overwritten by the result of the first
  \<open>verify_mapping\<close>, as in the code.
\<close>

definition test_this :: "hopts \<Rightarrow> nat \<Rightarrow> (nat \<Rightarrow> 64 word) \<Rightarrow> int \<Rightarrow> nat \<Rightarrow> nat \<Rightarrow> (nat \<times> nat) list \<Rightarrow> int hprog" where
  "test_this opts ps ids fd ino sz sched =
     (let npages = sz div ps in
      bindP (query h_mmap) (\<lambda>ok.
      if \<not> ok then exit_with 20
      else
      bindP (update (\<lambda>h. h\<lparr>h_over := (\<lambda>_ _. None)\<rparr>)) (\<lambda>_.
      bindP (run_marks opts ps ids fd ino sched) (\<lambda>_.
      bindP (query (\<lambda>h. (if marker_errors opts ps ids ino npages h 0 \<noteq> 0 then 1 else 0)
                      + (if marker_errors opts ps ids ino npages h 1 \<noteq> 0 then 1 else 0))) (\<lambda>errcnt :: int.
      let tid = (if use_private opts \<and> use_fork opts then (\<lambda>_. 0) else ids) in
      bindP (query (\<lambda>h. verify_mapping ps (view opts ino 0 h) 0 npages tid)) (\<lambda>errcnt.
      if use_private opts
      then bindP (query (\<lambda>h. verify_mapping ps (i_data (w_ino (h_world h) ino)) 0 npages (\<lambda>_. 0))) (\<lambda>e.
           ret (errcnt + e))
      else ret errcnt))))))"

section \<open>The main program\<close>

fun set_opts :: "string \<Rightarrow> hopts \<Rightarrow> hopts option" where
  "set_opts [] opts = Some opts"
| "set_opts (c # cs) opts =
     (if c = CHR ''f'' then set_opts cs (opts\<lparr>stoponerror := False\<rparr>)
      else if c = CHR ''w'' then set_opts cs (opts\<lparr>use_wr0 := True\<rparr>)
      else if c = CHR ''r'' then set_opts cs (opts\<lparr>prefault := True\<rparr>)
      else if c = CHR ''F'' then set_opts cs (opts\<lparr>use_fork := True\<rparr>)
      else if c = CHR ''p'' then set_opts cs (opts\<lparr>use_private := True\<rparr>)
      else None)"

definition default_opts :: hopts where
  "default_opts = \<lparr>stoponerror = True, use_wr0 = False, prefault = False, use_fork = False,
     use_private = False\<rparr>"

text \<open>\<open>strtol\<close>: the value and the rest of the string (all of it if there is no number).\<close>

definition strtol :: "string \<Rightarrow> int \<times> string" where
  "strtol s =
     (let b = dropWhile is_space s;
          d = (case b of [] \<Rightarrow> b | c # cs \<Rightarrow> if c = CHR ''-'' \<or> c = CHR ''+'' then cs else b) in
      if takeWhile is_digit d = [] then (0, s) else (atoll s, dropWhile is_digit d))"

text \<open>\<open>posix_fallocate(fd, 0, sz)\<close>: the file has at least \<open>sz\<close> bytes, new ones are zero.\<close>

definition sys_fallocate :: "int \<Rightarrow> int \<Rightarrow> world \<Rightarrow> int \<times> world" where
  "sys_fallocate fd sz w =
     (case get_fd w fd of None \<Rightarrow> (9, w)
      | Some f \<Rightarrow>
          if sz \<le> 0 \<or> \<not> o_wr f then (22, w)
          else if int (w_fmax w) < sz then (27, w)
          else let i = w_ino w (o_ino f)
               in (0, set_ino (o_ino f)
                        (i\<lparr>i_data := (\<lambda>k. if k < i_size i then i_data i k else 0),
                           i_size := max (i_size i) (nat sz)\<rparr>) w))"

datatype sizing = Zero_Fill | Fallocate | Truncate

definition size_file :: "sizing \<Rightarrow> int \<Rightarrow> int \<Rightarrow> nat \<Rightarrow> int \<Rightarrow> unit hprog" where
  "size_file how code fd ino sz =
     (case how of
        Zero_Fill \<Rightarrow> bindP (onw (sys_ftruncate fd sz)) (\<lambda>r.
          if r \<noteq> 0 then exit_with code
          else bindP (query h_mmap) (\<lambda>ok. if \<not> ok then exit_with 4
          else update (\<lambda>h. h\<lparr>h_world := set_ino ino ((w_ino (h_world h) ino)\<lparr>i_data :=
                 memset (i_data (w_ino (h_world h) ino)) 0 0 (nat sz)\<rparr>) (h_world h)\<rparr>)))
      | Fallocate \<Rightarrow> bindP (onw (sys_fallocate fd sz)) (\<lambda>r. if r \<noteq> 0 then exit_with code else ret ())
      | Truncate \<Rightarrow> bindP (onw (sys_ftruncate fd sz)) (\<lambda>r. if r \<noteq> 0 then exit_with code else ret ()))"

text \<open>One of the three tests; the codes are those of its calls of \<open>exit\<close>.\<close>

definition hole_round :: "hopts \<Rightarrow> nat \<Rightarrow> (nat \<Rightarrow> 64 word) \<Rightarrow> string \<Rightarrow> int \<Rightarrow> sizing \<Rightarrow>
    int \<times> int \<times> int \<times> int \<Rightarrow> (nat \<times> nat) list \<Rightarrow> int \<Rightarrow> int hprog" where
  "hole_round opts ps ids path sz how codes sched toterr =
     (let (c_open, c_size, c_test, c_unlink) = codes in
      bindP (onw (sys_open path [O_RDWR, O_EXCL, O_CREAT])) (\<lambda>fd.
      if fd < 0 then exit_with c_open
      else
      bindP (query (\<lambda>h. case get_fd (h_world h) fd of Some f \<Rightarrow> o_ino f | None \<Rightarrow> 0)) (\<lambda>ino.
      bindP (size_file how c_size fd ino sz) (\<lambda>_.
      bindP (test_this opts ps ids fd ino (nat sz) sched) (\<lambda>errcnt.
      bindP (onw (sys_close fd)) (\<lambda>_.
      if stoponerror opts \<and> errcnt > 0 then exit_with c_test
      else
      bindP (onw (sys_unlink path)) (\<lambda>r.
      if r \<noteq> 0 then exit_with c_unlink else ret (toterr + errcnt))))))))"

text \<open>The option letters that \<open>getopt\<close> found, the remaining arguments, and three interleavings.\<close>

definition holetest_main :: "nat \<Rightarrow> (nat \<Rightarrow> 64 word) \<Rightarrow> (nat \<Rightarrow> (nat \<times> nat) list) \<Rightarrow> string \<Rightarrow> string list \<Rightarrow> int hprog" where
  "holetest_main ps ids scheds letters args =
     (case set_opts letters default_opts of None \<Rightarrow> exit_with 1 | Some opts \<Rightarrow>
      if length args \<noteq> 2 then exit_with 1
      else if use_private opts \<and> use_wr0 opts then exit_with 1
      else
      let path = args ! 0; (v, rest) = strtol (args ! 1) in
      if rest \<noteq> [] \<or> v < 1 then exit_with 1
      else
      let sz = s64 (v * 2 ^ 10) in
      bindP (hole_round opts ps ids path sz Zero_Fill (2, 3, 5, 6) (scheds 0) 0) (\<lambda>toterr.
      bindP (hole_round opts ps ids path sz Fallocate (7, 8, 9, 10) (scheds 1) toterr) (\<lambda>toterr.
      bindP (hole_round opts ps ids path sz Truncate (15, 16, 17, 18) (scheds 2) toterr) (\<lambda>toterr.
      if toterr > 0 then exit_with 19 else ret 0))))"

section \<open>Where the markers are\<close>

definition slot :: "nat \<Rightarrow> nat \<Rightarrow> nat \<Rightarrow> nat" where
  "slot ps t i = page_offs ps t + i * ps"

lemma page_offs_bounds:
  assumes "32 \<le> ps"
  shows "page_offs ps 0 + 8 \<le> page_offs ps 1" "page_offs ps 1 + 8 \<le> ps"
  using assms by (simp_all add: page_offs_def Let_def)

lemma slot_end:
  assumes "32 \<le> ps" "t < 2" "i < np"
  shows "slot ps t i + 8 \<le> np * ps"
proof -
  have "t = 0 \<or> t = 1" using assms(2) by auto
  then have "page_offs ps t + 8 \<le> ps" using page_offs_bounds [OF assms(1)] by auto
  moreover have "Suc i * ps \<le> np * ps" using assms(3) by (intro mult_le_mono1) simp
  ultimately show ?thesis by (simp add: slot_def)
qed

lemma slot_apart:
  assumes ps: "32 \<le> ps" and t: "t < 2" "u < 2" and ne: "(t, i) \<noteq> (u, j)"
  shows "slot ps t i + 8 \<le> slot ps u j \<or> slot ps u j + 8 \<le> slot ps t i"
proof -
  note b = page_offs_bounds [OF ps]
  have tu: "t = 0 \<or> t = 1" "u = 0 \<or> u = 1" using t by auto
  have hi: "page_offs ps v + 8 \<le> ps" if "v = 0 \<or> v = 1" for v using b that by auto
  consider "i = j" | "i < j" | "j < i" by linarith
  then show ?thesis
  proof cases
    case 1
    then show ?thesis using ne tu b by (auto simp: slot_def)
  next
    case 2
    have "Suc i * ps \<le> j * ps" using 2 by (intro mult_le_mono1) simp
    then show ?thesis using hi [OF tu(1)] by (simp add: slot_def)
  next
    case 3
    have "Suc j * ps \<le> i * ps" using 3 by (intro mult_le_mono1) simp
    then show ?thesis using hi [OF tu(2)] by (simp add: slot_def)
  qed
qed

definition wrong :: "buffer \<Rightarrow> nat \<Rightarrow> 64 word \<Rightarrow> int" where
  "wrong b off v = (if holds64 b off v then 0 else 1)"

lemma verify_mapping_sum:
  "verify_mapping ps b va np expect =
     (\<Sum>i < np. wrong b (va + slot ps 0 i) (expect 0) + wrong b (va + slot ps 1 i) (expect 1))"
proof (induction np arbitrary: va)
  case (Suc np)
  have "slot ps t (Suc i) = ps + slot ps t i" for t i by (simp add: slot_def)
  moreover have "slot ps t 0 = page_offs ps t" for t by (simp add: slot_def)
  ultimately show ?case
    by (simp add: Suc sum.lessThan_Suc_shift add.assoc wrong_def del: sum.lessThan_Suc)
qed simp

lemma verify_mapping_0:
  "verify_mapping ps b va np expect = 0 \<longleftrightarrow> (\<forall>i < np. \<forall>t < 2. holds64 b (va + slot ps t i) (expect t))"
proof -
  have "verify_mapping ps b va np expect = 0 \<longleftrightarrow>
    (\<forall>i \<in> {..<np}. wrong b (va + slot ps 0 i) (expect 0) + wrong b (va + slot ps 1 i) (expect 1) = 0)"
    unfolding verify_mapping_sum by (rule sum_nonneg_eq_0_iff) (simp_all add: wrong_def)
  then show ?thesis by (auto simp: wrong_def less_2_cases_iff split: if_splits)
qed

section \<open>Setting the marks\<close>

lemma wp_onw [wp_simps]: "wp (onw f) Q E = (\<lambda>h. Q (fst (f (h_world h))) (h\<lparr>h_world := snd (f (h_world h))\<rparr>))"
  by (simp add: onw_def wp_simps)

text \<open>The test file is open for writing and has the size that is mapped.\<close>

definition test_file :: "int \<Rightarrow> nat \<Rightarrow> nat \<Rightarrow> hmem \<Rightarrow> bool" where
  "test_file fd ino sz h \<longleftrightarrow> h_mmap h \<and> i_size (w_ino (h_world h) ino) = sz \<and> sz \<le> w_fmax (h_world h)
     \<and> (\<exists>f. get_fd (h_world h) fd = Some f \<and> o_ino f = ino \<and> o_wr f \<and> \<not> o_dio f)"

definition same_names :: "hmem \<Rightarrow> hmem \<Rightarrow> bool" where
  "same_names h h' \<longleftrightarrow> w_dir (h_world h') = w_dir (h_world h) \<and> w_fmax (h_world h') = w_fmax (h_world h)
     \<and> w_next (h_world h') = w_next (h_world h) \<and> h_mmap h' = h_mmap h"

text \<open>What one mark changes: 8 bytes, for every process or for the one that set it.\<close>

lemma mark_page_wp:
  assumes tf: "test_file fd ino sz h" and ps: "32 \<le> ps" and t: "t < 2" and i: "i < sz div ps"
    and wr: "\<not> (use_private opts \<and> use_wr0 opts)"
  shows "wp (mark_page opts ps ids fd ino (t, i))
    (\<lambda>_ h'. test_file fd ino sz h' \<and> same_names h h'
       \<and> (use_private opts \<longrightarrow> h_world h' = h_world h)
       \<and> (\<forall>p x. view opts ino p h' x =
            (if (use_private opts \<longrightarrow> p = proc opts t) \<and> slot ps t i \<le> x \<and> x < slot ps t i + 8
             then byte_at (ids t) (x - slot ps t i) else view opts ino p h x)))
    (\<lambda>_ _. False) h"
proof -
  let ?w = "h_world h" and ?o = "slot ps t i"
  obtain f where f: "get_fd ?w fd = Some f" "o_ino f = ino" "o_wr f" "\<not> o_dio f"
    and sz: "i_size (w_ino ?w ino) = sz" "sz \<le> w_fmax ?w" and mm: "h_mmap h"
    using tf by (auto simp: test_file_def)
  have off: "?o + 8 \<le> sz" using slot_end [OF ps t i] by (meson div_times_less_eq_dividend le_trans)
  have o: "page_offs ps t + i * ps = ?o" by (simp add: slot_def)
  have mp: "mapped_page ps ino ?o h"
  proof -
    have "?o div ps < (sz + ps - 1) div ps"
    proof -
      have "?o + ps \<le> sz + ps - 1" using off by simp
      then have "(?o + ps) div ps \<le> (sz + ps - 1) div ps" by (rule div_le_mono)
      moreover have "(?o + ps) div ps = Suc (?o div ps)" using div_add_self2 [of ps ?o] ps by simp
      ultimately show ?thesis by linarith
    qed
    then show ?thesis by (simp add: mapped_page_def sz)
  qed
  show ?thesis
  proof (cases "use_wr opts t")
    case True
    then have np: "\<not> use_private opts" using wr by (auto simp: use_wr_def)
    have pw: "sys_pwrite fd (byte_at (ids t)) 8 (int ?o) ?w
        = (8, set_ino ino (ino_put (w_ino ?w ino) ?o (byte_at (ids t)) 8) ?w)"
      using f sz off by (simp add: sys_pwrite_def write_at_def dio_ok_def room_def Let_def)
    have keep: "i_size (ino_put (w_ino ?w ino) ?o (byte_at (ids t)) 8) = sz"
      using sz off by (simp add: ino_put_def)
    show ?thesis
      using True np f sz off mm keep unfolding mark_page_def Let_def prod.case o
      by (auto simp: wp_simps pw test_file_def same_names_def view_def ino_put_def)
  next
    case False
    then show ?thesis
      using mp f sz mm unfolding mark_page_def Let_def prod.case o
      by (auto simp: wp_def store64_def test_file_def same_names_def view_def split: option.split)
  qed
qed

text \<open>After any sequence of marks, each is visible to the process that set it.\<close>

definition marked :: "hopts \<Rightarrow> nat \<Rightarrow> (nat \<Rightarrow> 64 word) \<Rightarrow> nat \<Rightarrow> hmem \<Rightarrow> nat \<Rightarrow> nat \<Rightarrow> bool" where
  "marked opts ps ids ino h t i \<longleftrightarrow> holds64 (view opts ino (proc opts t) h) (slot ps t i) (ids t)"

lemma run_marks_wp:
  assumes "test_file fd ino sz h" and ps: "32 \<le> ps" and "set xs \<subseteq> {..<2} \<times> {..<sz div ps}"
    and wr: "\<not> (use_private opts \<and> use_wr0 opts)"
  shows "wp (run_marks opts ps ids fd ino xs)
    (\<lambda>_ h'. test_file fd ino sz h' \<and> same_names h h' \<and> (use_private opts \<longrightarrow> h_world h' = h_world h)
       \<and> (\<forall>t i. (t, i) \<in> set xs \<longrightarrow> marked opts ps ids ino h' t i)
       \<and> (\<forall>t i. t < 2 \<longrightarrow> marked opts ps ids ino h t i \<longrightarrow> marked opts ps ids ino h' t i)
       \<and> (use_private opts \<and> use_fork opts \<longrightarrow> (\<forall>x. view opts ino 0 h' x = view opts ino 0 h x)))
    (\<lambda>_ _. False) h"
  using assms(1,3)
proof (induction xs arbitrary: h)
  case Nil
  then show ?case by (simp add: wp_simps same_names_def)
next
  case (Cons ti xs)
  obtain t i where ti: "ti = (t, i)" by (cases ti)
  have t: "t < 2" "i < sz div ps" and xs: "set xs \<subseteq> {..<2} \<times> {..<sz div ps}"
    using Cons.prems(2) by (auto simp: ti)
  show ?case
    unfolding run_marks.simps wp_bindP ti
  proof (rule wp_mono [OF mark_page_wp [OF Cons.prems(1) ps t wr]], elim conjE)
    fix x h1
    assume tf: "test_file fd ino sz h1" and sn: "same_names h h1"
      and pw: "use_private opts \<longrightarrow> h_world h1 = h_world h"
      and vw: "\<forall>p x. view opts ino p h1 x =
            (if (use_private opts \<longrightarrow> p = proc opts t) \<and> slot ps t i \<le> x \<and> x < slot ps t i + 8
             then byte_at (ids t) (x - slot ps t i) else view opts ino p h x)"
    have own: "marked opts ps ids ino h1 t i"
      by (simp add: marked_def holds64_def vw)
    have other: "marked opts ps ids ino h1 u j" if "u < 2" "marked opts ps ids ino h u j" for u j
    proof (cases "(u, j) = (t, i)")
      case False
      have "slot ps u j + 8 \<le> slot ps t i \<or> slot ps t i + 8 \<le> slot ps u j"
        using that(1) t(1) False by (intro slot_apart [OF ps]) auto
      then show ?thesis using that(2) by (auto simp: marked_def holds64_def vw)
    qed (use own in simp)
    have fork: "use_private opts \<and> use_fork opts \<longrightarrow> (\<forall>x. view opts ino 0 h1 x = view opts ino 0 h x)"
      by (simp add: vw proc_def)
    show "wp (run_marks opts ps ids fd ino xs)
      (\<lambda>_ h'. test_file fd ino sz h' \<and> same_names h h' \<and> (use_private opts \<longrightarrow> h_world h' = h_world h)
       \<and> (\<forall>u j. (u, j) \<in> set ((t, i) # xs) \<longrightarrow> marked opts ps ids ino h' u j)
       \<and> (\<forall>t i. t < 2 \<longrightarrow> marked opts ps ids ino h t i \<longrightarrow> marked opts ps ids ino h' t i)
       \<and> (use_private opts \<and> use_fork opts \<longrightarrow> (\<forall>x. view opts ino 0 h' x = view opts ino 0 h x)))
      (\<lambda>_ _. False) h1"
      using sn pw own other fork t(1)
      by (intro wp_mono [OF Cons.IH [OF tf xs]]) (auto simp: same_names_def)
  qed simp
qed

section \<open>A whole test\<close>

text \<open>Both markers mark every page, in any order.\<close>

definition interleaving :: "nat \<Rightarrow> (nat \<times> nat) list \<Rightarrow> bool" where
  "interleaving np xs \<longleftrightarrow> xs \<in> shuffles (map (Pair 0) [0..<np]) (map (Pair 1) [0..<np])"

lemma interleaving_set: "interleaving np xs \<Longrightarrow> set xs = {..<2} \<times> {..<np}"
  using set_shuffles [of xs "map (Pair 0) [0..<np]" "map (Pair 1) [0..<np]"]
  by (auto simp: interleaving_def less_2_cases_iff)

lemma test_this_wp:
  assumes tf: "test_file fd ino sz h" and ps: "32 \<le> ps" and il: "interleaving (sz div ps) sched"
    and wr: "\<not> (use_private opts \<and> use_wr0 opts)"
    and zero: "\<forall>x < sz. i_data (w_ino (h_world h) ino) x = 0"
  shows "wp (test_this opts ps ids fd ino sz sched)
    (\<lambda>r h'. r = 0 \<and> test_file fd ino sz h' \<and> same_names h h' \<and> (use_private opts \<longrightarrow> h_world h' = h_world h))
    (\<lambda>_ _. False) h"
proof -
  let ?h = "h\<lparr>h_over := (\<lambda>_ _. None)\<rparr>" and ?np = "sz div ps"
  have tf0: "test_file fd ino sz ?h" using tf by (simp add: test_file_def)
  have mm: "h_mmap h" using tf by (simp add: test_file_def)
  have S: "set sched = {..<2} \<times> {..<?np}" using il by (rule interleaving_set)
  have z: "holds64 b (slot ps t i) 0" if "\<forall>x < sz. b x = 0" "t < 2" "i < ?np" for b t i
  proof -
    have "slot ps t i + 8 \<le> sz" using slot_end [OF ps that(2,3)] by (meson div_times_less_eq_dividend le_trans)
    then show ?thesis using that(1) by (simp add: holds64_def byte_at_def)
  qed
  have fin: "verify_mapping ps (view opts ino 0 h') 0 ?np (if use_private opts \<and> use_fork opts then (\<lambda>_. 0) else ids) = 0
      \<and> (use_private opts \<longrightarrow> verify_mapping ps (i_data (w_ino (h_world h') ino)) 0 ?np (\<lambda>_. 0) = 0)"
    if pw: "use_private opts \<longrightarrow> h_world h' = h_world h"
      and all: "\<forall>t i. (t, i) \<in> set sched \<longrightarrow> marked opts ps ids ino h' t i"
      and fk: "use_private opts \<and> use_fork opts \<longrightarrow> (\<forall>x. view opts ino 0 h' x = view opts ino 0 ?h x)" for h'
  proof
    show "use_private opts \<longrightarrow> verify_mapping ps (i_data (w_ino (h_world h') ino)) 0 ?np (\<lambda>_. 0) = 0"
      using pw z zero by (simp add: verify_mapping_0)
    show "verify_mapping ps (view opts ino 0 h') 0 ?np (if use_private opts \<and> use_fork opts then (\<lambda>_. 0) else ids) = 0"
    proof (cases "use_private opts \<and> use_fork opts")
      case True
      have "view opts ino 0 ?h x = 0" if "x < sz" for x using zero that True by (simp add: view_def)
      with True fk z show ?thesis by (simp add: verify_mapping_0)
    next
      case False
      have same: "view opts ino (proc opts t) h' = view opts ino 0 h'" for t
        using False by (auto simp: view_def proc_def fun_eq_iff)
      have "marked opts ps ids ino h' t i" if "t < 2" "i < ?np" for t i
        using all that by (simp add: S)
      with False show ?thesis by (auto simp: verify_mapping_0 marked_def same)
    qed
  qed
  have sub: "set sched \<subseteq> {..<2} \<times> {..<?np}" using S by simp
  show ?thesis
    unfolding test_this_def Let_def wp_bindP wp_query wp_update
    using mm fin
    by (auto simp: wp_simps same_names_def intro!: wp_mono [OF run_marks_wp [OF tf0 ps sub wr]])
qed

lemma open_excl:
  assumes "w_dir w path = None" "path \<noteq> []" "sys_open path [O_RDWR, O_EXCL, O_CREAT] w = (fd, w')"
  shows "0 \<le> fd" "get_fd w' fd = Some (flags_ofile [O_RDWR, O_EXCL, O_CREAT] (w_next w))"
    "w_dir w' = (w_dir w)(path := Some (w_next w))" "w_ino w' (w_next w) = empty_inode"
    "w_fmax w' = w_fmax w"
proof -
  let ?w = "set_ino (w_next w) empty_inode (w\<lparr>w_dir := (w_dir w)(path := Some (w_next w)), w_next := Suc (w_next w)\<rparr>)"
  have "install [O_RDWR, O_EXCL, O_CREAT] (w_next w) ?w = (fd, w')"
    using assms by (simp add: sys_open_def)
  from install_spec [OF this]
  show "0 \<le> fd" "get_fd w' fd = Some (flags_ofile [O_RDWR, O_EXCL, O_CREAT] (w_next w))"
    "w_dir w' = (w_dir w)(path := Some (w_next w))" "w_ino w' (w_next w) = empty_inode"
    "w_fmax w' = w_fmax w" by simp_all
qed

lemma size_file_wp:
  assumes fd: "get_fd (h_world h) fd = Some f" "o_ino f = ino" "o_wr f" "\<not> o_dio f"
    and e: "w_ino (h_world h) ino = empty_inode" and mm: "h_mmap h"
    and sz: "0 < sz" "sz \<le> int (w_fmax (h_world h))"
  shows "wp (size_file how code fd ino sz)
    (\<lambda>_ h'. test_file fd ino (nat sz) h' \<and> (\<forall>x < nat sz. i_data (w_ino (h_world h') ino) x = 0)
       \<and> same_names h h') (\<lambda>_ _. False) h"
proof -
  have f: "nat sz \<le> w_fmax (h_world h)" "\<not> int (w_fmax (h_world h)) < sz" using sz by linarith+
  show ?thesis
    using fd e mm sz f
    by (cases how) (auto simp: size_file_def wp_simps sys_ftruncate_def sys_fallocate_def test_file_def
        same_names_def empty_inode_def Let_def)
qed

definition ready_for :: "string \<Rightarrow> int \<Rightarrow> hmem \<Rightarrow> bool" where
  "ready_for path sz h \<longleftrightarrow> path \<noteq> [] \<and> w_dir (h_world h) path = None \<and> h_mmap h
     \<and> 0 < sz \<and> sz \<le> int (w_fmax (h_world h))"

lemma hole_round_wp:
  assumes r: "ready_for path sz h" and ps: "32 \<le> ps" and il: "interleaving (nat sz div ps) sched"
    and wr: "\<not> (use_private opts \<and> use_wr0 opts)"
  shows "wp (hole_round opts ps ids path sz how codes sched toterr)
    (\<lambda>r h'. r = toterr \<and> ready_for path sz h' \<and> w_dir (h_world h') = w_dir (h_world h))
    (\<lambda>_ _. False) h"
proof -
  obtain c1 c2 c3 c4 where codes: "codes = (c1, c2, c3, c4)" by (cases codes) auto
  note R = r [unfolded ready_for_def]
  obtain fd w1 where op: "sys_open path [O_RDWR, O_EXCL, O_CREAT] (h_world h) = (fd, w1)" by fastforce
  let ?ino = "w_next (h_world h)" and ?h = "h\<lparr>h_world := w1\<rparr>"
  have O: "0 \<le> fd" "get_fd w1 fd = Some (flags_ofile [O_RDWR, O_EXCL, O_CREAT] ?ino)"
    "w_dir w1 = (w_dir (h_world h))(path := Some ?ino)" "w_ino w1 ?ino = empty_inode" "w_fmax w1 = w_fmax (h_world h)"
    using open_excl [OF _ _ op] R by simp_all
  have undo: "(w_dir (h_world h))(path := None) = w_dir (h_world h)" using R by auto
  have sizing: "wp (size_file how c2 fd ?ino sz)
    (\<lambda>_ h'. test_file fd ?ino (nat sz) h' \<and> (\<forall>x < nat sz. i_data (w_ino (h_world h') ?ino) x = 0)
       \<and> same_names ?h h') (\<lambda>_ _. False) ?h"
    using O R by (intro size_file_wp [where f = "flags_ofile [O_RDWR, O_EXCL, O_CREAT] ?ino"])
      (simp_all add: flags_ofile_def)
  have rest: "wp (bindP (test_this opts ps ids fd ?ino (nat sz) sched) (\<lambda>errcnt.
      bindP (onw (sys_close fd)) (\<lambda>_.
      if stoponerror opts \<and> errcnt > 0 then exit_with c3
      else
      bindP (onw (sys_unlink path)) (\<lambda>r.
      if r \<noteq> 0 then exit_with c4 else ret (toterr + errcnt)))))
    (\<lambda>r h'. r = toterr \<and> ready_for path sz h' \<and> w_dir (h_world h') = w_dir (h_world h)) (\<lambda>_ _. False) h1"
    if "test_file fd ?ino (nat sz) h1" "\<forall>x < nat sz. i_data (w_ino (h_world h1) ?ino) x = 0" "same_names ?h h1" for h1
    using that(3) O R undo unfolding wp_bindP
    by (intro wp_mono [OF test_this_wp [OF that(1) ps il wr that(2)]])
      (auto simp: wp_simps sys_unlink_def same_names_def ready_for_def)
  have "wp (hole_round opts ps ids path sz how codes sched toterr) Q E h = wp (size_file how c2 fd ?ino sz)
      (\<lambda>_. wp (bindP (test_this opts ps ids fd ?ino (nat sz) sched) (\<lambda>errcnt.
      bindP (onw (sys_close fd)) (\<lambda>_.
      if stoponerror opts \<and> errcnt > 0 then exit_with c3
      else
      bindP (onw (sys_unlink path)) (\<lambda>r.
      if r \<noteq> 0 then exit_with c4 else ret (toterr + errcnt))))) Q E) E ?h" for Q E
    using O by (simp add: hole_round_def codes wp_bindP wp_onw op wp_query flags_ofile_def)
  then show ?thesis using rest by (auto intro!: wp_mono [OF sizing])
qed

lemma holetest_main_wp:
  assumes opts: "set_opts letters default_opts = Some opts" and wr: "\<not> (use_private opts \<and> use_wr0 opts)"
    and args: "strtol s = (v, [])" "1 \<le> v" and r: "ready_for path (v * 1024) h" and v: "v * 1024 < 2 ^ 63"
    and ps: "32 \<le> ps" and il: "\<And>k. k < 3 \<Longrightarrow> interleaving (nat (v * 1024) div ps) (scheds k)"
  shows "wp (holetest_main ps ids scheds letters [path, s])
    (\<lambda>r h'. r = 0 \<and> w_dir (h_world h') = w_dir (h_world h)) (\<lambda>_ _. False) h"
proof -
  have sz: "s64 (v * 2 ^ 10) = v * 1024" using args(2) v by (simp add: s64_id)
  have round: "wp (hole_round opts ps ids path (v * 1024) how codes (scheds k) 0)
    (\<lambda>r h'. r = 0 \<and> ready_for path (v * 1024) h' \<and> w_dir (h_world h') = w_dir (h_world h)) (\<lambda>_ _. False) h1"
    if "ready_for path (v * 1024) h1" "w_dir (h_world h1) = w_dir (h_world h)" "k < 3" for how codes k h1
    using hole_round_wp [OF that(1) ps il [OF that(3)] wr] that(2) by (auto elim: wp_mono)
  have run: "wp (bindP (hole_round opts ps ids path (v * 1024) Zero_Fill (2, 3, 5, 6) (scheds 0) 0) (\<lambda>toterr.
      bindP (hole_round opts ps ids path (v * 1024) Fallocate (7, 8, 9, 10) (scheds 1) toterr) (\<lambda>toterr.
      bindP (hole_round opts ps ids path (v * 1024) Truncate (15, 16, 17, 18) (scheds 2) toterr) (\<lambda>toterr.
      if toterr > 0 then exit_with 19 else ret 0))))
    (\<lambda>r h'. r = 0 \<and> w_dir (h_world h') = w_dir (h_world h)) (\<lambda>_ _. False) h"
    unfolding wp_bindP
    by (rule wp_mono [OF round [OF r refl]], simp, clarify, rule wp_mono [OF round], assumption, assumption, simp,
        clarify, rule wp_mono [OF round]) (simp_all add: wp_simps)
  have "holetest_main ps ids scheds letters [path, s] =
      bindP (hole_round opts ps ids path (v * 1024) Zero_Fill (2, 3, 5, 6) (scheds 0) 0) (\<lambda>toterr.
      bindP (hole_round opts ps ids path (v * 1024) Fallocate (7, 8, 9, 10) (scheds 1) toterr) (\<lambda>toterr.
      bindP (hole_round opts ps ids path (v * 1024) Truncate (15, 16, 17, 18) (scheds 2) toterr) (\<lambda>toterr.
      if toterr > 0 then exit_with 19 else ret 0)))"
    using opts wr args sz by (auto simp: holetest_main_def Let_def)
  then show ?thesis using run by simp
qed

section \<open>Properties\<close>

definition all_zero_first :: "nat \<Rightarrow> (nat \<times> nat) list" where
  "all_zero_first np = map (Pair 0) [0..<np] @ map (Pair 1) [0..<np]"

lemma append_shuffle: "xs @ ys \<in> shuffles xs ys"
proof (induction xs)
  case (Cons x xs)
  then show ?case by (simp add: Cons_in_shuffles_leftI)
qed simp

lemma interleaving_sample: "interleaving np (all_zero_first np)"
  unfolding interleaving_def all_zero_first_def by (rule append_shuffle)

definition hole_start :: hmem where
  "hole_start = \<lparr>h_world = fresh_world, h_over = (\<lambda>_ _. None), h_mmap = True\<rparr>"

lemma hole_start_ready: "path \<noteq> [] \<Longrightarrow> 0 < sz \<Longrightarrow> sz \<le> 2147483648 \<Longrightarrow> ready_for path sz hole_start"
  by (simp add: ready_for_def hole_start_def)

lemma below_two: "{t. t < 2 \<and> P t} = (if P 0 then {0 :: nat} else {}) \<union> (if P 1 then {1} else {})"
  by (auto dest!: less_2_cases split: if_splits)

text \<open>
  \<open>verify_mapping\<close> counts: its result is the number of pairs of a page and a marker for which
  the 8 bytes at the marker's offset in the page differ from the expected identity; it is 0
  exactly if all markers are there.
\<close>

theorem verify_mapping_counts:
  "verify_mapping ps b 0 np expect =
     int (card {(i, t). i < np \<and> t < 2 \<and> \<not> holds64 b (page_offs ps t + i * ps) (expect t)})"
proof -
  let ?B = "\<lambda>i t. \<not> holds64 b (slot ps t i) (expect t)"
  have "{(i, t). i < np \<and> t < 2 \<and> ?B i t} = Sigma {..<np} (\<lambda>i. {t. t < 2 \<and> ?B i t})" by auto
  moreover have "int (card {t. t < 2 \<and> ?B i t}) = wrong b (slot ps 0 i) (expect 0) + wrong b (slot ps 1 i) (expect 1)" for i
    unfolding below_two wrong_def by simp
  ultimately have "int (card {(i, t). i < np \<and> t < 2 \<and> ?B i t})
      = (\<Sum>i < np. wrong b (slot ps 0 i) (expect 0) + wrong b (slot ps 1 i) (expect 1))"
    by (simp add: card_SigmaI)
  then show ?thesis unfolding verify_mapping_sum slot_def by simp
qed

text \<open>
  C5: the test is sound on a correct system: on the modelled file system, for every combination of
  options that the program accepts, every page size of at least 32 bytes, all identities and
  every interleaving of the markers in each of the three tests, \<open>holetest\<close> on a new file name
  finds no error, returns 0 and leaves the directory as it was.
\<close>

theorem holetest_passes:
  assumes "set_opts letters default_opts = Some opts" and "\<not> (use_private opts \<and> use_wr0 opts)"
    and "strtol s = (v, [])" "1 \<le> v" "v * 1024 < 2 ^ 63" "ready_for path (v * 1024) h"
    and "32 \<le> ps" and "\<forall>k < 3. interleaving (nat (v * 1024) div ps) (scheds k)"
  shows "\<exists>h'. holetest_main ps ids scheds letters [path, s] h = (Inr 0, h')
    \<and> w_dir (h_world h') = w_dir (h_world h)"
proof -
  have "wp (holetest_main ps ids scheds letters [path, s])
    (\<lambda>r h'. r = 0 \<and> w_dir (h_world h') = w_dir (h_world h)) (\<lambda>_ _. False) h"
    by (rule holetest_main_wp [OF assms(1,2,3,4,6,5,7)]) (use assms(8) in blast)
  from wp_returns [OF this] show ?thesis by auto
qed

theorem holetest_passes_witness:
  "\<exists>h'. holetest_main 4096 (\<lambda>t. 7 + of_nat t) (\<lambda>_. all_zero_first 3) ''pF'' [''/mnt/f'', ''12''] hole_start = (Inr 0, h')"
proof -
  have "strtol ''12'' = (12, [])" by code_simp
  then show ?thesis
    using holetest_passes [of "''pF''" "default_opts\<lparr>use_private := True, use_fork := True\<rparr>" "''12''" 12
        "''/mnt/f''" hole_start 4096 "\<lambda>_. all_zero_first 3" "\<lambda>t. 7 + of_nat t"]
    by (auto simp: default_opts_def hole_start_ready interleaving_sample)
qed

text \<open>
  The size argument counts KiB, not MiB as the usage text and the comment say: with 4 KB pages,
  arguments 1 to 3 give a file without a whole page, on which no marker is set and none is
  checked, so the test accepts any content of the file.
\<close>

theorem holetest_small_vacuous:
  assumes "1 \<le> v" "v \<le> 3" "h_mmap h"
  shows "test_this opts 4096 ids fd ino (nat (v * 1024)) [] h = (Inr 0, h\<lparr>h_over := (\<lambda>_ _. None)\<rparr>)
    \<and> interleaving (nat (v * 1024) div 4096) []"
proof -
  have "nat (v * 1024) < 4096" using assms(2) by linarith
  then have np: "nat (v * 1024) div 4096 = 0" by simp
  show ?thesis
    using assms(3)
    by (simp add: test_this_def Let_def np interleaving_def bindP_def query_def update_def ret_def)
qed

theorem holetest_small_vacuous_witness:
  "test_this default_opts 4096 (\<lambda>_. 5) 3 0 (nat (2 * 1024)) [] hole_start = (Inr 0, hole_start)"
  using holetest_small_vacuous [of 2 hole_start default_opts "\<lambda>_. 5" 3 0] by (simp add: hole_start_def)

end

