(* ===== verification/Integrity.thy ===== *)
theory Integrity
  imports Size_Arg
begin

text \<open>
  The integrity tests: \<open>integrity_test2_write.c\<close> fills a file with chunks of one letter each,
  \<open>integrity_test2_read.c\<close> reads the file back with the same arguments and reports every
  chunk of a wrong size or with a wrong first or last byte, \<open>integrity_test2_direct.c\<close> is
  the writer with \<open>O_DIRECT\<close>.
\<close>

section \<open>Shared by the test programs\<close>

definition test1 :: string where
  "test1 = ''/mnt/ramdisk/test1''"

definition END_SIZE :: int where
  "END_SIZE = 4 * 1024 * 1024"

definition first_byte :: "string \<Rightarrow> byte" where
  \<comment> \<open>\<open>filename[0]\<close>, the terminating zero of an empty name included\<close>
  "first_byte s = (case s of [] \<Rightarrow> 0 | c # _ \<Rightarrow> of_char c)"

definition next_char :: "byte \<Rightarrow> byte" where
  \<comment> \<open>\<open>c++; if (c > 'z') c = 'A';\<close> on a signed \<open>char\<close>\<close>
  "next_char c = (let c' = c + 1 in if sint c' > 122 then 65 else c')"

text \<open>The size argument with its two clamps, and the aligned buffer, with their early returns.\<close>

definition with_size :: "int \<Rightarrow> string \<Rightarrow> (int \<Rightarrow> int wprog) \<Rightarrow> int wprog" where
  "with_size lo s k =
     bindP (try_res (size_arg s)) (\<lambda>szo.
       case szo of None \<Rightarrow> bindP (say Bad_Unit) (\<lambda>_. ret 0) | Some fs \<Rightarrow> k (clamp_size lo fs))"

definition with_buffer :: "int \<Rightarrow> (buffer \<Rightarrow> int wprog) \<Rightarrow> int wprog" where
  "with_buffer n k =
     bindP (call (sys_memalign n)) (\<lambda>b.
       case b of None \<Rightarrow> bindP (say No_Mem) (\<lambda>_. ret 0) | Some buf \<Rightarrow> k buf)"

section \<open>The writer\<close>

definition integrity_write_round :: "int \<Rightarrow> int \<Rightarrow> byte \<times> buffer \<Rightarrow> (byte \<times> buffer) wprog" where
  "integrity_write_round fd sz cb =
     (let (c, buf) = cb in
      bindP (call (sys_write fd buf (nat sz))) (\<lambda>r.
      bindP (whenP (u64 r \<noteq> sz) (say (Err_Size sz r))) (\<lambda>_.
      let c' = next_char c in ret (c', memset buf 0 c' (nat sz)))))"

definition integrity_write_main :: "string list \<Rightarrow> int wprog" where
  "integrity_write_main argv =
     (if length argv < 6 then bindP (say Usage) (\<lambda>_. ret 0)
      else
      bindP (try_res (c_strcpy 20 (argv ! 1))) (\<lambda>fs_type.
      bindP (try_res (c_strcpy 40 (argv ! 2))) (\<lambda>quill_enabled.
      with_size 4096 (argv ! 4) (\<lambda>FILE_SIZE.
      bindP (try_res (c_strcpy 60 (argv ! 5))) (\<lambda>filename.
      let c = first_byte filename in
      with_buffer END_SIZE (\<lambda>buf.
      bindP (call (sys_open test1 [O_CREAT, O_RDWR])) (\<lambda>fd.
      let sz = req_arg END_SIZE (argv ! 3);
          buf = memset buf 0 c (nat sz) in
      bindP (call (sys_lseek fd 0)) (\<lambda>_.
      if sz = 0 then trap Div_By_Zero
      else
      bindP (for_int (nat (FILE_SIZE div sz)) 0
               (\<lambda>i. integrity_write_round fd sz) (c, buf)) (\<lambda>_.
      bindP (call (sys_close fd)) (\<lambda>_. ret 0)))))))))) "

section \<open>The writer with \<open>O_DIRECT\<close>\<close>

definition integrity_direct_round :: "int \<Rightarrow> int \<Rightarrow> byte \<times> buffer \<Rightarrow> (byte \<times> buffer) wprog" where
  "integrity_direct_round fd sz cb =
     (let (c, buf) = cb in
      bindP (call (sys_write fd buf (nat sz))) (\<lambda>r.
      bindP (whenP (r \<noteq> sz) (say Err_Plain)) (\<lambda>_.
      let c' = next_char c in ret (c', memset buf 0 c' (nat sz)))))"

definition integrity_direct_main :: "string list \<Rightarrow> int wprog" where
  "integrity_direct_main argv =
     (if length argv < 6 then bindP (say Usage) (\<lambda>_. ret 0)
      else
      bindP (try_res (c_strcpy 20 (argv ! 1))) (\<lambda>fs_type.
      bindP (try_res (c_strcpy 40 (argv ! 2))) (\<lambda>quill_enabled.
      with_size 4096 (argv ! 4) (\<lambda>FILE_SIZE.
      bindP (try_res (c_strcpy 60 (argv ! 5))) (\<lambda>filename.
      let c = first_byte filename in
      with_buffer END_SIZE (\<lambda>buf.
      bindP (call (sys_open test1 [O_CREAT, O_RDWR, O_DIRECT])) (\<lambda>fd.
      let sz = req_arg END_SIZE (argv ! 3);
          buf = memset buf 0 c (nat sz) in
      bindP (call (sys_lseek fd 0)) (\<lambda>_.
      if sz = 0 then trap Div_By_Zero
      else
      bindP (for_int (nat (FILE_SIZE div sz)) 0
               (\<lambda>i. integrity_direct_round fd sz) (c, buf)) (\<lambda>_.
      bindP (call (sys_close fd)) (\<lambda>_. ret 0)))))))))) "

section \<open>The reader\<close>

definition integrity_read_round :: "int \<Rightarrow> int \<Rightarrow> byte \<times> buffer \<Rightarrow> (byte \<times> buffer) wprog" where
  "integrity_read_round fd sz cb =
     (let (c, buf) = cb in
      bindP (call (sys_read fd buf (nat sz))) (\<lambda>rb. let (r, buf) = rb in
      bindP (whenP (u64 r \<noteq> sz) (say (Err_Size sz r))) (\<lambda>_.
      bindP (whenP (buf 0 \<noteq> c \<or> buf (nat sz - 1) \<noteq> c)
               (say (Err_Char c (buf 0) (buf (nat sz - 1))))) (\<lambda>_.
      ret (next_char c, buf)))))"

definition integrity_read_main :: "string list \<Rightarrow> int wprog" where
  "integrity_read_main argv =
     (if length argv < 6 then bindP (say Usage) (\<lambda>_. ret 0)
      else
      bindP (try_res (c_strcpy 20 (argv ! 1))) (\<lambda>fs_type.
      bindP (try_res (c_strcpy 40 (argv ! 2))) (\<lambda>quill_enabled.
      with_size 4096 (argv ! 4) (\<lambda>FILE_SIZE.
      bindP (try_res (c_strcpy 60 (argv ! 5))) (\<lambda>filename.
      let c = first_byte filename in
      bindP (call (c_fopen_a filename)) (\<lambda>output.
      with_buffer END_SIZE (\<lambda>buf.
      bindP (call (sys_open test1 [O_CREAT, O_RDWR])) (\<lambda>fd.
      let sz = req_arg END_SIZE (argv ! 3);
          buf = memset buf 0 c (nat sz) in
      bindP (call (sys_lseek fd 0)) (\<lambda>_.
      if sz = 0 then trap Div_By_Zero
      else
      bindP (for_int (nat (FILE_SIZE div sz)) 0
               (\<lambda>i. integrity_read_round fd sz) (c, buf)) (\<lambda>_.
      bindP (call (sys_close fd)) (\<lambda>_.
      bindP (c_fclose output) (\<lambda>_. ret 0)))))))))))) "

section \<open>What the arguments decide\<close>

definition args_parsed :: "string list \<Rightarrow> bool" where
  "args_parsed argv \<longleftrightarrow> 6 \<le> length argv \<and> length (argv ! 1) < 20 \<and> length (argv ! 2) < 40
     \<and> length (argv ! 5) < 60
     \<and> (case size_arg (argv ! 4) of Inr (Some n) \<Rightarrow> True | _ \<Rightarrow> False)"

definition args_ok :: "string list \<Rightarrow> bool" where
  "args_ok argv \<longleftrightarrow> args_parsed argv \<and> req_arg END_SIZE (argv ! 3) \<noteq> 0"

definition arg_file_size :: "string list \<Rightarrow> int" where
  "arg_file_size argv =
     (case size_arg (argv ! 4) of Inr (Some n) \<Rightarrow> clamp_size 4096 n | _ \<Rightarrow> 0)"

definition arg_chunk :: "string list \<Rightarrow> nat" where
  "arg_chunk argv = nat (req_arg END_SIZE (argv ! 3))"

definition arg_count :: "string list \<Rightarrow> nat" where
  "arg_count argv = nat (arg_file_size argv div req_arg END_SIZE (argv ! 3))"

definition letter :: "string list \<Rightarrow> nat \<Rightarrow> byte" where
  "letter argv k = (next_char ^^ k) (first_byte (argv ! 5))"

lemma END_SIZE_value: "END_SIZE = 4194304"
  by (simp add: END_SIZE_def)

lemma req_arg_END: "0 \<le> req_arg END_SIZE s \<and> req_arg END_SIZE s \<le> 4194304"
  using req_arg_range [of END_SIZE s] by (simp add: END_SIZE_value)

lemma args_ok_chunk: "args_ok argv \<Longrightarrow> 0 < arg_chunk argv"
  using req_arg_END [of "argv ! 3"] by (auto simp: args_ok_def arg_chunk_def)

lemma arg_chunk_int: "int (arg_chunk argv) = req_arg END_SIZE (argv ! 3)"
  using req_arg_END [of "argv ! 3"] by (simp add: arg_chunk_def)

lemma arg_chunk_le: "int (arg_chunk argv) \<le> 4194304"
  using req_arg_END [of "argv ! 3"] by (simp add: arg_chunk_int)

lemma arg_count_le: "args_ok argv \<Longrightarrow> int (arg_count argv) \<le> 2147483648"
proof -
  assume ok: "args_ok argv"
  have fs: "0 \<le> arg_file_size argv" "arg_file_size argv \<le> 2147483648"
    using clamp_size_range [of 4096] ok
    by (auto simp: arg_file_size_def args_ok_def args_parsed_def split: sum.splits option.splits
        intro: order_trans [of 0 4096])
  have "arg_file_size argv div req_arg END_SIZE (argv ! 3) \<le> arg_file_size argv div 1"
    using req_arg_END [of "argv ! 3"] ok fs
    by (intro zdiv_mono2) (auto simp: args_ok_def)
  with fs show ?thesis by (simp add: arg_count_def)
qed

section \<open>One round of each loop\<close>

definition rw_file :: "nat \<Rightarrow> nat \<Rightarrow> ofile" where
  "rw_file n off = \<lparr>o_ino = n, o_off = off, o_rd = True, o_wr = True, o_app = False, o_dio = False\<rparr>"

lemma rw_file_sel [simp]:
  "o_ino (rw_file n off) = n" "o_off (rw_file n off) = off" "o_rd (rw_file n off)"
  "o_wr (rw_file n off)" "\<not> o_app (rw_file n off)" "\<not> o_dio (rw_file n off)"
  "(rw_file n off)\<lparr>o_off := k\<rparr> = rw_file n k"
  by (simp_all add: rw_file_def)

lemma flags_rw [simp]: "flags_ofile [O_CREAT, O_RDWR] n = rw_file n 0"
  by (simp add: flags_ofile_def rw_file_def)

lemma log_say [simp]: "w_log w = w_log v @ l \<Longrightarrow> w_log w @ [e] = w_log v @ (l @ [e])"
  by simp

text \<open>
  The writer: while nothing has been reported, the descriptor is at the end of the chunks
  written so far and these hold their letters.
\<close>

definition write_inv ::
  "world \<Rightarrow> int \<Rightarrow> nat \<Rightarrow> nat \<Rightarrow> byte \<Rightarrow> nat \<Rightarrow> byte \<times> buffer \<Rightarrow> world \<Rightarrow> bool" where
  "write_inv w0 fd n s c0 k cb w \<longleftrightarrow>
     w_mem w = w_mem w0 \<and> w_fmax w = w_fmax w0 \<and> w_dir w = w_dir w0 \<and> w_next w = w_next w0
     \<and> (\<exists>l. w_log w = w_log w0 @ l)
     \<and> (k * s \<le> w_fmax w0 \<longrightarrow> w_log w = w_log w0)
     \<and> (w_log w = w_log w0 \<longrightarrow>
          fst cb = (next_char ^^ k) c0 \<and> (\<forall>j < s. snd cb j = (next_char ^^ k) c0)
          \<and> get_fd w fd = Some (rw_file n (k * s))
          \<and> inode.holds_chunks (w_ino w n) s (\<lambda>i. (next_char ^^ i) c0) k)"

lemma u64_result: "- 1 \<le> r \<Longrightarrow> r < int s \<Longrightarrow> int s \<le> 4194304 \<Longrightarrow> u64 r \<noteq> int s"
  by (cases "r = - 1") (simp_all add: u64_neg u64_id)

lemma write_round:
  assumes s: "0 < s" "int s \<le> 4194304" and inv: "write_inv w0 fd n s c0 k cb w"
  shows "wp (integrity_write_round fd (int s) cb) (write_inv w0 fd n s c0 (Suc k)) E w"
proof (cases "w_log w = w_log w0")
  case False
  with inv obtain l where l: "w_log w = w_log w0 @ l" "l \<noteq> []"
    by (auto simp: write_inv_def)
  have "\<not> k * s \<le> w_fmax w0" using inv False by (auto simp: write_inv_def)
  then have "\<not> Suc k * s \<le> w_fmax w0" by simp
  with inv l show ?thesis
    by (cases cb) (simp add: integrity_write_round_def wp_simps Let_def say_def write_inv_def)
next
  case silent: True
  obtain c buf where cb: "cb = (c, buf)" by (cases cb)
  have fd: "get_fd w fd = Some (rw_file n (k * s))"
    and c: "c = (next_char ^^ k) c0" "\<And>j. j < s \<Longrightarrow> buf j = (next_char ^^ k) c0"
    and chunks: "inode.holds_chunks (w_ino w n) s (\<lambda>i. (next_char ^^ i) c0) k"
    and frame: "w_mem w = w_mem w0" "w_fmax w = w_fmax w0" "w_dir w = w_dir w0"
      "w_next w = w_next w0"
    using inv silent by (auto simp: write_inv_def cb)
  show ?thesis
  proof (cases "k * s + s \<le> w_fmax w0")
    case True
    have wr: "sys_write fd buf s w = (int s, set_fd fd (Some (rw_file n (k * s + s)))
        (set_ino n (ino_put (w_ino w n) (k * s) buf s) w))"
      using sys_write_plain [OF fd, of s buf] True s frame by simp
    have "inode.holds_chunks (ino_put (w_ino w n) (k * s) buf s) s
        (\<lambda>i. (next_char ^^ i) c0) (Suc k)"
      using s(1) chunks c(2) by (rule inode.holds_chunks_Suc)
    with s fd silent frame c(1) show ?thesis
      by (simp add: cb integrity_write_round_def wp_simps Let_def wr u64_id write_inv_def
          get_fd_set_fd add.commute)
  next
    case False
    have "fst (sys_write fd buf s w) < int s"
      using sys_write_short [OF fd] False frame s by simp
    then have "u64 (fst (sys_write fd buf s w)) \<noteq> int s"
      using sys_write_ge s by (intro u64_result)
    with False silent frame show ?thesis
      by (simp add: cb integrity_write_round_def wp_simps Let_def say_def write_inv_def add.commute)
  qed
qed

text \<open>
  The reader: it stays silent exactly as long as every chunk so far is complete and has the
  expected first and last byte.
\<close>

definition chunk_ok :: "inode \<Rightarrow> nat \<Rightarrow> (nat \<Rightarrow> byte) \<Rightarrow> nat \<Rightarrow> bool" where
  "chunk_ok f s pat i \<longleftrightarrow> i * s + s \<le> i_size f \<and> i_data f (i * s) = pat i
     \<and> i_data f (i * s + (s - 1)) = pat i"

definition read_inv ::
  "world \<Rightarrow> int \<Rightarrow> nat \<Rightarrow> nat \<Rightarrow> byte \<Rightarrow> nat \<Rightarrow> byte \<times> buffer \<Rightarrow> world \<Rightarrow> bool" where
  "read_inv w0 fd n s c0 k cb w \<longleftrightarrow>
     w_ino w = w_ino w0 \<and> (\<exists>l. w_log w = w_log w0 @ l)
     \<and> (w_log w = w_log w0 \<longleftrightarrow> (\<forall>i < k. chunk_ok (w_ino w0 n) s (\<lambda>i. (next_char ^^ i) c0) i))
     \<and> (w_log w = w_log w0 \<longrightarrow> fst cb = (next_char ^^ k) c0 \<and> get_fd w fd = Some (rw_file n (k * s)))"

lemma read_round:
  assumes s: "0 < s" "int s \<le> 4194304" and inv: "read_inv w0 fd n s c0 k cb w"
  shows "wp (integrity_read_round fd (int s) cb) (read_inv w0 fd n s c0 (Suc k)) E w"
proof (cases "w_log w = w_log w0")
  case False
  with inv obtain l where l: "w_log w = w_log w0 @ l" "l \<noteq> []"
    by (auto simp: read_inv_def)
  with inv have "\<not> (\<forall>i < Suc k. chunk_ok (w_ino w0 n) s (\<lambda>i. (next_char ^^ i) c0) i)"
    by (auto simp: read_inv_def less_Suc_eq)
  with inv l show ?thesis
    by (cases cb) (simp add: integrity_read_round_def wp_simps Let_def say_def read_inv_def
        split_beta)
next
  case silent: True
  obtain c buf where cb: "cb = (c, buf)" by (cases cb)
  let ?f = "w_ino w0 n" and ?pat = "\<lambda>i. (next_char ^^ i) c0"
  have fd: "get_fd w fd = Some (rw_file n (k * s))" and c: "c = (next_char ^^ k) c0"
    and ino: "w_ino w = w_ino w0" and before: "\<forall>i < k. chunk_ok ?f s ?pat i"
    using inv silent by (auto simp: read_inv_def cb)
  have step: "(\<forall>i < Suc k. chunk_ok ?f s ?pat i) \<longleftrightarrow> chunk_ok ?f s ?pat k"
    using before by (auto simp: less_Suc_eq)
  show ?thesis
  proof (cases "k * s + s \<le> i_size ?f")
    case True
    have rd: "sys_read fd buf s w = ((int s, blit buf 0 (i_data ?f) (k * s) s),
        set_fd fd (Some (rw_file n (k * s + s))) w)"
      using sys_read_plain [OF fd, of s buf] True by (simp add: ino)
    have ok: "chunk_ok ?f s ?pat k \<longleftrightarrow>
        i_data ?f (k * s) = (next_char ^^ k) c0 \<and> i_data ?f (k * s + (s - 1)) = (next_char ^^ k) c0"
      using True by (simp add: chunk_ok_def)
    show ?thesis
      using s fd silent
      by (auto simp: cb integrity_read_round_def wp_simps Let_def rd u64_id say_def
          read_inv_def get_fd_set_fd ino step ok c add.commute)
  next
    case False
    have "fst (fst (sys_read fd buf s w)) < int s"
      using sys_read_short [OF fd] False s by (simp add: ino)
    then have "u64 (fst (fst (sys_read fd buf s w))) \<noteq> int s"
      using sys_read_ge s by (intro u64_result)
    moreover have "\<not> chunk_ok ?f s ?pat k" using False by (simp add: chunk_ok_def)
    ultimately show ?thesis
      using silent
      by (simp add: cb integrity_read_round_def wp_simps Let_def say_def read_inv_def split_beta
          ino step)
  qed
qed

section \<open>The whole programs\<close>

lemma open_test1:
  assumes "sys_open test1 [O_CREAT, O_RDWR] w = (fd, w')"
  obtains n where "w_dir w' test1 = Some n" and "get_fd w' fd = Some (rw_file n 0)"
    and "0 \<le> fd" and "w_log w' = w_log w" and "w_mem w' = w_mem w" and "w_fmax w' = w_fmax w"
    and "w_dir w test1 = Some n \<Longrightarrow> w_ino w' = w_ino w"
    and "\<And>p m. w_dir w p = Some m \<Longrightarrow> w_dir w' p = Some m"
    and "\<And>fd'. get_fd w fd' \<noteq> None \<Longrightarrow> get_fd w' fd' = get_fd w fd'"
    and "wf_world w \<longrightarrow> wf_world w'"
  by (rule sys_open_creat [OF assms]) (simp_all add: test1_def)

lemma lseek_rw: "get_fd w fd = Some (rw_file n k) \<Longrightarrow> 0 \<le> off \<Longrightarrow>
  sys_lseek fd off w = (off, set_fd fd (Some (rw_file n (nat off))) w)"
  by (simp add: sys_lseek_def)

lemma args_parsedD:
  assumes "args_parsed argv"
  shows "\<not> length argv < 6" "c_strcpy 20 (argv ! 1) = Inr (argv ! 1)"
    "c_strcpy 40 (argv ! 2) = Inr (argv ! 2)" "c_strcpy 60 (argv ! 5) = Inr (argv ! 5)"
    "\<exists>n. size_arg (argv ! 4) = Inr (Some n) \<and> clamp_size 4096 n = arg_file_size argv"
  using assms
  by (auto simp: args_parsed_def c_strcpy_def arg_file_size_def split: sum.splits option.splits)

lemma args_okD:
  assumes "args_ok argv"
  shows "args_parsed argv" "req_arg END_SIZE (argv ! 3) \<noteq> 0"
  using assms by (simp_all add: args_ok_def)

definition written :: "string list \<Rightarrow> world \<Rightarrow> world \<Rightarrow> bool" where
  "written argv w w' \<longleftrightarrow>
     w_mem w' = w_mem w \<and> (\<exists>l. w_log w' = w_log w @ l) \<and> (wf_world w \<longrightarrow> wf_world w')
     \<and> (arg_count argv * arg_chunk argv \<le> w_fmax w \<longrightarrow> w_log w' = w_log w)
     \<and> (\<exists>n. w_dir w' test1 = Some n \<and> (w_log w' = w_log w \<longrightarrow>
          inode.holds_chunks (w_ino w' n) (arg_chunk argv) (letter argv) (arg_count argv)))"

lemma integrity_write_wp:
  assumes ok: "args_ok argv" and mem: "END_SIZE \<le> w_mem w"
  shows "wp (integrity_write_main argv)
    (\<lambda>r w'. r = 0 \<and> arg_count argv \<noteq> 2147483648 \<and> written argv w w')
    (\<lambda>e w'. e = Trap Int_Overflow \<and> arg_count argv = 2147483648) w"
proof -
  let ?s = "arg_chunk argv" and ?c = "first_byte (argv ! 5)"
  obtain fd w1 where op: "sys_open test1 [O_CREAT, O_RDWR] w = (fd, w1)" by fastforce
  obtain n where n: "w_dir w1 test1 = Some n" "get_fd w1 fd = Some (rw_file n 0)"
    and frame: "w_log w1 = w_log w" "w_mem w1 = w_mem w" "w_fmax w1 = w_fmax w"
      "wf_world w \<longrightarrow> wf_world w1"
    by (rule open_test1 [OF op])
  define w2 where "w2 = set_fd fd (Some (rw_file n 0)) w1"
  have seek: "sys_lseek fd 0 w1 = (0, w2)" using lseek_rw [OF n(2), of 0] by (simp add: w2_def)
  have inv0: "write_inv w2 fd n ?s ?c 0 (?c, memset (w_junk w) 0 ?c ?s) w2"
    using n by (simp add: write_inv_def w2_def get_fd_set_fd inode.holds_chunks_0)
  have loop: "wp (for_int (arg_count argv) 0 (\<lambda>i. integrity_write_round fd (int ?s))
      (?c, memset (w_junk w) 0 ?c ?s))
    (\<lambda>cb w'. arg_count argv \<noteq> 2147483648 \<and> written argv w (snd (sys_close fd w')))
    (\<lambda>e w'. e = Trap Int_Overflow \<and> arg_count argv = 2147483648) w2"
  proof (rule wp_for_int_any [where I = "write_inv w2 fd n ?s ?c"])
    show "wp (integrity_write_round fd (int ?s) a) (write_inv w2 fd n ?s ?c (Suc k)) (\<lambda>_ _. False) v"
      if "write_inv w2 fd n ?s ?c k a v" for k a v
      using args_ok_chunk [OF ok] arg_chunk_le that by (rule write_round)
    show "arg_count argv \<noteq> 2147483648 \<and> written argv w (snd (sys_close fd v))"
      if "write_inv w2 fd n ?s ?c (arg_count argv) a v" "0 + int (arg_count argv) \<le> 2147483647" for a v
      using that n frame by (auto simp: write_inv_def written_def w2_def letter_def [abs_def] wf_world_def)
  qed (use inv0 arg_count_le [OF ok] in auto)
  show ?thesis
    using args_okD [OF ok] args_parsedD [OF args_okD(1) [OF ok]] mem loop arg_chunk_int [of argv]
    by (auto simp: integrity_write_main_def wp_simps with_size_def with_buffer_def Let_def op seek
        arg_chunk_def arg_count_def)
qed

text \<open>A run of the writer that reports nothing had good arguments and its buffer.\<close>

lemma write_silent:
  "wp (integrity_write_main argv)
     (\<lambda>r w'. w_log w' = w_log w \<longrightarrow> args_ok argv \<and> END_SIZE \<le> w_mem w) (\<lambda>_ _. True) w"
proof (cases "args_ok argv \<and> END_SIZE \<le> w_mem w")
  case True
  then show ?thesis by (simp add: wp_def split: prod.splits sum.splits)
next
  case False
  have ext: "w_log w1 = w_log w" if "sys_open test1 [O_CREAT, O_RDWR] w = (fd, w1)" for fd w1
    using that by (rule open_test1)
  from False show ?thesis
    by (auto simp: integrity_write_main_def wp_simps with_size_def with_buffer_def Let_def say_def
        args_ok_def args_parsed_def c_strcpy_def split: sum.splits option.splits)
qed

lemma integrity_read_wp:
  assumes ok: "args_ok argv" and mem: "END_SIZE \<le> w_mem w" and name: "argv ! 5 \<noteq> []"
    and wf: "wf_world w" and exists: "w_dir w test1 = Some n"
  shows "wp (integrity_read_main argv) (\<lambda>r w'. r = 0
      \<and> (w_log w' = w_log w \<longleftrightarrow>
           (\<forall>i < arg_count argv. chunk_ok (w_ino w n) (arg_chunk argv) (letter argv) i)))
    (\<lambda>e w'. e = Trap Int_Overflow \<and> arg_count argv = 2147483648) w"
proof -
  let ?s = "arg_chunk argv" and ?c = "first_byte (argv ! 5)"
  have ne: "n \<noteq> w_next w" using wf exists by (auto simp: wf_world_def)
  obtain out w0 where fop: "c_fopen_a (argv ! 5) w = (out, w0)" by fastforce
  have w0: "w_dir w0 test1 = Some n" "w_ino w0 n = w_ino w n" "w_log w0 = w_log w"
    "w_mem w0 = w_mem w" "w_junk w0 = w_junk w" "get_fd w0 out \<noteq> None" "0 \<le> out"
    using fop name exists ne unfolding c_fopen_a_def by (auto elim!: sys_open_creat)
  obtain fd w1 where op: "sys_open test1 [O_CREAT, O_RDWR] w0 = (fd, w1)" by fastforce
  have n: "get_fd w1 fd = Some (rw_file n 0)" "w_ino w1 n = w_ino w n" "w_log w1 = w_log w"
    using op w0 by (auto elim!: open_test1)
  define w2 where "w2 = set_fd fd (Some (rw_file n 0)) w1"
  have seek: "sys_lseek fd 0 w1 = (0, w2)" using lseek_rw [OF n(1), of 0] by (simp add: w2_def)
  have inv0: "read_inv w2 fd n ?s ?c 0 (?c, memset (w_junk w) 0 ?c ?s) w2"
    using n by (simp add: read_inv_def w2_def get_fd_set_fd)
  have loop: "wp (for_int (arg_count argv) 0 (\<lambda>i. integrity_read_round fd (int ?s))
      (?c, memset (w_junk w) 0 ?c ?s))
    (\<lambda>cb w'. w_log w' = w_log w \<longleftrightarrow> (\<forall>i < arg_count argv. chunk_ok (w_ino w n) ?s (letter argv) i))
    (\<lambda>e w'. e = Trap Int_Overflow \<and> arg_count argv = 2147483648) w2"
  proof (rule wp_for_int_any [where I = "read_inv w2 fd n ?s ?c"])
    show "wp (integrity_read_round fd (int ?s) a) (read_inv w2 fd n ?s ?c (Suc k)) (\<lambda>_ _. False) v"
      if "read_inv w2 fd n ?s ?c k a v" for k a v
      using args_ok_chunk [OF ok] arg_chunk_le that by (rule read_round)
    show "w_log v = w_log w \<longleftrightarrow> (\<forall>i < arg_count argv. chunk_ok (w_ino w n) ?s (letter argv) i)"
      if "read_inv w2 fd n ?s ?c (arg_count argv) a v" for a v
      using that n by (simp add: read_inv_def w2_def letter_def [abs_def])
  qed (use inv0 arg_count_le [OF ok] in auto)
  show ?thesis
    using args_okD [OF ok] args_parsedD [OF args_okD(1) [OF ok]] mem loop arg_chunk_int [of argv] w0
    by (auto simp: integrity_read_main_def wp_simps with_size_def with_buffer_def Let_def op seek
        fop c_fclose_def arg_chunk_def arg_count_def)
qed

lemma holds_chunks_ok:
  assumes "inode.holds_chunks f s pat k" and "0 < s" and "i < k"
  shows "chunk_ok f s pat i"
  using inode.holds_chunks_byte [OF assms(1,3), of 0] inode.holds_chunks_byte [OF assms(1,3), of "s - 1"]
    assms(2) by (simp add: chunk_ok_def)

section \<open>Properties\<close>

text \<open>The arguments of the concrete runs below.\<close>

definition sample_argv :: "string list" where
  "sample_argv = [''test'', ''pmfs'', ''posix'', ''2048'', ''4K'', ''a'']"

lemma sample_size: "size_arg ''4K'' = Inr (Some 4096)"
  by code_simp

lemma sample_req: "req_arg END_SIZE ''2048'' = 2048"
  by code_simp

lemma sample_args:
  "args_ok sample_argv" "arg_count sample_argv = 2" "arg_chunk sample_argv = 2048"
  "sample_argv ! 5 = ''a''"
  by (simp_all add: args_ok_def args_parsed_def arg_count_def arg_chunk_def arg_file_size_def sample_argv_def
      sample_size sample_req clamp_size_def)

lemma letter_fits: "arg_count argv * arg_chunk argv \<le> w_fmax w \<Longrightarrow> written argv w w' \<Longrightarrow> w_log w' = w_log w"
  by (simp add: written_def)

lemma write_returns:
  assumes "args_ok argv" "END_SIZE \<le> w_mem w" "arg_count argv \<noteq> 2147483648"
  shows "\<exists>w'. integrity_write_main argv w = (Inr 0, w') \<and> written argv w w'"
proof -
  have "wp (integrity_write_main argv) (\<lambda>r w'. r = 0 \<and> written argv w w') (\<lambda>_ _. False) w"
    using integrity_write_wp [OF assms(1,2)] assms(3) by (auto elim!: wp_mono)
  from wp_returns [OF this] show ?thesis by auto
qed

lemma sample_write:
  "\<exists>w'. integrity_write_main sample_argv fresh_world = (Inr 0, w') \<and> written sample_argv fresh_world w'
     \<and> w_log w' = []"
  using write_returns [of sample_argv fresh_world]
  by (auto simp: sample_args END_SIZE_value written_def)

text \<open>
  C4: the writer and the reader agree.  If \<open>integrity_test2_write\<close> returns and reports nothing,
  then \<open>integrity_test2_read\<close>, run on the file system it leaves with the same arguments,
  returns 0 and reports nothing: no chunk has a wrong size, no first or last byte differs.
  The last argument must not be empty, since the reader passes it to \<open>fopen\<close>.
\<close>

theorem integrity_roundtrip:
  assumes "wf_world w" and "integrity_write_main argv w = (Inr r, w1)"
    and "w_log w1 = w_log w" and "argv ! 5 \<noteq> []"
  shows "\<exists>w2. integrity_read_main argv w1 = (Inr 0, w2) \<and> w_log w2 = w_log w1"
proof -
  have ok: "args_ok argv" "END_SIZE \<le> w_mem w"
    using wp_result [OF write_silent assms(2)] assms(3) by auto
  have cnt: "arg_count argv \<noteq> 2147483648" and wr: "written argv w w1"
    using integrity_write_wp [OF ok] assms(2) by (auto simp: wp_def)
  then obtain n where n: "w_dir w1 test1 = Some n"
    and chunks: "inode.holds_chunks (w_ino w1 n) (arg_chunk argv) (letter argv) (arg_count argv)"
    and env: "w_mem w1 = w_mem w" "wf_world w1"
    using assms(1,3) by (auto simp: written_def)
  have "\<forall>i < arg_count argv. chunk_ok (w_ino w1 n) (arg_chunk argv) (letter argv) i"
    using holds_chunks_ok [OF chunks args_ok_chunk [OF ok(1)]] by blast
  then have "wp (integrity_read_main argv) (\<lambda>r w'. r = 0 \<and> w_log w' = w_log w1) (\<lambda>_ _. False) w1"
    using integrity_read_wp [OF ok(1) _ assms(4) env(2) n] ok(2) env(1) cnt
    by (auto elim!: wp_mono)
  from wp_returns [OF this] show ?thesis by auto
qed

theorem integrity_roundtrip_witness:
  "\<exists>w1 w2. integrity_write_main sample_argv fresh_world = (Inr 0, w1)
     \<and> integrity_read_main sample_argv w1 = (Inr 0, w2) \<and> w_log w2 = []"
proof -
  obtain w1 where w1: "integrity_write_main sample_argv fresh_world = (Inr 0, w1)" "w_log w1 = []"
    using sample_write by auto
  then show ?thesis
    using integrity_roundtrip [OF wf_fresh_world w1(1)] by (auto simp: sample_args)
qed

text \<open>
  C14: the reader detects.  On an existing file it reports nothing exactly if every chunk of the
  requested range lies inside the file and starts and ends with its expected letter.
\<close>

theorem integrity_reader_detects:
  assumes "args_ok argv" and "END_SIZE \<le> w_mem w" and "argv ! 5 \<noteq> []" and "wf_world w"
    and "w_dir w test1 = Some n" and "arg_count argv < 2147483648"
  shows "\<exists>w'. integrity_read_main argv w = (Inr 0, w')
    \<and> (w_log w' = w_log w \<longleftrightarrow>
         (\<forall>i < arg_count argv. chunk_ok (w_ino w n) (arg_chunk argv) (letter argv) i))"
proof -
  have "wp (integrity_read_main argv) (\<lambda>r w'. r = 0 \<and> (w_log w' = w_log w \<longleftrightarrow>
      (\<forall>i < arg_count argv. chunk_ok (w_ino w n) (arg_chunk argv) (letter argv) i)))
    (\<lambda>_ _. False) w"
    using integrity_read_wp [OF assms(1-5)] assms(6) by (auto elim!: wp_mono)
  from wp_returns [OF this] show ?thesis by auto
qed

text \<open>A file system with an empty test file, on which the reader must complain.\<close>

definition one_file_world :: world where
  "one_file_world = fresh_world\<lparr>w_dir := (\<lambda>_. None)(test1 := Some 0), w_next := 1\<rparr>"

lemma one_file_world_sel [simp]:
  "w_dir one_file_world test1 = Some 0" "w_mem one_file_world = 67108864"
  "w_log one_file_world = []" "w_ino one_file_world n = empty_inode" "wf_world one_file_world"
  by (simp_all add: one_file_world_def wf_world_def)

theorem integrity_reader_detects_witness:
  "\<exists>w'. integrity_read_main sample_argv one_file_world = (Inr 0, w') \<and> w_log w' \<noteq> []"
proof -
  have "\<not> chunk_ok empty_inode 2048 (letter sample_argv) 0"
    by (simp add: chunk_ok_def empty_inode_def)
  then show ?thesis
    using integrity_reader_detects [of sample_argv one_file_world 0]
    by (auto simp: sample_args END_SIZE_value)
qed

text \<open>
  C15: what the writer leaves.  With good arguments and room for the file it returns 0 without a
  report and byte \<open>j\<close> of the written range holds the letter of chunk \<open>j div size\<close>, counted
  from the first character of the last argument by the program's own wrap-around.
\<close>

theorem integrity_write_content:
  assumes "args_ok argv" and "END_SIZE \<le> w_mem w" and "arg_count argv < 2147483648"
    and "arg_count argv * arg_chunk argv \<le> w_fmax w"
  shows "\<exists>w' n. integrity_write_main argv w = (Inr 0, w') \<and> w_log w' = w_log w
    \<and> w_dir w' test1 = Some n \<and> arg_count argv * arg_chunk argv \<le> i_size (w_ino w' n)
    \<and> (\<forall>j < arg_count argv * arg_chunk argv.
         i_data (w_ino w' n) j = letter argv (j div arg_chunk argv))"
  using write_returns [OF assms(1,2)] assms(3,4)
  by (fastforce simp: written_def inode.holds_chunks_def)

theorem integrity_write_content_witness:
  "\<exists>w' n. integrity_write_main sample_argv fresh_world = (Inr 0, w') \<and> w_dir w' test1 = Some n
     \<and> i_data (w_ino w' n) 2047 = 97 \<and> i_data (w_ino w' n) 2048 = 98"
proof -
  have "first_byte ''a'' = 97" "next_char 97 = 98" by code_simp+
  then have "letter sample_argv 0 = 97" "letter sample_argv 1 = 98"
    by (simp_all add: letter_def sample_args)
  then show ?thesis
    using integrity_write_content [of sample_argv fresh_world]
    by (fastforce simp: sample_args END_SIZE_value)
qed

lemma arg_count_max:
  assumes "args_ok argv"
  shows "arg_count argv = 2147483648 \<longleftrightarrow>
    req_arg END_SIZE (argv ! 3) = 1 \<and> arg_file_size argv = 2147483648"
proof -
  let ?r = "req_arg END_SIZE (argv ! 3)" and ?f = "arg_file_size argv"
  have r: "0 < ?r" using assms req_arg_END [of "argv ! 3"] by (auto simp: args_ok_def)
  have f: "0 \<le> ?f" "?f \<le> 2147483648"
    using clamp_size_range [of 4096] assms
    by (auto simp: arg_file_size_def args_ok_def args_parsed_def split: sum.splits option.splits
        intro: order_trans [of 0 4096])
  have "?f div ?r \<le> 1073741824" if "?r \<noteq> 1"
  proof -
    have "?f div ?r \<le> ?f div 2" using r that f by (intro zdiv_mono2) auto
    with f show ?thesis by simp
  qed
  moreover have "?f div ?r = ?f" if "?r = 1" using that by simp
  ultimately show ?thesis using f by (cases "?r = 1") (auto simp: arg_count_def)
qed

text \<open>
  How the writer ends.  Once its arguments are read and the buffer is there, it returns 0,
  with two exceptions: a request size of 0 divides by zero, and a request size of 1 with the
  largest file size asks for \<open>2^31\<close> rounds, one more than the loop counter \<open>int i\<close> can count.
\<close>

theorem integrity_write_ends:
  assumes "args_parsed argv" and "END_SIZE \<le> w_mem w"
  shows "fst (integrity_write_main argv w) =
    (if req_arg END_SIZE (argv ! 3) = 0 then Inl (Trap Div_By_Zero)
     else if req_arg END_SIZE (argv ! 3) = 1 \<and> arg_file_size argv = 2147483648
       then Inl (Trap Int_Overflow)
     else Inr 0)"
proof (cases "req_arg END_SIZE (argv ! 3) = 0")
  case True
  have "wp (integrity_write_main argv) (\<lambda>_ _. False) (\<lambda>e _. e = Trap Div_By_Zero) w"
    using args_parsedD [OF assms(1)] assms(2) True
    by (auto simp: integrity_write_main_def wp_simps with_size_def with_buffer_def Let_def)
  with True show ?thesis by (auto simp: wp_def split: prod.splits sum.splits)
next
  case False
  with assms(1) have ok: "args_ok argv" by (simp add: args_ok_def)
  show ?thesis
    using integrity_write_wp [OF ok assms(2)] False arg_count_max [OF ok]
    by (auto simp: wp_def split: prod.splits sum.splits)
qed

theorem integrity_write_ends_witness:
  "fst (integrity_write_main [''test'', ''pmfs'', ''posix'', ''1'', ''2G'', ''a''] fresh_world)
     = Inl (Trap Int_Overflow)"
proof -
  have "size_arg ''2G'' = Inr (Some 2147483648)" "req_arg END_SIZE ''1'' = 1" by code_simp+
  then show ?thesis
    using integrity_write_ends [of "[''test'', ''pmfs'', ''posix'', ''1'', ''2G'', ''a'']" fresh_world]
    by (simp add: args_parsed_def arg_file_size_def clamp_size_def END_SIZE_value)
qed

end
