(* ===== verification/Latency.thy ===== *)
theory Latency
  imports Integrity
begin

text \<open>
  The latency tests: \<open>latency_write.c\<close> writes a file in equal requests with an \<open>fsync\<close> after each,
  \<open>latency_direct.c\<close> does so with \<open>O_DIRECT\<close> and without \<open>fsync\<close>, \<open>latency_read.c\<close> reads it.
  All three divide the elapsed time by the number of requests.  The nanoseconds that the two
  \<open>clock_gettime\<close> calls measure are the argument \<open>time1\<close> of the programs.
\<close>

section \<open>The programs\<close>

definition latency_write_main :: "int \<Rightarrow> string list \<Rightarrow> int wprog" where
  "latency_write_main time1 argv =
     (if length argv < 4 then bindP (say Usage) (\<lambda>_. ret 0)
      else
      with_size 4096 (argv ! 2) (\<lambda>FILE_SIZE.
      bindP (try_res (c_strcpy 60 (argv ! 3))) (\<lambda>filename.
      let c = first_byte filename in
      with_buffer END_SIZE (\<lambda>buf.
      bindP (call (sys_open test1 [O_CREAT, O_RDWR])) (\<lambda>fd.
      let sz = req_arg END_SIZE (argv ! 1);
          buf = memset buf 0 c (nat sz) in
      bindP (call (sys_lseek fd 0)) (\<lambda>_.
      if sz = 0 then trap Div_By_Zero
      else
      let count = FILE_SIZE div sz in
      bindP (for_int (nat count) 0
               (\<lambda>i _. bindP (call (sys_write fd buf (nat sz))) (\<lambda>r.
                      bindP (whenP (r \<noteq> sz) (say Err_Plain)) (\<lambda>_.
                      bindP (call (sys_fsync fd)) (\<lambda>_. ret ())))) ()) (\<lambda>_.
      if count = 0 \<or> time1 div 1000 = 0 then trap Div_By_Zero
      else
      bindP (say (Report (time1 div count) (FILE_SIZE div (time1 div 1000)))) (\<lambda>_.
      bindP (call (sys_close fd)) (\<lambda>_. ret 0)))))))))"

definition latency_direct_main :: "int \<Rightarrow> string list \<Rightarrow> int wprog" where
  "latency_direct_main time1 argv =
     (if length argv < 4 then bindP (say Usage) (\<lambda>_. ret 0)
      else
      with_size 4096 (argv ! 2) (\<lambda>FILE_SIZE.
      bindP (try_res (c_strcpy 60 (argv ! 3))) (\<lambda>filename.
      let c = first_byte filename in
      with_buffer END_SIZE (\<lambda>buf.
      bindP (call (sys_open test1 [O_CREAT, O_RDWR, O_DIRECT])) (\<lambda>fd.
      let sz = req_arg END_SIZE (argv ! 1);
          buf = memset buf 0 c (nat sz) in
      bindP (call (sys_lseek fd 0)) (\<lambda>_.
      if sz = 0 then trap Div_By_Zero
      else
      let count = FILE_SIZE div sz in
      bindP (for_int (nat count) 0
               (\<lambda>i _. bindP (call (sys_write fd buf (nat sz))) (\<lambda>r.
                      whenP (r \<noteq> sz) (say Err_Plain))) ()) (\<lambda>_.
      if count = 0 then trap Div_By_Zero
      else
      bindP (say (Report (time1 div count) 0)) (\<lambda>_.
      bindP (call (sys_close fd)) (\<lambda>_. ret 0)))))))))"

definition latency_read_main :: "int \<Rightarrow> string list \<Rightarrow> int wprog" where
  "latency_read_main time1 argv =
     (if length argv < 4 then bindP (say Usage) (\<lambda>_. ret 0)
      else
      with_size 4096 (argv ! 2) (\<lambda>FILE_SIZE.
      bindP (try_res (c_strcpy 60 (argv ! 3))) (\<lambda>filename.
      let c = first_byte filename in
      with_buffer END_SIZE (\<lambda>buf.
      bindP (call (sys_open test1 [O_CREAT, O_RDWR])) (\<lambda>fd.
      let sz = req_arg END_SIZE (argv ! 1);
          buf = memset buf 0 c (nat sz) in
      bindP (call (sys_lseek fd 0)) (\<lambda>_.
      if sz = 0 then trap Div_By_Zero
      else
      let count = FILE_SIZE div sz in
      bindP (for_int (nat count) 0
               (\<lambda>i buf. bindP (call (sys_read fd buf (nat sz))) (\<lambda>(r, buf).
                        bindP (whenP (r \<noteq> sz) (say Err_Plain)) (\<lambda>_. ret buf))) buf) (\<lambda>_.
      if count = 0 then trap Div_By_Zero
      else
      bindP (say (Report (time1 div count) 0)) (\<lambda>_.
      bindP (call (sys_close fd)) (\<lambda>_. ret 0)))))))))"

section \<open>What the arguments decide\<close>

definition lat_size :: "string list \<Rightarrow> nat" where
  "lat_size argv = nat (req_arg END_SIZE (argv ! 1))"

definition lat_file_size :: "string list \<Rightarrow> int" where
  "lat_file_size argv =
     (case size_arg (argv ! 2) of Inr (Some n) \<Rightarrow> clamp_size 4096 n | _ \<Rightarrow> 0)"

definition lat_count :: "string list \<Rightarrow> nat" where
  "lat_count argv = nat (lat_file_size argv div int (lat_size argv))"

definition lat_ok :: "string list \<Rightarrow> bool" where
  "lat_ok argv \<longleftrightarrow> 4 \<le> length argv \<and> length (argv ! 3) < 60
     \<and> (case size_arg (argv ! 2) of Inr (Some n) \<Rightarrow> True | _ \<Rightarrow> False)"

lemma lat_okD:
  assumes "lat_ok argv"
  shows "\<not> length argv < 4" "c_strcpy 60 (argv ! 3) = Inr (argv ! 3)"
    "\<exists>n. size_arg (argv ! 2) = Inr (Some n) \<and> clamp_size 4096 n = lat_file_size argv"
  using assms by (auto simp: lat_ok_def c_strcpy_def lat_file_size_def split: sum.splits option.splits)

lemma lat_size_int: "req_arg END_SIZE (argv ! 1) = int (lat_size argv)"
  using req_arg_END [of "argv ! 1"] by (simp add: lat_size_def)

lemmas lat_size_simp = lat_size_int [simplified One_nat_def]

lemma lat_file_range: "lat_ok argv \<Longrightarrow> 4096 \<le> lat_file_size argv \<and> lat_file_size argv \<le> 2147483648"
  using clamp_size_range [of 4096] by (auto simp: lat_ok_def lat_file_size_def split: sum.splits option.splits)

lemma lat_count_facts:
  assumes "lat_ok argv" "0 < lat_size argv"
  shows "lat_file_size argv div int (lat_size argv) = int (lat_count argv)"
    and "int (lat_count argv) \<le> 2147483648"
    and "lat_count argv = 0 \<longleftrightarrow> lat_file_size argv < int (lat_size argv)"
    and "lat_count argv = 2147483648 \<longleftrightarrow> lat_size argv = 1 \<and> lat_file_size argv = 2147483648"
proof -
  let ?f = "lat_file_size argv" and ?s = "int (lat_size argv)"
  note f = lat_file_range [OF assms(1)]
  have s: "0 < ?s" using assms(2) by simp
  show eq: "?f div ?s = int (lat_count argv)"
    using f s by (simp add: lat_count_def pos_imp_zdiv_nonneg_iff)
  have "?f div ?s \<le> ?f div 1" using f s by (intro zdiv_mono2) auto
  with f show "int (lat_count argv) \<le> 2147483648" by (simp add: eq)
  have "int (lat_count argv) = 0 \<longleftrightarrow> ?f < ?s"
    unfolding eq [symmetric] using f s pos_imp_zdiv_pos_iff [OF s, of ?f]
    by (cases "?f < ?s") (simp_all add: div_pos_pos_trivial)
  then show "lat_count argv = 0 \<longleftrightarrow> ?f < ?s" by simp
  have "int (lat_count argv) \<le> 1073741824" if "lat_size argv \<noteq> 1"
  proof -
    have "?f div ?s \<le> ?f div 2" using s that f assms(2) by (intro zdiv_mono2) auto
    moreover have "?f div 2 \<le> 1073741824" using f zdiv_mono1 [of ?f 2147483648 2] by simp
    ultimately show ?thesis unfolding eq by linarith
  qed
  moreover have "int (lat_count argv) = ?f" if "lat_size argv = 1" using that eq by simp
  ultimately show "lat_count argv = 2147483648 \<longleftrightarrow> lat_size argv = 1 \<and> ?f = 2147483648"
    by (cases "lat_size argv = 1") auto
qed

section \<open>The loops\<close>

text \<open>The writer's file after \<open>k\<close> requests, if the file system has room for them.\<close>

definition fill_inv :: "world \<Rightarrow> int \<Rightarrow> nat \<Rightarrow> nat \<Rightarrow> byte \<Rightarrow> nat \<Rightarrow> world \<Rightarrow> bool" where
  "fill_inv w0 fd n s c k w \<longleftrightarrow> w_log w = w_log w0 \<and> w_fmax w = w_fmax w0 \<and> w_dir w = w_dir w0
     \<and> get_fd w fd = Some (rw_file n (k * s))
     \<and> inode.holds_chunks (w_ino w n) s (\<lambda>_. c) k"

lemma fill_round:
  assumes s: "0 < s" and inv: "fill_inv w0 fd n s c k w" and fit: "Suc k * s \<le> w_fmax w0"
    and buf: "\<And>j. j < s \<Longrightarrow> buf j = c"
  shows "wp (bindP (call (sys_write fd buf (nat (int s)))) (\<lambda>r.
      bindP (whenP (r \<noteq> int s) (say Err_Plain)) (\<lambda>_.
      bindP (call (sys_fsync fd)) (\<lambda>_. ret ())))) (\<lambda>_. fill_inv w0 fd n s c (Suc k)) E w"
proof -
  have fd: "get_fd w fd = Some (rw_file n (k * s))" and fm: "w_fmax w = w_fmax w0"
    and ch: "inode.holds_chunks (w_ino w n) s (\<lambda>_. c) k" using inv by (simp_all add: fill_inv_def)
  have wr: "sys_write fd buf s w = (int s, set_fd fd (Some (rw_file n (k * s + s)))
      (set_ino n (ino_put (w_ino w n) (k * s) buf s) w))"
    using sys_write_plain [OF fd, of s buf] fit s fm by (simp add: add.commute)
  have "inode.holds_chunks (ino_put (w_ino w n) (k * s) buf s) s (\<lambda>_. c) (Suc k)"
    using s ch buf by (rule inode.holds_chunks_Suc)
  then show ?thesis
    using inv fd by (simp add: wp_simps wr sys_fsync_def fill_inv_def get_fd_set_fd add.commute)
qed

lemma latency_write_wp:
  assumes ok: "lat_ok argv" and s: "0 < lat_size argv" and mem: "END_SIZE \<le> w_mem w"
    and fit: "lat_count argv * lat_size argv \<le> w_fmax w" and cnt: "lat_count argv < 2147483648"
  shows "wp (latency_write_main time1 argv)
    (\<lambda>r w'. r = 0 \<and> (\<exists>n. w_dir w' test1 = Some n
        \<and> inode.holds_chunks (w_ino w' n) (lat_size argv) (\<lambda>_. first_byte (argv ! 3)) (lat_count argv))
        \<and> w_log w' = w_log w @ [Report (time1 div int (lat_count argv)) (lat_file_size argv div (time1 div 1000))])
    (\<lambda>e w'. e = Trap Div_By_Zero \<and> (lat_count argv = 0 \<or> time1 div 1000 = 0)) w"
proof -
  let ?s = "lat_size argv" and ?c = "first_byte (argv ! 3)"
  note C = lat_count_facts [OF ok s]
  obtain fd w1 where op: "sys_open test1 [O_CREAT, O_RDWR] w = (fd, w1)" by fastforce
  obtain n where n: "w_dir w1 test1 = Some n" "get_fd w1 fd = Some (rw_file n 0)"
    and frame: "w_log w1 = w_log w" "w_fmax w1 = w_fmax w"
    by (rule open_test1 [OF op])
  define w2 where "w2 = set_fd fd (Some (rw_file n 0)) w1"
  have seek: "sys_lseek fd 0 w1 = (0, w2)" using lseek_rw [OF n(2), of 0] by (simp add: w2_def)
  have inv0: "fill_inv w2 fd n ?s ?c 0 w2"
    using n by (simp add: fill_inv_def w2_def get_fd_set_fd inode.holds_chunks_0)
  let ?buf = "memset (w_junk w) 0 ?c ?s"
  have loop: "wp (for_int (lat_count argv) 0 (\<lambda>i _. bindP (call (sys_write fd ?buf (nat (int ?s)))) (\<lambda>r.
      bindP (whenP (r \<noteq> int ?s) (say Err_Plain)) (\<lambda>_.
      bindP (call (sys_fsync fd)) (\<lambda>_. ret ())))) ())
    (\<lambda>_. fill_inv w2 fd n ?s ?c (lat_count argv)) (\<lambda>_ _. False) w2"
  proof (rule wp_for_int [where I = "\<lambda>k _. fill_inv w2 fd n ?s ?c k"])
    fix k a v assume k: "k < lat_count argv" and inv: "fill_inv w2 fd n ?s ?c k v"
    have "Suc k * ?s \<le> lat_count argv * ?s" using k by (intro mult_le_mono1) simp
    then have "Suc k * ?s \<le> w_fmax w2" using fit frame by (simp add: w2_def)
    from fill_round [OF s inv this]
    show "wp (bindP (call (sys_write fd ?buf (nat (int ?s)))) (\<lambda>r.
      bindP (whenP (r \<noteq> int ?s) (say Err_Plain)) (\<lambda>_.
      bindP (call (sys_fsync fd)) (\<lambda>_. ret ())))) (\<lambda>_. fill_inv w2 fd n ?s ?c (Suc k)) (\<lambda>_ _. False) v"
      by simp
  qed (use inv0 cnt in auto)
  have post: "wp (if lat_count argv = 0 \<or> time1 div 1000 = 0 then trap Div_By_Zero
      else bindP (say (Report (time1 div int (lat_count argv)) (lat_file_size argv div (time1 div 1000)))) (\<lambda>_.
      bindP (call (sys_close fd)) (\<lambda>_. ret 0)))
    (\<lambda>r w'. r = 0 \<and> (\<exists>n. w_dir w' test1 = Some n
        \<and> inode.holds_chunks (w_ino w' n) ?s (\<lambda>_. ?c) (lat_count argv))
        \<and> w_log w' = w_log w @ [Report (time1 div int (lat_count argv)) (lat_file_size argv div (time1 div 1000))])
    (\<lambda>e w'. e = Trap Div_By_Zero \<and> (lat_count argv = 0 \<or> time1 div 1000 = 0)) v"
    if "fill_inv w2 fd n ?s ?c (lat_count argv) v" for v
    using that n frame by (auto simp: wp_simps say_def fill_inv_def w2_def)
  obtain m where m: "size_arg (argv ! 2) = Inr (Some m)" "clamp_size 4096 m = lat_file_size argv"
    using lat_okD(3) [OF ok] by blast
  have eq: "wp (latency_write_main time1 argv) Q E w =
    wp (for_int (lat_count argv) 0 (\<lambda>i _. bindP (call (sys_write fd ?buf (nat (int ?s)))) (\<lambda>r.
      bindP (whenP (r \<noteq> int ?s) (say Err_Plain)) (\<lambda>_.
      bindP (call (sys_fsync fd)) (\<lambda>_. ret ())))) ())
    (\<lambda>_. wp (if lat_count argv = 0 \<or> time1 div 1000 = 0 then trap Div_By_Zero
      else bindP (say (Report (time1 div int (lat_count argv)) (lat_file_size argv div (time1 div 1000)))) (\<lambda>_.
      bindP (call (sys_close fd)) (\<lambda>_. ret 0))) Q E) E w2" for Q E
    using lat_okD(1,2) [OF ok] mem s m
    by (simp add: latency_write_main_def wp_bindP wp_call wp_try_res with_size_def with_buffer_def Let_def
        op seek lat_size_simp C(1))
  show ?thesis unfolding eq using loop by (rule wp_mono) (simp_all add: post)
qed

text \<open>How the programs end does not depend on what the requests return.\<close>

lemma for_int_ends:
  assumes "int n \<le> 2147483648" and "\<And>i a v. wp (body i a) (\<lambda>_ _. True) (\<lambda>_ _. False) v"
  shows "wp (for_int n 0 body a) (\<lambda>_ _. n \<noteq> 2147483648) (\<lambda>e _. n = 2147483648 \<and> e = Trap Int_Overflow) w"
  using assms by (intro wp_for_int_any [where I = "\<lambda>_ _ _. True"]) auto

definition latency_end :: "bool \<Rightarrow> string list \<Rightarrow> stop + int" where
  "latency_end clock_ok argv =
     (if lat_size argv = 0 then Inl (Trap Div_By_Zero)
      else if lat_size argv = 1 \<and> lat_file_size argv = 2147483648 then Inl (Trap Int_Overflow)
      else if lat_file_size argv < int (lat_size argv) \<or> \<not> clock_ok then Inl (Trap Div_By_Zero)
      else Inr 0)"

lemma latency_ends:
  assumes ok: "lat_ok argv" and mem: "END_SIZE \<le> w_mem w"
  shows "fst (latency_read_main time1 argv w) = latency_end True argv"
    and "fst (latency_direct_main time1 argv w) = latency_end True argv"
    and "fst (latency_write_main time1 argv w) = latency_end (time1 div 1000 \<noteq> 0) argv"
proof -
  obtain m where m: "size_arg (argv ! 2) = Inr (Some m)" "clamp_size 4096 m = lat_file_size argv"
    using lat_okD(3) [OF ok] by blast
  have ends: "fst (p w) = r"
    if "wp p (\<lambda>a _. r = Inr a) (\<lambda>e _. r = Inl e) w" for p :: "int wprog" and r
    using that by (auto simp: wp_def split: prod.splits sum.splits)
  note sim = wp_bindP wp_call wp_try_res with_size_def with_buffer_def Let_def lat_size_simp
  show "fst (latency_read_main time1 argv w) = latency_end True argv"
  proof (cases "lat_size argv = 0")
    case True
    then show ?thesis using lat_okD(1,2) [OF ok] mem m
      by (intro ends) (simp add: latency_read_main_def sim latency_end_def wp_simps)
  next
    case False
    then have s: "0 < lat_size argv" by simp
    note C = lat_count_facts [OF ok s]
    show ?thesis
      using lat_okD(1,2) [OF ok] mem m False C(3,4)
      by (intro ends) (auto simp: latency_read_main_def sim C(1) latency_end_def wp_simps say_def
          case_prod_unfold intro!: wp_mono [OF for_int_ends [OF C(2)]])
  qed
  show "fst (latency_direct_main time1 argv w) = latency_end True argv"
  proof (cases "lat_size argv = 0")
    case True
    then show ?thesis using lat_okD(1,2) [OF ok] mem m
      by (intro ends) (simp add: latency_direct_main_def sim latency_end_def wp_simps)
  next
    case False
    then have s: "0 < lat_size argv" by simp
    note C = lat_count_facts [OF ok s]
    show ?thesis
      using lat_okD(1,2) [OF ok] mem m False C(3,4)
      by (intro ends) (auto simp: latency_direct_main_def sim C(1) latency_end_def wp_simps say_def
          case_prod_unfold intro!: wp_mono [OF for_int_ends [OF C(2)]])
  qed
  show "fst (latency_write_main time1 argv w) = latency_end (time1 div 1000 \<noteq> 0) argv"
  proof (cases "lat_size argv = 0")
    case True
    then show ?thesis using lat_okD(1,2) [OF ok] mem m
      by (intro ends) (simp add: latency_write_main_def sim latency_end_def wp_simps)
  next
    case False
    then have s: "0 < lat_size argv" by simp
    note C = lat_count_facts [OF ok s]
    show ?thesis
      using lat_okD(1,2) [OF ok] mem m False C(3,4)
      by (intro ends) (auto simp: latency_write_main_def sim C(1) latency_end_def wp_simps say_def
          case_prod_unfold intro!: wp_mono [OF for_int_ends [OF C(2)]])
  qed
qed

text \<open>With \<open>O_DIRECT\<close>, a request size that the file system does not accept fails every time.\<close>

lemma direct_write_fails:
  assumes "get_fd w fd = Some f" "o_dio f" "\<not> o_app f" "sz mod w_dio w \<noteq> 0"
  shows "sys_write fd buf sz w = (-1, w)"
  using assms by (simp add: sys_write_def write_at_def dio_ok_def Let_def)

lemma latency_direct_rejects:
  assumes ok: "lat_ok argv" and s: "0 < lat_size argv" and mem: "END_SIZE \<le> w_mem w"
    and cnt: "lat_count argv < 2147483648" "lat_count argv \<noteq> 0"
    and bad: "lat_size argv mod w_dio w \<noteq> 0"
  shows "wp (latency_direct_main time1 argv)
    (\<lambda>r w'. r = 0 \<and> w_log w' = w_log w @ replicate (lat_count argv) Err_Plain @ [Report (time1 div int (lat_count argv)) 0]
        \<and> (\<forall>n. n \<noteq> w_next w \<longrightarrow> w_ino w' n = w_ino w n))
    (\<lambda>_ _. False) w"
proof -
  let ?s = "lat_size argv" and ?c = "first_byte (argv ! 3)"
  note C = lat_count_facts [OF ok s]
  obtain m where m: "size_arg (argv ! 2) = Inr (Some m)" "clamp_size 4096 m = lat_file_size argv"
    using lat_okD(3) [OF ok] by blast
  obtain fd w1 where op: "sys_open test1 [O_CREAT, O_RDWR, O_DIRECT] w = (fd, w1)" by fastforce
  obtain n where n: "get_fd w1 fd = Some (flags_ofile [O_CREAT, O_RDWR, O_DIRECT] n)"
    and frame: "w_log w1 = w_log w" "w_dio w1 = w_dio w" "\<And>m. m \<noteq> w_next w \<Longrightarrow> w_ino w1 m = w_ino w m"
    by (rule sys_open_creat [OF op]) (simp_all add: test1_def)
  define w2 where "w2 = set_fd fd (Some (flags_ofile [O_CREAT, O_RDWR, O_DIRECT] n)) w1"
  have seek: "sys_lseek fd 0 w1 = (0, w2)"
    using n by (simp add: sys_lseek_def w2_def flags_ofile_def)
  let ?I = "\<lambda>k (_ :: unit) v. w_log v = w_log w @ replicate k Err_Plain \<and> w_dio v = w_dio w
      \<and> get_fd v fd = Some (flags_ofile [O_CREAT, O_RDWR, O_DIRECT] n)
      \<and> (\<forall>n. n \<noteq> w_next w \<longrightarrow> w_ino v n = w_ino w n)"
  let ?body = "\<lambda>i _. bindP (call (sys_write fd (memset (w_junk w) 0 ?c ?s) ?s)) (\<lambda>r.
      whenP (r \<noteq> int ?s) (say Err_Plain))"
  have loop: "wp (for_int (lat_count argv) 0 ?body ()) (?I (lat_count argv)) (\<lambda>_ _. False) w2"
  proof (rule wp_for_int [where I = ?I])
    show "?I 0 () w2" using n frame by (simp add: w2_def get_fd_set_fd)
    fix k a v assume I: "?I k a v"
    have wr: "sys_write fd (memset (w_junk w) 0 ?c ?s) ?s v = (-1, v)"
      using I bad by (intro direct_write_fails) (auto simp: flags_ofile_def)
    show "wp (?body (0 + int k) a) (?I (Suc k)) (\<lambda>_ _. False) v"
      using I by (simp add: wp_simps say_def wr replicate_append_same)
  qed (use cnt in auto)
  have eq: "wp (latency_direct_main time1 argv) Q E w =
    wp (for_int (lat_count argv) 0 ?body ())
    (\<lambda>_. wp (bindP (say (Report (time1 div int (lat_count argv)) 0)) (\<lambda>_.
      bindP (call (sys_close fd)) (\<lambda>_. ret 0))) Q E) E w2" for Q E
    using lat_okD(1,2) [OF ok] mem s m cnt(2)
    by (simp add: latency_direct_main_def wp_bindP wp_call wp_try_res with_size_def with_buffer_def Let_def
        op seek lat_size_simp C(1))
  show ?thesis unfolding eq using loop by (rule wp_mono) (simp_all add: wp_simps say_def)
qed

section \<open>Properties\<close>

definition latency_argv :: "string list" where
  "latency_argv = [''test'', ''1000'', ''8K'', ''x'']"

lemma latency_sample:
  "lat_ok latency_argv" "lat_size latency_argv = 1000" "lat_file_size latency_argv = 8192"
  "lat_count latency_argv = 8" "argv ! 3 = ''x'' \<Longrightarrow> first_byte (argv ! 3) = 120"
proof -
  have sz: "size_arg ''8K'' = Inr (Some 8192)" "req_arg END_SIZE ''1000'' = 1000" by code_simp+
  show "lat_ok latency_argv" by (simp add: lat_ok_def latency_argv_def sz)
  show s: "lat_size latency_argv = 1000" by (simp add: lat_size_def latency_argv_def sz)
  show f: "lat_file_size latency_argv = 8192"
    by (simp add: lat_file_size_def latency_argv_def sz clamp_size_def)
  show "lat_count latency_argv = 8" by (simp add: lat_count_def s f)
  show "first_byte (argv ! 3) = 120" if "argv ! 3 = ''x''" unfolding that by code_simp
qed

text \<open>
  What \<open>latency_write\<close> leaves: if the file system has room and the clock advanced by a
  microsecond, the program returns 0 after one result line and no error line, and every byte of
  the written requests is the first character of its last argument.
\<close>

theorem latency_write_fills:
  assumes "lat_ok argv" "0 < lat_size argv" "END_SIZE \<le> w_mem w"
    and "lat_count argv * lat_size argv \<le> w_fmax w" "lat_count argv < 2147483648"
    and "lat_count argv \<noteq> 0" "1000 \<le> time1"
  shows "\<exists>w' n. latency_write_main time1 argv w = (Inr 0, w') \<and> w_dir w' test1 = Some n
    \<and> lat_count argv * lat_size argv \<le> i_size (w_ino w' n)
    \<and> (\<forall>j < lat_count argv * lat_size argv. i_data (w_ino w' n) j = first_byte (argv ! 3))
    \<and> w_log w' = w_log w @ [Report (time1 div int (lat_count argv)) (lat_file_size argv div (time1 div 1000))]"
proof -
  have "0 < time1 div 1000" using assms(7) by (simp add: pos_imp_zdiv_pos_iff)
  then show ?thesis
    using latency_write_wp [OF assms(1-5), of time1] assms(6)
    by (auto simp: wp_def inode.holds_chunks_def split: prod.splits sum.splits)
qed

theorem latency_write_fills_witness:
  "\<exists>w' n. latency_write_main 5000000 latency_argv fresh_world = (Inr 0, w') \<and> w_dir w' test1 = Some n
     \<and> i_data (w_ino w' n) 7999 = 120"
proof -
  have "latency_argv ! 3 = ''x''" by (simp add: latency_argv_def)
  from latency_sample(5) [OF this] show ?thesis
    using latency_write_fills [of latency_argv fresh_world 5000000]
    by (fastforce simp: latency_sample END_SIZE_value)
qed

text \<open>
  How the latency programs end once their arguments are read: a request size of 0 and a
  request size above the file size, which makes the number of requests 0, end in a division by
  zero; a size of 1 with the largest file overflows the loop counter; \<open>latency_write\<close> also
  divides by the elapsed microseconds, which are 0 for a run shorter than one; all other runs
  return 0.
\<close>

theorem latency_programs_end:
  assumes "lat_ok argv" "END_SIZE \<le> w_mem w"
  shows "fst (latency_read_main time1 argv w) = latency_end True argv
    \<and> fst (latency_direct_main time1 argv w) = latency_end True argv
    \<and> fst (latency_write_main time1 argv w) = latency_end (time1 div 1000 \<noteq> 0) argv"
  using latency_ends [OF assms] by blast

theorem latency_programs_end_witness:
  "fst (latency_write_main 999 latency_argv fresh_world) = Inl (Trap Div_By_Zero)
   \<and> fst (latency_read_main 999 latency_argv fresh_world) = Inr 0"
  using latency_programs_end [of latency_argv fresh_world 999]
  by (simp add: latency_sample latency_end_def END_SIZE_value)

text \<open>
  \<open>latency_direct\<close> on a request size that is not a multiple of the alignment the file system
  asks of \<open>O_DIRECT\<close> transfers: every request fails and is reported, no file is changed, and the
  program still prints a latency and returns 0.
\<close>

theorem latency_direct_unaligned:
  assumes "lat_ok argv" "0 < lat_size argv" "END_SIZE \<le> w_mem w"
    and "lat_count argv < 2147483648" "lat_count argv \<noteq> 0" "lat_size argv mod w_dio w \<noteq> 0"
  shows "\<exists>w'. latency_direct_main time1 argv w = (Inr 0, w')
    \<and> w_log w' = w_log w @ replicate (lat_count argv) Err_Plain @ [Report (time1 div int (lat_count argv)) 0]
    \<and> (\<forall>n. n \<noteq> w_next w \<longrightarrow> w_ino w' n = w_ino w n)"
  using wp_returns [OF latency_direct_rejects [OF assms, of time1]] by auto

theorem latency_direct_unaligned_witness:
  "\<exists>w'. latency_direct_main 800 latency_argv (fresh_world\<lparr>w_dio := 512\<rparr>) = (Inr 0, w')
     \<and> w_log w' = replicate 8 Err_Plain @ [Report 100 0]"
  using latency_direct_unaligned [of latency_argv "fresh_world\<lparr>w_dio := 512\<rparr>" 800]
  by (auto simp: latency_sample END_SIZE_value fresh_world_def)

end

