(* ===== verification/Doorbell.thy ===== *)
theory Doorbell
  imports Posix
begin

text \<open>
  \<open>pthread_test.c\<close> once its threads are created: the main thread and up to 16 workers that
  synchronise through the array \<open>doorbell\<close>, one 64-byte line per thread.  In every round the main
  thread fills the buffers, rewinds the descriptors, rings all bells and polls until every bell
  says \<open>FINISHED\<close>; a worker polls its bell, transfers its slice of the file in requests of the
  round's size and answers.

  Every access to a bell, every call and every test of a loop is one step of one thread, and the
  steps of all threads interleave.  The file and its descriptors are shared state; the file system
  takes bytes up to an offset \<open>d_fmax\<close>, so that transfers past it are short or fail, with an
  "ERROR!" line.
\<close>

section \<open>Configuration and state\<close>

datatype fops = Op_read | Op_pread | Op_write | Op_pwrite

record cfg =
  num_threads :: nat
  start_size :: nat
  end_size :: nat
  FILE_SIZE :: nat
  fops :: fops

definition START :: int where "START = 1"
definition FINISHED :: int where "FINISHED = 2"

text \<open>Where the main thread stands; the first number is the round.\<close>

datatype main_pc =
    M_Create nat         \<comment> \<open>\<open>pthread_create\<close> of thread \<open>i\<close>\<close>
  | M_Memset nat nat
  | M_Seek nat nat
  | M_Ring nat nat       \<comment> \<open>\<open>start_all_pthreads\<close>\<close>
  | M_Poll nat nat       \<comment> \<open>\<open>all_pthreads_finished\<close>\<close>
  | M_Report nat         \<comment> \<open>the result lines, with the division \<open>time / count\<close>\<close>
  | M_Join nat
  | M_End
  | M_Crash              \<comment> \<open>SIGFPE\<close>

datatype worker_pc =
    W_New                \<comment> \<open>not yet created\<close>
  | W_Poll nat           \<comment> \<open>\<open>pthread_can_start\<close>\<close>
  | W_Seek nat
  | W_Io nat nat         \<comment> \<open>the test of the transfer loop, with \<open>i\<close> transfers done\<close>
  | W_Bell nat           \<comment> \<open>\<open>signal_pthread_finished\<close>\<close>
  | W_Exit

record dstate =
  d_main :: main_pc
  d_worker :: "nat \<Rightarrow> worker_pc"
  doorbell :: "nat \<Rightarrow> int"
  d_buf :: "nat \<Rightarrow> buffer"
  d_pos :: "nat \<Rightarrow> nat"       \<comment> \<open>file offset of descriptor \<open>fd[i]\<close>\<close>
  d_file :: inode
  d_fmax :: nat              \<comment> \<open>how far the file system lets the file grow\<close>
  d_errors :: nat            \<comment> \<open>"ERROR!" lines\<close>

definition round_size :: "cfg \<Rightarrow> nat \<Rightarrow> nat" where
  "round_size c r = start_size c * 2 ^ r"

definition has_round :: "cfg \<Rightarrow> nat \<Rightarrow> bool" where
  "has_round c r \<longleftrightarrow> round_size c r \<le> end_size c"

definition count :: "cfg \<Rightarrow> nat \<Rightarrow> nat" where
  "count c r = FILE_SIZE c div (num_threads c * round_size c r)"

definition start_offset :: "cfg \<Rightarrow> nat \<Rightarrow> nat" where
  "start_offset c pid = FILE_SIZE c div num_threads c * pid"

definition letter_of :: "nat \<Rightarrow> byte" where
  \<comment> \<open>\<open>c\<close> after \<open>r\<close> increments from \<open>'a'\<close>\<close>
  "letter_of r = 97 + of_nat r"

section \<open>The steps of the main thread\<close>

definition goto_main :: "main_pc \<Rightarrow> dstate \<Rightarrow> dstate" where
  "goto_main pc s = s\<lparr>d_main := pc\<rparr>"

definition goto_worker :: "nat \<Rightarrow> worker_pc \<Rightarrow> dstate \<Rightarrow> dstate" where
  "goto_worker pid pc s = s\<lparr>d_worker := (d_worker s)(pid := pc)\<rparr>"

definition set_bell :: "nat \<Rightarrow> int \<Rightarrow> dstate \<Rightarrow> dstate" where
  "set_bell pid v s = s\<lparr>doorbell := (doorbell s)(pid * 8 := v)\<rparr>"

text \<open>The tests \<open>size <= END_SIZE\<close> of the two loops.\<close>

definition main_top :: "cfg \<Rightarrow> nat \<Rightarrow> main_pc" where
  "main_top c r = (if has_round c r then M_Memset r 0 else M_Join 0)"

definition worker_top :: "cfg \<Rightarrow> nat \<Rightarrow> worker_pc" where
  "worker_top c r = (if has_round c r then W_Poll r else W_Exit)"

fun main_step :: "cfg \<Rightarrow> dstate \<Rightarrow> main_pc \<Rightarrow> dstate option" where
  "main_step c s (M_Create i) = Some
     (if i < num_threads c then goto_main (M_Create (Suc i)) (goto_worker i (worker_top c 0) s)
      else goto_main (main_top c 0) s)"
| "main_step c s (M_Memset r i) = Some
     (if i < num_threads c
      then goto_main (M_Memset r (Suc i))
             (s\<lparr>d_buf := (d_buf s)(i := memset (d_buf s i) 0 (letter_of r) (round_size c r))\<rparr>)
      else goto_main (M_Seek r 0) s)"
| "main_step c s (M_Seek r i) = Some
     (if i < num_threads c then goto_main (M_Seek r (Suc i)) (s\<lparr>d_pos := (d_pos s)(i := 0)\<rparr>)
      else goto_main (M_Ring r 0) s)"
| "main_step c s (M_Ring r i) = Some
     (if i < num_threads c then goto_main (M_Ring r (Suc i)) (set_bell i START s)
      else goto_main (M_Poll r 0) s)"
| "main_step c s (M_Poll r i) = Some
     (if i < num_threads c
      then if doorbell s (i * 8) \<noteq> FINISHED then goto_main (M_Poll r 0) s
           else goto_main (M_Poll r (Suc i)) s
      else goto_main (M_Report r) s)"
| "main_step c s (M_Report r) = Some
     (if count c r = 0 then goto_main M_Crash s else goto_main (main_top c (Suc r)) s)"
| "main_step c s (M_Join i) =
     (if i < num_threads c
      then if d_worker s i = W_Exit then Some (goto_main (M_Join (Suc i)) s) else None
      else Some (goto_main M_End s))"
| "main_step c s M_End = None"
| "main_step c s M_Crash = None"

section \<open>The steps of a worker\<close>

text \<open>One call of \<open>fops\<close> with the check of its result.\<close>

definition transfer :: "cfg \<Rightarrow> nat \<Rightarrow> nat \<Rightarrow> nat \<Rightarrow> dstate \<Rightarrow> dstate" where
  "transfer c pid sz off s =
     (let pos = d_pos s pid; f = d_file s in
      case fops c of
        Op_read \<Rightarrow> let m = avail f pos sz in
          s\<lparr>d_buf := (d_buf s)(pid := blit (d_buf s pid) 0 (i_data f) pos m),
            d_pos := (d_pos s)(pid := pos + m),
            d_errors := d_errors s + (if m \<noteq> sz then 1 else 0)\<rparr>
      | Op_pread \<Rightarrow> let m = avail f off sz in
          s\<lparr>d_buf := (d_buf s)(pid := blit (d_buf s pid) 0 (i_data f) off m),
            d_errors := d_errors s + (if m \<noteq> sz then 1 else 0)\<rparr>
      | Op_write \<Rightarrow> let r = room (d_fmax s) pos sz in
          s\<lparr>d_file := ino_put f pos (d_buf s pid) (nat r), d_pos := (d_pos s)(pid := pos + nat r),
            d_errors := d_errors s + (if r \<noteq> int sz then 1 else 0)\<rparr>
      | Op_pwrite \<Rightarrow> let r = room (d_fmax s) off sz in
          s\<lparr>d_file := ino_put f off (d_buf s pid) (nat r),
            d_errors := d_errors s + (if r \<noteq> int sz then 1 else 0)\<rparr>)"

fun worker_step :: "cfg \<Rightarrow> nat \<Rightarrow> dstate \<Rightarrow> worker_pc \<Rightarrow> dstate option" where
  "worker_step c pid s W_New = None"
| "worker_step c pid s (W_Poll r) = Some
     (if doorbell s (pid * 8) = START then goto_worker pid (W_Seek r) s else s)"
| "worker_step c pid s (W_Seek r) = Some
     (goto_worker pid (W_Io r 0)
        (if fops c = Op_read \<or> fops c = Op_write
         then s\<lparr>d_pos := (d_pos s)(pid := start_offset c pid)\<rparr> else s))"
| "worker_step c pid s (W_Io r i) = Some
     (if i < count c r
      then goto_worker pid (W_Io r (Suc i))
             (transfer c pid (round_size c r) (start_offset c pid + i * round_size c r) s)
      else goto_worker pid (W_Bell r) s)"
| "worker_step c pid s (W_Bell r) = Some
     (goto_worker pid (worker_top c (Suc r)) (set_bell pid FINISHED s))"
| "worker_step c pid s W_Exit = None"

text \<open>The interleavings; the process is gone after a crash or the return of \<open>main\<close>.\<close>

inductive dstep :: "cfg \<Rightarrow> dstate \<Rightarrow> dstate \<Rightarrow> bool" for c where
  main: "main_step c s (d_main s) = Some s' \<Longrightarrow> dstep c s s'"
| worker: "pid < num_threads c \<Longrightarrow> d_main s \<noteq> M_End \<Longrightarrow> d_main s \<noteq> M_Crash \<Longrightarrow>
    worker_step c pid s (d_worker s pid) = Some s' \<Longrightarrow> dstep c s s'"

inductive_cases dstepE: "dstep c s s'"

definition dinit :: "inode \<Rightarrow> (nat \<Rightarrow> buffer) \<Rightarrow> (nat \<Rightarrow> nat) \<Rightarrow> nat \<Rightarrow> dstate" where
  "dinit f bufs pos fmax = \<lparr>d_main = M_Create 0, d_worker = (\<lambda>_. W_New), doorbell = (\<lambda>_. 0),
     d_buf = bufs, d_pos = pos, d_file = f, d_fmax = fmax, d_errors = 0\<rparr>"

inductive reach :: "cfg \<Rightarrow> dstate \<Rightarrow> bool" for c where
  init: "reach c (dinit f bufs pos fmax)"
| step: "reach c s \<Longrightarrow> dstep c s s' \<Longrightarrow> reach c s'"

section \<open>Slices\<close>

lemma round_pos: "0 < start_size c \<Longrightarrow> 0 < round_size c r"
  by (simp add: round_size_def)

lemma count_le: "count c r * round_size c r \<le> FILE_SIZE c div num_threads c"
  by (simp add: count_def div_mult2_eq)

lemma slice_in: "pid < num_threads c \<Longrightarrow> j < count c r * round_size c r \<Longrightarrow>
    start_offset c pid + j < start_offset c (Suc pid)"
  using count_le [of c r] by (simp add: start_offset_def)

lemma slice_mono: "p \<le> q \<Longrightarrow> start_offset c p \<le> start_offset c q"
  by (simp add: start_offset_def)

lemma slice_end: "start_offset c (num_threads c) \<le> FILE_SIZE c"
  by (simp add: start_offset_def mult.commute)

text \<open>The contract of a partition into slices, and what a writer in one slice leaves alone.\<close>

locale partition =
  fixes lo :: "nat \<Rightarrow> nat" and width :: nat
  assumes apart: "p < q \<Longrightarrow> lo p + width \<le> lo q"
begin

lemma distinct: "p \<noteq> q \<Longrightarrow> j < width \<Longrightarrow> k < width \<Longrightarrow> lo p + j \<noteq> lo q + k"
  using apart [of p q] apart [of q p] by (cases p q rule: linorder_cases) auto

lemma put_other:
  assumes "p \<noteq> q" and "off + n \<le> width" and "k < width"
    and "lo q + k < i_size f"
  shows "i_data (ino_put f (lo p + off) src n) (lo q + k) = i_data f (lo q + k)"
proof -
  have "\<not> (lo p + off \<le> lo q + k \<and> lo q + k < lo p + off + n)"
  proof
    assume a: "lo p + off \<le> lo q + k \<and> lo q + k < lo p + off + n"
    then have "lo q + k = lo p + (lo q + k - lo p)" "lo q + k - lo p < width" using assms(2) by auto
    with distinct [OF assms(1), of "lo q + k - lo p" k] assms(3) show False by simp
  qed
  then show ?thesis using assms(4) by (auto simp: ino_put_def)
qed

end

interpretation slices: partition "start_offset c" "FILE_SIZE c div num_threads c" for c
proof
  fix p q :: nat assume "p < q"
  then have "start_offset c (Suc p) \<le> start_offset c q" by (intro slice_mono) simp
  then show "start_offset c p + FILE_SIZE c div num_threads c \<le> start_offset c q"
    by (simp add: start_offset_def)
qed

section \<open>The invariant\<close>

definition is_write :: "cfg \<Rightarrow> bool" where
  "is_write c \<longleftrightarrow> fops c = Op_write \<or> fops c = Op_pwrite"

text \<open>
  The first \<open>m\<close> bytes of a slice hold the letter of round \<open>r\<close>, those that the file system takes;
  for the others there has been an error.
\<close>

definition wrote :: "cfg \<Rightarrow> dstate \<Rightarrow> nat \<Rightarrow> nat \<Rightarrow> nat \<Rightarrow> bool" where
  "wrote c s pid r m \<longleftrightarrow> (is_write c \<longrightarrow> (\<forall>j < m.
     if start_offset c pid + j < d_fmax s
     then start_offset c pid + j < i_size (d_file s)
       \<and> i_data (d_file s) (start_offset c pid + j) = letter_of r
     else 0 < d_errors s))"

text \<open>The bytes a slice has room for, and where a sequential writer is after \<open>k\<close> bytes.\<close>

definition slice_room :: "cfg \<Rightarrow> dstate \<Rightarrow> nat \<Rightarrow> nat" where
  "slice_room c s pid = d_fmax s - start_offset c pid"

definition at_byte :: "cfg \<Rightarrow> dstate \<Rightarrow> nat \<Rightarrow> nat \<Rightarrow> bool" where
  "at_byte c s pid k \<longleftrightarrow> (fops c = Op_write \<longrightarrow> d_pos s pid = start_offset c pid + min k (slice_room c s pid))"

definition lettered :: "cfg \<Rightarrow> dstate \<Rightarrow> nat \<Rightarrow> nat \<Rightarrow> bool" where
  "lettered c s pid r \<longleftrightarrow> (is_write c \<longrightarrow> (\<forall>j < round_size c r. d_buf s pid j = letter_of r))"

definition idle :: "cfg \<Rightarrow> dstate \<Rightarrow> nat \<Rightarrow> nat \<Rightarrow> bool" where
  "idle c s pid r \<longleftrightarrow> doorbell s (pid * 8) \<noteq> START \<and> d_worker s pid = worker_top c r"

definition active :: "cfg \<Rightarrow> dstate \<Rightarrow> nat \<Rightarrow> nat \<Rightarrow> bool" where
  "active c s pid r \<longleftrightarrow> doorbell s (pid * 8) = START \<and>
     (d_worker s pid = W_Poll r \<or> d_worker s pid = W_Seek r
      \<or> (\<exists>i \<le> count c r. d_worker s pid = W_Io r i \<and> wrote c s pid r (i * round_size c r)
          \<and> at_byte c s pid (i * round_size c r))
      \<or> d_worker s pid = W_Bell r \<and> wrote c s pid r (count c r * round_size c r))"

definition finished :: "cfg \<Rightarrow> dstate \<Rightarrow> nat \<Rightarrow> nat \<Rightarrow> bool" where
  "finished c s pid r \<longleftrightarrow> doorbell s (pid * 8) = FINISHED \<and> d_worker s pid = worker_top c (Suc r)
     \<and> wrote c s pid r (count c r * round_size c r)"

fun thread_inv :: "cfg \<Rightarrow> dstate \<Rightarrow> main_pc \<Rightarrow> nat \<Rightarrow> bool" where
  "thread_inv c s (M_Create i) pid \<longleftrightarrow>
     doorbell s (pid * 8) = 0 \<and> d_worker s pid = (if pid < i then worker_top c 0 else W_New)"
| "thread_inv c s (M_Memset r i) pid \<longleftrightarrow> has_round c r \<and> idle c s pid r \<and> (pid < i \<longrightarrow> lettered c s pid r)"
| "thread_inv c s (M_Seek r i) pid \<longleftrightarrow> has_round c r \<and> idle c s pid r \<and> lettered c s pid r"
| "thread_inv c s (M_Ring r i) pid \<longleftrightarrow> has_round c r \<and> lettered c s pid r \<and>
     (if pid < i then active c s pid r \<or> finished c s pid r else idle c s pid r)"
| "thread_inv c s (M_Poll r i) pid \<longleftrightarrow> has_round c r \<and> lettered c s pid r \<and>
     (active c s pid r \<or> finished c s pid r) \<and> (pid < i \<longrightarrow> finished c s pid r)"
| "thread_inv c s (M_Report r) pid \<longleftrightarrow> has_round c r \<and> finished c s pid r"
| "thread_inv c s (M_Join i) pid \<longleftrightarrow> d_worker s pid = worker_top c 0 \<and> \<not> has_round c 0 \<or> d_worker s pid = W_Exit"
| "thread_inv c s M_End pid \<longleftrightarrow> d_worker s pid = W_Exit"
| "thread_inv c s M_Crash pid \<longleftrightarrow> True"

definition dinv :: "cfg \<Rightarrow> dstate \<Rightarrow> bool" where
  "dinv c s \<longleftrightarrow> (\<forall>pid < num_threads c. thread_inv c s (d_main s) pid)"

lemma START_FINISHED [simp]: "START \<noteq> FINISHED" "FINISHED \<noteq> START" "START \<noteq> 0" "(0 :: int) \<noteq> START"
  by (simp_all add: START_def FINISHED_def)

lemma goto_sel [simp]:
  "d_main (goto_main pc s) = pc" "d_worker (goto_main pc s) = d_worker s"
  "doorbell (goto_main pc s) = doorbell s" "d_buf (goto_main pc s) = d_buf s"
  "d_pos (goto_main pc s) = d_pos s" "d_file (goto_main pc s) = d_file s"
  "d_main (goto_worker pid q s) = d_main s" "d_worker (goto_worker pid q s) = (d_worker s)(pid := q)"
  "doorbell (goto_worker pid q s) = doorbell s" "d_buf (goto_worker pid q s) = d_buf s"
  "d_pos (goto_worker pid q s) = d_pos s" "d_file (goto_worker pid q s) = d_file s"
  "d_main (set_bell pid v s) = d_main s" "d_worker (set_bell pid v s) = d_worker s"
  "doorbell (set_bell pid v s) = (doorbell s)(pid * 8 := v)" "d_buf (set_bell pid v s) = d_buf s"
  "d_pos (set_bell pid v s) = d_pos s" "d_file (set_bell pid v s) = d_file s"
  "d_fmax (goto_main pc s) = d_fmax s" "d_errors (goto_main pc s) = d_errors s"
  "d_fmax (goto_worker pid q s) = d_fmax s" "d_errors (goto_worker pid q s) = d_errors s"
  "d_fmax (set_bell pid v s) = d_fmax s" "d_errors (set_bell pid v s) = d_errors s"
  by (simp_all add: goto_main_def goto_worker_def set_bell_def)

lemmas thread_defs = wrote_def lettered_def idle_def active_def finished_def at_byte_def slice_room_def

text \<open>A thread's part of the invariant depends only on what the thread owns and on its slice.\<close>

definition same_thread :: "cfg \<Rightarrow> dstate \<Rightarrow> dstate \<Rightarrow> nat \<Rightarrow> bool" where
  "same_thread c s s' q \<longleftrightarrow> doorbell s' (q * 8) = doorbell s (q * 8) \<and> d_worker s' q = d_worker s q
     \<and> d_buf s' q = d_buf s q \<and> d_pos s' q = d_pos s q \<and> d_fmax s' = d_fmax s
     \<and> (\<forall>r m. m \<le> FILE_SIZE c div num_threads c \<longrightarrow> wrote c s q r m \<longrightarrow> wrote c s' q r m)"

lemma io_le: "i \<le> count c r \<Longrightarrow> i * round_size c r \<le> FILE_SIZE c div num_threads c"
  using count_le [of c r] by (meson le_trans mult_le_mono1)

lemma same_thread_parts:
  assumes "same_thread c s s' q"
  shows "lettered c s q r \<Longrightarrow> lettered c s' q r" "idle c s q r \<Longrightarrow> idle c s' q r"
    "active c s q r \<Longrightarrow> active c s' q r" "finished c s q r \<Longrightarrow> finished c s' q r"
  using assms io_le by (auto simp: same_thread_def lettered_def idle_def active_def finished_def at_byte_def slice_room_def)

lemma same_thread_inv:
  assumes st: "same_thread c s s' q" and inv: "thread_inv c s pc q"
  shows "thread_inv c s' pc q"
proof -
  note parts = same_thread_parts [OF st]
  have eq: "doorbell s' (q * 8) = doorbell s (q * 8)" "d_worker s' q = d_worker s q"
    using st by (simp_all add: same_thread_def)
  show ?thesis using inv by (cases pc) (auto simp: eq dest: parts)
qed

lemma same_thread_eqI:
  "doorbell s' (q * 8) = doorbell s (q * 8) \<Longrightarrow> d_worker s' q = d_worker s q \<Longrightarrow> d_buf s' q = d_buf s q
    \<Longrightarrow> d_pos s' q = d_pos s q \<Longrightarrow> d_file s' = d_file s \<Longrightarrow> d_fmax s' = d_fmax s \<Longrightarrow> d_errors s' = d_errors s
    \<Longrightarrow> same_thread c s s' q"
  by (simp add: same_thread_def wrote_def)

lemma goto_main_parts [simp]:
  "wrote c (goto_main pc s) = wrote c s" "lettered c (goto_main pc s) = lettered c s"
  "idle c (goto_main pc s) = idle c s" "active c (goto_main pc s) = active c s"
  "finished c (goto_main pc s) = finished c s"
  by (simp_all add: thread_defs fun_eq_iff)

lemma thread_inv_goto_main [simp]: "thread_inv c (goto_main pc s) q pid = thread_inv c s q pid"
  by (cases q) simp_all

lemma wrote_goto_worker [simp]:
  "at_byte c (goto_worker pid pc s) = at_byte c s" "at_byte c (set_bell pid v s) = at_byte c s"
  "wrote c (goto_worker pid pc s) = wrote c s" "wrote c (set_bell pid v s) = wrote c s"
  "lettered c (goto_worker pid pc s) = lettered c s" "lettered c (set_bell pid v s) = lettered c s"
  by (simp_all add: wrote_def lettered_def at_byte_def slice_room_def fun_eq_iff)

section \<open>The invariant is preserved\<close>

lemma main_step_inv:
  assumes inv: "dinv c s" and st: "main_step c s (d_main s) = Some s'"
  shows "dinv c s'"
proof -
  have I: "thread_inv c s (d_main s) pid" if "pid < num_threads c" for pid
    using inv that by (simp add: dinv_def)
  have "thread_inv c s' (d_main s') pid" if pid: "pid < num_threads c" for pid
  proof (cases "d_main s")
    case (M_Create i)
    then show ?thesis using st I [OF pid] pid
      by (auto simp: main_top_def idle_def split: if_splits)
  next
    case (M_Memset r i)
    show ?thesis
    proof (cases "i < num_threads c \<and> pid \<noteq> i")
      case True
      then have "same_thread c s s' pid" using M_Memset st by (auto intro: same_thread_eqI)
      from same_thread_inv [OF this I [OF pid]] show ?thesis using M_Memset True st by auto
    next
      case False
      then show ?thesis using M_Memset st I [OF pid] pid
        by (auto simp: idle_def lettered_def split: if_splits)
    qed
  next
    case (M_Seek r i)
    then show ?thesis using st I [OF pid] by (auto simp: idle_def lettered_def split: if_splits)
  next
    case (M_Ring r i)
    show ?thesis
    proof (cases "i < num_threads c \<and> pid \<noteq> i")
      case True
      then have "same_thread c s s' pid" using M_Ring st by (auto intro: same_thread_eqI)
      from same_thread_inv [OF this I [OF pid]] show ?thesis using M_Ring True st by auto
    next
      case False
      then show ?thesis using M_Ring st I [OF pid] pid
        by (auto simp: idle_def active_def worker_top_def split: if_splits)
    qed
  next
    case (M_Poll r i)
    have i: "active c s i r \<or> finished c s i r" if "i < num_threads c" using I [OF that] M_Poll by simp
    have "finished c s i r" if "i < num_threads c" "doorbell s (i * 8) = FINISHED"
      using i [OF that(1)] that(2) by (simp add: active_def)
    then show ?thesis using M_Poll st I [OF pid] pid
      by (auto simp: less_Suc_eq split: if_splits)
  next
    case (M_Report r)
    then show ?thesis using st I [OF pid]
      by (auto simp: main_top_def worker_top_def finished_def idle_def split: if_splits)
  next
    case (M_Join i)
    then show ?thesis using st I [OF pid] pid by (auto simp: worker_top_def split: if_splits)
  qed (use st in simp_all)
  then show ?thesis by (simp add: dinv_def)
qed

lemma transfer_sel [simp]:
  "d_main (transfer c pid sz off s) = d_main s" "d_worker (transfer c pid sz off s) = d_worker s"
  "doorbell (transfer c pid sz off s) = doorbell s"
  "q \<noteq> pid \<Longrightarrow> d_buf (transfer c pid sz off s) q = d_buf s q"
  "q \<noteq> pid \<Longrightarrow> d_pos (transfer c pid sz off s) q = d_pos s q"
  by (simp_all add: transfer_def Let_def split: fops.splits)

text \<open>
  What a write of a round does to the file and to the descriptor, wherever it stands: the part of
  the request that there is room for is at its place, and a shorter transfer is an error.
\<close>

lemma transfer_fmax [simp]: "d_fmax (transfer c pid sz off s) = d_fmax s"
  by (simp add: transfer_def Let_def split: fops.splits)

lemma nat_room: "nat (room fmax off n) = min n (fmax - off)" "room fmax off n \<noteq> int n \<longleftrightarrow> min n (fmax - off) < n"
  by (auto simp: room_def)

lemma transfer_write:
  assumes w: "is_write c" and pos: "at_byte c s pid (i * n)"
  defines "off \<equiv> start_offset c pid + i * n" and "s' \<equiv> transfer c pid n (start_offset c pid + i * n) s"
  shows "d_file s' = ino_put (d_file s) off (d_buf s pid) (min n (d_fmax s - off))"
    and "d_errors s' = d_errors s + (if min n (d_fmax s - off) < n then 1 else 0)"
    and "d_buf s' = d_buf s" and "at_byte c s' pid (Suc i * n)"
proof -
  have "d_file s' = ino_put (d_file s) off (d_buf s pid) (min n (d_fmax s - off))
    \<and> d_errors s' = d_errors s + (if min n (d_fmax s - off) < n then 1 else 0)
    \<and> d_buf s' = d_buf s \<and> at_byte c s' pid (Suc i * n)"
  proof (cases "fops c = Op_write")
    case True
    then have p: "d_pos s pid = start_offset c pid + min (i * n) (slice_room c s pid)"
      using pos by (simp add: at_byte_def)
    show ?thesis
    proof (cases "i * n \<le> slice_room c s pid")
      case True
      then have "d_pos s pid = off" using p by (simp add: off_def)
      then show ?thesis using \<open>fops c = Op_write\<close> True
        by (auto simp: s'_def transfer_def Let_def nat_room at_byte_def slice_room_def off_def)
    next
      case False
      then have "d_pos s pid = start_offset c pid + slice_room c s pid" "d_fmax s \<le> d_pos s pid" "d_fmax s \<le> off"
        using p by (simp_all add: off_def slice_room_def)
      then have "nat (room (d_fmax s) (d_pos s pid) n) = 0" "min n (d_fmax s - off) = 0"
        "room (d_fmax s) (d_pos s pid) n \<noteq> int n \<longleftrightarrow> 0 < n" by (simp_all add: nat_room)
      moreover have "ino_put f o' b 0 = f" for f o' b by (simp add: ino_put_def)
      moreover have "min (Suc i * n) (slice_room c s pid) = slice_room c s pid" "slice_room c s' pid = slice_room c s pid"
        using False by (simp_all add: slice_room_def s'_def)
      ultimately show ?thesis
        using \<open>fops c = Op_write\<close> \<open>d_pos s pid = start_offset c pid + slice_room c s pid\<close>
        by (simp add: s'_def transfer_def Let_def at_byte_def del: min_def)
    qed
  next
    case False
    with w have "fops c = Op_pwrite" by (simp add: is_write_def)
    then show ?thesis
      by (auto simp: s'_def transfer_def Let_def nat_room at_byte_def off_def)
  qed
  then show "d_file s' = ino_put (d_file s) off (d_buf s pid) (min n (d_fmax s - off))"
    "d_errors s' = d_errors s + (if min n (d_fmax s - off) < n then 1 else 0)"
    "d_buf s' = d_buf s" "at_byte c s' pid (Suc i * n)" by simp_all
qed

lemma transfer_other:
  assumes "q \<noteq> pid" and i: "i < count c r" and pos: "at_byte c s pid (i * round_size c r)"
  shows "same_thread c s (goto_worker pid pc (transfer c pid (round_size c r)
    (start_offset c pid + i * round_size c r) s)) q"
proof -
  let ?n = "round_size c r" and ?w = "FILE_SIZE c div num_threads c"
  have le: "i * ?n + ?n \<le> ?w" using io_le [of "Suc i" c r] i by simp
  have keep: "start_offset c q + j < i_size (ino_put f (start_offset c pid + i * ?n) src m)
      \<and> i_data (ino_put f (start_offset c pid + i * ?n) src m) (start_offset c q + j) = i_data f (start_offset c q + j)"
    if "start_offset c q + j < i_size f" "j < ?w" "m \<le> ?n" for f src j m
  proof -
    have "i * ?n + m \<le> ?w" using le that(3) by simp
    from slices.put_other [OF not_sym [OF assms(1)] this that(2,1)] that(1) show ?thesis by (auto simp: ino_put_def)
  qed
  have "wrote c (transfer c pid ?n (start_offset c pid + i * ?n) s) q r' m"
    if w: "wrote c s q r' m" "m \<le> ?w" for r' m
  proof (cases "is_write c")
    case True
    note T = transfer_write [OF True pos]
    show ?thesis
      using w keep unfolding wrote_def T(1,2) by (auto split: if_splits)
  qed (simp add: wrote_def)
  then show ?thesis using assms(1) by (simp add: same_thread_def)
qed

lemma transfer_own:
  assumes i: "i < count c r" and sz: "0 < start_size c" and l: "lettered c s pid r"
    and w: "wrote c s pid r (i * round_size c r)"
    and pos: "at_byte c s pid (i * round_size c r)"
  defines "s' \<equiv> transfer c pid (round_size c r) (start_offset c pid + i * round_size c r) s"
  shows "wrote c s' pid r (Suc i * round_size c r)" "lettered c s' pid r"
    and "at_byte c s' pid (Suc i * round_size c r)"
proof -
  let ?n = "round_size c r" and ?o = "start_offset c pid"
  have n: "0 < ?n" using sz by (rule round_pos)
  show "wrote c s' pid r (Suc i * ?n)"
  proof (cases "is_write c")
    case True
    note T = transfer_write [OF True pos, folded s'_def]
    let ?m = "min ?n (d_fmax s - (?o + i * ?n))"
    show ?thesis
      unfolding wrote_def
    proof (intro impI allI)
      fix j assume j: "j < Suc i * ?n"
      have old: "if ?o + j < d_fmax s then ?o + j < i_size (d_file s) \<and> i_data (d_file s) (?o + j) = letter_of r
          else 0 < d_errors s" if "j < i * ?n"
        using w that True by (simp add: wrote_def)
      have b: "\<forall>k < ?n. d_buf s pid k = letter_of r" using l True by (simp add: lettered_def)
      show "if ?o + j < d_fmax s' then ?o + j < i_size (d_file s') \<and> i_data (d_file s') (?o + j) = letter_of r
          else 0 < d_errors s'"
      proof (cases "j < i * ?n")
        case True
        then show ?thesis using old unfolding T(1,2) by (auto simp: s'_def ino_put_def split: if_splits)
      next
        case False
        show ?thesis
        proof (cases "?o + j < d_fmax s")
          case True
          then have "?o + j < ?o + i * ?n + ?m" "?o + j - (?o + i * ?n) < ?n" "0 < ?m" using j False by auto
          then show ?thesis using True False b unfolding T(1) by (auto simp: s'_def ino_put_def)
        next
          case past: False
          then have "?m < ?n" using j False by auto
          then have "d_errors s' = Suc (d_errors s)" unfolding T(2) by simp
          then show ?thesis using past by (simp add: s'_def)
        qed
      qed
    qed
  qed (simp add: wrote_def)
  show "lettered c s' pid r"
  proof (cases "is_write c")
    case True
    from transfer_write(3) [OF True pos, folded s'_def] l show ?thesis by (simp add: lettered_def)
  qed (simp add: lettered_def)
  show "at_byte c s' pid (Suc i * ?n)"
  proof (cases "is_write c")
    case True
    from transfer_write(4) [OF True pos, folded s'_def] show ?thesis .
  qed (simp add: at_byte_def is_write_def)
qed

text \<open>A worker that has been started is in the round that the main thread rang or polls for.\<close>

definition busy :: "dstate \<Rightarrow> nat \<Rightarrow> nat \<Rightarrow> bool" where
  "busy s pid r \<longleftrightarrow> d_worker s pid = W_Seek r \<or> (\<exists>i. d_worker s pid = W_Io r i) \<or> d_worker s pid = W_Bell r
     \<or> d_worker s pid = W_Poll r \<and> doorbell s (pid * 8) = START"

lemma busy_phase:
  assumes inv: "thread_inv c s pc pid" and b: "busy s pid r" and nc: "pc \<noteq> M_Crash"
  shows "has_round c r" "lettered c s pid r" "active c s pid r"
    and "(\<exists>i. pid < i \<and> pc = M_Ring r i) \<or> (\<exists>i \<le> pid. pc = M_Poll r i)"
    and "lettered c s' pid r \<Longrightarrow> active c s' pid r \<or> finished c s' pid r \<Longrightarrow> thread_inv c s' pc pid"
proof -
  have top: "d_worker s pid \<noteq> worker_top c r'" if "doorbell s (pid * 8) \<noteq> START" for r'
    using b that by (auto simp: busy_def worker_top_def)
  have act: "active c s pid r' \<Longrightarrow> r' = r \<and> doorbell s (pid * 8) = START" for r'
    using b by (auto simp: active_def busy_def)
  have fin: "\<not> finished c s pid r'" for r' using top [of "Suc r'"] by (auto simp: finished_def)
  have idl: "\<not> idle c s pid r'" for r' using top [of r'] by (auto simp: idle_def)
  have new: "d_worker s pid \<noteq> W_New" "d_worker s pid \<noteq> W_Exit" using b by (auto simp: busy_def)
  have phase: "has_round c r \<and> lettered c s pid r \<and> active c s pid r
      \<and> ((\<exists>i. pid < i \<and> pc = M_Ring r i) \<or> (\<exists>i \<le> pid. pc = M_Poll r i))"
    using inv nc fin idl new top [of 0]
    by (cases pc) (auto dest: act simp: worker_top_def not_less split: if_splits)
  then show "has_round c r" "lettered c s pid r" "active c s pid r"
    "(\<exists>i. pid < i \<and> pc = M_Ring r i) \<or> (\<exists>i \<le> pid. pc = M_Poll r i)" by simp_all
  show "lettered c s' pid r \<Longrightarrow> active c s' pid r \<or> finished c s' pid r \<Longrightarrow> thread_inv c s' pc pid"
    using phase by auto
qed

lemma worker_step_inv:
  assumes inv: "dinv c s" and pid: "pid < num_threads c" and nc: "d_main s \<noteq> M_Crash"
    and sz: "0 < start_size c" and st: "worker_step c pid s (d_worker s pid) = Some s'"
  shows "dinv c s'"
proof -
  have I: "thread_inv c s (d_main s) q" if "q < num_threads c" for q
    using inv that by (simp add: dinv_def)
  have own: "thread_inv c s' (d_main s) pid \<and> d_main s' = d_main s
      \<and> (\<forall>q. q \<noteq> pid \<longrightarrow> same_thread c s s' q)"
  proof (cases "\<exists>r. busy s pid r")
    case False
    then have "s' = s" using st by (cases "d_worker s pid") (auto simp: busy_def)
    then show ?thesis using I [OF pid] by (simp add: same_thread_eqI)
  next
    case True
    then obtain r where b: "busy s pid r" by blast
    note P = busy_phase [OF I [OF pid] b nc]
    note act = P(3) [unfolded active_def]
    from b consider (poll) "d_worker s pid = W_Poll r" "doorbell s (pid * 8) = START"
      | (seek) "d_worker s pid = W_Seek r" | (io) i where "d_worker s pid = W_Io r i"
      | (bell) "d_worker s pid = W_Bell r" by (auto simp: busy_def)
    then show ?thesis
    proof cases
      case poll
      then have s': "s' = goto_worker pid (W_Seek r) s" using st by simp
      have "active c s' pid r" using poll by (simp add: s' active_def)
      then show ?thesis using P(2,5) by (auto simp: s' intro: same_thread_eqI)
    next
      case seek
      then have s': "s' = goto_worker pid (W_Io r 0) (if fops c = Op_read \<or> fops c = Op_write
         then s\<lparr>d_pos := (d_pos s)(pid := start_offset c pid)\<rparr> else s)" using st by simp
      have "active c s' pid r" "lettered c s' pid r"
        using seek act P(2) by (auto simp: s' active_def wrote_def lettered_def at_byte_def)
      then show ?thesis using P(5) by (auto simp: s' intro!: same_thread_eqI)
    next
      case (io i)
      have i: "i \<le> count c r" "wrote c s pid r (i * round_size c r)" "doorbell s (pid * 8) = START"
        "at_byte c s pid (i * round_size c r)"
        using act io by auto
      show ?thesis
      proof (cases "i < count c r")
        case True
        let ?t = "transfer c pid (round_size c r) (start_offset c pid + i * round_size c r) s"
        have s': "s' = goto_worker pid (W_Io r (Suc i)) ?t" using st io True by simp
        note own = transfer_own [OF True sz P(2) i(2,4)]
        have "active c s' pid r" "lettered c s' pid r"
          using own True i(3) by (simp_all add: s' active_def)
        then show ?thesis using P(5) transfer_other [OF _ True i(4)] by (simp add: s')
      next
        case False
        then have s': "s' = goto_worker pid (W_Bell r) s" using st io by simp
        have "active c s' pid r" using i False by (simp add: s' active_def)
        then show ?thesis using P(2,5) by (auto simp: s' intro: same_thread_eqI)
      qed
    next
      case bell
      then have s': "s' = goto_worker pid (worker_top c (Suc r)) (set_bell pid FINISHED s)" using st by simp
      have "finished c s' pid r" using act bell by (simp add: s' finished_def)
      then show ?thesis using P(2,5) by (auto simp: s' intro: same_thread_eqI)
    qed
  qed
  have "thread_inv c s' (d_main s') q" if "q < num_threads c" for q
    using own same_thread_inv [of c s s' q] I [OF that] by (cases "q = pid") auto
  then show ?thesis by (simp add: dinv_def)
qed

lemma reach_dinv:
  assumes "reach c s" "0 < start_size c"
  shows "dinv c s"
  using assms(1)
proof induction
  case (init f bufs pos fmax)
  then show ?case by (simp add: dinv_def dinit_def)
next
  case (step s s')
  from step.hyps(2) show ?case
    by (rule dstepE) (auto intro: main_step_inv worker_step_inv step.IH assms(2))
qed

section \<open>How a run ends\<close>

text \<open>The main thread gets past a round only if the count of requests in it is not zero.\<close>

fun passed :: "cfg \<Rightarrow> main_pc \<Rightarrow> bool" where
  "passed c (M_Create i) = True"
| "passed c (M_Memset r i) = (\<forall>q < r. count c q \<noteq> 0)"
| "passed c (M_Seek r i) = (\<forall>q < r. count c q \<noteq> 0)"
| "passed c (M_Ring r i) = (\<forall>q < r. count c q \<noteq> 0)"
| "passed c (M_Poll r i) = (\<forall>q < r. count c q \<noteq> 0)"
| "passed c (M_Report r) = (\<forall>q < r. count c q \<noteq> 0)"
| "passed c (M_Join i) = (\<forall>q. has_round c q \<longrightarrow> count c q \<noteq> 0)"
| "passed c M_End = (\<forall>q. has_round c q \<longrightarrow> count c q \<noteq> 0)"
| "passed c M_Crash = (\<exists>q. has_round c q \<and> count c q = 0)"

lemma has_round_mono: "has_round c r \<Longrightarrow> q \<le> r \<Longrightarrow> has_round c q"
proof -
  assume r: "has_round c r" and q: "q \<le> r"
  have "start_size c * 2 ^ q \<le> start_size c * 2 ^ r" using q by (intro mult_le_mono2 power_increasing) simp_all
  with r show ?thesis unfolding has_round_def round_size_def by (rule order_trans [rotated])
qed

lemma passed_top: "(\<forall>q < r. count c q \<noteq> 0) \<Longrightarrow> passed c (main_top c r)"
  using has_round_mono [of c _ r] by (auto simp: main_top_def) (meson not_less)

lemma worker_step_main: "worker_step c pid s pc = Some s' \<Longrightarrow> d_main s' = d_main s"
  by (cases pc) (auto split: if_splits)

lemma reach_passed:
  assumes "reach c s" "0 < start_size c" "0 < num_threads c"
  shows "passed c (d_main s)"
  using assms(1)
proof induction
  case (init f bufs pos fmax)
  then show ?case by (simp add: dinit_def)
next
  case (step s s')
  have inv: "dinv c s" using step.hyps(1) assms(2) by (rule reach_dinv)
  from step.hyps(2) show ?case
  proof (rule dstepE)
    assume st: "main_step c s (d_main s) = Some s'"
    have "has_round c r" if "d_main s = M_Report r" for r
      using inv that assms(3) by (auto simp: dinv_def)
    then show ?thesis using st step.IH
      by (cases "d_main s") (auto simp: less_Suc_eq passed_top split: if_splits)
  qed (use step.IH worker_step_main in auto)
qed

text \<open>The number of rounds.\<close>

lemma rounds_bound:
  assumes "0 < start_size c"
  obtains R where "\<And>r. has_round c r \<longleftrightarrow> r < R"
proof -
  have big: "\<not> has_round c (end_size c)"
  proof -
    have "end_size c < 2 ^ end_size c" by (rule less_exp)
    also have "\<dots> \<le> start_size c * 2 ^ end_size c" using assms by simp
    finally show ?thesis by (simp add: has_round_def round_size_def)
  qed
  define R where "R = (LEAST r. \<not> has_round c r)"
  have no: "\<not> has_round c R" unfolding R_def using big by (rule LeastI)
  have "has_round c r" if "r < R" for r using not_less_Least [of r "\<lambda>r. \<not> has_round c r"] that by (auto simp: R_def)
  moreover have "r < R" if "has_round c r" for r
    using has_round_mono [OF that, of R] no by (meson not_less)
  ultimately show ?thesis using that by blast
qed

text \<open>
  A weight that some step decreases as long as the run has not ended: the work left for the main
  thread and for each worker.
\<close>

fun main_weight :: "cfg \<Rightarrow> nat \<Rightarrow> main_pc \<Rightarrow> nat" where
  "main_weight c R (M_Create i) = (R + 1) * (4 * num_threads c + 5) + (num_threads c - i)"
| "main_weight c R (M_Memset r i) = (R - r) * (4 * num_threads c + 5) + 4 + 3 * num_threads c + (num_threads c - i)"
| "main_weight c R (M_Seek r i) = (R - r) * (4 * num_threads c + 5) + 3 + 2 * num_threads c + (num_threads c - i)"
| "main_weight c R (M_Ring r i) = (R - r) * (4 * num_threads c + 5) + 2 + num_threads c + (num_threads c - i)"
| "main_weight c R (M_Poll r i) = (R - r) * (4 * num_threads c + 5) + 1 + (num_threads c - i)"
| "main_weight c R (M_Report r) = (R - r) * (4 * num_threads c + 5)"
| "main_weight c R (M_Join i) = 1 + (num_threads c - i)"
| "main_weight c R M_End = 0"
| "main_weight c R M_Crash = 0"

fun worker_weight :: "cfg \<Rightarrow> nat \<Rightarrow> worker_pc \<Rightarrow> nat" where
  "worker_weight c R W_New = R * (FILE_SIZE c + 4) + 1"
| "worker_weight c R (W_Poll r) = (R - r) * (FILE_SIZE c + 4)"
| "worker_weight c R (W_Seek r) = (R - Suc r) * (FILE_SIZE c + 4) + FILE_SIZE c + 3"
| "worker_weight c R (W_Io r i) = (R - Suc r) * (FILE_SIZE c + 4) + 2 + (FILE_SIZE c - i)"
| "worker_weight c R (W_Bell r) = (R - Suc r) * (FILE_SIZE c + 4) + 1"
| "worker_weight c R W_Exit = 0"

definition weight :: "cfg \<Rightarrow> nat \<Rightarrow> dstate \<Rightarrow> nat" where
  "weight c R s = main_weight c R (d_main s) + (\<Sum>q < num_threads c. worker_weight c R (d_worker s q))"

lemma diff_Suc_mult: "r < R \<Longrightarrow> (R - r) * k = (R - Suc r) * k + (k :: nat)"
proof -
  assume "r < R"
  then have "R - r = Suc (R - Suc r)" by simp
  then show ?thesis by simp
qed

lemma count_bound: "count c r \<le> FILE_SIZE c"
  by (simp add: count_def)

lemma sum_upd_less:
  fixes f :: "worker_pc \<Rightarrow> nat" and p n :: nat
  assumes "p < n" "f x < f (g p)"
  shows "(\<Sum>q < n. f ((g(p := x)) q)) < (\<Sum>q < n. f (g q))"
  using assms by (intro sum_strict_mono_ex1) auto

lemma worker_weight_top:
  "(\<And>r. has_round c r \<longleftrightarrow> r < R) \<Longrightarrow> worker_weight c R (worker_top c r) = (R - r) * (FILE_SIZE c + 4)"
  by (auto simp: worker_top_def)

lemma worker_decreases:
  assumes inv: "dinv c s" and pid: "pid < num_threads c" and b: "busy s pid r"
    and main: "d_main s \<noteq> M_End" "d_main s \<noteq> M_Crash" and R: "\<And>r. has_round c r \<longleftrightarrow> r < R"
  shows "\<exists>s'. dstep c s s' \<and> weight c R s' < weight c R s"
proof -
  have I: "thread_inv c s (d_main s) pid" using inv pid by (simp add: dinv_def)
  have r: "r < R" using busy_phase(1) [OF I b main(2)] R by simp
  note W = diff_Suc_mult [OF r, of "FILE_SIZE c + 4"]
  have step: "\<exists>s'. dstep c s s' \<and> weight c R s' < weight c R s"
    if "worker_step c pid s (d_worker s pid) = Some s'" "d_worker s' = (d_worker s)(pid := pc)"
      "worker_weight c R pc < worker_weight c R (d_worker s pid)" for s' pc
  proof -
    have "d_main s' = d_main s" using that(1) by (rule worker_step_main)
    then have "weight c R s' < weight c R s"
      using sum_upd_less [OF pid, of "worker_weight c R"] that(2,3) by (simp add: weight_def)
    moreover have "dstep c s s'" using pid main that(1) by (rule dstep.worker)
    ultimately show ?thesis by blast
  qed
  from b consider (poll) "d_worker s pid = W_Poll r" "doorbell s (pid * 8) = START"
    | (seek) "d_worker s pid = W_Seek r" | (io) i where "d_worker s pid = W_Io r i" "i < count c r"
    | (io_end) i where "d_worker s pid = W_Io r i" "\<not> i < count c r"
    | (bell) "d_worker s pid = W_Bell r" by (auto simp: busy_def)
  then show ?thesis
  proof cases
    case poll
    show ?thesis by (rule step [where pc = "W_Seek r"]) (simp add: poll, simp, simp add: poll W)
  next
    case seek
    show ?thesis by (rule step [where pc = "W_Io r 0"]) (simp add: seek, simp, simp add: seek)
  next
    case (io i)
    have "i < FILE_SIZE c" using io(2) count_bound [of c r] by simp
    then show ?thesis
      by - (rule step [where pc = "W_Io r (Suc i)"], simp add: io, simp, simp add: io)
  next
    case (io_end i)
    show ?thesis by (rule step [where pc = "W_Bell r"]) (simp add: io_end, simp, simp add: io_end)
  next
    case bell
    show ?thesis by (rule step [where pc = "worker_top c (Suc r)"])
      (simp add: bell, simp, simp add: bell worker_weight_top [OF R])
  qed
qed

lemma main_decreases:
  assumes inv: "dinv c s" and main: "d_main s \<noteq> M_End" "d_main s \<noteq> M_Crash"
    and wait: "\<And>r i. d_main s = M_Poll r i \<Longrightarrow> i < num_threads c \<Longrightarrow> doorbell s (i * 8) = FINISHED"
    and n: "0 < num_threads c" and R: "\<And>r. has_round c r \<longleftrightarrow> r < R"
  shows "\<exists>s'. dstep c s s' \<and> weight c R s' < weight c R s"
proof -
  have I: "thread_inv c s (d_main s) pid" if "pid < num_threads c" for pid
    using inv that by (simp add: dinv_def)
  have step: "\<exists>s'. dstep c s s' \<and> weight c R s' < weight c R s"
    if "main_step c s (d_main s) = Some s'" "main_weight c R (d_main s') < main_weight c R (d_main s)"
      "(\<Sum>q < num_threads c. worker_weight c R (d_worker s' q)) \<le> (\<Sum>q < num_threads c. worker_weight c R (d_worker s q))"
    for s'
    using dstep.main [OF that(1)] that(2,3) by (intro exI [of _ s']) (simp add: weight_def)
  have top: "main_weight c R (main_top c (Suc r)) < (R - r) * (4 * num_threads c + 5)" if "r < R" for r
    using diff_Suc_mult [OF that, of "4 * num_threads c + 5"] by (auto simp: main_top_def R)
  show ?thesis
  proof (cases "d_main s")
    case (M_Create i)
    show ?thesis
    proof (cases "i < num_threads c")
      case True
      have "d_worker s i = W_New" using I [OF True] M_Create by simp
      then have "worker_weight c R (worker_top c 0) < worker_weight c R (d_worker s i)"
        using worker_weight_top [OF R, of 0] by simp
      then have "(\<Sum>q < num_threads c. worker_weight c R (((d_worker s)(i := worker_top c 0)) q))
          < (\<Sum>q < num_threads c. worker_weight c R (d_worker s q))" by (rule sum_upd_less [OF True])
      then show ?thesis
        using M_Create True
        by (intro step [of "goto_main (M_Create (Suc i)) (goto_worker i (worker_top c 0) s)"])
          (simp, simp, simp only: goto_sel less_imp_le)
    next
      case False
      show ?thesis by (rule step) (simp add: M_Create False, simp add: M_Create False main_top_def, simp)
    qed
  next
    case (M_Memset r i)
    show ?thesis by (rule step, simp add: M_Memset, cases "i < num_threads c", simp_all add: M_Memset)
  next
    case (M_Seek r i)
    show ?thesis by (rule step, simp add: M_Seek, cases "i < num_threads c", simp_all add: M_Seek)
  next
    case (M_Ring r i)
    show ?thesis by (rule step, simp add: M_Ring, cases "i < num_threads c", simp_all add: M_Ring)
  next
    case (M_Poll r i)
    show ?thesis
      by (rule step, simp add: M_Poll, cases "i < num_threads c", simp_all add: M_Poll wait [OF M_Poll])
  next
    case (M_Report r)
    have "r < R" using I [OF n] M_Report R by simp
    then show ?thesis
      by - (rule step, simp add: M_Report, cases "count c r = 0", simp_all add: M_Report top)
  next
    case (M_Join i)
    then show ?thesis
    proof (cases "i < num_threads c")
      case True
      then have "d_worker s i = W_Exit" using I [OF True] M_Join by (auto simp: worker_top_def)
      with True show ?thesis by - (rule step, simp add: M_Join, simp_all add: M_Join)
    next
      case False
      then show ?thesis by - (rule step, simp add: M_Join, simp_all add: M_Join)
    qed
  qed (use main in simp_all)
qed

text \<open>From every reachable state the run can be completed: no interleaving gets stuck.\<close>

lemma can_end:
  assumes "reach c s" "0 < start_size c" "0 < num_threads c"
  shows "\<exists>s'. (dstep c)\<^sup>*\<^sup>* s s' \<and> reach c s' \<and> (d_main s' = M_End \<or> d_main s' = M_Crash)"
proof -
  obtain R where R: "\<And>r. has_round c r \<longleftrightarrow> r < R" using rounds_bound [OF assms(2)] by blast
  show ?thesis
    using assms(1)
  proof (induction "weight c R s" arbitrary: s rule: less_induct)
    case less
    have inv: "dinv c s" using less.prems assms(2) by (rule reach_dinv)
    show ?case
    proof (cases "d_main s = M_End \<or> d_main s = M_Crash")
      case True
      then show ?thesis using less.prems by blast
    next
      case False
      have "\<exists>s'. dstep c s s' \<and> weight c R s' < weight c R s"
      proof (cases "\<exists>r i. d_main s = M_Poll r i \<and> i < num_threads c \<and> doorbell s (i * 8) \<noteq> FINISHED")
        case True
        then obtain r i where i: "d_main s = M_Poll r i" "i < num_threads c" "doorbell s (i * 8) \<noteq> FINISHED"
          by blast
        then have "active c s i r" using inv by (auto simp: dinv_def finished_def)
        then have "busy s i r" by (auto simp: active_def busy_def)
        then show ?thesis using worker_decreases [OF inv i(2) _ _ _ R] False by blast
      next
        case none: False
        then show ?thesis using False by (intro main_decreases [OF inv _ _ _ assms(3) R]) auto
      qed
      then obtain s1 where s1: "dstep c s s1" "weight c R s1 < weight c R s" by blast
      from less.hyps [OF s1(2) reach.step [OF less.prems s1(1)]] s1(1) show ?thesis
        by (meson converse_rtranclp_into_rtranclp)
    qed
  qed
qed

end
