(* ===== verification/Pthread_Test.thy ===== *)
theory Pthread_Test
  imports Doorbell Integrity
begin

text \<open>
  The main program of \<open>pthread_test.c\<close> up to the creation of the threads (arguments, buffers,
  descriptors, warm-up) and the properties of the doorbell protocol for the values it runs with.
\<close>

section \<open>The sequential part of \<open>main\<close>\<close>

definition thread_arg :: "string \<Rightarrow> int" where
  "thread_arg s = (let n = atoi s in if n \<le> 0 \<or> n > 16 then 1 else n)"

definition fops_arg :: "string \<Rightarrow> fops option" where
  "fops_arg s =
     (if s = ''read'' then Some Op_read
      else if s = ''pread'' then Some Op_pread
      else if s = ''write'' then Some Op_write
      else if s = ''pwrite'' then Some Op_pwrite
      else None)"

text \<open>\<open>posix_memalign\<close> for every thread; nothing if one of the calls fails.\<close>

fun alloc_all :: "int \<Rightarrow> nat \<Rightarrow> buffer list option wprog" where
  "alloc_all bytes 0 = ret (Some [])"
| "alloc_all bytes (Suc n) =
     bindP (call (sys_memalign bytes)) (\<lambda>b. case b of
       None \<Rightarrow> bindP (say No_Mem) (\<lambda>_. ret None)
     | Some buf \<Rightarrow> bindP (alloc_all bytes n) (\<lambda>bs. ret (map_option ((#) buf) bs)))"

fun open_all :: "nat \<Rightarrow> int list wprog" where
  "open_all 0 = ret []"
| "open_all (Suc n) =
     bindP (call (sys_open test1 [O_CREAT, O_RDWR])) (\<lambda>fd.
     bindP (open_all n) (\<lambda>fds. ret (fd # fds)))"

definition warm_call :: "fops \<Rightarrow> int \<Rightarrow> int \<Rightarrow> buffer \<Rightarrow> buffer wprog" where
  "warm_call f fd off buf =
     (case f of
        Op_read \<Rightarrow> bindP (call (sys_read fd buf 4096)) (\<lambda>(r, b). ret b)
      | Op_pread \<Rightarrow> bindP (call (sys_pread fd buf 4096 off)) (\<lambda>(r, b). ret b)
      | Op_write \<Rightarrow> bindP (call (sys_write fd buf 4096)) (\<lambda>r. ret buf)
      | Op_pwrite \<Rightarrow> bindP (call (sys_pwrite fd buf 4096 off)) (\<lambda>r. ret buf))"

definition warm_thread :: "fops \<Rightarrow> int \<Rightarrow> int \<Rightarrow> int \<Rightarrow> int \<times> buffer \<Rightarrow> unit wprog" where
  "warm_thread f fs n i fdbuf =
     (let (fd, buf) = fdbuf; off = fs div n * i in
      bindP (whenP (f = Op_read \<or> f = Op_write) (bindP (call (sys_lseek fd off)) (\<lambda>_. ret ()))) (\<lambda>_.
      bindP (for_int (nat (fs div (4096 * n))) 0
               (\<lambda>j (buf, off). bindP (warm_call f fd off buf) (\<lambda>buf. ret (buf, off + 4096))) (buf, off)) (\<lambda>_.
      ret ())))"

fun warm_all :: "fops \<Rightarrow> int \<Rightarrow> int \<Rightarrow> int \<Rightarrow> (int \<times> buffer) list \<Rightarrow> unit wprog" where
  "warm_all f fs n i [] = ret ()"
| "warm_all f fs n i (x # xs) = bindP (warm_thread f fs n i x) (\<lambda>_. warm_all f fs n (i + 1) xs)"

definition thread_cfg :: "nat \<Rightarrow> nat \<Rightarrow> fops \<Rightarrow> cfg" where
  "thread_cfg n fs f = \<lparr>num_threads = n, start_size = 512, end_size = nat END_SIZE, FILE_SIZE = fs, fops = f\<rparr>"

text \<open>An exit code, or what the threads run with: configuration, descriptors and the result file.\<close>

definition pthread_setup :: "string list \<Rightarrow> (int + cfg \<times> int list \<times> int) wprog" where
  "pthread_setup argv =
     (if length argv < 7 then bindP (say Usage) (\<lambda>_. ret (Inl 0))
      else
      bindP (try_res (c_strcpy 20 (argv ! 1))) (\<lambda>fs_type.
      bindP (try_res (c_strcpy 40 (argv ! 2))) (\<lambda>quill_enabled.
      case fops_arg (argv ! 3) of None \<Rightarrow> bindP (say Err_Plain) (\<lambda>_. ret (Inl 0)) | Some f \<Rightarrow>
      let n = thread_arg (argv ! 4) in
      bindP (try_res (size_arg (argv ! 5))) (\<lambda>szo.
      case szo of None \<Rightarrow> bindP (say Bad_Unit) (\<lambda>_. ret (Inl 0)) | Some fs0 \<Rightarrow>
      let fs = clamp_size END_SIZE fs0 in
      bindP (try_res (c_strcpy 60 (argv ! 6))) (\<lambda>filename.
      bindP (call (c_fopen_a filename)) (\<lambda>output.
      bindP (alloc_all END_SIZE (nat n)) (\<lambda>bufs.
      case bufs of None \<Rightarrow> ret (Inl 0) | Some bs \<Rightarrow>
      bindP (open_all (nat n)) (\<lambda>fds.
      bindP (warm_all f fs n 0 (zip fds bs)) (\<lambda>_.
      ret (Inr (thread_cfg (nat n) (nat fs) f, fds, output)))))))))))"

section \<open>What the setup guarantees\<close>

lemma thread_arg_range: "1 \<le> thread_arg s \<and> thread_arg s \<le> 16"
  by (simp add: thread_arg_def Let_def)

lemma alloc_all_wp: "wp (alloc_all bytes n) (\<lambda>bs w. \<forall>l. bs = Some l \<longrightarrow> length l = n) (\<lambda>_ _. False) w"
proof (induction n arbitrary: w)
  case (Suc n)
  then show ?case
    by (cases "bytes \<le> w_mem w") (auto simp: wp_simps say_def intro!: wp_mono [OF Suc])
qed (simp add: wp_simps)

lemma open_all_wp: "wp (open_all n) (\<lambda>fds w. length fds = n) (\<lambda>_ _. False) w"
proof (induction n arbitrary: w)
  case (Suc n)
  then show ?case by (auto simp: wp_simps elim!: wp_mono)
qed (simp add: wp_simps)

lemma warm_call_wp: "wp (warm_call f fd off buf) (\<lambda>_ _. True) (\<lambda>_ _. False) w"
  by (cases f) (simp_all add: warm_call_def wp_simps case_prod_unfold)

lemma warm_thread_wp:
  assumes "1 \<le> n" "fs \<le> 2147483648"
  shows "wp (warm_thread f fs n i x) (\<lambda>_ _. True) (\<lambda>_ _. False) w"
proof -
  have "fs div (4096 * n) \<le> 2147483648 div (4096 * n)" using assms by (intro zdiv_mono1) simp_all
  also have "\<dots> \<le> 2147483648 div 4096" using assms(1) by (intro zdiv_mono2) simp_all
  finally have c: "nat (fs div (4096 * n)) \<le> 524288" by simp
  have "wp (for_int (nat (fs div (4096 * n))) 0
      (\<lambda>j (buf, off). bindP (warm_call f fd off buf) (\<lambda>buf. ret (buf, off + 4096))) (buf, off))
      (\<lambda>_ _. True) (\<lambda>_ _. False) w" for fd buf off w
    using c by (intro wp_for_int [where I = "\<lambda>_ _ _. True"])
      (auto simp: wp_simps intro: wp_mono [OF warm_call_wp])
  then show ?thesis
    by (cases x) (simp add: warm_thread_def wp_simps Let_def)
qed

lemma warm_all_wp:
  "1 \<le> n \<Longrightarrow> fs \<le> 2147483648 \<Longrightarrow> wp (warm_all f fs n i xs) (\<lambda>_ _. True) (\<lambda>_ _. False) w"
proof (induction xs arbitrary: i w)
  case (Cons x xs)
  then show ?case
    by (auto simp: wp_simps intro!: wp_mono [OF warm_thread_wp])
qed (simp add: wp_simps)

lemma pthread_setup_wp:
  "wp (pthread_setup argv)
    (\<lambda>r w. case r of Inl x \<Rightarrow> x = 0
       | Inr (c, fds, out) \<Rightarrow> start_size c = 512 \<and> end_size c = 4194304
           \<and> 1 \<le> num_threads c \<and> num_threads c \<le> 16
           \<and> 4194304 \<le> FILE_SIZE c \<and> FILE_SIZE c \<le> 2147483648
           \<and> length fds = num_threads c)
    (\<lambda>e _. e = Trap Buffer_Overflow \<or> e = Trap Out_Of_Bounds) w"
proof -
  note n = thread_arg_range [of "argv ! 4"]
  have "END_SIZE \<le> clamp_size END_SIZE x \<and> clamp_size END_SIZE x \<le> 2147483648" for x
    by (rule clamp_size_range) (simp add: END_SIZE_value)
  then have fs: "4194304 \<le> clamp_size 4194304 x" "clamp_size 4194304 x \<le> 2147483648" for x
    by (simp_all add: END_SIZE_value)
  have nat: "Suc 0 \<le> nat (thread_arg (argv ! 4))" "nat (thread_arg (argv ! 4)) \<le> 16"
    "4194304 \<le> nat (clamp_size 4194304 x)" "nat (clamp_size 4194304 x) \<le> 2147483648" for x
    using n fs [of x] by linarith+
  show ?thesis
    unfolding pthread_setup_def
    using n fs nat
    by (auto simp: wp_simps say_def c_strcpy_def size_arg_def Let_def thread_cfg_def END_SIZE_value
        split: sum.splits option.splits
        intro!: wp_mono [OF wp_no_stop [OF alloc_all_wp]] wp_mono [OF wp_no_stop [OF open_all_wp]]
          wp_mono [OF wp_no_stop [OF warm_all_wp]])
qed

section \<open>The rounds of \<open>pthread_test\<close>\<close>

text \<open>A configuration as \<open>pthread_setup\<close> returns it.\<close>

definition test_cfg :: "cfg \<Rightarrow> bool" where
  "test_cfg c \<longleftrightarrow> start_size c = 512 \<and> end_size c = 4194304 \<and> 1 \<le> num_threads c \<and> num_threads c \<le> 16
     \<and> 4194304 \<le> FILE_SIZE c \<and> FILE_SIZE c \<le> 2147483648"

lemma test_rounds: "test_cfg c \<Longrightarrow> has_round c r \<longleftrightarrow> r < 14"
proof -
  assume c: "test_cfg c"
  have "(2 :: nat) ^ r \<le> 2 ^ 13 \<longleftrightarrow> r \<le> 13" by (rule power_increasing_iff) simp
  then show ?thesis using c by (auto simp: test_cfg_def has_round_def round_size_def)
qed

lemma test_counts:
  assumes c: "test_cfg c"
  shows "(\<forall>r. has_round c r \<longrightarrow> count c r \<noteq> 0) \<longleftrightarrow> num_threads c * 4194304 \<le> FILE_SIZE c"
proof
  assume "\<forall>r. has_round c r \<longrightarrow> count c r \<noteq> 0"
  then have "count c 13 \<noteq> 0" using test_rounds [OF c] by simp
  then show "num_threads c * 4194304 \<le> FILE_SIZE c"
    using c by (auto simp: count_def round_size_def test_cfg_def div_eq_0_iff)
next
  assume le: "num_threads c * 4194304 \<le> FILE_SIZE c"
  show "\<forall>r. has_round c r \<longrightarrow> count c r \<noteq> 0"
  proof (intro allI impI)
    fix r assume "has_round c r"
    then have "round_size c r \<le> 4194304" using c by (simp add: has_round_def test_cfg_def)
    then have "num_threads c * round_size c r \<le> num_threads c * 4194304" by (rule mult_le_mono2)
    then have "num_threads c * round_size c r \<le> FILE_SIZE c" using le by (rule le_trans)
    moreover have "0 < num_threads c * round_size c r" using c by (simp add: test_cfg_def round_size_def)
    ultimately show "count c r \<noteq> 0" by (simp add: count_def div_eq_0_iff)
  qed
qed

lemma run_end:
  assumes "reach c s" "0 < start_size c" "0 < num_threads c"
  shows "d_main s = M_End \<Longrightarrow> (\<forall>q. has_round c q \<longrightarrow> count c q \<noteq> 0) \<and> (\<forall>pid < num_threads c. d_worker s pid = W_Exit)"
    and "d_main s = M_Crash \<Longrightarrow> \<exists>q. has_round c q \<and> count c q = 0"
  using reach_passed [OF assms] reach_dinv [OF assms(1,2)] by (simp_all add: dinv_def)

section \<open>A concrete run\<close>

definition two_threads :: cfg where
  "two_threads = thread_cfg 2 4194304 Op_pwrite"

lemma test_two_threads: "test_cfg two_threads"
  by (simp add: test_cfg_def two_threads_def thread_cfg_def END_SIZE_value)

definition sample_room :: nat where
  "sample_room = 2147483648"

lemma sample_room_pos [simp]: "0 < sample_room" "min (Suc 0) sample_room = Suc 0"
  by (simp_all add: sample_room_def)

definition sample_start :: dstate where
  "sample_start = dinit empty_inode (\<lambda>_ _. 0) (\<lambda>_. 0) sample_room"

lemma reach_sample: "reach c sample_start"
  unfolding sample_start_def by (rule reach.init)

text \<open>A run along a schedule: the main thread for \<open>None\<close>, a worker for \<open>Some pid\<close>.\<close>

fun exec :: "cfg \<Rightarrow> nat option list \<Rightarrow> dstate \<Rightarrow> dstate option" where
  "exec c [] s = Some s"
| "exec c (None # ts) s = Option.bind (main_step c s (d_main s)) (exec c ts)"
| "exec c (Some pid # ts) s =
     (if pid < num_threads c \<and> d_main s \<noteq> M_End \<and> d_main s \<noteq> M_Crash
      then Option.bind (worker_step c pid s (d_worker s pid)) (exec c ts) else None)"

lemma exec_reach: "reach c s \<Longrightarrow> exec c ts s = Some s' \<Longrightarrow> reach c s'"
proof (induction c ts s rule: exec.induct)
  case (2 c ts s)
  then show ?case by (auto simp: bind_eq_Some_conv intro: reach.step dstep.main)
next
  case (3 c pid ts s)
  then have ok: "pid < num_threads c" "d_main s \<noteq> M_End" "d_main s \<noteq> M_Crash"
    by (auto split: if_splits)
  then obtain y where y: "worker_step c pid s (d_worker s pid) = Some y" "exec c ts y = Some s'"
    using "3.prems"(2) by (auto simp: bind_eq_Some_conv)
  have "reach c y" using "3.prems"(1) dstep.worker [OF ok y(1)] by (rule reach.step)
  then show ?case using "3.IH" ok y by simp
qed simp

text \<open>One thread writes a file of one byte in a single request.\<close>

definition one_byte :: cfg where
  "one_byte = \<lparr>num_threads = 1, start_size = 1, end_size = 1, FILE_SIZE = 1, fops = Op_pwrite\<rparr>"

lemma one_byte_sel [simp]:
  "num_threads one_byte = 1" "start_size one_byte = 1" "fops one_byte = Op_pwrite"
  "has_round one_byte r \<longleftrightarrow> r = 0" "round_size one_byte r = 2 ^ r" "count one_byte 0 = 1"
  "start_offset one_byte 0 = 0"
proof -
  have "(2 :: nat) ^ r \<le> 2 ^ 0 \<longleftrightarrow> r \<le> 0" by (rule power_increasing_iff) simp
  then show "has_round one_byte r \<longleftrightarrow> r = 0" by (simp add: one_byte_def has_round_def round_size_def)
qed (simp_all add: one_byte_def round_size_def count_def start_offset_def)

lemmas exec_simps = sample_start_def dinit_def goto_main_def goto_worker_def set_bell_def
  worker_top_def main_top_def transfer_def Let_def

section \<open>Properties\<close>

text \<open>
  Whatever the arguments, the setup of \<open>pthread_test\<close> ends in an exit code 0, in one of the
  two crashes of its string copies (an argument longer than its array, an empty size argument),
  or with 1 to 16 threads, one descriptor for each, and a file size between 4 MB and 2 GB, so
  that the 16 lines of the doorbell array and the 4 MB buffers suffice.
\<close>

theorem pthread_setup_ranges:
  "wp (pthread_setup argv)
    (\<lambda>r w. case r of Inl x \<Rightarrow> x = 0
       | Inr (c, fds, out) \<Rightarrow> test_cfg c \<and> length fds = num_threads c
           \<and> num_threads c * 8 \<le> 8 * 16
           \<and> round_size c ` {r. has_round c r} \<subseteq> {..nat END_SIZE})
    (\<lambda>e _. e = Trap Buffer_Overflow \<or> e = Trap Out_Of_Bounds) w"
  using pthread_setup_wp
  by (rule wp_mono) (auto simp: test_cfg_def has_round_def END_SIZE_value split: sum.splits)

text \<open>
  C10: Mutual exclusion of the doorbell protocol: in every reachable state of every interleaving,
  a worker that seeks, transfers or answers in some round does so while the main thread rings
  the bells of the same round, after its own, or polls, before its own; so the main thread never
  fills a buffer or rewinds a descriptor that a worker is using.
\<close>

theorem doorbell_exclusion:
  assumes "reach c s" "0 < start_size c" "pid < num_threads c" "d_main s \<noteq> M_Crash"
    and "d_worker s pid \<in> {W_Seek r, W_Io r i, W_Bell r}"
  shows "(\<exists>k. pid < k \<and> d_main s = M_Ring r k) \<or> (\<exists>k \<le> pid. d_main s = M_Poll r k)"
proof (rule busy_phase(4))
  show "thread_inv c s (d_main s) pid" using reach_dinv [OF assms(1,2)] assms(3) by (simp add: dinv_def)
  show "busy s pid r" using assms(5) by (auto simp: busy_def)
qed (rule assms(4))

theorem doorbell_exclusion_witness:
  "\<exists>s. exec one_byte (replicate 7 None @ [Some 0]) sample_start = Some s \<and> d_worker s 0 = W_Seek 0
     \<and> ((\<exists>k. 0 < k \<and> d_main s = M_Ring 0 k) \<or> (\<exists>k \<le> 0. d_main s = M_Poll 0 k))"
proof -
  obtain s where s: "exec one_byte (replicate 7 None @ [Some 0]) sample_start = Some s"
    "d_worker s 0 = W_Seek 0" "d_main s = M_Ring 0 1"
    by (simp add: eval_nat_numeral exec_simps)
  have "reach one_byte s" using reach_sample s(1) by (rule exec_reach)
  from doorbell_exclusion [OF this, of 0 0 0] s show ?thesis by (simp add: one_byte_sel)
qed

text \<open>
  C3: Functional correctness of a write benchmark under every interleaving, whatever the offset
  \<open>d_fmax\<close> up to which the file system takes bytes.  When the main thread reports round \<open>r\<close>, every
  byte of each thread's slice that belongs to the round's requests and that there is room for
  holds the letter of the round; if there is no room for one of them, some transfer has printed
  "ERROR!".  So without an error line all bytes of the requests hold the letter: no thread missed
  a transfer or wrote into another's slice.
\<close>

theorem round_written:
  assumes "reach c s" "0 < start_size c" "d_main s = M_Report r"
    and "fops c = Op_write \<or> fops c = Op_pwrite"
    and "pid < num_threads c" "j < count c r * round_size c r"
  shows "if start_offset c pid + j < d_fmax s
    then start_offset c pid + j < i_size (d_file s) \<and> i_data (d_file s) (start_offset c pid + j) = letter_of r
    else 0 < d_errors s"
proof -
  have "thread_inv c s (d_main s) pid" using reach_dinv [OF assms(1,2)] assms(5) by (simp add: dinv_def)
  then have "wrote c s pid r (count c r * round_size c r)" using assms(3) by (simp add: finished_def)
  then show ?thesis using assms(4,6) by (auto simp: wrote_def is_write_def split: if_splits)
qed

text \<open>The same run on a file system without room: the report comes after an error line.\<close>

definition full_start :: dstate where
  "full_start = dinit empty_inode (\<lambda>_ _. 0) (\<lambda>_. 0) 0"

theorem round_written_witness:
  "\<exists>s f. exec one_byte (replicate 8 None @ replicate 5 (Some 0) @ replicate 2 None) sample_start = Some s
     \<and> d_main s = M_Report 0 \<and> i_data (d_file s) 0 = letter_of 0
     \<and> exec one_byte (replicate 8 None @ replicate 5 (Some 0) @ replicate 2 None) full_start = Some f
     \<and> d_main f = M_Report 0 \<and> 0 < d_errors f"
proof -
  obtain s where s: "exec one_byte (replicate 8 None @ replicate 5 (Some 0) @ replicate 2 None) sample_start = Some s"
    "d_main s = M_Report 0" "d_errors s = 0"
    by (simp add: eval_nat_numeral exec_simps room_def)
  obtain f where f: "exec one_byte (replicate 8 None @ replicate 5 (Some 0) @ replicate 2 None) full_start = Some f"
    "d_main f = M_Report 0" "i_size (d_file f) = 0" "d_fmax f = 0"
    by (simp add: eval_nat_numeral exec_simps full_start_def room_def ino_put_def empty_inode_def)
  have "reach one_byte s" using reach_sample s(1) by (rule exec_reach)
  from round_written [OF this, of 0 0 0] s have "i_data (d_file s) 0 = letter_of 0" by (simp split: if_splits)
  moreover have "reach one_byte f" using reach.init f(1) unfolding full_start_def by (rule exec_reach)
  from round_written [OF this, of 0 0 0] f have "0 < d_errors f" by (auto split: if_splits)
  ultimately show ?thesis using s f by blast
qed

text \<open>
  C11: No deadlock: from every reachable state of every interleaving the run of \<open>pthread_test\<close>
  can be completed.  It ends normally, with every worker past its last round, exactly if the
  file has at least 4 MB per thread; otherwise a round has 0 requests per thread and the main
  thread dies of the division \<open>time / count\<close>.
\<close>

theorem run_completes:
  assumes "reach c s" and "test_cfg c"
  shows "\<exists>s'. (dstep c)\<^sup>*\<^sup>* s s' \<and>
     (if num_threads c * 4194304 \<le> FILE_SIZE c
      then d_main s' = M_End \<and> (\<forall>pid < num_threads c. d_worker s' pid = W_Exit)
      else d_main s' = M_Crash)"
proof -
  have c: "0 < start_size c" "0 < num_threads c" using assms(2) by (simp_all add: test_cfg_def)
  obtain s' where s': "(dstep c)\<^sup>*\<^sup>* s s'" "reach c s'" "d_main s' = M_End \<or> d_main s' = M_Crash"
    using can_end [OF assms(1) c] by blast
  show ?thesis
  proof (intro exI [of _ s'] conjI s'(1))
    show "if num_threads c * 4194304 \<le> FILE_SIZE c
      then d_main s' = M_End \<and> (\<forall>pid < num_threads c. d_worker s' pid = W_Exit) else d_main s' = M_Crash"
      using s'(3) run_end [OF s'(2) c] test_counts [OF assms(2)] by (metis (no_types))
  qed
qed

theorem run_completes_witness:
  "\<exists>s'. (dstep two_threads)\<^sup>*\<^sup>* sample_start s' \<and> d_main s' = M_Crash"
  using run_completes [OF reach_sample test_two_threads]
  by (simp add: two_threads_def thread_cfg_def)

text \<open>
  C16: The slices of the threads are disjoint and lie within the file: no byte of the file is
  touched by two threads in any round, and none beyond \<open>FILE_SIZE\<close>.
\<close>

theorem slices_disjoint:
  assumes "p < num_threads c" "q < num_threads c" "p \<noteq> q"
    and "j < count c r * round_size c r" "k < count c r' * round_size c r'"
  shows "start_offset c p + j \<noteq> start_offset c q + k \<and> start_offset c p + j < FILE_SIZE c"
proof
  show "start_offset c p + j \<noteq> start_offset c q + k"
    using assms(4,5) count_le [of c r] count_le [of c r'] by (intro slices.distinct [OF assms(3)]) simp_all
  have "start_offset c p + j < start_offset c (Suc p)" using assms(1,4) by (rule slice_in)
  also have "\<dots> \<le> start_offset c (num_threads c)" using assms(1) by (intro slice_mono) simp
  also have "\<dots> \<le> FILE_SIZE c" by (rule slice_end)
  finally show "start_offset c p + j < FILE_SIZE c" .
qed

theorem slices_disjoint_witness:
  "start_offset two_threads 0 + 100 \<noteq> start_offset two_threads 1 + 100
   \<and> start_offset two_threads 0 + 100 < FILE_SIZE two_threads"
  using slices_disjoint [of 0 two_threads 1 100 0 100 0]
  by (simp add: two_threads_def thread_cfg_def count_def round_size_def)

end
