(* ===== verification/Doorbell_Once.thy ===== *)
theory Doorbell_Once
  imports Doorbell
begin

text \<open>
  The doorbell protocol with a single round, as \<open>pthread_test_create.c\<close> and
  \<open>pthread_counter.c\<close> run it: the main thread creates the workers, rings every bell, polls until
  every bell says \<open>FINISHED\<close>, prints an average and joins the workers; a worker polls its bell,
  does \<open>len\<close> actions, prints its average and answers.

  The actions \<open>act pid j\<close> work on the shared state of the program.  The locale \<open>round_work\<close> is the
  contract of the actions; its theorems hold for every program that meets it.
\<close>

section \<open>State and steps\<close>

datatype once_pc =
    O_Create nat | O_Ring nat | O_Poll nat
  | O_Report             \<comment> \<open>\<open>time / (num * num_threads)\<close>\<close>
  | O_Join nat | O_End
  | O_Crash trap

datatype once_worker =
    V_New | V_Wait
  | V_Act nat            \<comment> \<open>the loop, with \<open>j\<close> actions done\<close>
  | V_Report             \<comment> \<open>\<open>time / num\<close>\<close>
  | V_Bell | V_Exit

record 's once =
  o_main :: once_pc
  o_worker :: "nat \<Rightarrow> once_worker"
  o_bell :: "nat \<Rightarrow> int"
  o_state :: 's

text \<open>A division of a time by an \<open>int\<close> product: the product may overflow, the divisor may be zero.\<close>

definition average_trap :: "int \<Rightarrow> trap option" where
  "average_trap d =
     (if d < - (2 ^ 31) \<or> 2 ^ 31 \<le> d then Some Int_Overflow else if d = 0 then Some Div_By_Zero else None)"

fun once_main :: "nat \<Rightarrow> int \<Rightarrow> 's once \<Rightarrow> once_pc \<Rightarrow> 's once option" where
  "once_main n num s (O_Create i) = Some
     (if i < n then s\<lparr>o_main := O_Create (Suc i), o_worker := (o_worker s)(i := V_Wait)\<rparr>
      else s\<lparr>o_main := O_Ring 0\<rparr>)"
| "once_main n num s (O_Ring i) = Some
     (if i < n then s\<lparr>o_main := O_Ring (Suc i), o_bell := (o_bell s)(i * 8 := START)\<rparr>
      else s\<lparr>o_main := O_Poll 0\<rparr>)"
| "once_main n num s (O_Poll i) = Some
     (if i < n
      then if o_bell s (i * 8) \<noteq> FINISHED then s\<lparr>o_main := O_Poll 0\<rparr> else s\<lparr>o_main := O_Poll (Suc i)\<rparr>
      else s\<lparr>o_main := O_Report\<rparr>)"
| "once_main n num s O_Report = Some
     (case average_trap (num * int n) of Some t \<Rightarrow> s\<lparr>o_main := O_Crash t\<rparr> | None \<Rightarrow> s\<lparr>o_main := O_Join 0\<rparr>)"
| "once_main n num s (O_Join i) =
     (if i < n
      then if o_worker s i = V_Exit then Some (s\<lparr>o_main := O_Join (Suc i)\<rparr>) else None
      else Some (s\<lparr>o_main := O_End\<rparr>))"
| "once_main n num s O_End = None"
| "once_main n num s (O_Crash t) = None"

definition to_once :: "nat \<Rightarrow> once_worker \<Rightarrow> 's once \<Rightarrow> 's once" where
  "to_once pid pc s = s\<lparr>o_worker := (o_worker s)(pid := pc)\<rparr>"

fun once_work :: "(nat \<Rightarrow> nat \<Rightarrow> 's \<Rightarrow> 's) \<Rightarrow> nat \<Rightarrow> int \<Rightarrow> nat \<Rightarrow> 's once \<Rightarrow> once_worker \<Rightarrow> 's once option" where
  "once_work act len num pid s V_New = None"
| "once_work act len num pid s V_Wait = Some
     (if o_bell s (pid * 8) = START then to_once pid (V_Act 0) s else s)"
| "once_work act len num pid s (V_Act j) = Some
     (if j < len then to_once pid (V_Act (Suc j)) (s\<lparr>o_state := act pid j (o_state s)\<rparr>)
      else to_once pid V_Report s)"
| "once_work act len num pid s V_Report = Some
     (case average_trap num of Some t \<Rightarrow> s\<lparr>o_main := O_Crash t\<rparr> | None \<Rightarrow> to_once pid V_Bell s)"
| "once_work act len num pid s V_Bell = Some
     (to_once pid V_Exit (s\<lparr>o_bell := (o_bell s)(pid * 8 := FINISHED)\<rparr>))"
| "once_work act len num pid s V_Exit = None"

definition once_runs :: "'s once \<Rightarrow> bool" where
  "once_runs s \<longleftrightarrow> (case o_main s of O_End \<Rightarrow> False | O_Crash t \<Rightarrow> False | _ \<Rightarrow> True)"

inductive once_step :: "(nat \<Rightarrow> nat \<Rightarrow> 's \<Rightarrow> 's) \<Rightarrow> nat \<Rightarrow> nat \<Rightarrow> int \<Rightarrow> 's once \<Rightarrow> 's once \<Rightarrow> bool" for act len n num where
  main: "once_main n num s (o_main s) = Some s' \<Longrightarrow> once_step act len n num s s'"
| worker: "pid < n \<Longrightarrow> once_runs s \<Longrightarrow> once_work act len num pid s (o_worker s pid) = Some s' \<Longrightarrow>
    once_step act len n num s s'"

inductive_cases once_stepE: "once_step act len n num s s'"

definition once_init :: "'s \<Rightarrow> 's once" where
  "once_init x = \<lparr>o_main = O_Create 0, o_worker = (\<lambda>_. V_New), o_bell = (\<lambda>_. 0), o_state = x\<rparr>"

inductive once_reach :: "(nat \<Rightarrow> nat \<Rightarrow> 's \<Rightarrow> 's) \<Rightarrow> nat \<Rightarrow> nat \<Rightarrow> int \<Rightarrow> 's \<Rightarrow> 's once \<Rightarrow> bool" for act len n num x where
  init: "once_reach act len n num x (once_init x)"
| step: "once_reach act len n num x s \<Longrightarrow> once_step act len n num s s' \<Longrightarrow> once_reach act len n num x s'"

section \<open>The protocol\<close>

definition ringing :: "int \<Rightarrow> 's once \<Rightarrow> nat \<Rightarrow> bool" where
  "ringing num s pid \<longleftrightarrow> o_bell s (pid * 8) = START \<and> o_worker s pid \<noteq> V_New \<and> o_worker s pid \<noteq> V_Exit
     \<and> (o_worker s pid = V_Bell \<longrightarrow> average_trap num = None)"

definition answered :: "int \<Rightarrow> 's once \<Rightarrow> nat \<Rightarrow> bool" where
  "answered num s pid \<longleftrightarrow> o_bell s (pid * 8) = FINISHED \<and> o_worker s pid = V_Exit \<and> average_trap num = None"

fun once_phase :: "int \<Rightarrow> 's once \<Rightarrow> once_pc \<Rightarrow> nat \<Rightarrow> bool" where
  "once_phase num s (O_Create i) pid \<longleftrightarrow> o_bell s (pid * 8) = 0 \<and> o_worker s pid = (if pid < i then V_Wait else V_New)"
| "once_phase num s (O_Ring i) pid \<longleftrightarrow>
     (if pid < i then ringing num s pid \<or> answered num s pid else o_bell s (pid * 8) = 0 \<and> o_worker s pid = V_Wait)"
| "once_phase num s (O_Poll i) pid \<longleftrightarrow> (ringing num s pid \<or> answered num s pid) \<and> (pid < i \<longrightarrow> answered num s pid)"
| "once_phase num s O_Report pid \<longleftrightarrow> answered num s pid"
| "once_phase num s (O_Join i) pid \<longleftrightarrow> answered num s pid"
| "once_phase num s O_End pid \<longleftrightarrow> answered num s pid"
| "once_phase num s (O_Crash t) pid \<longleftrightarrow> True"

definition crash_ok :: "nat \<Rightarrow> int \<Rightarrow> once_pc \<Rightarrow> bool" where
  "crash_ok n num pc \<longleftrightarrow> (case pc of
     O_Crash t \<Rightarrow> average_trap num = Some t \<or> average_trap (num * int n) = Some t
   | O_Join i \<Rightarrow> average_trap (num * int n) = None
   | O_End \<Rightarrow> average_trap (num * int n) = None
   | _ \<Rightarrow> True)"

definition once_inv :: "nat \<Rightarrow> int \<Rightarrow> 's once \<Rightarrow> bool" where
  "once_inv n num s \<longleftrightarrow> (\<forall>pid < n. once_phase num s (o_main s) pid) \<and> crash_ok n num (o_main s)"

lemma to_once_sel [simp]:
  "o_main (to_once pid pc s) = o_main s" "o_bell (to_once pid pc s) = o_bell s"
  "o_worker (to_once pid pc s) = (o_worker s)(pid := pc)" "o_state (to_once pid pc s) = o_state s"
  by (simp_all add: to_once_def)

text \<open>The phase of a thread reads its own bell and its own counter only.\<close>

lemma once_phase_cong:
  "o_bell s' (pid * 8) = o_bell s (pid * 8) \<Longrightarrow> o_worker s' pid = o_worker s pid
    \<Longrightarrow> once_phase num s' pc pid = once_phase num s pc pid"
  by (cases pc) (simp_all add: ringing_def answered_def)

lemma once_main_inv:
  assumes inv: "once_inv n num s" and st: "once_main n num s (o_main s) = Some s'"
  shows "once_inv n num s'"
proof -
  have I: "once_phase num s (o_main s) pid" if "pid < n" for pid using inv that by (simp add: once_inv_def)
  have c: "crash_ok n num (o_main s)" using inv by (simp add: once_inv_def)
  have "once_phase num s' (o_main s') pid" if pid: "pid < n" for pid
  proof (cases "o_main s")
    case (O_Create i)
    with st I [OF pid] pid show ?thesis by (auto split: if_splits)
  next
    case (O_Ring i)
    with st I [OF pid] pid show ?thesis
      by (auto simp: ringing_def answered_def less_Suc_eq split: if_splits)
  next
    case (O_Poll i)
    have "answered num s i" if "i < n" "o_bell s (i * 8) = FINISHED"
      using I [OF that(1)] that(2) O_Poll by (simp add: ringing_def)
    with O_Poll st I [OF pid] pid show ?thesis
      by (auto simp: ringing_def answered_def less_Suc_eq split: if_splits)
  next
    case O_Report
    with st I [OF pid] show ?thesis by (auto simp: answered_def split: option.splits)
  next
    case (O_Join i)
    with st I [OF pid] show ?thesis by (auto simp: answered_def split: if_splits)
  qed (use st in auto)
  moreover have "crash_ok n num (o_main s')"
    using c st by (cases "o_main s") (auto simp: crash_ok_def split: if_splits option.splits)
  ultimately show ?thesis by (simp add: once_inv_def)
qed

lemma once_work_other:
  assumes "once_work act len num pid s pc = Some s'" and "q \<noteq> pid"
  shows "o_bell s' (q * 8) = o_bell s (q * 8)" "o_worker s' q = o_worker s q"
  using assms by (cases pc; auto split: if_splits option.splits)+

lemma once_work_own:
  assumes st: "once_work act len num pid s (o_worker s pid) = Some s'" and I: "once_phase num s (o_main s) pid"
    and run: "once_runs s"
  shows "once_phase num s' (o_main s') pid"
proof (cases "s' = s \<or> o_main s' \<noteq> o_main s")
  case True
  with st I show ?thesis
    by (cases "o_worker s pid") (auto split: if_splits option.splits)
next
  case False
  then have r: "ringing num s pid \<and> (ringing num s' pid \<or> answered num s' pid)"
    using st I run
    by (cases "o_main s"; cases "o_worker s pid")
      (auto simp: ringing_def answered_def once_runs_def split: if_splits option.splits)
  then have "\<not> answered num s pid" by (simp add: ringing_def answered_def)
  moreover have "o_main s' = o_main s" using False by simp
  ultimately show ?thesis using I r run
    by (cases "o_main s") (auto simp: ringing_def once_runs_def split: if_splits)
qed

lemma once_work_inv:
  assumes inv: "once_inv n num s" and pid: "pid < n" and run: "once_runs s"
    and st: "once_work act len num pid s (o_worker s pid) = Some s'"
  shows "once_inv n num s'"
proof -
  have I: "once_phase num s (o_main s) q" if "q < n" for q using inv that by (simp add: once_inv_def)
  have m: "o_main s' = o_main s \<or> (\<exists>t. o_main s' = O_Crash t \<and> average_trap num = Some t)"
    using st by (cases "o_worker s pid") (auto split: if_splits option.splits)
  have "once_phase num s' (o_main s') q" if q: "q < n" for q
  proof (cases "q = pid")
    case True
    then show ?thesis using once_work_own [OF st I [OF pid] run] by simp
  next
    case False
    then show ?thesis using m once_phase_cong [OF once_work_other [OF st False]] I [OF q] by auto
  qed
  moreover have "crash_ok n num (o_main s')"
    using inv m by (auto simp: once_inv_def crash_ok_def)
  ultimately show ?thesis by (simp add: once_inv_def)
qed

lemma once_reach_inv: "once_reach act len n num x s \<Longrightarrow> once_inv n num s"
proof (induction rule: once_reach.induct)
  case init
  then show ?case by (simp add: once_inv_def once_init_def crash_ok_def)
next
  case (step s s')
  from step.hyps(2) show ?case
    by (rule once_stepE) (auto intro: once_main_inv once_work_inv step.IH)
qed


section \<open>The work\<close>

text \<open>
  The contract of the actions: \<open>did pid j x\<close> says that thread \<open>pid\<close> has done \<open>j\<close> actions; an action
  adds one to those of its own thread and takes none from the others, and all keep \<open>keeps\<close>.
\<close>

definition done_of :: "nat \<Rightarrow> once_worker \<Rightarrow> nat" where
  "done_of len pc = (case pc of V_New \<Rightarrow> 0 | V_Wait \<Rightarrow> 0 | V_Act j \<Rightarrow> j | _ \<Rightarrow> len)"

lemma done_of_simps [simp]:
  "done_of len V_New = 0" "done_of len V_Wait = 0" "done_of len (V_Act j) = j"
  "done_of len V_Report = len" "done_of len V_Bell = len" "done_of len V_Exit = len"
  by (simp_all add: done_of_def)

locale round_work =
  fixes act :: "nat \<Rightarrow> nat \<Rightarrow> 's \<Rightarrow> 's" and n len :: nat
    and did :: "nat \<Rightarrow> nat \<Rightarrow> 's \<Rightarrow> bool" and keeps :: "'s \<Rightarrow> bool"
  assumes own: "pid < n \<Longrightarrow> j < len \<Longrightarrow> did pid j x \<Longrightarrow> did pid (Suc j) (act pid j x)"
    and other: "pid < n \<Longrightarrow> q < n \<Longrightarrow> q \<noteq> pid \<Longrightarrow> did q k x \<Longrightarrow> did q k (act pid j x)"
    and keep: "pid < n \<Longrightarrow> j < len \<Longrightarrow> keeps x \<Longrightarrow> keeps (act pid j x)"
begin

definition work_inv :: "'s once \<Rightarrow> bool" where
  "work_inv s \<longleftrightarrow> keeps (o_state s)
     \<and> (\<forall>pid < n. done_of len (o_worker s pid) \<le> len \<and> did pid (done_of len (o_worker s pid)) (o_state s))"

lemma work_inv_same:
  "work_inv s \<Longrightarrow> o_state s' = o_state s \<Longrightarrow>
    (\<And>q. q < n \<Longrightarrow> done_of len (o_worker s' q) = done_of len (o_worker s q)) \<Longrightarrow> work_inv s'"
  by (simp add: work_inv_def)

lemma main_same:
  assumes "once_main n num s (o_main s) = Some s'" and "once_inv n num s" and "q < n"
  shows "o_state s' = o_state s" "done_of len (o_worker s' q) = done_of len (o_worker s q)"
  using assms by (cases "o_main s"; auto simp: once_inv_def split: if_splits option.splits)+

lemma worker_keeps_work:
  assumes pid: "pid < n" and st: "once_work act len num pid s (o_worker s pid) = Some s'" and inv: "work_inv s"
  shows "work_inv s'"
proof (cases "\<exists>j < len. o_worker s pid = V_Act j")
  case True
  then obtain j where j: "j < len" "o_worker s pid = V_Act j" by blast
  then have s': "s' = to_once pid (V_Act (Suc j)) (s\<lparr>o_state := act pid j (o_state s)\<rparr>)" using st by simp
  have "did pid j (o_state s)" using inv pid j by (auto simp: work_inv_def)
  then show ?thesis
    using inv own [OF pid j(1)] other [OF pid] keep [OF pid j(1)] j(1) by (auto simp: s' work_inv_def)
next
  case False
  have "done_of len (o_worker s pid) \<le> len" using inv pid by (simp add: work_inv_def)
  then have "o_state s' = o_state s \<and> done_of len (o_worker s' pid) = done_of len (o_worker s pid)"
    using False st by (cases "o_worker s pid") (auto split: if_splits option.splits)
  moreover have "o_worker s' q = o_worker s q" if "q \<noteq> pid" for q
    using once_work_other [OF st that] by simp
  ultimately show ?thesis using inv by (intro work_inv_same [OF inv]) (metis (no_types))+
qed

lemma reach_work:
  assumes "once_reach act len n num x s" "keeps x" "\<And>pid. pid < n \<Longrightarrow> did pid 0 x"
  shows "work_inv s"
  using assms(1)
proof (induction rule: once_reach.induct)
  case init
  then show ?case using assms(2,3) by (simp add: work_inv_def once_init_def)
next
  case (step s s')
  from step.hyps(2) show ?case
  proof (rule once_stepE)
    assume st: "once_main n num s (o_main s) = Some s'"
    note same = main_same [OF st once_reach_inv [OF step.hyps(1)]]
    have "o_state s' = o_state s"
      using st by (cases "o_main s") (auto split: if_splits option.splits)
    then show ?thesis using work_inv_same [OF step.IH] same(2) by blast
  qed (use worker_keeps_work step.IH in blast)
qed

text \<open>Once the main thread reports, every thread has done all its actions.\<close>

lemma all_done:
  assumes "once_reach act len n num x s" "keeps x" "\<And>pid. pid < n \<Longrightarrow> did pid 0 x"
    and "o_main s = O_Report \<or> (\<exists>i. o_main s = O_Join i) \<or> o_main s = O_End" and "pid < n"
  shows "did pid len (o_state s)"
proof -
  have "answered num s pid" using once_reach_inv [OF assms(1)] assms(4,5) by (auto simp: once_inv_def)
  then have "o_worker s pid = V_Exit" by (simp add: answered_def)
  then show ?thesis using reach_work [OF assms(1-3)] assms(5) by (auto simp: work_inv_def)
qed

lemma all_kept:
  assumes "once_reach act len n num x s" "keeps x" "\<And>pid. pid < n \<Longrightarrow> did pid 0 x"
  shows "keeps (o_state s)"
  using reach_work [OF assms] by (simp add: work_inv_def)

end

section \<open>How a run ends\<close>

fun once_weight_main :: "nat \<Rightarrow> once_pc \<Rightarrow> nat" where
  "once_weight_main n (O_Create i) = 3 * n + 5 + (n - i)"
| "once_weight_main n (O_Ring i) = 2 * n + 4 + (n - i)"
| "once_weight_main n (O_Poll i) = n + 3 + (n - i)"
| "once_weight_main n O_Report = n + 2"
| "once_weight_main n (O_Join i) = 1 + (n - i)"
| "once_weight_main n O_End = 0"
| "once_weight_main n (O_Crash t) = 0"

fun once_weight_worker :: "nat \<Rightarrow> once_worker \<Rightarrow> nat" where
  "once_weight_worker len V_New = len + 6"
| "once_weight_worker len V_Wait = len + 5"
| "once_weight_worker len (V_Act j) = 4 + (len - j)"
| "once_weight_worker len V_Report = 2"
| "once_weight_worker len V_Bell = 1"
| "once_weight_worker len V_Exit = 0"

definition once_weight :: "nat \<Rightarrow> nat \<Rightarrow> 's once \<Rightarrow> nat" where
  "once_weight n len s = once_weight_main n (o_main s) + (\<Sum>q < n. once_weight_worker len (o_worker s q))"

lemma once_sum_less:
  fixes f :: "once_worker \<Rightarrow> nat" and p n :: nat
  assumes "p < n" "f x < f (g p)"
  shows "(\<Sum>q < n. f ((g(p := x)) q)) < (\<Sum>q < n. f (g q))"
  using assms by (intro sum_strict_mono_ex1) auto

text \<open>A worker whose bell rings can move on, and the main thread can unless it polls such a bell.\<close>

lemma once_worker_moves:
  assumes r: "ringing num s pid" and pid: "pid < n" and run: "once_runs s"
  shows "\<exists>s'. once_step act len n num s s' \<and> once_weight n len s' < once_weight n len s"
proof -
  have move: ?thesis if "once_work act len num pid s (o_worker s pid) = Some s'" "o_main s' = o_main s"
    "o_worker s' = (o_worker s)(pid := pc)" "once_weight_worker len pc < once_weight_worker len (o_worker s pid)" for s' pc
    using once_step.worker [OF pid run that(1)] once_sum_less [of pid n "once_weight_worker len" pc "o_worker s", OF pid that(4)] that(2,3)
    by (intro exI [of _ s']) (simp add: once_weight_def del: fun_upd_apply)
  show ?thesis
  proof (cases "o_worker s pid")
    case V_Wait
    with r show ?thesis by (intro move [of "to_once pid (V_Act 0) s" "V_Act 0"]) (simp_all add: ringing_def)
  next
    case (V_Act j)
    show ?thesis
    proof (cases "j < len")
      case True
      with V_Act show ?thesis by (intro move [of "to_once pid (V_Act (Suc j)) (s\<lparr>o_state := act pid j (o_state s)\<rparr>)" "V_Act (Suc j)"]) simp_all
    next
      case False
      with V_Act show ?thesis by (intro move [of "to_once pid V_Report s" V_Report]) simp_all
    qed
  next
    case V_Report
    show ?thesis
    proof (cases "average_trap num")
      case None
      with V_Report show ?thesis by (intro move [of "to_once pid V_Bell s" V_Bell]) simp_all
    next
      case (Some t)
      have "0 < once_weight_main n (o_main s)" using run by (cases "o_main s") (auto simp: once_runs_def)
      then have "once_weight n len (s\<lparr>o_main := O_Crash t\<rparr>) < once_weight n len s" by (simp add: once_weight_def)
      moreover have "once_step act len n num s (s\<lparr>o_main := O_Crash t\<rparr>)"
        by (rule once_step.worker [OF pid run]) (simp add: V_Report Some)
      ultimately show ?thesis by blast
    qed
  next
    case V_Bell
    then show ?thesis by (intro move [of "to_once pid V_Exit (s\<lparr>o_bell := (o_bell s)(pid * 8 := FINISHED)\<rparr>)" V_Exit]) simp_all
  qed (use r in \<open>simp_all add: ringing_def\<close>)
qed

lemma once_main_moves:
  assumes inv: "once_inv n num s" and run: "once_runs s"
    and wait: "\<And>i. o_main s = O_Poll i \<Longrightarrow> i < n \<Longrightarrow> answered num s i"
  shows "\<exists>s'. once_step act len n num s s' \<and> once_weight n len s' < once_weight n len s"
proof -
  have I: "once_phase num s (o_main s) q" if "q < n" for q using inv that by (simp add: once_inv_def)
  have step: "\<exists>s'. once_step act len n num s s' \<and> once_weight n len s' < once_weight n len s"
    if "once_main n num s (o_main s) = Some s'" "o_worker s' = o_worker s"
      "once_weight_main n (o_main s') < once_weight_main n (o_main s)" for s'
    using once_step.main [OF that(1)] that(2,3) by (intro exI [of _ s']) (simp add: once_weight_def)
  show ?thesis
  proof (cases "o_main s")
    case (O_Create i)
    show ?thesis
    proof (cases "i < n")
      case True
      let ?s = "s\<lparr>o_main := O_Create (Suc i), o_worker := (o_worker s)(i := V_Wait)\<rparr>"
      have "o_worker s i = V_New" using I [OF True] O_Create by simp
      then have "once_weight n len ?s < once_weight n len s"
        using once_sum_less [OF True, of "once_weight_worker len" V_Wait "o_worker s"] O_Create
        by (simp add: once_weight_def del: fun_upd_apply)
      moreover have "once_step act len n num s ?s"
        by (rule once_step.main) (use O_Create True in simp)
      ultimately show ?thesis by blast
    next
      case False
      show ?thesis by (rule step) (simp add: O_Create False, simp_all add: O_Create)
    qed
  next
    case (O_Ring i)
    show ?thesis by (rule step, simp add: O_Ring, cases "i < n", simp_all add: O_Ring, presburger)
  next
    case (O_Poll i)
    have "i < n \<Longrightarrow> o_bell s (i * 8) = FINISHED" using wait [OF O_Poll] by (simp add: answered_def)
    then have "once_main n num s (o_main s) = Some (s\<lparr>o_main := if i < n then O_Poll (Suc i) else O_Report\<rparr>)"
      by (simp add: O_Poll)
    then show ?thesis by (rule step) (simp, simp add: O_Poll, presburger)
  next
    case O_Report
    show ?thesis
      by (rule step [of "case average_trap (num * int n) of Some t \<Rightarrow> s\<lparr>o_main := O_Crash t\<rparr>
            | None \<Rightarrow> s\<lparr>o_main := O_Join 0\<rparr>"])
        (simp_all add: O_Report split: option.splits)
  next
    case (O_Join i)
    have "i < n \<Longrightarrow> o_worker s i = V_Exit" using I [of i] O_Join by (simp add: answered_def)
    then show ?thesis
      by (intro step [of "s\<lparr>o_main := if i < n then O_Join (Suc i) else O_End\<rparr>"]) (auto simp: O_Join)
  qed (use run in \<open>simp_all add: once_runs_def\<close>)
qed

lemma once_ends:
  assumes "once_reach act len n num x s" "0 < n"
  shows "\<exists>s'. (once_step act len n num)\<^sup>*\<^sup>* s s'
    \<and> (if average_trap num = None \<and> average_trap (num * int n) = None then o_main s' = O_End
       else \<exists>t. o_main s' = O_Crash t)"
  using assms(1)
proof (induction "once_weight n len s" arbitrary: s rule: less_induct)
  case less
  have inv: "once_inv n num s" using less.prems by (rule once_reach_inv)
  show ?case
  proof (cases "once_runs s")
    case False
    have "average_trap num = None \<and> average_trap (num * int n) = None" if "o_main s = O_End"
      using inv that assms(2) by (auto simp: once_inv_def crash_ok_def answered_def)
    moreover have "average_trap num \<noteq> None \<or> average_trap (num * int n) \<noteq> None" if "o_main s = O_Crash t" for t
      using inv that by (auto simp: once_inv_def crash_ok_def)
    ultimately show ?thesis using False
      by (intro exI [of _ s]) (auto simp: once_runs_def split: once_pc.splits)
  next
    case True
    have "\<exists>s'. once_step act len n num s s' \<and> once_weight n len s' < once_weight n len s"
    proof (cases "\<exists>i. o_main s = O_Poll i \<and> i < n \<and> \<not> answered num s i")
      case w: True
      then obtain i where i: "o_main s = O_Poll i" "i < n" "\<not> answered num s i" by blast
      then have "ringing num s i" using inv by (auto simp: once_inv_def)
      from once_worker_moves [OF this i(2) True] show ?thesis .
    next
      case False
      then show ?thesis by (intro once_main_moves [OF inv True]) blast
    qed
    then obtain s1 where s1: "once_step act len n num s s1" "once_weight n len s1 < once_weight n len s" by blast
    from less.hyps [OF s1(2) once_reach.step [OF less.prems s1(1)]] s1(1) show ?thesis
      by (meson converse_rtranclp_into_rtranclp)
  qed
qed

text \<open>A run along a schedule: the main thread for \<open>None\<close>, a worker for \<open>Some pid\<close>.\<close>

fun once_exec :: "(nat \<Rightarrow> nat \<Rightarrow> 's \<Rightarrow> 's) \<Rightarrow> nat \<Rightarrow> nat \<Rightarrow> int \<Rightarrow> nat option list \<Rightarrow> 's once \<Rightarrow> 's once option" where
  "once_exec act len n num [] s = Some s"
| "once_exec act len n num (None # ts) s = Option.bind (once_main n num s (o_main s)) (once_exec act len n num ts)"
| "once_exec act len n num (Some pid # ts) s =
     (if pid < n \<and> once_runs s
      then Option.bind (once_work act len num pid s (o_worker s pid)) (once_exec act len n num ts) else None)"

lemma once_exec_reach:
  "once_reach act len n num x s \<Longrightarrow> once_exec act len n num ts s = Some s' \<Longrightarrow> once_reach act len n num x s'"
proof (induction act len n num ts s rule: once_exec.induct)
  case (2 act len n num ts s)
  then show ?case by (auto simp: bind_eq_Some_conv intro: once_reach.step once_step.main)
next
  case (3 act len n num pid ts s)
  from "3.prems"(2) have ok: "pid < n" "once_runs s"
    and "Option.bind (once_work act len num pid s (o_worker s pid)) (once_exec act len n num ts) = Some s'"
    by (simp_all split: if_split_asm)
  then obtain y where y: "once_work act len num pid s (o_worker s pid) = Some y" "once_exec act len n num ts y = Some s'"
    by (auto simp: bind_eq_Some_conv)
  have "once_reach act len n num x y"
    using "3.prems"(1) once_step.worker [OF ok y(1)] by (rule once_reach.step)
  then show ?case using "3.IH" ok y by simp
qed simp

lemmas once_exec_simps = once_init_def to_once_def once_runs_def average_trap_def

end
