(* ===== verification/Pthread_Once.thy ===== *)
theory Pthread_Once
  imports Doorbell_Once Pthread_Test
begin

text \<open>
  The programs \<open>pthread_test_create.c\<close> and \<open>pthread_counter.c\<close>: their setup and the work of their
  threads, run by the protocol of \<open>Doorbell_Once\<close>.  The shell that runs \<open>rm\<close> is an argument.
\<close>

section \<open>\<open>pthread_test_create\<close>\<close>

text \<open>\<open>sprintf(filename, "%s%d%d", dir, pid, file_count)\<close>\<close>

definition created_name :: "nat \<Rightarrow> nat \<Rightarrow> string" where
  "created_name pid file_count = ''/mnt/ramdisk/file_'' @ decimal pid @ decimal file_count"

text \<open>
  One pass of the loop of \<open>pthread_file_create\<close> is two actions: the even ones open a file, the odd
  ones close what the thread opened last; a failing \<open>open\<close> makes \<open>close\<close> fail.
\<close>

record create_state =
  c_world :: world
  c_fd :: "nat \<Rightarrow> int"

definition create_act :: "nat \<Rightarrow> nat \<Rightarrow> create_state \<Rightarrow> create_state" where
  "create_act pid j s =
     (if even j
      then let (fd, w) = sys_open (created_name pid (j div 2)) [O_CREAT, O_RDWR] (c_world s)
           in s\<lparr>c_world := w, c_fd := (c_fd s)(pid := fd)\<rparr>
      else s\<lparr>c_world := snd (sys_close (c_fd s pid) (c_world s))\<rparr>)"

definition create_run :: "nat \<Rightarrow> int \<Rightarrow> create_state \<Rightarrow> create_state once \<Rightarrow> bool" where
  "create_run n num_files = once_reach create_act (2 * nat num_files) n num_files"

definition create_step :: "nat \<Rightarrow> int \<Rightarrow> create_state once \<Rightarrow> create_state once \<Rightarrow> bool" where
  "create_step n num_files = once_step create_act (2 * nat num_files) n num_files"

text \<open>An exit code, or the numbers of files and of threads.\<close>

definition create_setup :: "(string \<Rightarrow> world \<Rightarrow> int \<times> world) \<Rightarrow> string list \<Rightarrow> (int + int \<times> nat) wprog" where
  "create_setup shell argv =
     (if length argv < 3 then bindP (say Usage) (\<lambda>_. ret (Inl 0))
      else
      let num_files = atoi (argv ! 1); num_threads = thread_arg (argv ! 2) in
      bindP (call (shell ''rm -rf /mnt/ramdisk/*'')) (\<lambda>_.
      ret (Inr (num_files, nat num_threads))))"

section \<open>\<open>pthread_counter\<close>\<close>

text \<open>
  The increments of both counters are commented out: a pass of the loop reads the clock into a
  local variable.  The state keeps the threads that read it, in order.
\<close>

record counter_state =
  shared_counter :: int
  atomic_counter :: int
  clock_calls :: "nat list"

definition counter_act :: "nat \<Rightarrow> nat \<Rightarrow> counter_state \<Rightarrow> counter_state" where
  "counter_act pid i s = s\<lparr>clock_calls := clock_calls s @ [pid]\<rparr>"

definition counter_start :: counter_state where
  "counter_start = \<lparr>shared_counter = 0, atomic_counter = 0, clock_calls = []\<rparr>"

definition counter_run :: "nat \<Rightarrow> int \<Rightarrow> counter_state once \<Rightarrow> bool" where
  "counter_run n num = once_reach counter_act (nat num) n num counter_start"

definition counter_setup :: "string list \<Rightarrow> (int + int \<times> nat) wprog" where
  "counter_setup argv =
     (if length argv < 3 then bindP (say Usage) (\<lambda>_. ret (Inl 0))
      else ret (Inr (atoi (argv ! 1), nat (thread_arg (argv ! 2)))))"

section \<open>The work meets the contract\<close>

definition file_of :: "nat \<Rightarrow> int \<Rightarrow> string \<Rightarrow> bool" where
  "file_of n num_files p \<longleftrightarrow> (\<exists>pid < n. \<exists>i < nat num_files. p = created_name pid i)"

definition create_did :: "nat \<Rightarrow> nat \<Rightarrow> create_state \<Rightarrow> bool" where
  "create_did pid j s \<longleftrightarrow> (\<forall>i. 2 * i < j \<longrightarrow> w_dir (c_world s) (created_name pid i) \<noteq> None)"

definition create_keeps :: "world \<Rightarrow> nat \<Rightarrow> int \<Rightarrow> create_state \<Rightarrow> bool" where
  "create_keeps w n num_files s \<longleftrightarrow>
     (\<forall>p. (w_dir w p \<noteq> None \<longrightarrow> w_dir (c_world s) p \<noteq> None)
        \<and> (w_dir (c_world s) p \<noteq> None \<longrightarrow> w_dir w p \<noteq> None \<or> file_of n num_files p))"

lemma open_dir:
  "path \<noteq> [] \<Longrightarrow> w_dir (snd (sys_open path [O_CREAT, O_RDWR] w)) p = None \<longleftrightarrow> w_dir w p = None \<and> p \<noteq> path"
proof -
  assume ne: "path \<noteq> []"
  obtain fd w1 where o1: "sys_open path [O_CREAT, O_RDWR] w = (fd, w1)" by fastforce
  have "w_dir w1 = (case w_dir w path of None \<Rightarrow> (w_dir w)(path := Some (w_next w)) | Some _ \<Rightarrow> w_dir w)"
    using o1 ne install_spec(6) [of "[O_CREAT, O_RDWR]"] by (auto simp: sys_open_def split: option.splits)
  then show ?thesis by (auto simp: o1 split: option.splits)
qed

lemma create_act_dir:
  "w_dir (c_world (create_act pid j s)) p = None \<longleftrightarrow>
     w_dir (c_world s) p = None \<and> (even j \<longrightarrow> p \<noteq> created_name pid (j div 2))"
proof -
  have "created_name pid (j div 2) \<noteq> []" by (simp add: created_name_def)
  from open_dir [OF this, of "c_world s" p] show ?thesis
    by (simp add: create_act_def case_prod_unfold Let_def)
qed

interpretation create: round_work create_act n "2 * nat num_files" create_did "create_keeps w n num_files"
  for n num_files w
proof
  fix pid j s assume j: "pid < n" "j < 2 * nat num_files"
  show "create_did pid (Suc j) (create_act pid j s)" if "create_did pid j s"
  proof -
    have "2 * i < j \<or> i = j div 2 \<and> even j" if "2 * i < Suc j" for i using that by presburger
    then show ?thesis using that by (auto simp: create_did_def create_act_dir simp del: not_None_eq)
  qed
  show "create_keeps w n num_files (create_act pid j s)" if "create_keeps w n num_files s"
  proof -
    have "file_of n num_files (created_name pid (j div 2))"
    proof -
      have "j div 2 < nat num_files" using j(2) by linarith
      with j(1) show ?thesis unfolding file_of_def by blast
    qed
    then show ?thesis using that by (simp add: create_keeps_def create_act_dir del: not_None_eq) blast
  qed
qed (auto simp: create_did_def create_act_dir simp del: not_None_eq)

definition counter_keeps :: "nat \<Rightarrow> counter_state \<Rightarrow> bool" where
  "counter_keeps n s \<longleftrightarrow> shared_counter s = 0 \<and> atomic_counter s = 0 \<and> set (clock_calls s) \<subseteq> {..<n}"

interpretation counter: round_work counter_act n "nat num" "\<lambda>pid j s. count_list (clock_calls s) pid = j" "counter_keeps n"
  for n num
  by unfold_locales (auto simp: counter_act_def counter_keeps_def)

section \<open>File names\<close>

lemma decimal_one: "a < 10 \<Longrightarrow> decimal a = [char_of (48 + a)]"
  by (rule trans [OF decimal.simps if_P])

lemma decimal_10: "decimal 10 = [CHR ''1'', CHR ''0'']"
  by (simp add: decimal.simps [of 10] decimal_one char_of_def bit_iff_odd)

lemma no_leading_zero: "decimal j \<noteq> CHR ''0'' # decimal i"
proof
  assume eq: "decimal j = CHR ''0'' # decimal i"
  then have "digits_value 0 (decimal j) = digits_value 0 (decimal i)"
    by (simp add: is_digit_def char_code_def)
  then have "j = i" by (simp add: digits_value_decimal)
  with eq show False by simp
qed

lemma names_apart_ten: "q < 10 \<Longrightarrow> created_name 10 i \<noteq> created_name q j"
  using no_leading_zero [of j i] by (auto simp: created_name_def decimal_10 decimal_one)

lemma names_apart_threads:
  assumes "created_name p i = created_name q j" "p < 11" "q < 11"
  shows "p = q \<and> i = j"
proof -
  consider "p = 10" "q = 10" | "p = 10" "q < 10" | "p < 10" "q = 10" | "p < 10" "q < 10"
    using assms(2,3) by linarith
  then show ?thesis
  proof cases
    case 1
    then show ?thesis using assms(1) by (auto simp: created_name_def dest: decimal_inj)
  next
    case 4
    have "char_of (48 + p) = (char_of (48 + q) :: char) \<and> decimal i = decimal j"
      using assms(1) by (simp add: created_name_def decimal_one [OF 4(1)] decimal_one [OF 4(2)])
    moreover from this have "decimal p = decimal q"
      by (simp add: decimal_one [OF 4(1)] decimal_one [OF 4(2)])
    ultimately show ?thesis by (auto dest: decimal_inj)
  next
    case 3
    then show ?thesis using names_apart_ten [OF 3(1), of j i] assms(1) by simp
  qed (use assms(1) names_apart_ten in force)
qed

lemma names_apart_files:
  assumes "created_name p i = created_name q j" "i < 10" "j < 10"
  shows "p = q \<and> i = j"
proof -
  have "char_of (48 + i) = (char_of (48 + j) :: char) \<and> decimal p = decimal q"
    using assms(1) by (simp add: created_name_def decimal_one [OF assms(2)] decimal_one [OF assms(3)])
  moreover from this have "decimal i = decimal j"
    by (simp add: decimal_one [OF assms(2)] decimal_one [OF assms(3)])
  ultimately show ?thesis by (auto dest: decimal_inj)
qed

lemma names_collide: "created_name 1 10 = created_name 11 0"
proof -
  have "decimal 11 = [CHR ''1'', CHR ''1'']"
    by (simp add: decimal.simps [of 11] decimal_one char_of_def bit_iff_odd)
  moreover have "decimal 1 = [CHR ''1'']" "decimal 0 = [CHR ''0'']"
    by (simp_all add: decimal_one char_of_def bit_iff_odd)
  ultimately show ?thesis by (simp add: created_name_def decimal_10)
qed

section \<open>Properties\<close>

text \<open>
  C32: \<open>pthread_test_create\<close> with \<open>n\<close> threads and \<open>k\<close> files per thread gives all its files distinct
  names exactly if there are at most 11 threads or at most 10 files per thread: the thread number
  and the file number are printed next to each other, so that file 10 of thread 1 is file 0 of
  thread 11.
\<close>

theorem created_names_unique:
  "inj_on (\<lambda>(pid, file_count). created_name pid file_count) ({..<n} \<times> {..<k}) \<longleftrightarrow> n \<le> 11 \<or> k \<le> 10"
proof
  assume inj: "inj_on (\<lambda>(pid, file_count). created_name pid file_count) ({..<n} \<times> {..<k})"
  show "n \<le> 11 \<or> k \<le> 10"
  proof (rule ccontr)
    assume "\<not> (n \<le> 11 \<or> k \<le> 10)"
    then have "(1, 10) \<in> {..<n} \<times> {..<k}" "(11, 0) \<in> {..<n} \<times> {..<k}" by auto
    from inj_onD [OF inj _ this] names_collide show False by simp
  qed
next
  assume "n \<le> 11 \<or> k \<le> 10"
  then show "inj_on (\<lambda>(pid, file_count). created_name pid file_count) ({..<n} \<times> {..<k})"
    by (auto simp: inj_on_def dest: names_apart_threads names_apart_files)
qed

text \<open>One thread, one file, up to the report.\<close>

definition solo_trace :: "nat \<Rightarrow> nat option list" where
  "solo_trace k = [None, None, None, None] @ replicate (k + 4) (Some 0) @ [None, None]"

definition solo_start :: create_state where
  "solo_start = \<lparr>c_world = one_file_world, c_fd = (\<lambda>_. 0)\<rparr>"

lemma solo_create:
  "\<exists>s. once_exec create_act (2 * nat 1) 1 1 (solo_trace 2) (once_init solo_start) = Some s \<and> o_main s = O_Report"
  by (simp add: solo_trace_def once_exec_simps numeral_eq_Suc START_def FINISHED_def)

lemma solo_counter:
  "\<exists>s. once_exec counter_act (nat 1) 1 1 (solo_trace 1) (once_init counter_start) = Some s \<and> o_main s = O_Report"
  by (simp add: solo_trace_def once_exec_simps numeral_eq_Suc START_def FINISHED_def)

text \<open>
  C18: \<open>pthread_test_create\<close>: when the main thread reports, under every interleaving of the calls of
  all threads, the directory holds exactly what it held before and, for every thread and every
  number below \<open>num_files\<close>, the file of that name.
\<close>

theorem create_makes_all:
  assumes "create_run n num_files x s"
    and "o_main s = O_Report \<or> (\<exists>i. o_main s = O_Join i) \<or> o_main s = O_End"
  shows "w_dir (c_world (o_state s)) p \<noteq> None \<longleftrightarrow>
    w_dir (c_world x) p \<noteq> None \<or> (\<exists>pid < n. \<exists>i < nat num_files. p = created_name pid i)"
proof -
  have run: "once_reach create_act (2 * nat num_files) n num_files x s"
    using assms(1) by (simp add: create_run_def)
  have start: "create_keeps (c_world x) n num_files x" "\<And>pid. pid < n \<Longrightarrow> create_did pid 0 x"
    by (simp_all add: create_keeps_def create_did_def)
  have "create_keeps (c_world x) n num_files (o_state s)" by (rule create.all_kept [OF run start])
  moreover have "w_dir (c_world (o_state s)) (created_name pid i) \<noteq> None" if "pid < n" "i < nat num_files" for pid i
    using create.all_done [OF run start assms(2) that(1)] that(2) by (simp add: create_did_def)
  ultimately show ?thesis unfolding create_keeps_def file_of_def by blast
qed

theorem create_makes_all_witness:
  "\<exists>s. once_exec create_act 2 1 1 (solo_trace 2) (once_init solo_start) = Some s
     \<and> w_dir (c_world (o_state s)) (created_name 0 0) \<noteq> None"
proof -
  obtain s where s: "once_exec create_act (2 * nat 1) 1 1 (solo_trace 2) (once_init solo_start) = Some s" "o_main s = O_Report"
    using solo_create by blast
  have "create_run 1 1 solo_start s"
    unfolding create_run_def by (rule once_exec_reach [OF once_reach.init s(1)])
  from create_makes_all [OF this, of "created_name 0 0"] s show ?thesis by auto
qed

text \<open>
  C19: \<open>pthread_test_create\<close> with any arguments: from every state that its threads reach after the
  setup the run can be completed.  It returns exactly if \<open>num_files\<close> is not 0 and
  \<open>num_files * num_threads\<close> is an \<open>int\<close>; otherwise a thread dies of the division by \<open>num_files\<close>
  or the main thread of the overflow.
\<close>

theorem create_ends:
  assumes "create_setup shell argv w = (Inr (Inr (k, n)), w')"
    and "create_run n k \<lparr>c_world = w', c_fd = f\<rparr> s"
  shows "\<exists>s'. (create_step n k)\<^sup>*\<^sup>* s s'
    \<and> (if k \<noteq> 0 \<and> - (2 ^ 31) \<le> k * int n \<and> k * int n < 2 ^ 31
       then o_main s' = O_End else \<exists>t. o_main s' = O_Crash t)"
proof -
  have args: "k = atoi (argv ! 1)" "n = nat (thread_arg (argv ! 2))"
    using assms(1)
    by (auto simp: create_setup_def say_def bindP_def call_def update_def ret_def Let_def split: if_splits)
  have n: "0 < n" using thread_arg_range [of "argv ! 2"] by (simp add: args)
  have "- (2 ^ 31) \<le> k" "k < 2 ^ 31" unfolding args atoi_def by (rule s32_bounds)+
  then have "average_trap k = None \<and> average_trap (k * int n) = None \<longleftrightarrow>
      k \<noteq> 0 \<and> - (2 ^ 31) \<le> k * int n \<and> k * int n < 2 ^ 31"
    using n by (auto simp: average_trap_def)
  with once_ends [OF assms(2) [unfolded create_run_def] n] show ?thesis
    by (simp only: create_step_def)
qed

theorem create_ends_witness:
  "\<exists>s'. (create_step 16 268435456)\<^sup>*\<^sup>* (once_init solo_start) s' \<and> (\<exists>t. o_main s' = O_Crash t)"
proof -
  have a: "atoi ''268435456'' = 268435456" "atoi ''16'' = 16" by code_simp+
  have "create_setup (\<lambda>_ w. (0, w)) [''create'', ''268435456'', ''16''] one_file_world
      = (Inr (Inr (268435456, 16)), one_file_world)"
    by (simp add: create_setup_def bindP_def call_def ret_def thread_arg_def a)
  from create_ends [OF this, of "\<lambda>_. 0" "once_init solo_start"] show ?thesis
    by (simp add: create_run_def solo_start_def once_reach.init)
qed

text \<open>
  \<open>pthread_counter\<close> reports 0 for both counters, under every interleaving, after every thread has
  read the clock \<open>num\<close> times: the increments that the program is named after are compiled out.
\<close>

theorem counter_reports_zero:
  assumes "counter_run n num s"
    and "o_main s = O_Report \<or> (\<exists>i. o_main s = O_Join i) \<or> o_main s = O_End"
  shows "shared_counter (o_state s) = 0 \<and> atomic_counter (o_state s) = 0
    \<and> length (clock_calls (o_state s)) = n * nat num"
proof -
  have run: "once_reach counter_act (nat num) n num counter_start s" using assms(1) by (simp add: counter_run_def)
  have start: "counter_keeps n counter_start" "\<And>pid. pid < n \<Longrightarrow> count_list (clock_calls counter_start) pid = 0"
    by (simp_all add: counter_keeps_def counter_start_def)
  have keep: "counter_keeps n (o_state s)" by (rule counter.all_kept [OF run start])
  have "length (clock_calls (o_state s)) = (\<Sum>pid < n. count_list (clock_calls (o_state s)) pid)"
    using keep sum_count_set [of "clock_calls (o_state s)" "{..<n}"] by (simp add: counter_keeps_def)
  also have "\<dots> = (\<Sum>pid < n. nat num)"
    by (rule sum.cong [OF refl]) (use counter.all_done [OF run start assms(2)] in simp)
  finally show ?thesis using keep by (simp add: counter_keeps_def)
qed

theorem counter_reports_zero_witness:
  "\<exists>s. once_exec counter_act 1 1 1 (solo_trace 1) (once_init counter_start) = Some s
     \<and> length (clock_calls (o_state s)) = 1 \<and> shared_counter (o_state s) = 0"
proof -
  obtain s where s: "once_exec counter_act (nat 1) 1 1 (solo_trace 1) (once_init counter_start) = Some s" "o_main s = O_Report"
    using solo_counter by blast
  have "counter_run 1 1 s"
    unfolding counter_run_def by (rule once_exec_reach [OF once_reach.init s(1)])
  from counter_reports_zero [OF this] s show ?thesis by auto
qed

end
