(* ===== verification/Mapping_Io.thy ===== *)
theory Mapping_Io
  imports Integrity
begin

text \<open>
  Shared memory mappings of files, on top of the calls of \<open>Posix\<close>: what \<open>mmap\<close> returns, stores
  and loads through it with the two signals they can raise, and \<open>mprotect\<close>.  A store through
  a mapping of a file that is too short raises SIGBUS from the first page past the end of the
  file on; the bytes of the pages before it are stored.  Bytes past the end of the file in its
  last page exist in memory but do not belong to the file.

  \<open>mmap\<close> fails for a bad descriptor, an empty range, an offset that is not a multiple of the
  page size, and where the mode of the descriptor does not allow the access; its result is then
  \<open>None\<close>, and every access through it is a segmentation fault.  A mapping that is only writable
  can also be read (x86).  A mapping is never past the end of the address space.
\<close>

section \<open>Mappings\<close>

definition PAGE :: nat where
  "PAGE = 4096"

definition page_up :: "nat \<Rightarrow> nat" where
  "page_up n = (n + (PAGE - 1)) div PAGE * PAGE"

record mapping =
  m_ino :: nat
  m_off :: nat
  m_len :: nat
  m_wr :: "nat \<Rightarrow> bool"     \<comment> \<open>which pages may be written\<close>

definition sys_mmap :: "int \<Rightarrow> bool \<Rightarrow> int \<Rightarrow> int \<Rightarrow> world \<Rightarrow> mapping option" where
  "sys_mmap len wr fd off w =
     (case get_fd w fd of None \<Rightarrow> None
      | Some f \<Rightarrow>
          if len \<le> 0 \<or> off < 0 \<or> off mod int PAGE \<noteq> 0 \<or> \<not> o_rd f \<or> (wr \<and> \<not> o_wr f) then None
          else Some \<lparr>m_ino = o_ino f, m_off = nat off, m_len = nat len, m_wr = (\<lambda>_. wr)\<rparr>)"

text \<open>\<open>mprotect\<close> to read-only: the pages from \<open>off\<close> on that the range touches.\<close>

definition protect :: "nat \<Rightarrow> nat \<Rightarrow> mapping \<Rightarrow> mapping" where
  "protect off len m = m\<lparr>m_wr := (\<lambda>p. m_wr m p \<and> \<not> (off div PAGE \<le> p \<and> p * PAGE < off + len))\<rparr>"

section \<open>Accesses\<close>

text \<open>The signal that an access to byte \<open>x\<close> of the mapping raises.\<close>

definition fault :: "world \<Rightarrow> mapping \<Rightarrow> bool \<Rightarrow> nat \<Rightarrow> trap option" where
  "fault w m wr x =
     (if page_up (m_len m) \<le> x \<or> (wr \<and> \<not> m_wr m (x div PAGE)) then Some Seg_Fault
      else if page_up (i_size (w_ino w (m_ino m))) \<le> m_off m + x then Some Bus_Error
      else None)"

definition good_bytes :: "world \<Rightarrow> mapping \<Rightarrow> bool \<Rightarrow> nat \<Rightarrow> nat \<Rightarrow> nat" where
  "good_bytes w m wr x n = length (takeWhile (\<lambda>i. fault w m wr i = None) [x..<x + n])"

definition poke :: "inode \<Rightarrow> nat \<Rightarrow> buffer \<Rightarrow> nat \<Rightarrow> inode" where
  "poke f off src n = f\<lparr>i_data := (\<lambda>i. if off \<le> i \<and> i < off + n then src (i - off) else i_data f i)\<rparr>"

definition map_store :: "mapping option \<Rightarrow> nat \<Rightarrow> buffer \<Rightarrow> nat \<Rightarrow> unit wprog" where
  "map_store mo x src n =
     (case mo of None \<Rightarrow> whenP (0 < n) (trap Seg_Fault)
      | Some m \<Rightarrow>
          bindP (query (\<lambda>w. let k = good_bytes w m True x n in (k, fault w m True (x + k)))) (\<lambda>(k, t).
          bindP (update (\<lambda>w. set_ino (m_ino m) (poke (w_ino w (m_ino m)) (m_off m + x) src k) w)) (\<lambda>_.
          if k = n then ret () else trap (the t))))"

definition map_load :: "mapping option \<Rightarrow> nat \<Rightarrow> nat \<Rightarrow> buffer wprog" where
  "map_load mo x n =
     (case mo of None \<Rightarrow> (if 0 < n then trap Seg_Fault else ret (\<lambda>_. 0))
      | Some m \<Rightarrow>
          bindP (query (\<lambda>w. let k = good_bytes w m False x n in (k, fault w m False (x + k)))) (\<lambda>(k, t).
          if k = n then query (\<lambda>w i. i_data (w_ino w (m_ino m)) (m_off m + x + i)) else trap (the t)))"

section \<open>Facts about accesses\<close>

lemma page_up_ge: "n \<le> page_up n"
proof -
  have "n + (PAGE - 1) = (n + (PAGE - 1)) div PAGE * PAGE + (n + (PAGE - 1)) mod PAGE"
    by (rule div_mult_mod_eq [symmetric])
  moreover have "(n + (PAGE - 1)) mod PAGE < PAGE" by (simp add: PAGE_def)
  ultimately show ?thesis unfolding page_up_def by (simp add: PAGE_def)
qed

lemma page_up_mono: "a \<le> b \<Longrightarrow> page_up a \<le> page_up b"
  unfolding page_up_def by (intro mult_le_mono1 div_le_mono) simp

lemma page_up_0 [simp]: "page_up 0 = 0"
  by (simp add: page_up_def PAGE_def)

lemma page_up_pos: "0 < n \<Longrightarrow> PAGE \<le> page_up n"
proof -
  assume "0 < n"
  then have "1 * PAGE \<le> n + (PAGE - 1)" by simp
  then have "1 \<le> (n + (PAGE - 1)) div PAGE"
    by (subst less_eq_div_iff_mult_less_eq) (simp_all add: PAGE_def)
  then have "1 * PAGE \<le> (n + (PAGE - 1)) div PAGE * PAGE" by (rule mult_le_mono1)
  then show ?thesis by (simp only: page_up_def mult_1)
qed

lemma page_up_page: "n mod PAGE = 0 \<Longrightarrow> page_up n = n"
proof -
  assume "n mod PAGE = 0"
  then obtain q where "n = q * PAGE" by (metis mod_0_imp_dvd dvd_div_mult_self)
  then show ?thesis by (simp add: page_up_def PAGE_def)
qed

lemma page_up_less: "x < page_up n \<longleftrightarrow> x div PAGE * PAGE < n"
proof -
  have "q < (n + 4095) div 4096 \<longleftrightarrow> q * 4096 < n" for q
  proof -
    have "Suc q \<le> (n + 4095) div 4096 \<longleftrightarrow> Suc q * 4096 \<le> n + 4095"
      by (rule less_eq_div_iff_mult_less_eq) simp
    then show ?thesis by auto
  qed
  moreover have "x < q * 4096 \<longleftrightarrow> x div 4096 < q" for q
    by (rule div_less_iff_less_mult [symmetric]) simp
  ultimately show ?thesis by (simp add: page_up_def PAGE_def)
qed

lemma good_bytes_le: "good_bytes w m wr x n \<le> n"
  using length_takeWhile_le [of _ "[x..<x + n]"] by (simp add: good_bytes_def)

lemma good_bytes_all:
  "(\<And>i. x \<le> i \<Longrightarrow> i < x + n \<Longrightarrow> fault w m wr i = None) \<Longrightarrow> good_bytes w m wr x n = n"
  unfolding good_bytes_def by (subst takeWhile_eq_all_conv [THEN iffD2]) simp_all

lemma good_bytes_none: "fault w m wr x \<noteq> None \<Longrightarrow> good_bytes w m wr x n = 0"
  by (cases n) (simp_all add: good_bytes_def upt_rec)

lemma poke_sel [simp]:
  "i_size (poke f off src n) = i_size f"
  "i_data (poke f off src n) i = (if off \<le> i \<and> i < off + n then src (i - off) else i_data f i)"
  by (simp_all add: poke_def)

lemma poke_0 [simp]: "poke f off src 0 = f"
  unfolding poke_def by (subst if_not_P) simp_all

lemma set_ino_same [simp]: "set_ino n (w_ino w n) w = w"
  by (simp add: set_ino_def)

text \<open>An access that lies in the file and in the mapping does not fault.\<close>

definition in_map :: "world \<Rightarrow> mapping \<Rightarrow> nat \<Rightarrow> bool" where
  "in_map w m n \<longleftrightarrow> n \<le> m_len m \<and> m_off m + n \<le> i_size (w_ino w (m_ino m)) \<and> m_wr m = (\<lambda>_. True)"

lemma fault_in_map: "in_map w m n \<Longrightarrow> x < n \<Longrightarrow> fault w m wr x = None"
  using page_up_ge [of "m_len m"] page_up_ge [of "i_size (w_ino w (m_ino m))"]
  by (auto simp: in_map_def fault_def)

lemma wp_map_store:
  assumes "in_map w m n'" and "x + n \<le> n'"
    and "Q () (set_ino (m_ino m) (poke (w_ino w (m_ino m)) (m_off m + x) src n) w)"
  shows "wp (map_store (Some m) x src n) Q E w"
  using good_bytes_all [of x n w m True] fault_in_map [OF assms(1)] assms(2,3)
  by (simp add: map_store_def wp_simps case_prod_unfold Let_def)

lemma wp_map_store_fault:
  assumes "fault w m True x = Some t" and "0 < n" and "E (Trap t) w"
  shows "wp (map_store (Some m) x src n) Q E w"
  using good_bytes_none [of w m True x n] assms
  by (simp add: map_store_def wp_simps case_prod_unfold Let_def)

lemma wp_map_load:
  assumes "\<And>i. x \<le> i \<Longrightarrow> i < x + n \<Longrightarrow> fault w m False i = None"
    and "Q (\<lambda>i. i_data (w_ino w (m_ino m)) (m_off m + x + i)) w"
  shows "wp (map_load (Some m) x n) Q E w"
  using good_bytes_all [of x n w m False] assms
  by (simp add: map_load_def wp_simps case_prod_unfold Let_def)

text \<open>A load that runs past the end of the file.\<close>

lemma good_bytes_short:
  assumes "x \<le> y" "y < x + n" "fault w m wr y = Some t"
  shows "good_bytes w m wr x n < n"
proof -
  have "y \<in> set [x..<x + n]" using assms by simp
  then have "takeWhile (\<lambda>i. fault w m wr i = None) [x..<x + n] \<noteq> [x..<x + n]"
    using assms(3) by (metis (mono_tags, lifting) option.distinct(1) takeWhile_eq_all_conv)
  then show ?thesis
    unfolding good_bytes_def
    by (metis (no_types, lifting) add_diff_cancel_left' le_neq_implies_less length_takeWhile_le length_upt
        takeWhile_eq_take take_all order_refl)
qed

lemma good_bytes_stop:
  assumes "good_bytes w m wr x n < n"
  shows "fault w m wr (x + good_bytes w m wr x n) \<noteq> None"
proof -
  let ?P = "\<lambda>i. fault w m wr i = None"
  have "length (takeWhile ?P [x..<x + n]) < length [x..<x + n]"
    using assms by (simp add: good_bytes_def)
  from nth_length_takeWhile [OF this] assms show ?thesis
    by (simp add: good_bytes_def)
qed

lemma wp_map_load_bus:
  assumes "x \<le> y" "y < x + n" "fault w m False y \<noteq> None" and "page_up (m_len m) \<ge> x + n"
    and "E (Trap Bus_Error) w"
  shows "wp (map_load (Some m) x n) Q E w"
proof -
  let ?k = "good_bytes w m False x n"
  from assms(3) obtain t where "fault w m False y = Some t" by blast
  then have k: "?k < n" using assms(1,2) by (rule good_bytes_short [rotated 2])
  from good_bytes_stop [OF k] k assms(4) have "fault w m False (x + ?k) = Some Bus_Error"
    by (auto simp: fault_def split: if_splits)
  with k assms(5) show ?thesis
    by (simp add: map_load_def wp_simps case_prod_unfold Let_def)
qed

text \<open>The same for a store: the bytes before the fault are stored.\<close>

lemma wp_map_store_bus:
  assumes "x \<le> y" "y < x + n" "fault w m True y \<noteq> None" and "page_up (m_len m) \<ge> x + n" "m_wr m = (\<lambda>_. True)"
    and "\<And>k. k < n \<Longrightarrow> E (Trap Bus_Error) (set_ino (m_ino m) (poke (w_ino w (m_ino m)) (m_off m + x) src k) w)"
  shows "wp (map_store (Some m) x src n) Q E w"
proof -
  let ?k = "good_bytes w m True x n"
  from assms(3) obtain t where "fault w m True y = Some t" by blast
  then have k: "?k < n" using assms(1,2) by (rule good_bytes_short [rotated 2])
  from good_bytes_stop [OF k] k assms(4,5) have "fault w m True (x + ?k) = Some Bus_Error"
    by (auto simp: fault_def split: if_splits)
  with k assms(6) show ?thesis
    by (simp add: map_store_def wp_simps case_prod_unfold Let_def)
qed

text \<open>When a store to a mapping of the whole file faults.\<close>

definition whole :: "nat \<Rightarrow> int \<Rightarrow> bool \<Rightarrow> mapping" where
  "whole n len wr = \<lparr>m_ino = n, m_off = 0, m_len = nat len, m_wr = (\<lambda>_. wr)\<rparr>"

lemma whole_sel [simp]:
  "m_ino (whole n len wr) = n" "m_off (whole n len wr) = 0" "m_len (whole n len wr) = nat len"
  "m_wr (whole n len wr) = (\<lambda>_. wr)"
  by (simp_all add: whole_def)

lemma sys_mmap_whole:
  "get_fd w fd = Some (rw_file n off) \<Longrightarrow> 0 < len \<Longrightarrow> sys_mmap len wr fd 0 w = Some (whole n len wr)"
  by (simp add: sys_mmap_def whole_def)

lemma fault_whole:
  "(wr \<longrightarrow> pw) \<Longrightarrow> x < page_up (nat len) \<Longrightarrow>
     fault w (whole n len pw) wr x = (if page_up (i_size (w_ino w n)) \<le> x then Some Bus_Error else None)"
  by (auto simp: fault_def)

lemma wp_store_whole:
  assumes "x + k \<le> nat len"
    and "x + k \<le> page_up (i_size (w_ino w n)) \<Longrightarrow> Q () (set_ino n (poke (w_ino w n) x src k) w)"
    and "\<And>j. page_up (i_size (w_ino w n)) < x + k \<Longrightarrow> j < k \<Longrightarrow>
      E (Trap Bus_Error) (set_ino n (poke (w_ino w n) x src j) w)"
    and "0 < k"
  shows "wp (map_store (Some (whole n len True)) x src k) Q E w"
proof -
  have len: "x + k \<le> page_up (nat len)" using assms(1) page_up_ge by (rule le_trans)
  then have f: "fault w (whole n len True) True y
      = (if page_up (i_size (w_ino w n)) \<le> y then Some Bus_Error else None)" if "y < x + k" for y
    using that by (intro fault_whole) auto
  show ?thesis
  proof (cases "x + k \<le> page_up (i_size (w_ino w n))")
    case True
    then have "good_bytes w (whole n len True) True x k = k" by (intro good_bytes_all) (simp add: f)
    with assms(2) [OF True] show ?thesis by (simp add: map_store_def wp_simps case_prod_unfold Let_def)
  next
    case False
    let ?y = "max x (page_up (i_size (w_ino w n)))"
    show ?thesis
      using False len assms(3,4) by (intro wp_map_store_bus [of x ?y]) (simp_all add: f)
  qed
qed

lemma wp_load_whole:
  assumes "x + k \<le> nat len" "0 < k"
    and "x + k \<le> page_up (i_size (w_ino w n)) \<Longrightarrow> Q (\<lambda>i. i_data (w_ino w n) (x + i)) w"
    and "page_up (i_size (w_ino w n)) < x + k \<Longrightarrow> E (Trap Bus_Error) w"
  shows "wp (map_load (Some (whole n len pw)) x k) Q E w"
proof -
  have len: "x + k \<le> page_up (nat len)" using assms(1) page_up_ge by (rule le_trans)
  then have f: "fault w (whole n len pw) False y
      = (if page_up (i_size (w_ino w n)) \<le> y then Some Bus_Error else None)" if "y < x + k" for y
    using that by (intro fault_whole) auto
  show ?thesis
  proof (cases "x + k \<le> page_up (i_size (w_ino w n))")
    case True
    with assms(3) f show ?thesis by (intro wp_map_load) simp_all
  next
    case False
    with assms f len show ?thesis
      by (intro wp_map_load_bus [of x "max x (page_up (i_size (w_ino w n)))"]) simp_all
  qed
qed

end
