(* ===== verification/Memcpy.thy ===== *)
theory Memcpy
  imports Prelude
begin

text \<open>
  The copy routines of \<open>memcpy.h\<close>.  Memory is a function from addresses to bytes; a block move
  reads all its bytes before it writes (the eight registers of the MMX loop).  \<open>memcpy\<close> of the
  C library is \<open>blit\<close>.  Prefetches and fences have no effect on the values and are left out; the
  return value of the routines is their first argument.
\<close>

type_synonym memory = "nat \<Rightarrow> byte"

definition c_memcpy :: "nat \<Rightarrow> nat \<Rightarrow> nat \<Rightarrow> memory \<Rightarrow> memory" where
  "c_memcpy dst src n m = blit m dst m src n"

section \<open>The routines\<close>

text \<open>\<open>rep ; movsl\<close>: \<open>k\<close> moves of 4 bytes, upwards.\<close>

fun rep_movsl :: "nat \<Rightarrow> nat \<Rightarrow> nat \<Rightarrow> memory \<Rightarrow> memory" where
  "rep_movsl 0 edi esi m = m"
| "rep_movsl (Suc k) edi esi m = rep_movsl k (edi + 4) (esi + 4) (blit m edi m esi 4)"

definition memcpy1 :: "nat \<Rightarrow> nat \<Rightarrow> nat \<Rightarrow> memory \<Rightarrow> memory" where
  "memcpy1 dst src n m = rep_movsl (n div 4) dst src m"

definition MMX2_MEMCPY_MIN_LEN :: nat where "MMX2_MEMCPY_MIN_LEN = 64"
definition MMX_MMREG_SIZE :: nat where "MMX_MMREG_SIZE = 8"

text \<open>The loop over blocks of 64 bytes, with the pointers it leaves.\<close>

fun mmx_loop :: "nat \<Rightarrow> nat \<Rightarrow> nat \<Rightarrow> memory \<Rightarrow> nat \<times> nat \<times> memory" where
  "mmx_loop 0 dst src m = (dst, src, m)"
| "mmx_loop (Suc i) dst src m = mmx_loop i (dst + 64) (src + 64) (blit m dst m src 64)"

definition mmx2_memcpy :: "nat \<Rightarrow> nat \<Rightarrow> nat \<Rightarrow> memory \<Rightarrow> memory" where
  "mmx2_memcpy dst src len m =
     (let (dst, src, len, m) =
        (if MMX2_MEMCPY_MIN_LEN \<le> len
         then
           let delta = dst mod MMX_MMREG_SIZE;
               (len, m) = (if delta \<noteq> 0
                           then let delta = MMX_MMREG_SIZE - delta
                                in (len - delta, c_memcpy dst src delta m)
                           else (len, m));
               i = len div 64;
               len = len mod 64;
               (dst, src, m) = mmx_loop i dst src m
           in (dst, src, len, m)
         else (dst, src, len, m))
      in if len \<noteq> 0 then c_memcpy dst src len m else m)"

section \<open>Block moves are one move\<close>

text \<open>Two areas of \<open>n\<close> bytes.\<close>

definition apart :: "nat \<Rightarrow> nat \<Rightarrow> nat \<Rightarrow> bool" where
  "apart dst src n \<longleftrightarrow> dst + n \<le> src \<or> src + n \<le> dst"

lemma blit_blit:
  assumes "apart dst src (n + k)"
  shows "blit (blit m dst m src n) (dst + n) (blit m dst m src n) (src + n) k = blit m dst m src (n + k)"
  using assms by (auto simp: apart_def fun_eq_iff)

lemma blit_again:
  assumes "apart dst src n" "k \<le> n"
  shows "blit (blit m dst m src k) dst (blit m dst m src k) src n = blit m dst m src n"
  using assms by (auto simp: apart_def fun_eq_iff)

lemma rep_movsl_blit:
  "apart dst src (n + 4 * k) \<Longrightarrow>
     rep_movsl k (dst + n) (src + n) (blit m dst m src n) = blit m dst m src (n + 4 * k)"
proof (induction k arbitrary: n)
  case (Suc k)
  have a: "apart dst src (n + 4)" "apart dst src (n + 4 + 4 * k)"
    using Suc.prems by (auto simp: apart_def)
  show ?case
    using Suc.IH [OF a(2)] blit_blit [OF a(1)] by (simp add: add.assoc del: blit_at)
qed simp

lemma mmx_loop_blit:
  "apart dst src (n + 64 * k) \<Longrightarrow>
     mmx_loop k (dst + n) (src + n) (blit m dst m src n)
       = (dst + (n + 64 * k), src + (n + 64 * k), blit m dst m src (n + 64 * k))"
proof (induction k arbitrary: n)
  case (Suc k)
  have a: "apart dst src (n + 64)" "apart dst src (n + 64 + 64 * k)"
    using Suc.prems by (auto simp: apart_def)
  show ?case
    using Suc.IH [OF a(2)] blit_blit [OF a(1)] by (simp add: add.assoc del: blit_at)
qed simp

text \<open>The part after the alignment prologue, on a memory that already holds a prefix.\<close>

lemma mmx_tail:
  assumes "apart dst src len" "d \<le> len"
  shows "(let (dst', src', m') = mmx_loop (len div 64) dst src (blit m dst m src d)
          in if len mod 64 \<noteq> 0 then c_memcpy dst' src' (len mod 64) m' else m') = blit m dst m src len"
proof -
  let ?m = "blit m dst m src d" and ?b = "64 * (len div 64)"
  have ap: "apart dst src ?b" using assms(1) by (auto simp: apart_def)
  have lp: "mmx_loop (len div 64) dst src ?m = (dst + ?b, src + ?b, blit ?m dst ?m src ?b)"
    using mmx_loop_blit [of dst src 0 "len div 64" ?m] ap by simp
  have "blit (blit ?m dst ?m src ?b) (dst + ?b) (blit ?m dst ?m src ?b) (src + ?b) (len mod 64)
      = blit ?m dst ?m src len"
    using blit_blit [of dst src ?b "len mod 64" ?m] assms(1) by simp
  also have "\<dots> = blit m dst m src len" by (rule blit_again [OF assms])
  finally have fin: "blit (blit ?m dst ?m src ?b) (dst + ?b) (blit ?m dst ?m src ?b) (src + ?b) (len mod 64)
      = blit m dst m src len" .
  show ?thesis
  proof (cases "len mod 64 = 0")
    case True
    with fin show ?thesis by (simp add: lp)
  next
    case False
    with fin show ?thesis by (simp add: lp c_memcpy_def)
  qed
qed

text \<open>What \<open>mmx2_memcpy\<close> copies.\<close>

definition mmx_copied :: "nat \<Rightarrow> nat \<Rightarrow> nat" where
  "mmx_copied dst len = (if len < 64 \<or> dst mod 8 = 0 then len else len - (8 - dst mod 8))"

lemma mmx2_memcpy_blit:
  assumes "apart dst src len"
  shows "mmx2_memcpy dst src len m = blit m dst m src (mmx_copied dst len)"
proof -
  consider "len < 64" | "64 \<le> len" "dst mod 8 = 0" | "64 \<le> len" "dst mod 8 \<noteq> 0" by linarith
  then show ?thesis
  proof cases
    case 1
    then show ?thesis
      by (simp add: mmx2_memcpy_def mmx_copied_def MMX2_MEMCPY_MIN_LEN_def c_memcpy_def)
  next
    case 2
    then show ?thesis
      using mmx_tail [OF assms, of 0 m]
      by (simp add: mmx2_memcpy_def mmx_copied_def MMX2_MEMCPY_MIN_LEN_def MMX_MMREG_SIZE_def Let_def
          case_prod_unfold del: blit_at split: if_splits)
  next
    case 3
    let ?d = "8 - dst mod 8"
    have d: "?d \<le> len - ?d" using 3(1) by linarith
    have "apart dst src (len - ?d)" using assms by (auto simp: apart_def)
    from mmx_tail [OF this d, of m] 3 show ?thesis
      by (simp add: mmx2_memcpy_def mmx_copied_def MMX2_MEMCPY_MIN_LEN_def MMX_MMREG_SIZE_def Let_def
          case_prod_unfold c_memcpy_def del: blit_at split: if_splits)
  qed
qed

lemma memcpy1_blit:
  assumes "apart dst src n"
  shows "memcpy1 dst src n m = blit m dst m src (4 * (n div 4))"
proof -
  have "4 * (n div 4) \<le> n" by simp
  then have "apart dst src (4 * (n div 4))" using assms unfolding apart_def by linarith
  then show ?thesis using rep_movsl_blit [of dst src 0 "n div 4" m] by (simp add: memcpy1_def del: blit_at)
qed

section \<open>Copying a block in slices\<close>

text \<open>
  The contract of a copy routine, with the arguments for which it holds, and what several
  threads achieve with it: each copies a slice of \<open>u\<close> bytes of a block, in any order.
\<close>

locale block_copier =
  fixes cp :: "nat \<Rightarrow> nat \<Rightarrow> nat \<Rightarrow> memory \<Rightarrow> memory"
    and good :: "nat \<Rightarrow> nat \<Rightarrow> bool"
  assumes cp_blit: "good dst n \<Longrightarrow> apart dst src n \<Longrightarrow> cp dst src n m = blit m dst m src n"
begin

definition copy_slice :: "nat \<Rightarrow> nat \<Rightarrow> nat \<Rightarrow> nat \<Rightarrow> memory \<Rightarrow> memory" where
  "copy_slice dst src u p = cp (dst + p * u) (src + p * u) u"

lemma copy_slices_at:
  assumes "apart dst src (n * u)" and "set ps \<subseteq> {..<n}" and "\<And>p. p < n \<Longrightarrow> good (dst + p * u) u"
  shows "fold (copy_slice dst src u) ps m a =
    (if \<exists>p \<in> set ps. dst + p * u \<le> a \<and> a < dst + p * u + u then m (src + (a - dst)) else m a)"
  using assms(2)
proof (induction ps arbitrary: a rule: rev_induct)
  case (snoc p ps)
  let ?m = "fold (copy_slice dst src u) ps m"
  have p: "p < n" and ps: "set ps \<subseteq> {..<n}" using snoc.prems by auto
  have below: "q * u + u \<le> n * u" if "q < n" for q
  proof -
    have "Suc q * u \<le> n * u" using that by (intro mult_le_mono1) simp
    then show ?thesis by simp
  qed
  have ap: "apart (dst + p * u) (src + p * u) u"
    using assms(1) below [OF p] by (auto simp: apart_def)
  have src_kept: "?m (src + j) = m (src + j)" if "j < n * u" for j
  proof -
    have "\<not> (dst + q * u \<le> src + j \<and> src + j < dst + q * u + u)" if "q < n" for q
      using assms(1) below [OF that] \<open>j < n * u\<close> by (auto simp: apart_def)
    then show ?thesis using snoc.IH [OF ps] ps by (auto simp: subset_iff)
  qed
  have "fold (copy_slice dst src u) (ps @ [p]) m a = blit ?m (dst + p * u) ?m (src + p * u) u a"
    using cp_blit [OF assms(3) [OF p] ap] by (simp add: copy_slice_def)
  also have "\<dots> = (if dst + p * u \<le> a \<and> a < dst + p * u + u then m (src + (a - dst)) else ?m a)"
  proof (cases "dst + p * u \<le> a \<and> a < dst + p * u + u")
    case True
    then have "src + p * u + (a - (dst + p * u)) = src + (a - dst)" "a - dst < n * u"
      using below [OF p] by auto
    with True src_kept [of "a - dst"] show ?thesis by simp
  next
    case False
    then show ?thesis by (simp only: blit_at if_False)
  qed
  finally show ?case using snoc.IH [OF ps, of a] by auto
qed simp

lemma copy_all_slices:
  assumes "apart dst src (n * u)" and "set ps = {..<n}" and "\<And>p. p < n \<Longrightarrow> good (dst + p * u) u"
  shows "fold (copy_slice dst src u) ps m = blit m dst m src (n * u)"
proof
  fix a
  have "(\<exists>p < n. dst + p * u \<le> a \<and> a < dst + p * u + u) \<longleftrightarrow> dst \<le> a \<and> a < dst + n * u"
  proof
    assume A: "dst \<le> a \<and> a < dst + n * u"
    then have "0 < u" by (cases u) auto
    let ?p = "(a - dst) div u"
    have "a - dst < n * u" using A by linarith
    then have "?p < n" using \<open>0 < u\<close> by (simp add: div_less_iff_less_mult)
    moreover have "?p * u \<le> a - dst" by (rule div_times_less_eq_dividend)
    moreover have "a - dst < ?p * u + u"
      using \<open>0 < u\<close> dividend_less_div_times [of u "a - dst"] by (simp add: add.commute)
    ultimately show "\<exists>p < n. dst + p * u \<le> a \<and> a < dst + p * u + u"
      using A by (intro exI [of _ ?p] conjI) linarith+
  next
    assume "\<exists>p < n. dst + p * u \<le> a \<and> a < dst + p * u + u"
    then obtain p where p: "p < n" "dst + p * u \<le> a" "a < dst + p * u + u" by blast
    from p(1) have "Suc p * u \<le> n * u" by (intro mult_le_mono1) simp
    with p show "dst \<le> a \<and> a < dst + n * u" by auto
  qed
  then show "fold (copy_slice dst src u) ps m a = blit m dst m src (n * u) a"
    using copy_slices_at [OF assms(1) _ assms(3), of ps m a] assms(2) by auto
qed

end

interpretation libc: block_copier c_memcpy "\<lambda>_ _. True"
  by unfold_locales (rule c_memcpy_def)

interpretation mmx2: block_copier mmx2_memcpy "\<lambda>dst n. mmx_copied dst n = n"
  by unfold_locales (simp add: mmx2_memcpy_blit)

interpretation movsl: block_copier memcpy1 "\<lambda>_ n. n mod 4 = 0"
proof
  fix dst n src :: nat and m assume "n mod 4 = 0" "apart dst src n"
  moreover from this(1) have "4 * (n div 4) = n" by auto
  ultimately show "memcpy1 dst src n m = blit m dst m src n" by (simp add: memcpy1_blit)
qed

section \<open>Properties\<close>

text \<open>
  C35: what \<open>mmx2_memcpy\<close> copies, for areas that do not overlap.  It is \<open>memcpy\<close> for less than 64
  bytes and for a destination that is a multiple of 8; otherwise the prologue that aligns the
  destination shortens the length but does not advance the pointers, and the last
  \<open>8 - to mod 8\<close> bytes are not copied.
\<close>

theorem mmx2_memcpy_exact:
  assumes "dst + len \<le> src \<or> src + len \<le> dst"
  shows "mmx2_memcpy dst src len m =
    c_memcpy dst src (if len < 64 \<or> dst mod 8 = 0 then len else len - (8 - dst mod 8)) m"
  using mmx2_memcpy_blit [of dst src len m] assms by (simp add: apart_def c_memcpy_def mmx_copied_def)

theorem mmx2_memcpy_exact_witness:
  "mmx2_memcpy 1001 5000 100 (\<lambda>a. of_nat a) 1093 = of_nat 5092 \<and> mmx2_memcpy 1001 5000 100 (\<lambda>a. of_nat a) 1094 = of_nat 1094"
  using mmx2_memcpy_exact [of 1001 100 5000 "\<lambda>a. of_nat a"] by (simp add: c_memcpy_def)

text \<open>
  Several threads that copy the slices of a block with \<open>mmx2_memcpy\<close>, each slice at least
  once and in any order, copy the block, if the destination and the length of a slice are
  multiples of 8.
\<close>

theorem mmx2_slices:
  assumes "dst + n * u \<le> src \<or> src + n * u \<le> dst" and "set ps = {..<n}"
    and "dst mod 8 = 0" "u mod 8 = 0"
  shows "fold (\<lambda>p. mmx2_memcpy (dst + p * u) (src + p * u) u) ps m = c_memcpy dst src (n * u) m"
proof -
  have "(dst + p * u) mod 8 = 0" for p
    using assms(3,4) by (metis dvd_add dvd_mult mod_0_imp_dvd dvd_imp_mod_0)
  then have "fold (mmx2.copy_slice dst src u) ps m = blit m dst m src (n * u)"
    using assms(1,2) by (intro mmx2.copy_all_slices) (simp_all add: apart_def mmx_copied_def)
  then show ?thesis by (simp add: mmx2.copy_slice_def [abs_def] c_memcpy_def)
qed

theorem mmx2_slices_witness:
  "fold (\<lambda>p. mmx2_memcpy (4096 + p * 512) (20480 + p * 512) 512) [1, 0, 1] (\<lambda>a. of_nat a)
    = c_memcpy 4096 20480 1024 (\<lambda>a. of_nat a)"
  using mmx2_slices [of 4096 2 512 20480 "[1, 0, 1]" "\<lambda>a. of_nat a"] by (simp add: lessThan_nat_numeral lessThan_Suc insert_commute)

end
