(* ===== verification/Pthread_Mmap.thy ===== *)
theory Pthread_Mmap
  imports Pthread_Test Mapping_Io Memcpy
begin

text \<open>
  \<open>pthread_test_mmap.c\<close>: up to 16 threads copy a block between a buffer and a mapping, slice by
  slice.  The main thread posts a batch with a bit mask under a mutex and waits on a condition
  variable until the mask of the finished threads is full; the workers wait on another one.

  Every access to a shared variable, every mutex and condition operation and every copy is one
  step of one thread.  A waiter may wake up without a signal, as POSIX allows.  Memory is flat:
  the mapping starts at \<open>data\<close>, the buffer at \<open>buf\<close>; a copy that leaves either kills the process.
  The bell functions of the file are never called.
\<close>

section \<open>Configuration and state\<close>

record kcfg =
  kc_threads :: nat
  kc_file :: nat          \<comment> \<open>\<open>FILE_SIZE\<close>\<close>
  kc_read :: bool
  kc_data :: nat          \<comment> \<open>the address of the mapping\<close>
  kc_avail :: nat         \<comment> \<open>the bytes of the mapping that the file has pages for\<close>
  kc_buf :: nat           \<comment> \<open>the address of the buffer\<close>

datatype kpc =
    K_Create nat | K_Top | K_Batch nat
  | K_Lock1 nat | K_SetW nat | K_SetF nat | K_Unlock1 nat | K_Bcast nat
  | K_Lock2 nat | K_Check nat | K_Sleep nat | K_Relock nat | K_Unlock2 nat | K_Advance nat
  | K_Report | K_Join nat | K_End | K_Crash

datatype tpc =
    T_New | T_Start | T_Unit
  | T_Lock | T_Check | T_Sleep | T_Relock | T_Clear | T_Unlock
  | T_Begin | T_Copy
  | T_Lock2 | T_Finish | T_Unlock2 | T_Test | T_Exit

datatype owner = Main_Thread | Worker nat

record kstate =
  k_main :: kpc
  k_worker :: "nat \<Rightarrow> tpc"
  k_lock :: "owner option"
  k_waiting :: "32 word"
  k_finished :: "32 word"
  k_size :: nat
  k_data1 :: nat
  k_unit :: "nat \<Rightarrow> nat"
  k_offset :: "nat \<Rightarrow> nat"
  k_begin :: "nat \<Rightarrow> nat"
  k_mem :: memory

definition KSTART :: nat where "KSTART = 2048"
definition KEND :: nat where "KEND = 4194304"

definition full_mask :: "nat \<Rightarrow> 32 word" where
  "full_mask n = push_bit n 1 - 1"

section \<open>The steps of the main thread\<close>

definition to_main :: "kpc \<Rightarrow> kstate \<Rightarrow> kstate" where
  "to_main pc s = s\<lparr>k_main := pc\<rparr>"

definition to_worker :: "nat \<Rightarrow> tpc \<Rightarrow> kstate \<Rightarrow> kstate" where
  "to_worker pid pc s = s\<lparr>k_worker := (k_worker s)(pid := pc)\<rparr>"

definition take_lock :: "owner \<Rightarrow> kstate \<Rightarrow> kstate option" where
  "take_lock me s = (if k_lock s = None then Some (s\<lparr>k_lock := Some me\<rparr>) else None)"

definition drop_lock :: "kstate \<Rightarrow> kstate" where
  "drop_lock s = s\<lparr>k_lock := None\<rparr>"

text \<open>\<open>pthread_cond_broadcast(&ready)\<close> and \<open>pthread_cond_signal(&finish)\<close>, whose only waiter is main.\<close>

definition wake_workers :: "kstate \<Rightarrow> kstate" where
  "wake_workers s = s\<lparr>k_worker := (\<lambda>p. if k_worker s p = T_Sleep then T_Relock else k_worker s p)\<rparr>"

definition wake_main :: "kstate \<Rightarrow> kstate" where
  "wake_main s = (case k_main s of K_Sleep i \<Rightarrow> to_main (K_Relock i) s | _ \<Rightarrow> s)"

fun kmain_step :: "kcfg \<Rightarrow> kstate \<Rightarrow> kpc \<Rightarrow> kstate option" where
  "kmain_step c s (K_Create i) = Some
     (if i < kc_threads c then to_main (K_Create (Suc i)) (to_worker i T_Start s)
      else to_main K_Top (s\<lparr>k_size := KSTART\<rparr>))"
| "kmain_step c s K_Top = Some
     (if k_size s \<le> KEND then to_main (K_Batch 0) (s\<lparr>k_data1 := 0\<rparr>) else to_main (K_Join 0) s)"
| "kmain_step c s (K_Batch i) = Some
     (if i < kc_file c div k_size s then to_main (K_Lock1 i) s else to_main K_Report s)"
| "kmain_step c s (K_Lock1 i) = map_option (to_main (K_SetW i)) (take_lock Main_Thread s)"
| "kmain_step c s (K_SetW i) = Some (to_main (K_SetF i) (s\<lparr>k_waiting := full_mask (kc_threads c)\<rparr>))"
| "kmain_step c s (K_SetF i) = Some (to_main (K_Unlock1 i) (s\<lparr>k_finished := 0\<rparr>))"
| "kmain_step c s (K_Unlock1 i) = Some (to_main (K_Bcast i) (drop_lock s))"
| "kmain_step c s (K_Bcast i) = Some (to_main (K_Lock2 i) (wake_workers s))"
| "kmain_step c s (K_Lock2 i) = map_option (to_main (K_Check i)) (take_lock Main_Thread s)"
| "kmain_step c s (K_Check i) = Some
     (if k_finished s \<noteq> full_mask (kc_threads c) then to_main (K_Sleep i) (drop_lock s)
      else to_main (K_Unlock2 i) s)"
| "kmain_step c s (K_Sleep i) = None"
| "kmain_step c s (K_Relock i) = map_option (to_main (K_Check i)) (take_lock Main_Thread s)"
| "kmain_step c s (K_Unlock2 i) = Some (to_main (K_Advance i) (drop_lock s))"
| "kmain_step c s (K_Advance i) = Some (to_main (K_Batch (Suc i)) (s\<lparr>k_data1 := k_data1 s + k_size s\<rparr>))"
| "kmain_step c s K_Report = Some
     (if kc_file c div k_size s = 0 then to_main K_Crash s
      else to_main K_Top (s\<lparr>k_size := k_size s * 2\<rparr>))"
| "kmain_step c s (K_Join i) =
     (if i < kc_threads c
      then if k_worker s i = T_Exit then Some (to_main (K_Join (Suc i)) s) else None
      else Some (to_main K_End s))"
| "kmain_step c s K_End = None"
| "kmain_step c s K_Crash = None"

section \<open>The steps of a worker\<close>

definition worker_copy :: "kcfg \<Rightarrow> nat \<Rightarrow> kstate \<Rightarrow> kstate" where
  "worker_copy c pid s =
     (let begin = k_begin s pid; off = k_offset s pid; unit = k_unit s pid in
      if kc_avail c < begin + unit \<or> KEND < off + unit then to_main K_Crash s
      else to_worker pid T_Lock2
        (s\<lparr>k_mem := (if kc_read c then c_memcpy (kc_buf c + off) (kc_data c + begin) unit (k_mem s)
                    else mmx2_memcpy (kc_data c + begin) (kc_buf c + off) unit (k_mem s))\<rparr>))"

fun kworker_step :: "kcfg \<Rightarrow> nat \<Rightarrow> kstate \<Rightarrow> tpc \<Rightarrow> kstate option" where
  "kworker_step c pid s T_New = None"
| "kworker_step c pid s T_Start = Some
     (to_worker pid T_Unit (s\<lparr>k_offset := (k_offset s)(pid := k_size s div kc_threads c * pid)\<rparr>))"
| "kworker_step c pid s T_Unit = Some
     (to_worker pid T_Lock (s\<lparr>k_unit := (k_unit s)(pid := k_size s div kc_threads c)\<rparr>))"
| "kworker_step c pid s T_Lock = map_option (to_worker pid T_Check) (take_lock (Worker pid) s)"
| "kworker_step c pid s T_Check = Some
     (if k_waiting s = 0 then to_worker pid T_Sleep (drop_lock s) else to_worker pid T_Clear s)"
| "kworker_step c pid s T_Sleep = None"
| "kworker_step c pid s T_Relock = map_option (to_worker pid T_Check) (take_lock (Worker pid) s)"
| "kworker_step c pid s T_Clear = Some
     (to_worker pid T_Unlock (s\<lparr>k_waiting := k_waiting s AND NOT (push_bit pid 1)\<rparr>))"
| "kworker_step c pid s T_Unlock = Some (to_worker pid T_Begin (drop_lock s))"
| "kworker_step c pid s T_Begin = Some
     (to_worker pid T_Copy (s\<lparr>k_begin := (k_begin s)(pid := k_data1 s + k_offset s pid)\<rparr>))"
| "kworker_step c pid s T_Copy = Some (worker_copy c pid s)"
| "kworker_step c pid s T_Lock2 = map_option (to_worker pid T_Finish) (take_lock (Worker pid) s)"
| "kworker_step c pid s T_Finish = Some
     (to_worker pid T_Unlock2 (s\<lparr>k_finished := k_finished s OR push_bit pid 1\<rparr>))"
| "kworker_step c pid s T_Unlock2 = Some (to_worker pid T_Test (drop_lock s))"
| "kworker_step c pid s T_Test = Some
     (to_worker pid T_Unit (if k_finished s = full_mask (kc_threads c) then wake_main s else s))"
| "kworker_step c pid s T_Exit = None"

text \<open>The interleavings.  The last two rules are wake-ups without a signal.\<close>

definition k_running :: "kstate \<Rightarrow> bool" where
  "k_running s \<longleftrightarrow> k_main s \<noteq> K_End \<and> k_main s \<noteq> K_Crash"

inductive kstep :: "kcfg \<Rightarrow> kstate \<Rightarrow> kstate \<Rightarrow> bool" for c where
  main: "kmain_step c s (k_main s) = Some s' \<Longrightarrow> kstep c s s'"
| worker: "pid < kc_threads c \<Longrightarrow> k_running s \<Longrightarrow> kworker_step c pid s (k_worker s pid) = Some s' \<Longrightarrow> kstep c s s'"
| main_wakes: "k_main s = K_Sleep i \<Longrightarrow> kstep c s (to_main (K_Relock i) s)"
| worker_wakes: "pid < kc_threads c \<Longrightarrow> k_running s \<Longrightarrow> k_worker s pid = T_Sleep \<Longrightarrow>
    kstep c s (to_worker pid T_Relock s)"

inductive_cases kstepE: "kstep c s s'"
inductive_simps kstep_iff: "kstep c s s'"

definition kinit :: "memory \<Rightarrow> kstate" where
  "kinit m = \<lparr>k_main = K_Create 0, k_worker = (\<lambda>_. T_New), k_lock = None, k_waiting = 0, k_finished = 0,
     k_size = 0, k_data1 = 0, k_unit = (\<lambda>_. 0), k_offset = (\<lambda>_. 0), k_begin = (\<lambda>_. 0), k_mem = m\<rparr>"

inductive kreach :: "kcfg \<Rightarrow> memory \<Rightarrow> kstate \<Rightarrow> bool" for c m where
  init: "kreach c m (kinit m)"
| step: "kreach c m s \<Longrightarrow> kstep c s s' \<Longrightarrow> kreach c m s'"

section \<open>The setup\<close>

definition mmap_fops_arg :: "string \<Rightarrow> bool option" where
  "mmap_fops_arg s = (if s = ''read'' then Some True else if s = ''write'' then Some False else None)"

text \<open>
  An exit code, or the number of threads, the file size, the direction, the descriptor and the
  mapping that the threads run with.
\<close>

definition mmap_setup :: "string list \<Rightarrow> (int + int \<times> int \<times> bool \<times> int \<times> mapping option) wprog" where
  "mmap_setup argv =
     (if length argv < 7 then bindP (say Usage) (\<lambda>_. ret (Inl 0))
      else
      bindP (try_res (c_strcpy 20 (argv ! 1))) (\<lambda>fs_type.
      bindP (try_res (c_strcpy 40 (argv ! 2))) (\<lambda>quill_enabled.
      case mmap_fops_arg (argv ! 3) of None \<Rightarrow> bindP (say Err_Plain) (\<lambda>_. ret (Inl 0)) | Some rd \<Rightarrow>
      let n = thread_arg (argv ! 4) in
      bindP (try_res (size_arg (argv ! 5))) (\<lambda>szo.
      case szo of None \<Rightarrow> bindP (say Bad_Unit) (\<lambda>_. ret (Inl 0)) | Some fs0 \<Rightarrow>
      let fs = clamp_size END_SIZE fs0 in
      bindP (try_res (c_strcpy 60 (argv ! 6))) (\<lambda>filename.
      bindP (call (c_fopen_a filename)) (\<lambda>output.
      bindP (call (sys_memalign END_SIZE)) (\<lambda>b.
      case b of None \<Rightarrow> ret (Inl 0) | Some buf \<Rightarrow>
      bindP (call (sys_open test1 [O_CREAT, O_RDWR])) (\<lambda>fd.
      bindP (query (sys_mmap fs True fd 0)) (\<lambda>data.
      ret (Inr (n, fs, rd, fd, data)))))))))))"

section \<open>Mutual exclusion\<close>

definition main_holds :: "kpc \<Rightarrow> bool" where
  "main_holds pc \<longleftrightarrow> (\<exists>i. pc = K_SetW i \<or> pc = K_SetF i \<or> pc = K_Unlock1 i \<or> pc = K_Check i \<or> pc = K_Unlock2 i)"

definition worker_holds :: "tpc \<Rightarrow> bool" where
  "worker_holds pc \<longleftrightarrow> pc = T_Check \<or> pc = T_Clear \<or> pc = T_Unlock \<or> pc = T_Finish \<or> pc = T_Unlock2"

definition lock_inv :: "kstate \<Rightarrow> bool" where
  "lock_inv s \<longleftrightarrow> (main_holds (k_main s) \<longleftrightarrow> k_lock s = Some Main_Thread)
     \<and> (\<forall>pid. worker_holds (k_worker s pid) \<longleftrightarrow> k_lock s = Some (Worker pid))"

lemma to_sel [simp]:
  "k_main (to_main pc s) = pc" "k_worker (to_main pc s) = k_worker s" "k_lock (to_main pc s) = k_lock s"
  "k_waiting (to_main pc s) = k_waiting s" "k_finished (to_main pc s) = k_finished s"
  "k_size (to_main pc s) = k_size s" "k_data1 (to_main pc s) = k_data1 s" "k_unit (to_main pc s) = k_unit s"
  "k_offset (to_main pc s) = k_offset s" "k_begin (to_main pc s) = k_begin s" "k_mem (to_main pc s) = k_mem s"
  "k_main (to_worker pid q s) = k_main s" "k_worker (to_worker pid q s) = (k_worker s)(pid := q)"
  "k_lock (to_worker pid q s) = k_lock s" "k_waiting (to_worker pid q s) = k_waiting s"
  "k_finished (to_worker pid q s) = k_finished s" "k_size (to_worker pid q s) = k_size s"
  "k_data1 (to_worker pid q s) = k_data1 s" "k_unit (to_worker pid q s) = k_unit s"
  "k_offset (to_worker pid q s) = k_offset s" "k_begin (to_worker pid q s) = k_begin s"
  "k_mem (to_worker pid q s) = k_mem s"
  by (simp_all add: to_main_def to_worker_def)

lemma drop_lock_sel [simp]:
  "k_main (drop_lock s) = k_main s" "k_worker (drop_lock s) = k_worker s" "k_lock (drop_lock s) = None"
  "k_waiting (drop_lock s) = k_waiting s" "k_finished (drop_lock s) = k_finished s"
  "k_size (drop_lock s) = k_size s" "k_data1 (drop_lock s) = k_data1 s" "k_unit (drop_lock s) = k_unit s"
  "k_offset (drop_lock s) = k_offset s" "k_begin (drop_lock s) = k_begin s" "k_mem (drop_lock s) = k_mem s"
  by (simp_all add: drop_lock_def)

lemma take_lock_Some: "take_lock me s = Some s' \<longleftrightarrow> k_lock s = None \<and> s' = s\<lparr>k_lock := Some me\<rparr>"
  by (auto simp: take_lock_def)

lemma wake_sel [simp]:
  "k_main (wake_workers s) = k_main s" "k_lock (wake_workers s) = k_lock s" "k_size (wake_workers s) = k_size s"
  "k_waiting (wake_workers s) = k_waiting s" "k_finished (wake_workers s) = k_finished s"
  "k_data1 (wake_workers s) = k_data1 s" "k_unit (wake_workers s) = k_unit s"
  "k_offset (wake_workers s) = k_offset s" "k_begin (wake_workers s) = k_begin s" "k_mem (wake_workers s) = k_mem s"
  "k_worker (wake_main s) = k_worker s" "k_lock (wake_main s) = k_lock s" "k_size (wake_main s) = k_size s"
  "k_waiting (wake_main s) = k_waiting s" "k_finished (wake_main s) = k_finished s"
  "k_data1 (wake_main s) = k_data1 s" "k_unit (wake_main s) = k_unit s"
  "k_offset (wake_main s) = k_offset s" "k_begin (wake_main s) = k_begin s" "k_mem (wake_main s) = k_mem s"
  by (simp_all add: wake_workers_def wake_main_def split: kpc.splits)

lemma wake_workers_worker [simp]:
  "k_worker (wake_workers s) p = (if k_worker s p = T_Sleep then T_Relock else k_worker s p)"
  by (simp add: wake_workers_def)

lemma wake_main_main:
  "k_main (wake_main s) = (case k_main s of K_Sleep i \<Rightarrow> K_Relock i | pc \<Rightarrow> pc)"
  by (simp add: wake_main_def split: kpc.splits)

lemma main_holds_simps [simp]:
  "main_holds (K_SetW i)" "main_holds (K_SetF i)" "main_holds (K_Unlock1 i)" "main_holds (K_Check i)"
  "main_holds (K_Unlock2 i)" "\<not> main_holds (K_Create i)" "\<not> main_holds K_Top" "\<not> main_holds (K_Batch i)"
  "\<not> main_holds (K_Lock1 i)" "\<not> main_holds (K_Bcast i)" "\<not> main_holds (K_Lock2 i)" "\<not> main_holds (K_Sleep i)"
  "\<not> main_holds (K_Relock i)" "\<not> main_holds (K_Advance i)" "\<not> main_holds K_Report" "\<not> main_holds (K_Join i)"
  "\<not> main_holds K_End" "\<not> main_holds K_Crash"
  by (simp_all add: main_holds_def)

lemma worker_holds_simps [simp]:
  "worker_holds T_Check" "worker_holds T_Clear" "worker_holds T_Unlock" "worker_holds T_Finish"
  "worker_holds T_Unlock2" "\<not> worker_holds T_New" "\<not> worker_holds T_Start" "\<not> worker_holds T_Unit"
  "\<not> worker_holds T_Lock" "\<not> worker_holds T_Sleep" "\<not> worker_holds T_Relock" "\<not> worker_holds T_Begin"
  "\<not> worker_holds T_Copy" "\<not> worker_holds T_Lock2" "\<not> worker_holds T_Test" "\<not> worker_holds T_Exit"
  by (simp_all add: worker_holds_def)

lemma wake_main_holds [simp]: "main_holds (k_main (wake_main s)) = main_holds (k_main s)"
  by (cases "k_main s") (simp_all add: wake_main_main)

lemma wake_main_create [simp]: "k_main (wake_main s) = K_Create i \<longleftrightarrow> k_main s = K_Create i"
  by (cases "k_main s") (simp_all add: wake_main_main)

text \<open>The threads that \<open>main\<close> has not created yet are new.\<close>

definition new_inv :: "kcfg \<Rightarrow> kstate \<Rightarrow> bool" where
  "new_inv c s \<longleftrightarrow> (\<forall>i pid. k_main s = K_Create i \<longrightarrow> i \<le> pid \<longrightarrow> k_worker s pid = T_New)"

lemma new_inv_step: "new_inv c s \<Longrightarrow> kstep c s s' \<Longrightarrow> new_inv c s'"
proof (erule kstepE, goal_cases)
  case 1
  then show ?case
    by (cases "k_main s") (auto simp: new_inv_def take_lock_Some split: if_splits)
next
  case (2 pid)
  then show ?case
    by (cases "k_worker s pid")
      (auto simp: new_inv_def take_lock_Some worker_copy_def Let_def split: if_splits)
qed (auto simp: new_inv_def)

text \<open>A step that takes the lock, gives it back, or does neither.\<close>

lemma lock_inv_other:
  assumes inv: "lock_inv s" and m: "main_holds (k_main s') = main_holds (k_main s)"
    and w: "\<And>q. worker_holds (k_worker s' q) = worker_holds (k_worker s q)" and l: "k_lock s' = k_lock s"
  shows "lock_inv s'"
  using inv unfolding lock_inv_def m w l .

lemma lock_inv_acts:
  assumes inv: "lock_inv s" and m: "main_holds (k_main s') = main_holds (k_main s)"
    and w: "\<And>q. q \<noteq> pid \<Longrightarrow> k_worker s' q = k_worker s q"
    and l: "k_lock s' = k_lock s \<and> worker_holds (k_worker s' pid) = worker_holds (k_worker s pid)
      \<or> k_lock s = None \<and> k_lock s' = Some (Worker pid) \<and> worker_holds (k_worker s' pid)
      \<or> worker_holds (k_worker s pid) \<and> k_lock s' = None \<and> \<not> worker_holds (k_worker s' pid)"
  shows "lock_inv s'"
proof -
  have M: "main_holds (k_main s) \<longleftrightarrow> k_lock s = Some Main_Thread"
    and W: "\<And>q. worker_holds (k_worker s q) \<longleftrightarrow> k_lock s = Some (Worker q)" using inv by (simp_all add: lock_inv_def)
  have "worker_holds (k_worker s' q) \<longleftrightarrow> k_lock s' = Some (Worker q)" for q
    using w [of q] W [of q] W [of pid] l by (cases "q = pid") auto
  moreover have "main_holds (k_main s') \<longleftrightarrow> k_lock s' = Some Main_Thread"
    using m M W [of pid] l by auto
  ultimately show ?thesis by (simp add: lock_inv_def)
qed

lemma lock_inv_acts_main:
  assumes inv: "lock_inv s" and w: "k_worker s' = k_worker s"
    and l: "k_lock s' = k_lock s \<and> main_holds (k_main s') = main_holds (k_main s)
      \<or> k_lock s = None \<and> k_lock s' = Some Main_Thread \<and> main_holds (k_main s')
      \<or> main_holds (k_main s) \<and> k_lock s' = None \<and> \<not> main_holds (k_main s')"
  shows "lock_inv s'"
proof -
  have M: "main_holds (k_main s) \<longleftrightarrow> k_lock s = Some Main_Thread"
    and W: "\<And>q. worker_holds (k_worker s q) \<longleftrightarrow> k_lock s = Some (Worker q)" using inv by (simp_all add: lock_inv_def)
  have "worker_holds (k_worker s' q) \<longleftrightarrow> k_lock s' = Some (Worker q)" for q
    using W [of q] M l unfolding w by auto
  moreover have "main_holds (k_main s') \<longleftrightarrow> k_lock s' = Some Main_Thread"
    using M l by auto
  ultimately show ?thesis by (simp add: lock_inv_def)
qed

lemma lock_inv_main:
  assumes "new_inv c s" and inv: "lock_inv s" and st: "kmain_step c s (k_main s) = Some s'"
  shows "lock_inv s'"
proof (cases "\<exists>i. k_main s = K_Create i \<or> k_main s = K_Bcast i")
  case True
  then show ?thesis
  proof (elim exE disjE)
    fix i assume i: "k_main s = K_Create i"
    then have new: "k_worker s i = T_New" using assms(1) by (simp add: new_inv_def)
    show ?thesis
      by (rule lock_inv_other [OF inv]) (use i st new in \<open>auto split: if_splits\<close>)
  next
    fix i assume i: "k_main s = K_Bcast i"
    have "worker_holds (k_worker (wake_workers s) q) = worker_holds (k_worker s q)" for q
      by (cases "k_worker s q") simp_all
    moreover have "s' = to_main (K_Lock2 i) (wake_workers s)" using i st by simp
    ultimately show ?thesis using i by (intro lock_inv_other [OF inv]) (simp_all del: wake_workers_worker)
  qed
next
  case False
  show ?thesis
    by (rule lock_inv_acts_main [OF inv])
      (use False st in \<open>cases "k_main s"; force simp: take_lock_Some split: if_splits\<close>)+
qed

lemma worker_frame:
  assumes "kworker_step c pid s pc = Some s'" "q \<noteq> pid"
  shows "k_worker s' q = k_worker s q"
  using assms by (cases pc; auto simp: take_lock_Some worker_copy_def Let_def split: if_splits)

lemma worker_lock:
  assumes "kworker_step c pid s pc = Some s'" and "k_main s' \<noteq> K_Crash"
  shows "k_lock s' = k_lock s \<and> worker_holds (k_worker s' pid) = worker_holds pc
      \<or> k_lock s = None \<and> k_lock s' = Some (Worker pid) \<and> worker_holds (k_worker s' pid)
      \<or> worker_holds pc \<and> k_lock s' = None \<and> \<not> worker_holds (k_worker s' pid)"
  using assms by (cases pc; auto simp: take_lock_Some worker_copy_def Let_def split: if_splits)

lemma lock_inv_worker:
  assumes inv: "lock_inv s" and st: "kworker_step c pid s (k_worker s pid) = Some s'" "k_main s' \<noteq> K_Crash"
  shows "lock_inv s'"
proof (rule lock_inv_acts [OF inv _ worker_frame [OF st(1)] worker_lock [OF st]])
  show "main_holds (k_main s') = main_holds (k_main s)"
    using st by (cases "k_worker s pid"; auto simp: take_lock_Some worker_copy_def Let_def split: if_splits)
qed

lemma lock_inv_step: "new_inv c s \<Longrightarrow> lock_inv s \<Longrightarrow> kstep c s s' \<Longrightarrow> k_main s' \<noteq> K_Crash \<Longrightarrow> lock_inv s'"
proof (erule kstepE, goal_cases)
  case 1 then show ?case by (blast intro: lock_inv_main)
next
  case (2 pid) then show ?case by (blast intro: lock_inv_worker)
next
  case (3 i)
  then show ?case by (elim lock_inv_other) auto
next
  case (4 pid)
  then show ?case by (elim lock_inv_other) auto
qed

lemma crash_stays: "kreach c m s \<Longrightarrow> k_main s \<noteq> K_Crash \<Longrightarrow> lock_inv s \<and> new_inv c s"
proof (induction rule: kreach.induct)
  case init
  then show ?case by (simp add: lock_inv_def new_inv_def kinit_def)
next
  case (step s s')
  have "k_main s \<noteq> K_Crash"
    using step.hyps(2) step.prems by (auto simp: k_running_def elim!: kstepE)
  with step show ?case using new_inv_step lock_inv_step by blast
qed

section \<open>The invariant of a run with one thread\<close>

text \<open>
  The batch that the main thread works on, and whether it has been posted completely; where the
  worker has its \<open>unit\<close>, and where it is between taking a batch and reporting it.
\<close>

fun batch_of :: "kpc \<Rightarrow> nat option" where
  "batch_of (K_Batch i) = Some i"
| "batch_of (K_Lock1 i) = Some i"
| "batch_of (K_SetW i) = Some i"
| "batch_of (K_SetF i) = Some i"
| "batch_of (K_Unlock1 i) = Some i"
| "batch_of (K_Bcast i) = Some i"
| "batch_of (K_Lock2 i) = Some i"
| "batch_of (K_Check i) = Some i"
| "batch_of (K_Sleep i) = Some i"
| "batch_of (K_Relock i) = Some i"
| "batch_of (K_Unlock2 i) = Some i"
| "batch_of (K_Advance i) = Some i"
| "batch_of _ = None"

fun posted :: "kpc \<Rightarrow> bool" where
  "posted (K_Unlock1 i) = True"
| "posted (K_Bcast i) = True"
| "posted (K_Lock2 i) = True"
| "posted (K_Check i) = True"
| "posted (K_Sleep i) = True"
| "posted (K_Relock i) = True"
| "posted (K_Unlock2 i) = True"
| "posted (K_Advance i) = True"
| "posted _ = False"

definition in_setf :: "kpc \<Rightarrow> bool" where
  "in_setf pc \<longleftrightarrow> (\<exists>i. pc = K_SetF i)"

definition seen_full :: "kpc \<Rightarrow> bool" where
  "seen_full pc \<longleftrightarrow> (\<exists>i. pc = K_Unlock2 i \<or> pc = K_Advance i)"

definition has_unit :: "tpc \<Rightarrow> bool" where
  "has_unit pc \<longleftrightarrow> pc \<in> {T_Lock, T_Check, T_Sleep, T_Relock, T_Clear, T_Unlock, T_Begin, T_Copy, T_Lock2, T_Finish}"

definition took :: "tpc \<Rightarrow> bool" where
  "took pc \<longleftrightarrow> pc \<in> {T_Unlock, T_Begin, T_Copy, T_Lock2, T_Finish}"

definition copied :: "tpc \<Rightarrow> bool" where
  "copied pc \<longleftrightarrow> pc = T_Lock2 \<or> pc = T_Finish"

definition batch_done :: "kcfg \<Rightarrow> memory \<Rightarrow> kstate \<Rightarrow> bool" where
  "batch_done c m s \<longleftrightarrow> (\<forall>j < k_size s. k_mem s (kc_data c + k_data1 s + j) = m (kc_buf c + j))"

definition one_ok :: "kcfg \<Rightarrow> bool" where
  "one_ok c \<longleftrightarrow> kc_threads c = 1 \<and> \<not> kc_read c \<and> kc_data c mod 8 = 0
     \<and> (kc_data c + kc_avail c \<le> kc_buf c \<or> kc_buf c + KEND \<le> kc_data c)"

text \<open>
  The values of the two masks: a complete post is open (waiting), taken, or reported (finished);
  without one the worker has nothing to take.
\<close>

definition phase_ok :: "kpc \<Rightarrow> tpc \<Rightarrow> 32 word \<Rightarrow> 32 word \<Rightarrow> bool" where
  "phase_ok m w waiting fin \<longleftrightarrow>
     (if posted m
      then if took w then waiting = 0 \<and> fin = 0 \<and> \<not> seen_full m
           else if w = T_Clear then waiting = 1 \<and> fin = 0 \<and> \<not> seen_full m
           else if waiting = 0 then fin = 1
           else waiting = 1 \<and> fin = 0 \<and> \<not> seen_full m
      else \<not> took w \<and> w \<noteq> T_Clear \<and> (fin = 0 \<or> fin = 1)
           \<and> waiting = (if in_setf m then 1 else 0))"

definition phase_inv :: "kstate \<Rightarrow> bool" where
  "phase_inv s \<longleftrightarrow> phase_ok (k_main s) (k_worker s 0) (k_waiting s) (k_finished s)"

definition unit_inv :: "kstate \<Rightarrow> bool" where
  "unit_inv s \<longleftrightarrow> 8 dvd k_size s \<and> 8 dvd k_data1 s \<and> k_offset s 0 = 0
     \<and> (case batch_of (k_main s) of None \<Rightarrow> True
        | Some i \<Rightarrow> has_unit (k_worker s 0) \<longrightarrow> 0 < i \<or> posted (k_main s) \<and> k_finished s = 1 \<longrightarrow> k_unit s 0 = k_size s)
     \<and> (k_worker s 0 = T_Copy \<longrightarrow> k_begin s 0 = k_data1 s)"

definition copy_inv :: "kcfg \<Rightarrow> memory \<Rightarrow> kstate \<Rightarrow> bool" where
  "copy_inv c m s \<longleftrightarrow> (\<forall>j < KEND. k_mem s (kc_buf c + j) = m (kc_buf c + j))
     \<and> (case batch_of (k_main s) of None \<Rightarrow> True
        | Some i \<Rightarrow> 0 < i \<longrightarrow> posted (k_main s) \<and> (copied (k_worker s 0) \<or> k_finished s = 1) \<longrightarrow> batch_done c m s)"

lemma one_mask: "full_mask (Suc 0) = 1" "push_bit 0 (1 :: 32 word) = 1"
  by (simp_all add: full_mask_def)

lemma batch_simps [simp]:
  "\<not> seen_full (K_Create i)" "\<not> seen_full K_Top" "\<not> seen_full (K_Batch i)" "\<not> seen_full (K_Lock1 i)"
  "\<not> seen_full (K_SetW i)" "\<not> seen_full (K_SetF i)" "\<not> seen_full (K_Unlock1 i)" "\<not> seen_full (K_Bcast i)"
  "\<not> seen_full (K_Lock2 i)" "\<not> seen_full (K_Check i)" "\<not> seen_full (K_Sleep i)" "\<not> seen_full (K_Relock i)"
  "seen_full (K_Unlock2 i)" "seen_full (K_Advance i)" "\<not> seen_full K_Report" "\<not> seen_full (K_Join i)"
  "\<not> seen_full K_End" "\<not> seen_full K_Crash"
  by (simp_all add: seen_full_def)

lemma in_setf_simps [simp]:
  "\<not> in_setf (K_Create i)" "\<not> in_setf K_Top" "\<not> in_setf (K_Batch i)" "\<not> in_setf (K_Lock1 i)"
  "\<not> in_setf (K_SetW i)" "in_setf (K_SetF i)" "\<not> in_setf (K_Unlock1 i)" "\<not> in_setf (K_Bcast i)"
  "\<not> in_setf (K_Lock2 i)" "\<not> in_setf (K_Check i)" "\<not> in_setf (K_Sleep i)" "\<not> in_setf (K_Relock i)"
  "\<not> in_setf (K_Unlock2 i)" "\<not> in_setf (K_Advance i)" "\<not> in_setf K_Report" "\<not> in_setf (K_Join i)"
  "\<not> in_setf K_End" "\<not> in_setf K_Crash"
  by (simp_all add: in_setf_def)

lemma tpc_simps [simp]:
  "took (if pc = T_Sleep then T_Relock else pc) = took pc"
  "copied (if pc = T_Sleep then T_Relock else pc) = copied pc"
  "has_unit (if pc = T_Sleep then T_Relock else pc) = has_unit pc"
  "(if pc = T_Sleep then T_Relock else pc) = T_Clear \<longleftrightarrow> pc = T_Clear"
  "(if pc = T_Sleep then T_Relock else pc) = T_Copy \<longleftrightarrow> pc = T_Copy"
  by (auto simp: took_def copied_def has_unit_def)

lemma wake_main_parts [simp]:
  "posted (k_main (wake_main s)) = posted (k_main s)" "seen_full (k_main (wake_main s)) = seen_full (k_main s)"
  "batch_of (k_main (wake_main s)) = batch_of (k_main s)"
  "in_setf (k_main (wake_main s)) = in_setf (k_main s)"
  by (cases "k_main s"; simp add: wake_main_main)+

lemma took_simps [simp]:
  "took T_Unlock" "took T_Begin" "took T_Copy" "took T_Lock2" "took T_Finish"
  "\<not> took T_New" "\<not> took T_Start" "\<not> took T_Unit" "\<not> took T_Lock" "\<not> took T_Check" "\<not> took T_Sleep"
  "\<not> took T_Relock" "\<not> took T_Clear" "\<not> took T_Unlock2" "\<not> took T_Test" "\<not> took T_Exit"
  by (simp_all add: took_def)

text \<open>Most steps change nothing that a phase is about.\<close>

definition phase_view :: "kstate \<Rightarrow> bool \<times> bool \<times> bool \<times> bool \<times> bool \<times> 32 word \<times> 32 word" where
  "phase_view s = (posted (k_main s), seen_full (k_main s), in_setf (k_main s), took (k_worker s 0),
     k_worker s 0 = T_Clear, k_waiting s, k_finished s)"

lemma phase_same: "phase_view s' = phase_view s \<Longrightarrow> phase_inv s \<Longrightarrow> phase_inv s'"
  by (simp add: phase_view_def phase_inv_def phase_ok_def)

definition main_shifts :: "kpc \<Rightarrow> bool" where
  "main_shifts pc \<longleftrightarrow> (\<exists>i. pc = K_SetW i \<or> pc = K_SetF i \<or> pc = K_Check i \<or> pc = K_Advance i)"

lemma phase_view_main:
  assumes "kmain_step c s pc = Some s'" and "k_main s = pc" and "\<not> main_shifts pc" and "new_inv c s"
  shows "phase_view s' = phase_view s"
proof (cases "\<exists>i. pc = K_Create i")
  case True
  then obtain i where i: "pc = K_Create i" by blast
  then have "k_worker s i = T_New" using assms(2,4) by (simp add: new_inv_def)
  with i assms show ?thesis by (cases "i = 0") (auto simp: phase_view_def split: if_splits)
next
  case False
  with assms show ?thesis
    by (cases pc) (auto simp: phase_view_def main_shifts_def take_lock_Some split: if_splits)
qed

lemma phase_main:
  assumes st: "kmain_step c s pc = Some s'" and pc: "k_main s = pc" and n: "kc_threads c = 1"
    and new: "new_inv c s" and inv: "phase_inv s"
  shows "phase_inv s'"
proof (cases "main_shifts pc")
  case True
  then show ?thesis
    unfolding main_shifts_def
  proof (elim exE disjE)
    fix i assume "pc = K_SetW i"
    with st pc n inv show ?thesis by (auto simp: phase_inv_def phase_ok_def one_mask)
  next
    fix i assume "pc = K_SetF i"
    with st pc n inv show ?thesis by (auto simp: phase_inv_def phase_ok_def one_mask)
  next
    fix i assume "pc = K_Check i"
    with st pc n inv show ?thesis by (auto simp: phase_inv_def phase_ok_def one_mask split: if_splits)
  next
    fix i assume "pc = K_Advance i"
    with st pc n inv show ?thesis by (auto simp: phase_inv_def phase_ok_def one_mask split: if_splits)
  qed
next
  case False
  from phase_same [OF phase_view_main [OF st pc False new] inv] show ?thesis .
qed

definition worker_shifts :: "tpc \<Rightarrow> bool" where
  "worker_shifts pc \<longleftrightarrow> pc = T_Check \<or> pc = T_Clear \<or> pc = T_Finish"

lemma phase_view_worker:
  assumes "kworker_step c 0 s pc = Some s'" and "k_worker s 0 = pc" and "\<not> worker_shifts pc"
    and "k_main s' \<noteq> K_Crash"
  shows "phase_view s' = phase_view s"
  using assms
  by (cases pc) (auto simp: phase_view_def worker_shifts_def take_lock_Some worker_copy_def Let_def split: if_splits)

lemma phase_worker:
  assumes st: "kworker_step c 0 s pc = Some s'" and pc: "k_worker s 0 = pc" and crash: "k_main s' \<noteq> K_Crash"
    and n: "kc_threads c = 1" and lock: "lock_inv s" and inv: "phase_inv s"
  shows "phase_inv s'"
proof (cases "worker_shifts pc")
  case True
  have "main_holds (k_main s) \<longrightarrow> \<not> worker_holds pc"
    using lock pc by (auto simp: lock_inv_def)
  then have h: "worker_holds pc \<Longrightarrow> \<not> in_setf (k_main s)" by (auto simp: in_setf_def)
  from True show ?thesis
    unfolding worker_shifts_def
  proof (elim disjE)
    assume p: "pc = T_Check"
    with st pc n inv h show ?thesis by (auto simp: phase_inv_def phase_ok_def split: if_splits)
  next
    assume "pc = T_Clear"
    with st pc n inv h show ?thesis by (auto simp: phase_inv_def phase_ok_def one_mask split: if_splits)
  next
    assume "pc = T_Finish"
    with st pc n inv h show ?thesis by (auto simp: phase_inv_def phase_ok_def one_mask split: if_splits)
  qed
next
  case False
  from phase_same [OF phase_view_worker [OF st pc False crash] inv] show ?thesis .
qed


lemma phase_wakes: "phase_inv s \<Longrightarrow> k_main s = K_Sleep i \<Longrightarrow> phase_inv (to_main (K_Relock i) s)"
  "phase_inv s \<Longrightarrow> k_worker s pid = T_Sleep \<Longrightarrow> phase_inv (to_worker pid T_Relock s)"
  by (auto elim!: phase_same [rotated] simp: phase_view_def)

subsection \<open>The unit and the position\<close>

lemma has_unit_simps [simp]:
  "has_unit T_Lock" "has_unit T_Check" "has_unit T_Sleep" "has_unit T_Relock" "has_unit T_Clear" "has_unit T_Unlock"
  "has_unit T_Begin" "has_unit T_Copy" "has_unit T_Lock2" "has_unit T_Finish"
  "\<not> has_unit T_New" "\<not> has_unit T_Start" "\<not> has_unit T_Unit" "\<not> has_unit T_Unlock2" "\<not> has_unit T_Test" "\<not> has_unit T_Exit"
  by (simp_all add: has_unit_def)

definition unit_shifts :: "kpc \<Rightarrow> bool" where
  "unit_shifts pc \<longleftrightarrow> pc = K_Top \<or> pc = K_Report \<or> (\<exists>i. pc = K_Create i \<or> pc = K_Batch i \<or> pc = K_SetF i \<or> pc = K_Advance i)"

definition unit_view :: "kstate \<Rightarrow> nat option \<times> bool \<times> bool \<times> bool \<times> 32 word \<times> nat \<times> nat \<times> nat \<times> nat \<times> nat" where
  "unit_view s = (batch_of (k_main s), posted (k_main s), has_unit (k_worker s 0), k_worker s 0 = T_Copy,
     k_finished s, k_size s, k_data1 s, k_offset s 0, k_unit s 0, k_begin s 0)"

lemma unit_same: "unit_view s' = unit_view s \<Longrightarrow> unit_inv s \<Longrightarrow> unit_inv s'"
  by (simp add: unit_view_def unit_inv_def split: option.splits)

lemma unit_main:
  assumes st: "kmain_step c s pc = Some s'" and pc: "k_main s = pc"
    and phase: "phase_inv s" and inv: "unit_inv s" and new: "new_inv c s"
  shows "unit_inv s'"
proof (cases "unit_shifts pc")
  case True
  then show ?thesis
    unfolding unit_shifts_def
  proof (elim exE disjE)
    assume "pc = K_Top"
    with st pc phase inv show ?thesis
      by (auto simp: unit_inv_def phase_inv_def phase_ok_def split: if_splits)
  next
    assume "pc = K_Report"
    with st pc phase inv show ?thesis
      by (auto simp: unit_inv_def split: if_splits)
  next
    fix i assume i: "pc = K_Create i"
    have "k_worker s i = T_New" using i pc new by (simp add: new_inv_def)
    with i st pc inv show ?thesis
      by (cases "i = 0") (auto simp: unit_inv_def KSTART_def split: if_splits)
  next
    fix i assume "pc = K_Batch i"
    with st pc inv show ?thesis by (auto simp: unit_inv_def split: if_splits)
  next
    fix i assume "pc = K_SetF i"
    with st pc inv show ?thesis by (auto simp: unit_inv_def)
  next
    fix i assume "pc = K_Advance i"
    with st pc phase inv show ?thesis
      by (auto simp: unit_inv_def phase_inv_def phase_ok_def split: if_splits)
  qed
next
  case False
  have "unit_view s' = unit_view s"
    using False st pc
    by (cases pc) (auto simp: unit_view_def unit_shifts_def take_lock_Some split: if_splits)
  from unit_same [OF this inv] show ?thesis .
qed

lemma unit_worker:
  assumes st: "kworker_step c 0 s pc = Some s'" and pc: "k_worker s 0 = pc" and crash: "k_main s' \<noteq> K_Crash"
    and n: "kc_threads c = 1" and phase: "phase_inv s" and inv: "unit_inv s"
  shows "unit_inv s'"
proof (cases "pc = T_Start \<or> pc = T_Unit \<or> pc = T_Finish \<or> pc = T_Begin \<or> pc = T_Copy \<or> pc = T_Unlock2")
  case True
  then show ?thesis
  proof (elim disjE)
    assume "pc = T_Start"
    with st pc inv show ?thesis by (auto simp: unit_inv_def split: option.splits)
  next
    assume "pc = T_Unit"
    with st pc n inv show ?thesis by (auto simp: unit_inv_def split: option.splits)
  next
    assume "pc = T_Finish"
    with st pc inv show ?thesis by (auto simp: unit_inv_def split: option.splits)
  next
    assume "pc = T_Begin"
    with st pc inv show ?thesis by (auto simp: unit_inv_def split: option.splits)
  next
    assume "pc = T_Copy"
    with st pc crash inv show ?thesis
      by (auto simp: unit_inv_def worker_copy_def Let_def split: option.splits if_splits)
  next
    assume "pc = T_Unlock2"
    with st pc inv show ?thesis by (auto simp: unit_inv_def split: option.splits)
  qed
next
  case False
  have "unit_view s' = unit_view s"
    using False st pc crash
    by (cases pc) (auto simp: unit_view_def take_lock_Some split: if_splits)
  from unit_same [OF this inv] show ?thesis .
qed

lemma unit_wakes: "unit_inv s \<Longrightarrow> k_main s = K_Sleep i \<Longrightarrow> unit_inv (to_main (K_Relock i) s)"
  "unit_inv s \<Longrightarrow> k_worker s pid = T_Sleep \<Longrightarrow> unit_inv (to_worker pid T_Relock s)"
  by (auto elim!: unit_same [rotated] simp: unit_view_def)


subsection \<open>The copy\<close>

lemma copied_simps [simp]:
  "copied T_Lock2" "copied T_Finish" "\<not> copied T_New" "\<not> copied T_Start" "\<not> copied T_Unit" "\<not> copied T_Lock"
  "\<not> copied T_Check" "\<not> copied T_Sleep" "\<not> copied T_Relock" "\<not> copied T_Clear" "\<not> copied T_Unlock"
  "\<not> copied T_Begin" "\<not> copied T_Copy" "\<not> copied T_Unlock2" "\<not> copied T_Test" "\<not> copied T_Exit"
  by (simp_all add: copied_def)

lemma copied_took: "\<not> took pc \<Longrightarrow> \<not> copied pc"
  by (auto simp: copied_def)

definition copy_view :: "kstate \<Rightarrow> nat option \<times> bool \<times> bool \<times> 32 word \<times> nat \<times> nat \<times> memory" where
  "copy_view s = (batch_of (k_main s), posted (k_main s), copied (k_worker s 0), k_finished s, k_size s, k_data1 s, k_mem s)"

lemma copy_same: "copy_view s' = copy_view s \<Longrightarrow> copy_inv c m s \<Longrightarrow> copy_inv c m s'"
  by (simp add: copy_view_def copy_inv_def batch_done_def split: option.splits)

lemma copy_main:
  assumes st: "kmain_step c s pc = Some s'" and pc: "k_main s = pc"
    and phase: "phase_inv s" and inv: "copy_inv c m s" and new: "new_inv c s"
  shows "copy_inv c m s'"
proof (cases "unit_shifts pc")
  case True
  have "k_mem s' = k_mem s" using st True by (auto simp: unit_shifts_def split: if_splits)
  moreover have "batch_of (k_main s') = None \<or> \<not> posted (k_main s') \<or> \<not> copied (k_worker s' 0) \<and> k_finished s' = 0"
  proof (cases "\<exists>i. pc = K_SetF i")
    case True
    then have "\<not> took (k_worker s 0)" "k_worker s' = k_worker s" "k_finished s' = 0"
      using st pc phase by (auto simp: phase_inv_def phase_ok_def)
    then show ?thesis by (simp add: copied_took)
  next
    case False
    with True st show ?thesis by (auto simp: unit_shifts_def split: if_splits)
  qed
  ultimately show ?thesis
    using inv by (auto simp: copy_inv_def split: option.splits)
next
  case False
  have "copy_view s' = copy_view s"
    using False st pc
    by (cases pc) (auto simp: copy_view_def unit_shifts_def take_lock_Some split: if_splits)
  from copy_same [OF this inv] show ?thesis .
qed

lemma copy_step:
  assumes one: "one_ok c" and crash: "k_main (worker_copy c 0 s) \<noteq> K_Crash" and pc: "k_worker s 0 = T_Copy"
    and phase: "phase_inv s" and unit: "unit_inv s" and inv: "copy_inv c m s"
  shows "copy_inv c m (worker_copy c 0 s)"
proof -
  let ?b = "k_begin s 0" and ?u = "k_unit s 0" and ?s = "worker_copy c 0 s"
  have fits: "?b + ?u \<le> kc_avail c" "?u \<le> KEND"
    and s': "?s = to_worker 0 T_Lock2 (s\<lparr>k_mem := mmx2_memcpy (kc_data c + ?b) (kc_buf c) ?u (k_mem s)\<rparr>)"
    using one crash unit by (auto simp: worker_copy_def Let_def one_ok_def unit_inv_def split: if_splits)
  have b: "?b = k_data1 s" "8 dvd k_data1 s" using unit pc by (simp_all add: unit_inv_def)
  have al: "(kc_data c + ?b) mod 8 = 0"
    using one b by (metis dvd_add dvd_imp_mod_0 mod_0_imp_dvd one_ok_def)
  have far: "kc_data c + kc_avail c \<le> kc_buf c \<or> kc_buf c + KEND \<le> kc_data c" using one by (simp add: one_ok_def)
  have mem: "k_mem ?s = c_memcpy (kc_data c + ?b) (kc_buf c) ?u (k_mem s)"
    using mmx2_memcpy_exact [of "kc_data c + ?b" ?u "kc_buf c" "k_mem s"] fits far al by (auto simp: s')
  have buf: "k_mem ?s (kc_buf c + j) = m (kc_buf c + j)" if "j < KEND" for j
    using inv that far fits by (auto simp: mem c_memcpy_def blit_def copy_inv_def)
  have new: "k_mem ?s (kc_data c + ?b + j) = m (kc_buf c + j)" if "j < ?u" for j
  proof -
    have "k_mem s (kc_buf c + j) = m (kc_buf c + j)" using inv that fits by (simp add: copy_inv_def)
    then show ?thesis using that by (simp add: mem c_memcpy_def blit_def)
  qed
  have "?u = k_size s" if "batch_of (k_main s) = Some i" "0 < i" for i
    using that unit pc by (simp add: unit_inv_def)
  then have "batch_of (k_main s) = Some i \<Longrightarrow> 0 < i \<Longrightarrow> batch_done c m ?s" for i
    using new b by (simp add: batch_done_def s')
  moreover have "k_main ?s = k_main s" by (simp add: s')
  ultimately show ?thesis using buf by (auto simp: copy_inv_def split: option.splits)
qed

lemma copy_worker:
  assumes st: "kworker_step c 0 s pc = Some s'" and pc: "k_worker s 0 = pc" and crash: "k_main s' \<noteq> K_Crash"
    and one: "one_ok c" and phase: "phase_inv s" and unit: "unit_inv s" and inv: "copy_inv c m s"
  shows "copy_inv c m s'"
proof (cases "pc = T_Copy \<or> pc = T_Finish")
  case True
  then show ?thesis
  proof
    assume "pc = T_Copy"
    with assms show ?thesis using copy_step [OF one] by auto
  next
    assume "pc = T_Finish"
    with st pc inv show ?thesis
      by (auto simp: copy_inv_def batch_done_def split: option.splits)
  qed
next
  case False
  have "copy_view s' = copy_view s"
    using False st pc crash
    by (cases pc) (auto simp: copy_view_def take_lock_Some split: if_splits)
  from copy_same [OF this inv] show ?thesis .
qed

lemma copy_wakes: "copy_inv c m s \<Longrightarrow> k_main s = K_Sleep i \<Longrightarrow> copy_inv c m (to_main (K_Relock i) s)"
  "copy_inv c m s \<Longrightarrow> k_worker s pid = T_Sleep \<Longrightarrow> copy_inv c m (to_worker pid T_Relock s)"
  by (auto elim!: copy_same [rotated] simp: copy_view_def)

subsection \<open>All reachable states\<close>

lemma one_thread_inv:
  assumes one: "one_ok c" and "kreach c m s" "k_main s \<noteq> K_Crash"
  shows "phase_inv s \<and> unit_inv s \<and> copy_inv c m s"
  using assms(2,3)
proof (induction rule: kreach.induct)
  case init
  then show ?case
    by (simp add: phase_inv_def phase_ok_def unit_inv_def copy_inv_def kinit_def)
next
  case (step s s')
  have nc: "k_main s \<noteq> K_Crash"
    using step.hyps(2) step.prems by (auto simp: k_running_def elim!: kstepE)
  have n: "kc_threads c = 1" using one by (simp add: one_ok_def)
  note IH = step.IH [OF nc] and base = crash_stays [OF step.hyps(1) nc]
  from step.hyps(2) show ?case
  proof (rule kstepE)
    assume "kmain_step c s (k_main s) = Some s'"
    then show ?thesis using IH base n phase_main unit_main copy_main by (metis (no_types))
  next
    fix pid assume "pid < kc_threads c" "kworker_step c pid s (k_worker s pid) = Some s'"
    then have st: "kworker_step c 0 s (k_worker s 0) = Some s'" using n by simp
    show ?thesis
      using phase_worker [OF st refl step.prems n] unit_worker [OF st refl step.prems n]
        copy_worker [OF st refl step.prems one] IH base by simp
  qed (use IH phase_wakes unit_wakes copy_wakes in auto)
qed


section \<open>The slices of several threads\<close>

text \<open>
  A worker reports only after it has fixed its offset, and the main thread ends the rounds of the
  first size only after every worker has reported; so no offset is computed from a larger size.
\<close>

definition started :: "tpc \<Rightarrow> bool" where
  "started pc \<longleftrightarrow> pc \<noteq> T_New \<and> pc \<noteq> T_Start"

definition past_first :: "kcfg \<Rightarrow> kstate \<Rightarrow> bool" where
  "past_first c s \<longleftrightarrow> KSTART < k_size s \<or> seen_full (k_main s) \<or> (\<exists>i. batch_of (k_main s) = Some i \<and> 0 < i)
     \<or> k_main s = K_Report \<and> kc_file c div k_size s \<noteq> 0"

lemma started_simps [simp]:
  "\<not> started T_New" "\<not> started T_Start" "started T_Unit" "started T_Lock" "started T_Check" "started T_Sleep"
  "started T_Relock" "started T_Clear" "started T_Unlock" "started T_Begin" "started T_Copy" "started T_Lock2"
  "started T_Finish" "started T_Unlock2" "started T_Test" "started T_Exit"
  "started (if pc = T_Sleep then T_Relock else pc) = started pc"
  by (auto simp: started_def)

lemma full_mask_bit: "p < n \<Longrightarrow> n \<le> 16 \<Longrightarrow> bit (full_mask n) p"
proof -
  assume "p < n" "n \<le> 16"
  moreover have "full_mask n = mask n" by (simp add: full_mask_def mask_eq_exp_minus_1 push_bit_eq_mult)
  ultimately show ?thesis by (simp add: bit_mask_iff)
qed

lemma create_inv_reach: "kreach c m s \<Longrightarrow> k_main s = K_Create i \<Longrightarrow> k_size s = 0"
proof (induction arbitrary: i rule: kreach.induct)
  case init
  then show ?case by (simp add: kinit_def)
next
  case (step s s')
  from step.hyps(2) show ?case
  proof (rule kstepE)
    assume "kmain_step c s (k_main s) = Some s'"
    then show ?thesis using step.IH step.prems
      by (cases "k_main s") (auto simp: take_lock_Some split: if_splits)
  next
    fix pid assume "kworker_step c pid s (k_worker s pid) = Some s'"
    then show ?thesis using step.IH step.prems
      by (cases "k_worker s pid") (auto simp: take_lock_Some worker_copy_def Let_def split: if_splits)
  qed (use step in auto)
qed

lemma past_first_worker:
  assumes "kworker_step c pid s pc = Some s'" "k_main s' \<noteq> K_Crash"
  shows "past_first c s' = past_first c s" "k_size s' = k_size s"
proof -
  have "k_main (wake_main s) = K_Report \<longleftrightarrow> k_main s = K_Report"
    by (cases "k_main s") (simp_all add: wake_main_main)
  then show "past_first c s' = past_first c s" "k_size s' = k_size s"
    using assms
    by (cases pc; auto simp: past_first_def take_lock_Some worker_copy_def Let_def split: if_splits)+
qed

definition slice_ok :: "kcfg \<Rightarrow> kstate \<Rightarrow> nat \<Rightarrow> bool" where
  "slice_ok c s p \<longleftrightarrow> (bit (k_finished s) p \<longrightarrow> started (k_worker s p)) \<and> (past_first c s \<longrightarrow> started (k_worker s p))
     \<and> k_offset s p \<le> KSTART div kc_threads c * p \<and> k_unit s p \<le> k_size s div kc_threads c"

lemma slice_keep:
  "slice_ok c s p \<Longrightarrow> started (k_worker s' p) = started (k_worker s p) \<Longrightarrow>
    bit (k_finished s') p \<longrightarrow> bit (k_finished s) p \<Longrightarrow> past_first c s' \<longrightarrow> past_first c s \<Longrightarrow>
    k_offset s' p = k_offset s p \<Longrightarrow> k_unit s' p = k_unit s p \<Longrightarrow> k_size s' = k_size s \<Longrightarrow> slice_ok c s' p"
  by (simp add: slice_ok_def)

lemma slice_worker:
  assumes st: "kworker_step c pid s pc = Some s'" and pc: "k_worker s pid = pc" and crash: "k_main s' \<noteq> K_Crash"
    and inv: "slice_ok c s p"
  shows "slice_ok c s' p"
proof -
  note same = past_first_worker [OF st crash]
  show ?thesis
  proof (cases "p = pid")
    case True
    then show ?thesis
      using st pc crash inv same(2) div_le_mono [of "k_size s" KSTART "kc_threads c"] unfolding slice_ok_def same(1)
      by (cases pc) (auto simp: take_lock_Some worker_copy_def Let_def past_first_def bit_simps split: if_splits)
  next
    case False
    have "k_worker s' p = k_worker s p" "k_offset s' p = k_offset s p" "k_unit s' p = k_unit s p"
      "bit (k_finished s') p = bit (k_finished s) p"
      using st crash False
      by (cases pc; auto simp: take_lock_Some worker_copy_def Let_def bit_simps split: if_splits)+
    then show ?thesis using inv same by (simp add: slice_ok_def)
  qed
qed

lemma slice_main:
  assumes st: "kmain_step c s pc = Some s'" and pc: "k_main s = pc" and crash: "k_main s' \<noteq> K_Crash"
    and p: "p < kc_threads c" and n: "kc_threads c \<le> 16" and new: "new_inv c s" and r: "kreach c m s"
    and inv: "slice_ok c s p"
  shows "slice_ok c s' p"
proof (cases pc)
  case (K_Create i)
  have "k_worker s i = T_New" "k_size s = 0"
    using K_Create pc new create_inv_reach [OF r] by (simp_all add: new_inv_def)
  with K_Create st pc inv show ?thesis
    by (cases "i = p") (auto simp: slice_ok_def past_first_def split: if_splits)
next
  case (K_Check i)
  with st pc inv full_mask_bit [OF p n] show ?thesis
    by (auto simp: slice_ok_def past_first_def split: if_splits)
next
  case K_Report
  have "k_size s div kc_threads c \<le> k_size s * 2 div kc_threads c" by (intro div_le_mono) simp
  with K_Report st pc crash inv show ?thesis
    by (auto simp: slice_ok_def past_first_def split: if_splits)
qed (rule slice_keep [OF inv]; use st pc in \<open>auto simp: past_first_def take_lock_Some split: if_splits\<close>)+

lemma slice_reach:
  assumes n: "kc_threads c \<le> 16" and p: "p < kc_threads c" and "kreach c m s" "k_main s \<noteq> K_Crash"
  shows "slice_ok c s p"
  using assms(3,4)
proof (induction rule: kreach.induct)
  case init
  then show ?case by (simp add: slice_ok_def past_first_def kinit_def)
next
  case (step s s')
  have nc: "k_main s \<noteq> K_Crash"
    using step.hyps(2) step.prems by (auto simp: k_running_def elim!: kstepE)
  note IH = step.IH [OF nc] and base = crash_stays [OF step.hyps(1) nc]
  from step.hyps(2) show ?case
  proof (rule kstepE)
    assume "kmain_step c s (k_main s) = Some s'"
    from slice_main [OF this refl step.prems p n _ step.hyps(1) IH] base show ?thesis by simp
  next
    fix pid assume "kworker_step c pid s (k_worker s pid) = Some s'"
    from slice_worker [OF this refl step.prems IH] show ?thesis .
  qed (use IH in \<open>auto simp: slice_ok_def past_first_def\<close>)
qed


section \<open>How a run goes on\<close>

lemma never_joined: "kreach c m s \<Longrightarrow> 0 < kc_threads c \<Longrightarrow>
    k_worker s p \<noteq> T_Exit \<and> k_main s \<noteq> K_End \<and> (\<forall>i. k_main s = K_Join i \<longrightarrow> i = 0)"
proof (induction arbitrary: p rule: kreach.induct)
  case init
  then show ?case by (simp add: kinit_def)
next
  case (step s s')
  note IH = step.IH [OF step.prems]
  have main: "k_main s \<noteq> K_End" "k_main s = K_Join i \<Longrightarrow> i = 0" for i using IH [of 0] by simp_all
  from step.hyps(2) show ?case
  proof (rule kstepE)
    assume "kmain_step c s (k_main s) = Some s'"
    then show ?thesis using IH [of p] IH [of 0] step.prems
      by (cases "k_main s") (auto simp: take_lock_Some split: if_splits)
  next
    fix pid assume "kworker_step c pid s (k_worker s pid) = Some s'"
    moreover have "k_main (wake_main s) = K_Join i \<Longrightarrow> i = 0" "k_main (wake_main s) \<noteq> K_End" for i
      using main by (auto simp: wake_main_main split: kpc.splits)
    ultimately show ?thesis using IH [of p] main
      by (cases "k_worker s pid") (auto simp: take_lock_Some worker_copy_def Let_def split: if_splits)
  qed (use IH in auto)
qed

text \<open>A run along a schedule: the main thread for \<open>None\<close>, a worker for \<open>Some pid\<close>.\<close>

fun kexec :: "kcfg \<Rightarrow> nat option list \<Rightarrow> kstate \<Rightarrow> kstate option" where
  "kexec c [] s = Some s"
| "kexec c (None # ts) s = Option.bind (kmain_step c s (k_main s)) (kexec c ts)"
| "kexec c (Some pid # ts) s =
     (if pid < kc_threads c \<and> k_running s then Option.bind (kworker_step c pid s (k_worker s pid)) (kexec c ts) else None)"

lemma kexec_reach: "kreach c m s \<Longrightarrow> kexec c ts s = Some s' \<Longrightarrow> kreach c m s'"
proof (induction c ts s rule: kexec.induct)
  case (2 c ts s)
  then show ?case by (auto simp: bind_eq_Some_conv intro: kreach.step kstep.main)
next
  case (3 c pid ts s)
  then have ok: "pid < kc_threads c" "k_running s" by (auto split: if_splits)
  then obtain y where y: "kworker_step c pid s (k_worker s pid) = Some y" "kexec c ts y = Some s'"
    using "3.prems"(2) by (auto simp: bind_eq_Some_conv)
  have "kreach c m y" using "3.prems"(1) kstep.worker [OF ok y(1)] by (rule kreach.step)
  then show ?case using "3.IH" ok y by simp
qed simp

lemma kexec_append: "kexec c (xs @ ys) s = Option.bind (kexec c xs s) (kexec c ys)"
  by (induction c xs s rule: kexec.induct) (auto split: bind_splits)

lemmas kexec_simps = kinit_def to_main_def to_worker_def drop_lock_def take_lock_def wake_workers_def wake_main_def
  k_running_def worker_copy_def Let_def one_mask

text \<open>The worker starts before the main thread has set \<open>size\<close>.\<close>

definition early :: "nat option list" where
  "early = [None, Some 0, Some 0, Some 0, Some 0, None, None, None, None, None, None, None, None]"

definition post_trace :: "nat option list" where
  "post_trace = [None, None, None, None, None, None, None, None, Some 0]"

definition batch_trace :: "nat option list" where
  "batch_trace = [Some 0, Some 0, Some 0, Some 0, Some 0, Some 0, Some 0, Some 0, Some 0, Some 0, None, None]"

lemma mmx2_memcpy_0: "mmx2_memcpy dst src 0 m = m"
  by (simp add: mmx2_memcpy_def MMX2_MEMCPY_MIN_LEN_def c_memcpy_def blit_def)

lemma c_memcpy_0: "c_memcpy dst src 0 m = m"
  by (auto simp: c_memcpy_def blit_def fun_eq_iff)

lemma stale_run:
  assumes "kc_threads c = 1" "KSTART \<le> kc_file c"
  shows "\<exists>s. kexec c (early @ batch_trace) (kinit m) = Some s \<and> k_main s = K_Unlock2 0 \<and> k_mem s = m"
proof -
  have "0 < kc_file c div KSTART" using assms(2) by (simp add: KSTART_def div_greater_zero_iff)
  moreover have "KSTART \<le> KEND" by (simp add: KSTART_def KEND_def)
  ultimately show ?thesis
    by (simp add: assms(1) early_def batch_trace_def kexec_simps mmx2_memcpy_0 c_memcpy_0)
qed


definition one_cfg :: kcfg where
  "one_cfg = \<lparr>kc_threads = 1, kc_file = 4194304, kc_read = False, kc_data = 8388608, kc_avail = 4194304, kc_buf = 0\<rparr>"

definition two_cfg :: kcfg where
  "two_cfg = \<lparr>kc_threads = 2, kc_file = 2048, kc_read = False, kc_data = 8388608, kc_avail = 4194304, kc_buf = 0\<rparr>"

lemma one_cfg_ok: "one_ok one_cfg"
  by (simp add: one_ok_def one_cfg_def KEND_def)

lemma size_facts: "KSTART \<le> KEND" "KSTART + KSTART \<le> KEND" "\<not> KEND < KSTART" "KSTART \<noteq> 0"
  by (simp_all add: KSTART_def KEND_def)

lemma two_batches:
  "\<exists>s. kexec one_cfg (early @ batch_trace @ post_trace @ batch_trace) (kinit m) = Some s
     \<and> k_main s = K_Unlock2 1 \<and> k_size s = KSTART \<and> k_data1 s = KSTART"
proof -
  have "1 < kc_file one_cfg div KSTART" by (simp add: KSTART_def one_cfg_def)
  moreover have "\<not> kc_avail one_cfg < KSTART + KSTART" by (simp add: KSTART_def one_cfg_def)
  moreover have "kc_threads one_cfg = 1" by (simp add: one_cfg_def)
  ultimately show ?thesis
    by (simp add: early_def batch_trace_def post_trace_def kexec_simps mmx2_memcpy_0 c_memcpy_0 size_facts)
qed

text \<open>
  A run with one thread that gets to the \<open>pthread_join\<close> calls: in every batch the main thread goes
  up to its second lock, then the worker does the batch, and the main thread goes on.
\<close>

definition standby :: "kcfg \<Rightarrow> nat \<Rightarrow> nat \<Rightarrow> kstate \<Rightarrow> bool" where
  "standby c z i s \<longleftrightarrow> k_main s = K_Batch i \<and> k_worker s 0 = T_Unit \<and> k_lock s = None \<and> k_offset s 0 = 0
     \<and> k_size s = z \<and> k_data1 s = i * z"

definition full_batch :: "nat option list" where
  "full_batch = replicate 6 None @ replicate 11 (Some 0) @ replicate 4 None"

lemma standby_batch:
  assumes "kc_threads c = 1" "standby c z i s" "i < kc_file c div z" "z \<le> KEND" "kc_file c \<le> kc_avail c"
  shows "\<exists>s'. kexec c full_batch s = Some s' \<and> standby c z (Suc i) s'"
proof -
  have "Suc i * z \<le> kc_file c"
    using assms(3) by (metis Suc_leI div_times_less_eq_dividend le_trans mult_le_mono1)
  then have "\<not> kc_avail c < i * z + z" "\<not> KEND < z" using assms(4,5) by simp_all
  with assms(1-3) show ?thesis
    by (simp add: standby_def full_batch_def kexec_simps numeral_eq_Suc)
qed

lemma standby_size:
  assumes c: "kc_threads c = 1" "z \<le> KEND" "kc_file c \<le> kc_avail c"
  shows "kreach c m s \<Longrightarrow> standby c z i s \<Longrightarrow> i \<le> kc_file c div z \<Longrightarrow>
    \<exists>s'. kreach c m s' \<and> standby c z (kc_file c div z) s'"
proof (induction "kc_file c div z - i" arbitrary: i s)
  case (Suc n)
  then have lt: "i < kc_file c div z" by linarith
  from standby_batch [OF c(1) Suc.prems(2) lt c(2,3)] obtain s' where
    s': "kexec c full_batch s = Some s'" "standby c z (Suc i) s'" by blast
  show ?case
    by (rule Suc.hyps(1) [OF _ kexec_reach [OF Suc.prems(1) s'(1)] s'(2)]) (use Suc.hyps(2) lt in linarith)+
qed auto

lemma standby_join:
  assumes c: "kc_threads c = 1" "KEND \<le> kc_file c" "kc_file c \<le> kc_avail c"
  shows "kreach c m s \<Longrightarrow> standby c (KEND div 2 ^ n) 0 s \<Longrightarrow> n \<le> 11 \<Longrightarrow>
    \<exists>s'. kreach c m s' \<and> k_main s' = K_Join 0"
proof (induction n arbitrary: s)
  case 0
  obtain u where u: "kreach c m u" "standby c KEND (kc_file c div KEND) u"
    using standby_size [OF c(1) _ c(3) 0(1), of KEND 0] 0(2) by auto
  have "kc_file c div KEND \<noteq> 0" using c(2) by (simp add: div_eq_0_iff KEND_def)
  then have "\<exists>s'. kexec c [None, None, None] u = Some s' \<and> k_main s' = K_Join 0"
    using u(2) by (simp add: standby_def kexec_simps KEND_def)
  then show ?case using kexec_reach [OF u(1)] by blast
next
  case (Suc n)
  let ?z = "KEND div 2 ^ Suc n"
  have pow: "KEND div 2 ^ k = 2 ^ (22 - k)" if "k \<le> 22" for k
    using power_diff [of "2 :: nat" k 22] that by (simp add: KEND_def)
  have "22 - n = Suc (22 - Suc n)" using Suc.prems(3) by simp
  then have twice: "?z * 2 = KEND div 2 ^ n" using pow [of n] pow [of "Suc n"] Suc.prems(3) by simp
  have le: "?z \<le> KEND" "KEND div 2 ^ n \<le> KEND" by (rule div_le_dividend)+
  have pos: "0 < ?z" using pow [of "Suc n"] Suc.prems(3) by simp
  obtain u where u: "kreach c m u" "standby c ?z (kc_file c div ?z) u"
    using standby_size [OF c(1) le(1) c(3) Suc.prems(1,2)] by auto
  have "kc_file c div ?z \<noteq> 0" using div_le_mono [OF le_trans [OF le(1) c(2)], of ?z] pos by simp
  then have "\<exists>s'. kexec c [None, None, None] u = Some s' \<and> standby c (KEND div 2 ^ n) 0 s'"
    using u(2) le(2) twice by (simp add: standby_def kexec_simps)
  then obtain s' where s': "kexec c [None, None, None] u = Some s'" "standby c (KEND div 2 ^ n) 0 s'" by blast
  show ?case by (rule Suc.IH [OF kexec_reach [OF u(1) s'(1)] s'(2)]) (use Suc.prems(3) in simp)
qed

lemma main_gets_to_join: "\<exists>s. kreach one_cfg m s \<and> k_main s = K_Join 0"
proof -
  have c: "kc_threads one_cfg = 1" "KEND \<le> kc_file one_cfg" "kc_file one_cfg \<le> kc_avail one_cfg"
    by (simp_all add: one_cfg_def KEND_def)
  have "\<exists>s. kexec one_cfg [None, None, None, Some 0] (kinit m) = Some s \<and> standby one_cfg KSTART 0 s"
    by (simp add: c(1) standby_def kexec_simps size_facts)
  moreover have "KSTART = KEND div 2 ^ 11" by (simp add: KSTART_def KEND_def)
  ultimately show ?thesis using standby_join [OF c _ _ order_refl] kexec_reach [OF kreach.init] by metis
qed

text \<open>Both threads do the one batch of the first size.\<close>

definition both_trace :: "nat option list" where
  "both_trace = [None, None, None, None, None, None, None, None, None, None,
     Some 0, Some 0, Some 0, Some 0, Some 0, Some 0, Some 0, Some 0, Some 0, Some 0, Some 0, Some 0,
     Some 1, Some 1, Some 1, Some 1, Some 1, Some 1, Some 1, Some 1, Some 1, Some 1, Some 1, Some 1,
     None, None, None, None, None, None]"

lemma two_masks: "full_mask 2 = 3" "push_bit 0 (1 :: 32 word) = 1" "push_bit (Suc 0) (1 :: 32 word) = 2"
  "(3 :: 32 word) AND NOT 1 = 2" "(2 :: 32 word) AND NOT 2 = 0" "(1 :: 32 word) OR 2 = 3"
  by (simp_all add: full_mask_def push_bit_eq_mult)

lemma two_thread_run:
  "\<exists>s. kexec two_cfg both_trace (kinit m) = Some s \<and> k_main s = K_Top \<and> k_size s = KSTART * 2"
proof -
  have "kc_file two_cfg div KSTART = 1" by (simp add: KSTART_def two_cfg_def)
  moreover have "kc_threads two_cfg = 2" by (simp add: two_cfg_def)
  moreover have "\<not> kc_avail two_cfg < KSTART div 2" "\<not> kc_avail two_cfg < KSTART div 2 + KSTART div 2"
    "\<not> KEND < KSTART div 2" "\<not> KEND < KSTART div 2 + KSTART div 2" by (simp_all add: KSTART_def KEND_def two_cfg_def)
  ultimately show ?thesis
    by (simp add: both_trace_def kexec_simps two_masks size_facts)
qed


section \<open>Properties\<close>

text \<open>
  C13: The mutex protects what it should in every interleaving, spurious wake-ups included: in every
  reachable state at most one thread is between a lock and its unlock, the main thread included,
  and the mutex names that thread.
\<close>

theorem mutex_exclusion:
  assumes "kreach c m s" "k_main s \<noteq> K_Crash"
  shows "(main_holds (k_main s) \<longleftrightarrow> k_lock s = Some Main_Thread)
    \<and> (\<forall>p. worker_holds (k_worker s p) \<longleftrightarrow> k_lock s = Some (Worker p))"
  using crash_stays [OF assms] by (simp add: lock_inv_def)

theorem mutex_exclusion_witness:
  "\<exists>s. kexec one_cfg (early @ batch_trace @ post_trace @ batch_trace) (kinit (\<lambda>_. 0)) = Some s
     \<and> k_lock s = Some Main_Thread \<and> \<not> worker_holds (k_worker s 0)"
proof -
  obtain s where s: "kexec one_cfg (early @ batch_trace @ post_trace @ batch_trace) (kinit (\<lambda>_. 0)) = Some s"
    "k_main s = K_Unlock2 1" using two_batches by blast
  from mutex_exclusion [OF kexec_reach [OF kreach.init s(1)]] s show ?thesis
    by (auto simp: main_holds_def)
qed

text \<open>
  C12: A write run with one thread: whenever the main thread has seen batch \<open>i\<close> reported, for every
  \<open>i\<close> but the first of a size, the whole block of the buffer is in the mapping at the place of
  the batch, under every interleaving, and the buffer is as it was.
\<close>

theorem one_thread_batches:
  assumes "kreach c m s" "kc_threads c = 1" "\<not> kc_read c" "kc_data c mod 8 = 0"
    and "kc_data c + kc_avail c \<le> kc_buf c \<or> kc_buf c + KEND \<le> kc_data c"
    and "k_main s = K_Unlock2 i \<or> k_main s = K_Advance i" "0 < i"
  shows "(\<forall>j < k_size s. k_mem s (kc_data c + k_data1 s + j) = m (kc_buf c + j))
    \<and> (\<forall>j < KEND. k_mem s (kc_buf c + j) = m (kc_buf c + j))"
proof -
  have nc: "k_main s \<noteq> K_Crash" using assms(6) by auto
  have inv: "phase_inv s" "copy_inv c m s"
    using one_thread_inv [OF _ assms(1) nc] assms(2-5) by (simp_all add: one_ok_def)
  have "k_finished s = 1" using inv(1) assms(6) by (auto simp: phase_inv_def phase_ok_def split: if_splits)
  with inv(2) assms(6,7) show ?thesis by (auto simp: copy_inv_def batch_done_def)
qed

theorem one_thread_batches_witness:
  "\<exists>s. kexec one_cfg (early @ batch_trace @ post_trace @ batch_trace) (kinit (\<lambda>a. of_nat a)) = Some s
     \<and> k_mem s (8388608 + 2048 + 5) = 5"
proof -
  obtain s where s: "kexec one_cfg (early @ batch_trace @ post_trace @ batch_trace) (kinit (\<lambda>a. of_nat a)) = Some s"
    "k_main s = K_Unlock2 1" "k_size s = KSTART" "k_data1 s = KSTART" using two_batches by blast
  from one_thread_batches [OF kexec_reach [OF kreach.init s(1)], of 1] s
  have "\<forall>j < 2048. k_mem s (8388608 + 2048 + j) = of_nat j" by (simp add: one_cfg_def KSTART_def KEND_def)
  then have "k_mem s (8388608 + 2048 + 5) = of_nat 5" by (rule allE [of _ 5]) simp
  with s(1) show ?thesis by simp
qed

text \<open>
  C20: The first batch is not covered: if the worker reads \<open>size\<close> before the main thread has set it,
  it copies nothing, and the main thread counts the batch as transferred.  This happens for every
  file of 2 KB and more.
\<close>

theorem first_batch_stale:
  assumes "kc_threads c = 1" "KSTART \<le> kc_file c"
  shows "\<exists>s. kreach c m s \<and> k_main s = K_Unlock2 0 \<and> k_mem s = m"
  using stale_run [OF assms] kexec_reach [OF kreach.init] by blast

theorem first_batch_stale_witness:
  "\<exists>s. kreach one_cfg (\<lambda>_. 7) s \<and> k_main s = K_Unlock2 0 \<and> k_mem s = (\<lambda>_. 7)"
  by (rule first_batch_stale) (simp_all add: one_cfg_def KSTART_def)

text \<open>
  C17: With two threads and more, the last bytes of a block are in no thread's slice once the size
  has doubled: the offset of a thread is computed once, from the first size, while its length
  follows the current one.
\<close>

theorem slices_fall_short:
  assumes "kreach c m s" "k_main s \<noteq> K_Crash" "1 < kc_threads c" "kc_threads c \<le> 16"
    and "pid < kc_threads c" "KSTART < k_size s"
  shows "k_offset s pid + k_unit s pid < k_size s"
proof -
  let ?n = "kc_threads c"
  let ?k = "KSTART div ?n" and ?z = "k_size s div ?n"
  have ok: "k_offset s pid \<le> ?k * pid" "k_unit s pid \<le> ?z"
    using slice_reach [OF assms(4,5,1,2)] by (simp_all add: slice_ok_def)
  obtain n where n: "?n = Suc n" "0 < n" using assms(3) by (cases ?n) auto
  have "?k * pid \<le> ?k * n" using assms(5) n by simp
  moreover have "?k * n + ?z < k_size s"
  proof (cases "?z = ?k")
    case True
    have "?k * n + ?k = KSTART div ?n * ?n" by (simp add: n)
    also have "\<dots> \<le> KSTART" by (rule div_times_less_eq_dividend)
    finally show ?thesis using True assms(6) by simp
  next
    case False
    then have "?k < ?z" using div_le_mono [of KSTART "k_size s" ?n] assms(6) by simp
    then have "?k * n < ?z * n" using n(2) by simp
    then have "?k * n + ?z < ?z * ?n" by (simp add: n)
    also have "\<dots> \<le> k_size s" by (rule div_times_less_eq_dividend)
    finally show ?thesis .
  qed
  ultimately show ?thesis using ok by linarith
qed

theorem slices_fall_short_witness:
  "\<exists>s. kexec two_cfg both_trace (kinit (\<lambda>_. 0)) = Some s \<and> k_offset s 1 + k_unit s 1 < 4096"
proof -
  obtain s where s: "kexec two_cfg both_trace (kinit (\<lambda>_. 0)) = Some s" "k_main s = K_Top" "k_size s = KSTART * 2"
    using two_thread_run by blast
  from slices_fall_short [OF kexec_reach [OF kreach.init s(1)], of 1] s show ?thesis
    by (simp add: two_cfg_def KSTART_def)
qed

text \<open>
  C21: \<open>main\<close> never returns: no worker ever leaves its loop, so in every interleaving the main
  thread, once it has come to the \<open>pthread_join\<close> calls, stays at the first of them.
\<close>

theorem main_never_returns:
  assumes "kreach c m s" "0 < kc_threads c"
  shows "(\<forall>p. k_worker s p \<noteq> T_Exit) \<and> k_main s \<noteq> K_End \<and> (\<forall>i. k_main s = K_Join i \<longrightarrow> i = 0)
    \<and> (k_main s = K_Join 0 \<longrightarrow> kmain_step c s (k_main s) = None)"
  using never_joined [OF assms] assms(2) by auto

theorem main_never_returns_witness:
  "\<exists>s. kreach one_cfg (\<lambda>_. 0) s \<and> k_main s = K_Join 0 \<and> k_worker s 0 \<noteq> T_Exit
     \<and> kmain_step one_cfg s (K_Join 0) = None"
proof -
  obtain s where s: "kreach one_cfg (\<lambda>_. 0) s" "k_main s = K_Join 0"
    using main_gets_to_join by blast
  from main_never_returns [OF s(1)] s show ?thesis by (auto simp: one_cfg_def)
qed

end
