(* ===== verification/Noposix.thy ===== *)
theory Noposix
  imports Prelude "HOL-Library.AList"
begin

text \<open>
  \<open>lib/fileops_noposix.c\<close>, the library that replaces \<open>read\<close> and its kin by accesses to memory
  mappings.  Each open file keeps a radix tree of 1024-entry nodes that maps the number of a
  2 MB chunk of the file to the address where the chunk is mapped; the tree grows in height when
  an offset beyond its capacity is mapped.  This theory holds the state and the operations, in
  the order of the source (the branch that is compiled, \<open>#if 0 ... #else\<close>).

  The nodes live in a heap, an association list from addresses to arrays; address 0 is the
  null pointer.  \<open>malloc\<close> and the kernel's \<open>mmap\<close> are the parameters \<open>e_malloc\<close> and \<open>e_mmap\<close>
  of the environment: an address for the list of addresses in use, and an address for the
  descriptor, the protection, the offset and the number of earlier \<open>mmap\<close> calls.  What \<open>open\<close>
  and \<open>stat\<close> return are arguments of \<open>open1\<close>.  Messages are not modelled.  The fields \<open>fd\<close> and
  \<open>data\<close> of the struct are never used by the compiled code and are left out.
\<close>

section \<open>State\<close>

record nvfile =
  valid :: int
  canRead :: int
  canWrite :: int
  offset :: int        \<comment> \<open>\<open>size_t\<close>\<close>
  length_of :: int     \<comment> \<open>\<open>size_t\<close>\<close>
  maplength :: int     \<comment> \<open>\<open>size_t\<close>\<close>
  root :: nat          \<comment> \<open>pointer\<close>
  height :: nat

type_synonym node = "nat \<Rightarrow> nat"
type_synonym heap = "(nat \<times> node) list"

record lib =
  fd_lookup :: "nat \<Rightarrow> nvfile"
  hit_count :: nat
  mmap_count :: nat
  nodes :: heap

record env =
  e_malloc :: "nat list \<Rightarrow> nat"
  e_mmap :: "int \<Rightarrow> int \<Rightarrow> int \<Rightarrow> nat \<Rightarrow> nat"

type_synonym 'a lprog = "(lib, 'a) prog"

definition MAX_MMAP_SIZE :: int where
  "MAX_MMAP_SIZE = 2097152"

definition ALIGN_MMAP_DOWN :: "int \<Rightarrow> int" where
  "ALIGN_MMAP_DOWN addr = addr AND NOT (MAX_MMAP_SIZE - 1)"

definition OPEN_MAX :: int where
  "OPEN_MAX = 1024"

definition MAP_FAILED :: nat where
  "MAP_FAILED = 18446744073709551615"

definition get_nvf :: "int \<Rightarrow> nvfile lprog" where
  "get_nvf fd = (if 0 \<le> fd \<and> fd < OPEN_MAX then query (\<lambda>w. fd_lookup w (nat fd)) else trap Out_Of_Bounds)"

definition set_nvf :: "int \<Rightarrow> (nvfile \<Rightarrow> nvfile) \<Rightarrow> unit lprog" where
  "set_nvf fd f = update (\<lambda>w. w\<lparr>fd_lookup := (fd_lookup w)(nat fd := f (fd_lookup w (nat fd)))\<rparr>)"

section \<open>Nodes in the heap\<close>

definition node_get :: "nat \<Rightarrow> int \<Rightarrow> nat lprog" where
  "node_get p i = (\<lambda>w.
     if p = 0 then (Inl (Trap Null_Deref), w)
     else case map_of (nodes w) p of
       None \<Rightarrow> (Inl (Trap Seg_Fault), w)
     | Some a \<Rightarrow> if 0 \<le> i \<and> i < 1024 then (Inr (a (nat i)), w) else (Inl (Trap Out_Of_Bounds), w))"

definition node_set :: "nat \<Rightarrow> int \<Rightarrow> nat \<Rightarrow> unit lprog" where
  "node_set p i v = (\<lambda>w.
     if p = 0 then (Inl (Trap Null_Deref), w)
     else case map_of (nodes w) p of
       None \<Rightarrow> (Inl (Trap Seg_Fault), w)
     | Some a \<Rightarrow>
         if 0 \<le> i \<and> i < 1024
         then (Inr (), w\<lparr>nodes := AList.update p (a(nat i := v)) (nodes w)\<rparr>)
         else (Inl (Trap Out_Of_Bounds), w))"

text \<open>
  \<open>malloc(1024 * sizeof(unsigned long))\<close> followed by the loop that clears the entries, which
  crashes if \<open>malloc\<close> returned the null pointer.
\<close>

definition new_node :: "env \<Rightarrow> nat lprog" where
  "new_node e = (\<lambda>w.
     let p = e_malloc e (map fst (nodes w)) in
     if p = 0 then (Inl (Trap Null_Deref), w)
     else (Inr p, w\<lparr>nodes := AList.update p (\<lambda>_. 0) (nodes w)\<rparr>))"

definition clear_node :: "nat \<Rightarrow> unit lprog" where
  "clear_node p = (\<lambda>w.
     if p = 0 then (Inl (Trap Null_Deref), w)
     else case map_of (nodes w) p of
       None \<Rightarrow> (Inl (Trap Seg_Fault), w)
     | Some a \<Rightarrow> (Inr (), w\<lparr>nodes := AList.update p (\<lambda>_. 0) (nodes w)\<rparr>))"

definition free_node :: "nat \<Rightarrow> unit lprog" where
  "free_node p = update (\<lambda>w. w\<lparr>nodes := AList.delete p (nodes w)\<rparr>)"

section \<open>Freeing and initialising the tree of a file\<close>

primrec free_btree :: "nat \<Rightarrow> nat \<Rightarrow> unit lprog" where
  "free_btree 0 p = ret ()"
| "free_btree (Suc h) p =
     bindP (for_int 1024 0 (\<lambda>i _.
              bindP (node_get p i) (\<lambda>v.
                if v \<noteq> 0 then bindP (free_btree h v) (\<lambda>_. node_set p i 0) else ret ())) ())
       (\<lambda>_. free_node p)"

definition free_file :: "int \<Rightarrow> unit lprog" where
  "free_file fd =
     bindP (get_nvf fd) (\<lambda>nvf.
     let h = height nvf; rt = root nvf in
     bindP (free_btree h rt) (\<lambda>_.
     bindP (set_nvf fd (height_update (\<lambda>_. 0))) (\<lambda>_.
     bindP (whenP (rt \<noteq> 0 \<and> h = 0) (free_node rt)) (\<lambda>_.
     set_nvf fd (root_update (\<lambda>_. 0))))))"

definition init_file :: "env \<Rightarrow> int \<Rightarrow> unit lprog" where
  "init_file e fd =
     bindP (get_nvf fd) (\<lambda>nvf.
     if root nvf = 0
     then bindP (new_node e) (\<lambda>p. set_nvf fd (root_update (\<lambda>_. p)))
     else clear_node (root nvf))"

section \<open>The geometry of the tree\<close>

fun capacity_loop :: "nat \<Rightarrow> int \<Rightarrow> int" where
  "capacity_loop 0 capacity = capacity"
| "capacity_loop (Suc h) capacity = capacity_loop h (u64 (capacity * 1024))"

definition calculate_capacity :: "nat \<Rightarrow> int" where
  "calculate_capacity h = capacity_loop h MAX_MMAP_SIZE"

lemma sdiv_1024_less: "t \<noteq> 0 \<Longrightarrow> \<bar>t sdiv 1024\<bar> < \<bar>t :: int\<bar>"
proof -
  assume t: "t \<noteq> 0"
  have "\<bar>t sdiv 1024\<bar> = \<bar>t\<bar> div 1024"
    by (cases "0 \<le> t") (auto simp: signed_divide_int_def sgn_if)
  then show ?thesis using t by simp
qed

function new_height_loop :: "int \<Rightarrow> nat \<Rightarrow> nat" where
  "new_height_loop t h = (if t = 0 then h else new_height_loop (t sdiv 1024) (Suc h))"
  by pat_completeness auto
termination
  by (relation "measure (\<lambda>(t, h). nat \<bar>t\<bar>)") (auto intro: sdiv_1024_less)

declare new_height_loop.simps [simp del]

definition calculate_new_height :: "int \<Rightarrow> nat" where
  "calculate_new_height off = new_height_loop (s64 (u64 off div (1024 * MAX_MMAP_SIZE))) 0"

text \<open>
  \<open>index = start_offset / capacity\<close>, an \<open>int\<close> that keeps the low 32 bits of an
  \<open>unsigned long\<close> quotient, and \<open>start_offset = start_offset % capacity\<close>.
\<close>

definition tree_index :: "nat \<Rightarrow> int \<Rightarrow> trap + int" where
  "tree_index h so =
     (let capacity = calculate_capacity h in
      if capacity = 0 then Inl Div_By_Zero else Inr (s32 (u64 so div capacity)))"

definition tree_rest :: "nat \<Rightarrow> int \<Rightarrow> int" where
  "tree_rest h so = s64 (u64 so mod calculate_capacity h)"

section \<open>Looking a chunk up and mapping it\<close>

text \<open>The first \<open>do\<close> loop: the address of the chunk, or nothing (\<open>goto not_found\<close>).\<close>

fun lookup_loop :: "nat \<Rightarrow> nat \<Rightarrow> int \<Rightarrow> nat option lprog" where
  "lookup_loop h p so =
     bindP (try_res (tree_index h so)) (\<lambda>index.
     if index \<ge> 1024 then ret None
     else bindP (node_get p index) (\<lambda>v.
     if v = 0 then ret None
     else case h of 0 \<Rightarrow> ret (Some v)
          | Suc h' \<Rightarrow> lookup_loop h' v (tree_rest h so)))"

declare lookup_loop.simps [simp del]

text \<open>The loop that raises the tree: \<open>n\<close> more levels.\<close>

fun grow_loop :: "env \<Rightarrow> int \<Rightarrow> nat \<Rightarrow> unit lprog" where
  "grow_loop e fd 0 = ret ()"
| "grow_loop e fd (Suc n) =
     bindP (get_nvf fd) (\<lambda>nvf.
     let old_root = root nvf in
     bindP (new_node e) (\<lambda>p.
     bindP (set_nvf fd (root_update (\<lambda>_. p))) (\<lambda>_.
     bindP (node_set p 0 old_root) (\<lambda>_.
     grow_loop e fd n))))"

text \<open>The second \<open>do\<close> loop: the nodes on the way are created, the leaf entry is set.\<close>

fun insert_loop :: "env \<Rightarrow> nat \<Rightarrow> nat \<Rightarrow> int \<Rightarrow> nat \<Rightarrow> unit lprog" where
  "insert_loop e 0 p so start_addr =
     bindP (try_res (tree_index 0 so)) (\<lambda>index. node_set p index start_addr)"
| "insert_loop e (Suc h) p so start_addr =
     bindP (try_res (tree_index (Suc h) so)) (\<lambda>index.
     bindP (node_get p index) (\<lambda>v.
     if v = 0
     then bindP (new_node e) (\<lambda>q.
          bindP (node_set p index q) (\<lambda>_.
          insert_loop e h q (tree_rest (Suc h) so) start_addr))
     else insert_loop e h v (tree_rest (Suc h) so) start_addr))"

text \<open>From \<open>not_found\<close> to \<open>done\<close>: the address of the new mapping.\<close>

definition map_chunk :: "env \<Rightarrow> int \<Rightarrow> int \<Rightarrow> int \<Rightarrow> nat lprog" where
  "map_chunk e fd off max_perms =
     (let start_offset = ALIGN_MMAP_DOWN off in
      bindP (query mmap_count) (\<lambda>k.
      let start_addr = e_mmap e fd max_perms start_offset k in
      bindP (update (mmap_count_update Suc)) (\<lambda>_.
      if start_addr = MAP_FAILED then trap Assert_Failed
      else
      bindP (get_nvf fd) (\<lambda>nvf.
      let h = height nvf; new_height = calculate_new_height off in
      bindP (whenP (h < new_height)
               (bindP (grow_loop e fd (new_height - h)) (\<lambda>_.
                set_nvf fd (height_update (\<lambda>_. new_height))))) (\<lambda>_.
      bindP (get_nvf fd) (\<lambda>nvf.
      bindP (insert_loop e (height nvf) (root nvf) start_offset start_addr) (\<lambda>_.
      ret start_addr)))))))"

text \<open>The result is the pointer stored in \<open>*buf\<close> and the number of bytes usable there.\<close>

definition get_mmap_address :: "env \<Rightarrow> int \<Rightarrow> int \<Rightarrow> int \<Rightarrow> int \<Rightarrow> (nat \<times> int) lprog" where
  "get_mmap_address e fd off len max_perms =
     bindP (get_nvf fd) (\<lambda>nvf.
     bindP (lookup_loop (height nvf) (root nvf) off) (\<lambda>found.
     bindP (case found of
              Some a \<Rightarrow> bindP (update (hit_count_update Suc)) (\<lambda>_. ret a)
            | None \<Rightarrow> map_chunk e fd off max_perms) (\<lambda>start_addr.
     let inner = off smod MAX_MMAP_SIZE;
         result = u64 (MAX_MMAP_SIZE - inner) in
     ret (nat (int start_addr + inner), if result > len then len else result))))"

section \<open>The file operations\<close>

definition PROT_READ :: int where "PROT_READ = 1"
definition PROT_WRITE :: int where "PROT_WRITE = 2"

definition max_perms_of :: "nvfile \<Rightarrow> int" where
  "max_perms_of nvf =
     (if canRead nvf \<noteq> 0 \<and> canWrite nvf \<noteq> 0 then PROT_READ OR PROT_WRITE
      else if canWrite nvf \<noteq> 0 then PROT_WRITE
      else if canRead nvf \<noteq> 0 then PROT_READ
      else 0)"

text \<open>The pointer is \<open>None\<close> where the code leaves \<open>*buf\<close> as it was.\<close>

definition do_pread :: "env \<Rightarrow> int \<Rightarrow> int \<Rightarrow> int \<Rightarrow> (int \<times> nat option) lprog" where
  "do_pread e fd sz off =
     bindP (get_nvf fd) (\<lambda>nvf.
     if u64 off \<ge> length_of nvf then ret (0, None)
     else
       let max_perms = max_perms_of nvf;
           len = s64 (if length_of nvf \<ge> u64 (u64 off + sz) then sz
                      else u64 (length_of nvf - u64 off)) in
       if len \<le> 0 then ret (0, None)
       else bindP (get_mmap_address e fd off (u64 len) max_perms) (\<lambda>(buf, result).
            ret (s64 result, Some buf)))"

definition read1 :: "env \<Rightarrow> int \<Rightarrow> int \<Rightarrow> (int \<times> nat option) lprog" where
  "read1 e fd sz =
     bindP (get_nvf fd) (\<lambda>nvf.
     bindP (do_pread e fd sz (s64 (offset nvf))) (\<lambda>(len, buf).
     bindP (set_nvf fd (offset_update (\<lambda>x. u64 (x + len)))) (\<lambda>_.
     ret (len, buf))))"

definition write1 :: "int \<Rightarrow> int \<Rightarrow> int lprog" where
  "write1 fd sz = ret (s64 sz)"

definition pread1 :: "env \<Rightarrow> int \<Rightarrow> int \<Rightarrow> int \<Rightarrow> (int \<times> nat option) lprog" where
  "pread1 e fd sz off = do_pread e fd sz off"

definition pwrite1 :: "int \<Rightarrow> int \<Rightarrow> int \<Rightarrow> int lprog" where
  "pwrite1 fd sz off = ret (s64 sz)"

definition SEEK_SET :: int where "SEEK_SET = 0"
definition SEEK_CUR :: int where "SEEK_CUR = 1"
definition SEEK_END :: int where "SEEK_END = 2"

definition lseek1 :: "int \<Rightarrow> int \<Rightarrow> int \<Rightarrow> int lprog" where
  "lseek1 fd off whence =
     bindP (get_nvf fd) (\<lambda>nvf.
     bindP (if whence = SEEK_SET then set_nvf fd (offset_update (\<lambda>_. u64 off))
            else if whence = SEEK_CUR then set_nvf fd (offset_update (\<lambda>x. u64 (x + off)))
            else if whence = SEEK_END then set_nvf fd (offset_update (\<lambda>_. u64 (length_of nvf + off)))
            else ret ()) (\<lambda>_.
     bindP (get_nvf fd) (\<lambda>nvf. ret (s64 (offset nvf)))))"

definition F_WRONLY :: int where "F_WRONLY = 1"
definition F_RDWR :: int where "F_RDWR = 2"
definition F_RDONLY :: int where "F_RDONLY = 0"

text \<open>\<open>fd\<close> and \<open>st_size\<close> are what \<open>open\<close> and \<open>stat\<close> returned.\<close>

definition open1 :: "env \<Rightarrow> int \<Rightarrow> int \<Rightarrow> int \<Rightarrow> int lprog" where
  "open1 e fd st_size oflag =
     bindP (get_nvf fd) (\<lambda>_.
     bindP (set_nvf fd (\<lambda>nvf. nvf\<lparr>length_of := u64 st_size, maplength := 0, valid := 1,
              offset := 0, canRead := 0, canWrite := 0\<rparr>)) (\<lambda>_.
     bindP (if oflag AND F_RDWR \<noteq> 0 then set_nvf fd (\<lambda>nvf. nvf\<lparr>canRead := 1, canWrite := 1\<rparr>)
            else if oflag AND F_WRONLY \<noteq> 0 then set_nvf fd (\<lambda>nvf. nvf\<lparr>canWrite := 1\<rparr>)
            else if oflag AND F_RDONLY \<noteq> 0 then set_nvf fd (\<lambda>nvf. nvf\<lparr>canRead := 1\<rparr>)
            else ret ()) (\<lambda>_.
     bindP (init_file e fd) (\<lambda>_. ret fd))))"

definition close1 :: "int \<Rightarrow> int lprog" where
  "close1 fd =
     bindP (get_nvf fd) (\<lambda>_.
     bindP (set_nvf fd (valid_update (\<lambda>_. 0))) (\<lambda>_.
     bindP (free_file fd) (\<lambda>_. ret 0)))"

text \<open>The constructor of the library: \<open>calloc\<close> clears the table of files.\<close>

definition init_lib :: lib where
  "init_lib = \<lparr>fd_lookup = (\<lambda>_. \<lparr>valid = 0, canRead = 0, canWrite = 0, offset = 0, length_of = 0,
       maplength = 0, root = 0, height = 0\<rparr>),
     hit_count = 0, mmap_count = 0, nodes = []\<rparr>"

end
