(* ===== verification/Noposix_Tree.thy ===== *)
theory Noposix_Tree
  imports Noposix
begin

text \<open>
  The radix tree of \<open>lib/fileops_noposix.c\<close> as a data structure: the arithmetic of capacities,
  indices and heights, the well-formedness of a tree in the heap (no node is shared, no pointer
  dangles), what a tree maps each chunk number to, and the effect of the lookup, growth and
  insertion loops on that map.
\<close>

section \<open>Geometry\<close>

text \<open>The number of the 2 MB chunk that holds an offset.\<close>

definition chunk :: "int \<Rightarrow> nat" where
  "chunk off = nat (off div MAX_MMAP_SIZE)"

lemma capacity_loop_eq:
  "0 \<le> c \<Longrightarrow> c * 1024 ^ h < 2 ^ 64 \<Longrightarrow> capacity_loop h c = c * 1024 ^ h"
proof (induction h arbitrary: c)
  case 0
  then show ?case by simp
next
  case (Suc h)
  have "c * 1024 * 1 \<le> c * 1024 * 1024 ^ h"
    using Suc.prems(1) by (intro mult_left_mono) simp_all
  then have "c * 1024 < 2 ^ 64" using Suc.prems(2) by (simp add: ac_simps)
  then have "u64 (c * 1024) = c * 1024" using Suc.prems(1) by (simp add: u64_id)
  then show ?case using Suc.IH [of "c * 1024"] Suc.prems by (simp add: ac_simps)
qed

lemma pow_1024_le: "h \<le> 4 \<Longrightarrow> (1024 :: int) ^ h \<le> 1024 ^ 4"
  by (intro power_increasing) simp_all

lemma calculate_capacity_eq: "h \<le> 4 \<Longrightarrow> calculate_capacity h = 2097152 * 1024 ^ h"
  using pow_1024_le [of h] unfolding calculate_capacity_def MAX_MMAP_SIZE_def
  by (intro capacity_loop_eq) simp_all

lemma div_capacity:
  "0 \<le> off \<Longrightarrow> off div (2097152 * 1024 ^ h) = int (chunk off div 1024 ^ h)"
  by (simp add: chunk_def MAX_MMAP_SIZE_def zdiv_int div_mult2_eq zdiv_zmult2_eq
      pos_imp_zdiv_nonneg_iff)

lemma tree_index_eq:
  assumes "h \<le> 4" "0 \<le> off" "off < 2 ^ 63"
  shows "tree_index h off = Inr (s32 (int (chunk off div 1024 ^ h)))"
  using assms by (simp add: tree_index_def calculate_capacity_eq u64_id div_capacity)

lemma tree_rest_eq:
  assumes "h \<le> 4" "0 \<le> off" "off < 2 ^ 63"
  shows "0 \<le> tree_rest h off" "tree_rest h off < 2 ^ 63"
    and "chunk (tree_rest h off) = chunk off mod 1024 ^ h"
proof -
  let ?m = "off mod (2097152 * 1024 ^ h)"
  have m: "0 \<le> ?m" "?m \<le> off" using assms(2) by (simp_all add: zmod_le_nonneg_dividend)
  then have "s64 ?m = ?m" using assms m by (intro s64_id) linarith+
  then have eq: "tree_rest h off = ?m"
    using assms by (simp add: tree_rest_def calculate_capacity_eq u64_id)
  show "0 \<le> tree_rest h off" "tree_rest h off < 2 ^ 63" using m eq assms by simp_all
  have "?m = 2097152 * (off div 2097152 mod 1024 ^ h) + off mod 2097152"
    by (rule zmod_zmult2_eq) simp
  moreover have "off mod 2097152 div 2097152 = 0" by (intro div_pos_pos_trivial) simp_all
  ultimately have "?m div 2097152 = off div 2097152 mod 1024 ^ h"
    by simp
  then show "chunk (tree_rest h off) = chunk off mod 1024 ^ h"
    using assms(2) by (simp add: eq chunk_def MAX_MMAP_SIZE_def nat_mod_distrib
        pos_imp_zdiv_nonneg_iff nat_power_eq)
qed

lemma chunk_bound: "0 \<le> off \<Longrightarrow> off < 2 ^ 63 \<Longrightarrow> chunk off < 2 ^ 42"
  by (simp add: chunk_def MAX_MMAP_SIZE_def)

text \<open>The height computed for an offset: the least one whose tree covers the chunk.\<close>

lemma new_height_loop_spec:
  "0 \<le> t \<Longrightarrow> \<exists>k. new_height_loop t h = h + k \<and> t < 1024 ^ k \<and> (k = 0 \<or> 1024 ^ (k - 1) \<le> t)"
proof (induction t h rule: new_height_loop.induct)
  case (1 t h)
  show ?case
  proof (cases "t = 0")
    case True
    then show ?thesis by (subst new_height_loop.simps) (auto intro!: exI [of _ 0])
  next
    case False
    have sd: "t sdiv 1024 = t div 1024" using "1.prems" False by (simp add: signed_divide_int_def)
    obtain k where k: "new_height_loop (t div 1024) (Suc h) = Suc h + k" "t div 1024 < 1024 ^ k"
      "k = 0 \<or> 1024 ^ (k - 1) \<le> t div 1024"
      using "1.IH" [OF False] "1.prems" by (auto simp: sd pos_imp_zdiv_nonneg_iff)
    have up: "t < 1024 ^ Suc k" using k(2) by simp
    have low: "1024 ^ k \<le> t"
    proof (cases k)
      case 0
      then show ?thesis using False "1.prems" by simp
    next
      case (Suc j)
      then have "1024 ^ j \<le> t div 1024" using k(3) by simp
      then show ?thesis using Suc by simp
    qed
    show ?thesis
      using k(1) up low False by (subst new_height_loop.simps) (auto simp: sd intro!: exI [of _ "Suc k"])
  qed
qed

lemma calculate_new_height_spec:
  assumes "0 \<le> off" "off < 2 ^ 63"
  shows "chunk off < 1024 ^ Suc (calculate_new_height off)"
    and "calculate_new_height off = 0 \<or> 1024 ^ calculate_new_height off \<le> chunk off"
    and "calculate_new_height off \<le> 4"
proof -
  have t: "s64 (u64 off div (1024 * MAX_MMAP_SIZE)) = off div 2147483648"
    using assms by (simp add: MAX_MMAP_SIZE_def u64_id s64_id)
  have c: "off div 2147483648 = int (chunk off div 1024)"
    using div_capacity [of off 1] assms(1) by simp
  obtain k where k: "calculate_new_height off = k" "int (chunk off div 1024) < 1024 ^ k"
    "k = 0 \<or> 1024 ^ (k - 1) \<le> int (chunk off div 1024)"
    using new_height_loop_spec [of "int (chunk off div 1024)" 0]
    by (auto simp: calculate_new_height_def t c)
  have "int (chunk off div 1024) < int (1024 ^ k)" using k(2) by simp
  then have "chunk off div 1024 < 1024 ^ k" by (simp only: of_nat_less_iff)
  then have up: "chunk off < 1024 ^ Suc k" by (simp add: less_mult_imp_div_less div_less_iff_less_mult ac_simps)
  have low: "k = 0 \<or> 1024 ^ k \<le> chunk off"
  proof (cases k)
    case (Suc j)
    then have "int (1024 ^ j) \<le> int (chunk off div 1024)" using k(3) by simp
    then have "1024 ^ j \<le> chunk off div 1024" by (simp only: of_nat_le_iff)
    then have "1024 ^ j * 1024 \<le> chunk off" by (simp add: less_eq_div_iff_mult_less_eq)
    then show ?thesis using Suc by (simp add: mult.commute)
  qed simp
  have "k \<le> 4"
  proof (rule ccontr)
    assume "\<not> k \<le> 4"
    then have "(1024 :: nat) ^ 5 \<le> 1024 ^ k" by (intro power_increasing) simp_all
    with low have "1024 ^ 5 \<le> chunk off" using \<open>\<not> k \<le> 4\<close> by auto
    moreover have "chunk off < 2 ^ 42" using assms by (rule chunk_bound)
    ultimately show False by simp
  qed
  with up low k(1) show "chunk off < 1024 ^ Suc (calculate_new_height off)"
    "calculate_new_height off = 0 \<or> 1024 ^ calculate_new_height off \<le> chunk off"
    "calculate_new_height off \<le> 4" by simp_all
qed

lemma align_down: "ALIGN_MMAP_DOWN off = off - off mod 2097152"
proof -
  have "off AND NOT (mask 21) = off - take_bit 21 off"
    by (subst disjunctive_diff_eq_and_not) (auto simp: bit_simps take_bit_eq_mask intro: bit_eqI)
  then show ?thesis
    by (simp add: ALIGN_MMAP_DOWN_def MAX_MMAP_SIZE_def mask_eq_exp_minus_1 take_bit_eq_mod)
qed

section \<open>Trees in the heap\<close>

type_synonym store = "nat \<Rightarrow> node option"

definition entries :: "store \<Rightarrow> nat \<Rightarrow> node" where
  "entries H p = (case H p of Some a \<Rightarrow> a | None \<Rightarrow> (\<lambda>_. 0))"

text \<open>What a tree of height \<open>h\<close> maps chunk \<open>c\<close> to; 0 where nothing is mapped.\<close>

fun tree_map :: "store \<Rightarrow> nat \<Rightarrow> nat \<Rightarrow> nat \<Rightarrow> nat" where
  "tree_map H 0 p c = entries H p c"
| "tree_map H (Suc h) p c =
     (let q = entries H p (c div 1024 ^ Suc h)
      in if q = 0 then 0 else tree_map H h q (c mod 1024 ^ Suc h))"

text \<open>The addresses of the nodes of a tree.\<close>

fun node_set_of :: "store \<Rightarrow> nat \<Rightarrow> nat \<Rightarrow> nat set" where
  "node_set_of H 0 p = {p}"
| "node_set_of H (Suc h) p =
     insert p (\<Union>i \<in> {i. i < 1024 \<and> entries H p i \<noteq> 0}. node_set_of H h (entries H p i))"

text \<open>A tree: every node is allocated, and the subtrees are disjoint from each other and the root.\<close>

fun wf_tree :: "store \<Rightarrow> nat \<Rightarrow> nat \<Rightarrow> bool" where
  "wf_tree H 0 p \<longleftrightarrow> p \<noteq> 0 \<and> p \<in> dom H"
| "wf_tree H (Suc h) p \<longleftrightarrow> p \<noteq> 0 \<and> p \<in> dom H
     \<and> (\<forall>i < 1024. entries H p i \<noteq> 0 \<longrightarrow>
          wf_tree H h (entries H p i) \<and> p \<notin> node_set_of H h (entries H p i))
     \<and> (\<forall>i < 1024. \<forall>j < 1024. i \<noteq> j \<longrightarrow> entries H p i \<noteq> 0 \<longrightarrow> entries H p j \<noteq> 0 \<longrightarrow>
          node_set_of H h (entries H p i) \<inter> node_set_of H h (entries H p j) = {})"

lemma node_set_root [simp, intro]: "p \<in> node_set_of H h p"
  by (cases h) simp_all

lemma wf_tree_root: "wf_tree H h p \<Longrightarrow> p \<noteq> 0 \<and> p \<in> dom H"
  by (cases h) simp_all

lemma wf_tree_dom: "wf_tree H h p \<Longrightarrow> node_set_of H h p \<subseteq> dom H"
proof (induction h arbitrary: p)
  case (Suc h)
  then show ?case by fastforce
qed simp

text \<open>A tree depends only on its own nodes.\<close>

lemma tree_frame:
  assumes "\<forall>q \<in> node_set_of H h p. H' q = H q"
  shows "node_set_of H' h p = node_set_of H h p \<and> (wf_tree H' h p \<longleftrightarrow> wf_tree H h p)"
  using assms
proof (induction h arbitrary: p)
  case 0
  then show ?case by (simp add: domIff)
next
  case (Suc h)
  have e: "entries H' p = entries H p" using Suc.prems by (simp add: entries_def)
  have p: "p \<in> dom H' \<longleftrightarrow> p \<in> dom H" using Suc.prems by (simp add: domIff)
  have sub: "node_set_of H' h (entries H p i) = node_set_of H h (entries H p i)
      \<and> (wf_tree H' h (entries H p i) \<longleftrightarrow> wf_tree H h (entries H p i))"
    if "i < 1024" "entries H p i \<noteq> 0" for i
    using Suc.prems that by (intro Suc.IH) auto
  then show ?case by (auto simp: e p)
qed

lemma tree_map_frame:
  assumes "\<forall>q \<in> node_set_of H h p. H' q = H q" and "c < 1024 ^ Suc h"
  shows "tree_map H' h p c = tree_map H h p c"
  using assms
proof (induction h arbitrary: p c)
  case 0
  then show ?case by (simp add: entries_def)
next
  case (Suc h)
  have e: "entries H' p = entries H p" using Suc.prems(1) by (simp add: entries_def)
  have i: "c div 1024 ^ Suc h < 1024" using Suc.prems(2)
    by (simp add: div_less_iff_less_mult mult.commute)
  have "tree_map H' h (entries H p (c div 1024 ^ Suc h)) (c mod 1024 ^ Suc h)
      = tree_map H h (entries H p (c div 1024 ^ Suc h)) (c mod 1024 ^ Suc h)"
    if "entries H p (c div 1024 ^ Suc h) \<noteq> 0"
    using Suc.prems(1) i that by (intro Suc.IH) auto
  then show ?case by (simp add: e Let_def)
qed

section \<open>The lookup loop\<close>

lemma wp_node_get:
  "p \<noteq> 0 \<Longrightarrow> p \<in> dom (map_of (nodes w)) \<Longrightarrow> 0 \<le> i \<Longrightarrow> i < 1024
    \<Longrightarrow> wp (node_get p i) Q E w = Q (entries (map_of (nodes w)) p (nat i)) w"
  by (auto simp: wp_def node_get_def entries_def)

lemma wp_node_set:
  "p \<noteq> 0 \<Longrightarrow> p \<in> dom (map_of (nodes w)) \<Longrightarrow> 0 \<le> i \<Longrightarrow> i < 1024
    \<Longrightarrow> wp (node_set p i v) Q E w = Q ()
      (w\<lparr>nodes := AList.update p ((entries (map_of (nodes w)) p)(nat i := v)) (nodes w)\<rparr>)"
  by (auto simp: wp_def node_set_def entries_def)

lemma s32_small [simp]: "n < 2147483648 \<Longrightarrow> s32 (int n) = int n"
  by (rule s32_id) simp_all

lemma lookup_loop_wp:
  assumes "wf_tree (map_of (nodes w)) h p" and "h \<le> 4" and "0 \<le> off" "off < 2 ^ 63"
    and "chunk off < 1024 ^ Suc h"
  shows "wp (lookup_loop h p off) Q E w =
    (let v = tree_map (map_of (nodes w)) h p (chunk off) in Q (if v = 0 then None else Some v) w)"
  using assms
proof (induction h arbitrary: p off)
  case 0
  then show ?case
    by (subst lookup_loop.simps) (simp add: wp_simps tree_index_eq wp_node_get Let_def)
next
  case (Suc h)
  let ?H = "map_of (nodes w)" and ?i = "chunk off div 1024 ^ Suc h"
  let ?v = "entries ?H p ?i"
  have i: "?i < 1024" using Suc.prems(5) by (simp add: div_less_iff_less_mult mult.commute)
  have root: "p \<noteq> 0" "p \<in> dom ?H" using wf_tree_root [OF Suc.prems(1)] by auto
  note rest = tree_rest_eq [OF Suc.prems(2-4)]
  have sub: "wp (lookup_loop h ?v (tree_rest (Suc h) off)) Q E w =
      (let v = tree_map ?H h ?v (chunk off mod 1024 ^ Suc h) in Q (if v = 0 then None else Some v) w)"
    if "?v \<noteq> 0"
    using Suc.IH [of ?v "tree_rest (Suc h) off"] Suc.prems(1,2) rest i that
    by (simp del: power_Suc)
  have "wp (lookup_loop (Suc h) p off) Q E w =
      (if ?v = 0 then Q None w else wp (lookup_loop h ?v (tree_rest (Suc h) off)) Q E w)"
    using Suc.prems(2-4) i root
    by (subst lookup_loop.simps) (simp add: wp_simps tree_index_eq wp_node_get del: power_Suc)
  then show ?case using sub by (simp add: Let_def del: power_Suc)
qed

lemma lookup_loop_beyond:
  assumes "h \<le> 4" and "0 \<le> off" "off < 2 ^ 63" and "1024 ^ Suc h \<le> chunk off"
    and "chunk off div 1024 ^ h < 2147483648"
  shows "wp (lookup_loop h p off) Q E w = Q None w"
proof -
  have "1024 \<le> chunk off div 1024 ^ h"
    using assms(4) by (simp add: less_eq_div_iff_mult_less_eq)
  then show ?thesis
    using assms by (subst lookup_loop.simps) (simp add: wp_simps tree_index_eq)
qed

section \<open>The insertion loop\<close>

text \<open>
  The documented behaviour of \<open>malloc\<close> that the library relies on, since it never checks for
  a null pointer: it returns an address that is not in use.
\<close>

definition malloc_ok :: "env \<Rightarrow> bool" where
  "malloc_ok e \<longleftrightarrow> (\<forall>used. e_malloc e used \<noteq> 0 \<and> e_malloc e used \<notin> set used)"

lemma malloc_fresh:
  "malloc_ok e \<Longrightarrow> e_malloc e (map fst al) \<noteq> 0 \<and> e_malloc e (map fst al) \<notin> dom (map_of al)"
proof -
  assume "malloc_ok e"
  then have "e_malloc e (map fst al) \<noteq> 0 \<and> e_malloc e (map fst al) \<notin> set (map fst al)"
    unfolding malloc_ok_def by blast
  then show ?thesis by (simp add: dom_map_of_conv_image_fst)
qed

lemma wp_new_node:
  "malloc_ok e \<Longrightarrow> wp (new_node e) Q E w =
    (let q = e_malloc e (map fst (nodes w)) in
     Q q (w\<lparr>nodes := AList.update q (\<lambda>_. 0) (nodes w)\<rparr>))"
  using malloc_fresh [of e "nodes w"] by (simp add: wp_def new_node_def Let_def)

text \<open>
  The effect of inserting address \<open>a\<close> for chunk \<open>c\<close>: a well-formed tree that maps \<open>c\<close> to
  \<open>a\<close> and every other chunk as before; nothing outside the tree is touched, and the nodes
  added to the heap are nodes of the tree.
\<close>

definition inserted :: "store \<Rightarrow> store \<Rightarrow> nat \<Rightarrow> nat \<Rightarrow> nat \<Rightarrow> nat \<Rightarrow> bool" where
  "inserted H H' h p c a \<longleftrightarrow> wf_tree H' h p
     \<and> (\<forall>c' < 1024 ^ Suc h. tree_map H' h p c' = (if c' = c then a else tree_map H h p c'))
     \<and> node_set_of H h p \<subseteq> node_set_of H' h p
     \<and> node_set_of H' h p \<subseteq> node_set_of H h p \<union> - dom H
     \<and> (\<forall>q \<in> dom H - node_set_of H h p. H' q = H q)
     \<and> dom H' = dom H \<union> node_set_of H' h p"

lemma inserted_leaf:
  assumes "wf_tree H 0 p" and "c < 1024"
  shows "inserted H (H(p \<mapsto> (entries H p)(c := a))) 0 p c a"
  using assms by (auto simp: inserted_def entries_def)

lemma entries_upd [simp]:
  "entries (H(p \<mapsto> f)) p = f" "q \<noteq> p \<Longrightarrow> entries (H(p \<mapsto> f)) q = entries H q"
  by (simp_all add: entries_def)

lemma fresh_leaf:
  assumes "entries H q = (\<lambda>_. 0)" "q \<noteq> 0" "q \<in> dom H"
  shows "wf_tree H h q \<and> node_set_of H h q = {q} \<and> tree_map H h q c = 0"
  using assms by (cases h) simp_all

lemma fresh_child:
  fixes H h p i q
  defines "H1 \<equiv> H(q \<mapsto> (\<lambda>_. 0), p \<mapsto> (entries H p)(i := q))"
  assumes wf: "wf_tree H (Suc h) p" and i: "i < 1024" "entries H p i = 0"
    and q: "q \<notin> dom H" "q \<noteq> 0"
  shows "wf_tree H1 (Suc h) p" and "node_set_of H1 (Suc h) p = insert q (node_set_of H (Suc h) p)"
    and "c < 1024 ^ Suc (Suc h) \<Longrightarrow> tree_map H1 (Suc h) p c = tree_map H (Suc h) p c"
    and "dom H1 = insert q (dom H)" and "x \<in> dom H \<Longrightarrow> x \<noteq> p \<Longrightarrow> H1 x = H x"
proof -
  have p: "p \<noteq> 0" "p \<in> dom H" and pq: "p \<noteq> q" using wf q(1) wf_tree_root [OF wf] by auto
  have ep: "entries H1 p = (entries H p)(i := q)" by (simp add: H1_def)
  have eq: "entries H1 q = (\<lambda>_. 0)" using pq by (simp add: H1_def)
  show dom1: "dom H1 = insert q (dom H)" using p by (auto simp: H1_def)
  show "x \<in> dom H \<Longrightarrow> x \<noteq> p \<Longrightarrow> H1 x = H x" using q by (auto simp: H1_def)
  have new: "wf_tree H1 h q" "node_set_of H1 h q = {q}" "tree_map H1 h q c = 0" for c
    using fresh_leaf [OF eq q(2)] dom1 by auto
  have old: "\<forall>x \<in> node_set_of H h (entries H p j). H1 x = H x"
    "node_set_of H h (entries H p j) \<subseteq> dom H" if "j < 1024" "entries H p j \<noteq> 0" for j
  proof -
    have "wf_tree H h (entries H p j)" "p \<notin> node_set_of H h (entries H p j)" using wf that by auto
    then show "node_set_of H h (entries H p j) \<subseteq> dom H" using wf_tree_dom by blast
    then show "\<forall>x \<in> node_set_of H h (entries H p j). H1 x = H x"
      using \<open>p \<notin> node_set_of H h (entries H p j)\<close> q(1) by (auto simp: H1_def)
  qed
  have ne: "j \<noteq> i" if "entries H p j \<noteq> 0" for j using that i(2) by auto
  show "node_set_of H1 (Suc h) p = insert q (node_set_of H (Suc h) p)"
  proof -
    let ?I = "{j. j < 1024 \<and> entries H p j \<noteq> 0}"
    have idx: "{j. j < 1024 \<and> entries H1 p j \<noteq> 0} = insert i ?I" using i(1) q(2) by (auto simp: ep)
    have "(\<Union>j \<in> ?I. node_set_of H1 h (entries H1 p j)) = (\<Union>j \<in> ?I. node_set_of H h (entries H p j))"
      using ne tree_frame [OF old(1)] by (intro SUP_cong) (auto simp: ep)
    moreover have "entries H1 p i = q" by (simp add: ep)
    ultimately show ?thesis by (simp only: node_set_of.simps idx UN_insert new(2)) auto
  qed
  show "wf_tree H1 (Suc h) p"
    using wf q tree_frame [OF old(1)] old(2) pq
    by (auto simp: ep new dom1 p)
  show "tree_map H1 (Suc h) p c = tree_map H (Suc h) p c" if c: "c < 1024 ^ Suc (Suc h)"
  proof (cases "c div 1024 ^ Suc h = i")
    case True
    then show ?thesis using i by (simp add: ep new Let_def)
  next
    case False
    have j: "c div 1024 ^ Suc h < 1024" using c by (simp add: div_less_iff_less_mult mult.commute)
    then show ?thesis
      using False tree_map_frame [OF old(1) [OF j], of "c mod 1024 ^ Suc h"] by (simp add: ep Let_def)
  qed
qed

lemma inserted_after_fresh:
  assumes "inserted H1 H' h p c a"
    and "node_set_of H1 h p = insert q (node_set_of H h p)"
    and "\<And>c. c < 1024 ^ Suc h \<Longrightarrow> tree_map H1 h p c = tree_map H h p c"
    and "dom H1 = insert q (dom H)" and "\<And>x. x \<in> dom H \<Longrightarrow> x \<noteq> p \<Longrightarrow> H1 x = H x"
    and "q \<notin> dom H"
  shows "inserted H H' h p c a"
proof -
  have "H' x = H x" if "x \<in> dom H - node_set_of H h p" for x
  proof -
    have "x \<noteq> q" "x \<noteq> p" using that assms(6) by auto
    then have "x \<in> dom H1 - node_set_of H1 h p" "H1 x = H x" using that assms(2,4,5) by auto
    then show ?thesis using assms(1) by (simp add: inserted_def)
  qed
  moreover have "node_set_of H' h p \<subseteq> node_set_of H h p \<union> - dom H"
    using assms(1,2,4,6) by (auto simp: inserted_def)
  ultimately show ?thesis using assms by (auto simp: inserted_def)
qed

text \<open>Insertion into a child is insertion into the tree.\<close>

lemma inserted_sub:
  assumes wf: "wf_tree H (Suc h) p" and c: "c < 1024 ^ Suc (Suc h)"
    and v: "entries H p (c div 1024 ^ Suc h) \<noteq> 0"
    and ins: "inserted H H' h (entries H p (c div 1024 ^ Suc h)) (c mod 1024 ^ Suc h) a"
  shows "inserted H H' (Suc h) p c a"
proof -
  let ?i = "c div 1024 ^ Suc h"
  let ?v = "entries H p ?i"
  have i: "?i < 1024" using c by (simp add: div_less_iff_less_mult mult.commute)
  have p: "p \<noteq> 0" "p \<in> dom H" using wf by simp_all
  have child: "wf_tree H h (entries H p j)" "p \<notin> node_set_of H h (entries H p j)"
    "node_set_of H h (entries H p j) \<subseteq> dom H" if "j < 1024" "entries H p j \<noteq> 0" for j
    using wf that wf_tree_dom [of H h "entries H p j"] by auto
  have disj: "node_set_of H h (entries H p j) \<inter> node_set_of H h (entries H p k) = {}"
    if "j < 1024" "k < 1024" "j \<noteq> k" "entries H p j \<noteq> 0" "entries H p k \<noteq> 0" for j k
    using wf that by auto
  have I: "wf_tree H' h ?v"
    "\<And>c'. c' < 1024 ^ Suc h \<Longrightarrow> tree_map H' h ?v c' = (if c' = c mod 1024 ^ Suc h then a else tree_map H h ?v c')"
    "node_set_of H h ?v \<subseteq> node_set_of H' h ?v"
    "node_set_of H' h ?v \<subseteq> node_set_of H h ?v \<union> - dom H"
    "\<And>q. q \<in> dom H \<Longrightarrow> q \<notin> node_set_of H h ?v \<Longrightarrow> H' q = H q"
    "dom H' = dom H \<union> node_set_of H' h ?v"
    using ins by (auto simp: inserted_def)
  have Hp: "H' p = H p" using p child(2) [OF i v] by (intro I(5))
  then have ep: "entries H' p = entries H p" by (simp add: entries_def)
  have other: "\<forall>x \<in> node_set_of H h (entries H p j). H' x = H x"
    if "j < 1024" "j \<noteq> ?i" "entries H p j \<noteq> 0" for j
    using disj [OF that(1) i that(2,3) v] child(3) [OF that(1,3)] I(5) by blast
  have nodes_eq: "node_set_of H' (Suc h) p = node_set_of H (Suc h) p \<union> node_set_of H' h ?v"
  proof -
    let ?I = "{j. j < 1024 \<and> entries H p j \<noteq> 0}"
    have eq: "node_set_of H' h (entries H p j) = node_set_of H h (entries H p j)"
      if "j \<in> ?I" "j \<noteq> ?i" for j
      using tree_frame [OF other] that by auto
    have "(\<Union>j \<in> ?I. node_set_of H' h (entries H p j))
        = (\<Union>j \<in> ?I. node_set_of H h (entries H p j)) \<union> node_set_of H' h ?v" (is "?l = ?r")
    proof
      show "?l \<subseteq> ?r"
      proof
        fix x assume "x \<in> ?l"
        then obtain j where j: "j \<in> ?I" "x \<in> node_set_of H' h (entries H p j)" by blast
        then show "x \<in> ?r" using eq [OF j(1)] by (cases "j = ?i") auto
      qed
      show "?r \<subseteq> ?l"
      proof
        fix x assume "x \<in> ?r"
        then consider j where "j \<in> ?I" "x \<in> node_set_of H h (entries H p j)"
          | "x \<in> node_set_of H' h ?v" by blast
        then show "x \<in> ?l"
        proof cases
          case 1
          then show ?thesis using eq [OF 1(1)] I(3) by (cases "j = ?i") auto
        next
          case 2
          then show ?thesis using i v by blast
        qed
      qed
    qed
    then show ?thesis by (simp add: ep)
  qed
  have wf': "wf_tree H' (Suc h) p"
  proof -
    have pd: "p \<in> dom H'" using p I(6) by blast
    have out: "p \<notin> node_set_of H' h (entries H p j) \<and> wf_tree H' h (entries H p j)"
      if "j < 1024" "entries H p j \<noteq> 0" for j
      using tree_frame [OF other [OF that(1) _ that(2)]] child [OF that] I(1,4) p(2)
      by (cases "j = ?i") auto
    have dj: "node_set_of H' h (entries H p j) \<inter> node_set_of H' h (entries H p k) = {}"
      if "j < 1024" "k < 1024" "j \<noteq> k" "entries H p j \<noteq> 0" "entries H p k \<noteq> 0" for j k
    proof -
      have a: "node_set_of H' h (entries H p j) \<subseteq> node_set_of H h (entries H p j) \<union> (if j = ?i then - dom H else {})"
        if "j < 1024" "entries H p j \<noteq> 0" for j
        using tree_frame [OF other [OF that(1) _ that(2)]] I(4) by (cases "j = ?i") auto
      show ?thesis
        using a [OF that(1,4)] a [OF that(2,5)] disj [OF that] child(3) [OF that(1,4)]
          child(3) [OF that(2,5)] that(3)
        by (auto split: if_splits) blast+
    qed
    show ?thesis using p(1) pd out dj by (simp add: ep)
  qed
  have map: "tree_map H' (Suc h) p c' = (if c' = c then a else tree_map H (Suc h) p c')"
    if c': "c' < 1024 ^ Suc (Suc h)" for c'
  proof (cases "c' div 1024 ^ Suc h = ?i")
    case True
    then have "c' = c \<longleftrightarrow> c' mod 1024 ^ Suc h = c mod 1024 ^ Suc h"
      by (metis div_mult_mod_eq)
    then show ?thesis using True v I(2) [of "c' mod 1024 ^ Suc h"] by (simp add: ep Let_def)
  next
    case False
    have j: "c' div 1024 ^ Suc h < 1024" using c' by (simp add: div_less_iff_less_mult mult.commute)
    have "c' \<noteq> c" using False by auto
    then show ?thesis
      using tree_map_frame [OF other [OF j False], of "c' mod 1024 ^ Suc h"] by (simp add: ep Let_def)
  qed
  have sub: "node_set_of H h ?v \<subseteq> node_set_of H (Suc h) p" using i v by auto
  have "node_set_of H' (Suc h) p \<subseteq> node_set_of H (Suc h) p \<union> - dom H"
    unfolding nodes_eq using I(4) sub by blast
  moreover have "\<forall>q \<in> dom H - node_set_of H (Suc h) p. H' q = H q" using I(5) sub by blast
  moreover have "dom H' = dom H \<union> node_set_of H' (Suc h) p"
    unfolding nodes_eq I(6) using wf_tree_dom [OF wf] by blast
  moreover have "node_set_of H (Suc h) p \<subseteq> node_set_of H' (Suc h) p"
    unfolding nodes_eq by (rule Un_upper1)
  ultimately show ?thesis unfolding inserted_def using wf' map by (intro conjI) simp_all
qed

lemma wf_tree_Suc_height: "wf_tree H (Suc h) p \<Longrightarrow> p \<noteq> 0 \<and> p \<in> dom H"
  by simp

lemma insert_loop_wp:
  assumes "malloc_ok e" and "wf_tree (map_of (nodes w)) h p" and "h \<le> 4"
    and "0 \<le> off" "off < 2 ^ 63" and "chunk off < 1024 ^ Suc h"
  shows "wp (insert_loop e h p off a)
    (\<lambda>_ w'. \<exists>al. w' = w\<lparr>nodes := al\<rparr> \<and> inserted (map_of (nodes w)) (map_of al) h p (chunk off) a)
    (\<lambda>_ _. False) w"
  using assms(2-)
proof (induction h arbitrary: p off w)
  case 0
  then show ?case
    using inserted_leaf [of "map_of (nodes w)" p "chunk off" a]
    by (auto simp: wp_simps tree_index_eq wp_node_set update_conv' intro!: exI)
next
  case (Suc h)
  let ?H = "map_of (nodes w)" and ?i = "chunk off div 1024 ^ Suc h"
  let ?v = "entries ?H p ?i" and ?rest = "tree_rest (Suc h) off"
  have i: "?i < 1024" using Suc.prems(5) by (simp add: div_less_iff_less_mult mult.commute)
  have root: "p \<noteq> 0" "p \<in> dom ?H" using Suc.prems(1) by simp_all
  note rest = tree_rest_eq [OF Suc.prems(2-4)]
  have rec: "wp (insert_loop e h (entries (map_of (nodes v)) p ?i) ?rest a)
      (\<lambda>_ w'. \<exists>al. w' = v\<lparr>nodes := al\<rparr> \<and> inserted (map_of (nodes v)) (map_of al) (Suc h) p (chunk off) a)
      (\<lambda>_ _. False) v"
    if wf: "wf_tree (map_of (nodes v)) (Suc h) p" and ne: "entries (map_of (nodes v)) p ?i \<noteq> 0" for v
  proof -
    have "wf_tree (map_of (nodes v)) h (entries (map_of (nodes v)) p ?i)" using wf ne i by simp
    from Suc.IH [OF this, of ?rest] show ?thesis
      using Suc.prems(2) rest inserted_sub [OF wf Suc.prems(5) ne]
      by (auto elim!: wp_mono simp del: power_Suc)
  qed
  show ?case
  proof (cases "?v = 0")
    case False
    then show ?thesis
      using rec [OF Suc.prems(1)] Suc.prems(2-4) i root
      by (simp add: wp_simps tree_index_eq wp_node_get del: power_Suc)
  next
    case True
    define q where "q = e_malloc e (map fst (nodes w))"
    have q: "q \<noteq> 0" "q \<notin> dom ?H" using malloc_fresh [OF assms(1), of "nodes w"] by (simp_all add: q_def)
    have pq: "p \<noteq> q" using root q by auto
    define v where "v = w\<lparr>nodes := AList.update p ((entries ?H p)(?i := q)) (AList.update q (\<lambda>_. 0) (nodes w))\<rparr>"
    have H1: "map_of (nodes v) = ?H(q \<mapsto> (\<lambda>_. 0), p \<mapsto> (entries ?H p)(?i := q))"
      by (simp add: v_def update_conv')
    note child = fresh_child [OF Suc.prems(1) i True q(2,1), folded H1]
    have e1: "entries (map_of (nodes v)) p ?i = q" by (simp add: H1)
    have after: "inserted ?H (map_of al) (Suc h) p (chunk off) a"
      if "inserted (map_of (nodes v)) (map_of al) (Suc h) p (chunk off) a" for al
      using that child(2-5) q(2) by (rule inserted_after_fresh)
    have "wp (insert_loop e h q ?rest a)
        (\<lambda>_ w'. \<exists>al. w' = w\<lparr>nodes := al\<rparr> \<and> inserted ?H (map_of al) (Suc h) p (chunk off) a)
        (\<lambda>_ _. False) v"
      using rec [OF child(1)] q(1) after unfolding e1 by (auto elim!: wp_mono simp: v_def)
    then show ?thesis
      using Suc.prems(2-4) i root True q pq
      by (simp add: wp_simps tree_index_eq wp_node_get wp_node_set wp_new_node [OF assms(1)] Let_def
          update_conv' v_def flip: q_def del: power_Suc)
  qed
qed

section \<open>Raising the tree\<close>

definition grown :: "store \<Rightarrow> store \<Rightarrow> nat \<Rightarrow> nat \<Rightarrow> nat \<Rightarrow> nat \<Rightarrow> bool" where
  "grown H H' h r h' r' \<longleftrightarrow> h \<le> h' \<and> wf_tree H' h' r'
     \<and> (\<forall>c < 1024 ^ Suc h'. tree_map H' h' r' c = (if c < 1024 ^ Suc h then tree_map H h r c else 0))
     \<and> node_set_of H h r \<subseteq> node_set_of H' h' r'
     \<and> node_set_of H' h' r' \<subseteq> node_set_of H h r \<union> - dom H
     \<and> (\<forall>q \<in> dom H. H' q = H q)
     \<and> dom H' = dom H \<union> node_set_of H' h' r'"

lemma grown_refl: "wf_tree H h r \<Longrightarrow> grown H H h r h r"
  using wf_tree_dom [of H h r] by (auto simp: grown_def)

lemma grown_step:
  assumes wf: "wf_tree H h r" and q: "q \<notin> dom H" "q \<noteq> 0"
  shows "grown H (H(q \<mapsto> (\<lambda>_. 0)(0 := r))) h r (Suc h) q"
proof -
  let ?H = "H(q \<mapsto> (\<lambda>_. 0)(0 := r))"
  have r: "r \<noteq> 0" "r \<in> dom H" using wf_tree_root [OF wf] by auto
  have sub: "node_set_of H h r \<subseteq> dom H" using wf by (rule wf_tree_dom)
  then have same: "\<forall>x \<in> node_set_of H h r. ?H x = H x" using q by auto
  note frame = tree_frame [of H h r ?H, OF same] and mframe = tree_map_frame [of H h r ?H, OF same]
  have idx: "{i. i < 1024 \<and> entries ?H q i \<noteq> 0} = {0}" using r by auto
  have ns: "node_set_of ?H (Suc h) q = insert q (node_set_of H h r)"
    using frame by (simp only: node_set_of.simps idx) simp
  have wf': "wf_tree ?H (Suc h) q" using frame wf q sub by auto
  have "tree_map ?H (Suc h) q c = (if c < 1024 ^ Suc h then tree_map H h r c else 0)"
    if "c < 1024 ^ Suc (Suc h)" for c
  proof (cases "c < 1024 ^ Suc h")
    case True
    then show ?thesis using mframe [OF True] r by (simp del: power_Suc)
  next
    case False
    then have "c div 1024 ^ Suc h \<noteq> 0" by (simp add: div_eq_0_iff del: power_Suc)
    with False show ?thesis by (simp del: power_Suc)
  qed
  then show ?thesis unfolding grown_def using ns wf' q sub by (auto simp del: wf_tree.simps)
qed

lemma grownD:
  assumes "grown H H' h r h' r'"
  shows "h \<le> h'" "wf_tree H' h' r'"
    and "c < 1024 ^ Suc h' \<Longrightarrow> tree_map H' h' r' c = (if c < 1024 ^ Suc h then tree_map H h r c else 0)"
    and "node_set_of H h r \<subseteq> node_set_of H' h' r'"
    and "node_set_of H' h' r' \<subseteq> node_set_of H h r \<union> - dom H"
    and "q \<in> dom H \<Longrightarrow> H' q = H q"
    and "dom H' = dom H \<union> node_set_of H' h' r'"
  using assms unfolding grown_def by simp_all

lemma if_chain:
  "x = (if P then y else z) \<Longrightarrow> (P \<Longrightarrow> y = (if Q then u else z)) \<Longrightarrow> (Q \<Longrightarrow> P)
    \<Longrightarrow> x = (if Q then u else z)"
  by (cases Q; cases P) simp_all

lemma grown_trans:
  assumes "grown H H1 h r h1 r1" and "grown H1 H2 h1 r1 h2 r2"
  shows "grown H H2 h r h2 r2"
proof -
  note one = grownD [OF assms(1)] and two = grownD [OF assms(2)]
  have le: "(1024 :: nat) ^ Suc h \<le> 1024 ^ Suc h1"
    using one(1) by (intro power_increasing) simp_all
  have maps: "tree_map H2 h2 r2 c = (if c < 1024 ^ Suc h then tree_map H h r c else 0)"
    if c: "c < 1024 ^ Suc h2" for c
    by (rule if_chain [OF two(3) [OF c] one(3) order_less_le_trans [OF _ le]])
  have "h \<le> h2" using one(1) two(1) by simp
  moreover have "node_set_of H h r \<subseteq> node_set_of H2 h2 r2" using one(4) two(4) by (rule subset_trans)
  moreover have "node_set_of H2 h2 r2 \<subseteq> node_set_of H h r \<union> - dom H" 
    using two(5) one(5) by (auto simp: one(7))
  moreover have "\<forall>q \<in> dom H. H2 q = H q" by (simp add: one(6,7) two(6))
  moreover have "dom H2 = dom H \<union> node_set_of H2 h2 r2" 
    using two(4) by (auto simp: one(7) two(7))
  ultimately show ?thesis unfolding grown_def using maps two(2) by (intro conjI allI impI)
qed

definition file_update :: "int \<Rightarrow> (nvfile \<Rightarrow> nvfile) \<Rightarrow> lib \<Rightarrow> lib" where
  "file_update fd f w = w\<lparr>fd_lookup := (fd_lookup w)(nat fd := f (fd_lookup w (nat fd)))\<rparr>"

lemma file_update_sel [simp]:
  "hit_count (file_update fd f w) = hit_count w" "mmap_count (file_update fd f w) = mmap_count w"
  "nodes (file_update fd f w) = nodes w"
  "fd_lookup (file_update fd f w) = (fd_lookup w)(nat fd := f (fd_lookup w (nat fd)))"
  by (simp_all add: file_update_def)

abbreviation is_fd :: "int \<Rightarrow> bool" where
  "is_fd fd \<equiv> 0 \<le> fd \<and> fd < OPEN_MAX"

lemma wp_get_nvf: "is_fd fd \<Longrightarrow> wp (get_nvf fd) Q E = (\<lambda>w. Q (fd_lookup w (nat fd)) w)"
  by (simp add: get_nvf_def wp_simps fun_eq_iff)

lemma wp_set_nvf [wp_simps]: "wp (set_nvf fd f) Q E = (\<lambda>w. Q () (file_update fd f w))"
  by (simp add: set_nvf_def wp_simps fun_eq_iff file_update_def)

lemma grow_loop_wp:
  assumes "malloc_ok e" "is_fd fd"
    and "wf_tree (map_of (nodes w)) h (root (fd_lookup w (nat fd)))"
  shows "wp (grow_loop e fd n)
    (\<lambda>_ w'. \<exists>r al. w' = file_update fd (root_update (\<lambda>_. r)) (w\<lparr>nodes := al\<rparr>)
        \<and> grown (map_of (nodes w)) (map_of al) h (root (fd_lookup w (nat fd))) (h + n) r)
    (\<lambda>_ _. False) w"
  using assms(3)
proof (induction n arbitrary: w h)
  case 0
  then show ?case
    by (simp add: wp_simps file_update_def) (intro exI [of _ "nodes w"] exI [of _ "root (fd_lookup w (nat fd))"], simp add: grown_refl)
next
  case (Suc n)
  let ?r = "root (fd_lookup w (nat fd))" and ?H = "map_of (nodes w)"
  define q where "q = e_malloc e (map fst (nodes w))"
  have q: "q \<noteq> 0" "q \<notin> dom ?H" using malloc_fresh [OF assms(1), of "nodes w"] by (simp_all add: q_def)
  define al where "al = AList.update q ((\<lambda>_. 0)(0 := ?r)) (AList.update q (\<lambda>_. 0) (nodes w))"
  define v where "v = (file_update fd (root_update (\<lambda>_. q)) w)\<lparr>nodes := al\<rparr>"
  have H: "map_of (nodes v) = ?H(q \<mapsto> (\<lambda>_. 0)(0 := ?r))" by (simp add: v_def al_def update_conv')
  have g: "grown ?H (map_of (nodes v)) h ?r (Suc h) q"
    unfolding H using Suc.prems q(2,1) by (rule grown_step)
  have "wp (grow_loop e fd n)
      (\<lambda>_ w'. \<exists>r al. w' = file_update fd (root_update (\<lambda>_. r)) (w\<lparr>nodes := al\<rparr>)
          \<and> grown ?H (map_of al) h ?r (h + Suc n) r) (\<lambda>_ _. False) v"
  proof (rule wp_mono [OF Suc.IH [of v "Suc h"]])
    have rv: "root (fd_lookup v (nat fd)) = q" by (simp add: v_def)
    then show "wf_tree (map_of (nodes v)) (Suc h) (root (fd_lookup v (nat fd)))"
      using grownD(2) [OF g] by (simp only:)
    fix a w'
    assume "\<exists>r al. w' = file_update fd (root_update (\<lambda>_. r)) (v\<lparr>nodes := al\<rparr>)
        \<and> grown (map_of (nodes v)) (map_of al) (Suc h) (root (fd_lookup v (nat fd))) (Suc h + n) r"
    then obtain r al where w': "w' = file_update fd (root_update (\<lambda>_. r)) (v\<lparr>nodes := al\<rparr>)"
      and g': "grown (map_of (nodes v)) (map_of al) (Suc h) q (Suc h + n) r" unfolding rv by blast
    have "w' = file_update fd (root_update (\<lambda>_. r)) (w\<lparr>nodes := al\<rparr>)"
      by (simp add: w' v_def file_update_def)
    then show "\<exists>r al. w' = file_update fd (root_update (\<lambda>_. r)) (w\<lparr>nodes := al\<rparr>)
        \<and> grown ?H (map_of al) h ?r (h + Suc n) r"
      using grown_trans [OF g g'] by auto
  qed simp
  moreover have "wp (grow_loop e fd (Suc n)) Q E w = wp (grow_loop e fd n) Q E v" for Q E
    using assms(2) q(1)
    by (simp add: wp_simps wp_get_nvf wp_new_node [OF assms(1)] wp_node_set Let_def update_conv'
        al_def v_def file_update_def flip: q_def)
  ultimately show ?case by (simp only:)
qed

end
