(* ===== verification/Noposix_Ops.thy ===== *)
theory Noposix_Ops
  imports Noposix_Tree
begin

text \<open>
  The operations of \<open>lib/fileops_noposix.c\<close> on a well-formed library state: every open file owns
  a tree of its own.  The abstract view of a state is the partial map from descriptors and chunk
  numbers to addresses (\<open>chunk_addr\<close>); \<open>get_mmap_address\<close> is shown to be a cache of the kernel's
  mappings over that map, and the locale \<open>mapping_cache\<close> states that contract and derives what
  the readers rely on.  Opening, reading and closing follow, with the cases in which the code
  does not do what it means to.
\<close>

section \<open>Well-formed library states\<close>

definition chunk_addr :: "lib \<Rightarrow> nat \<Rightarrow> nat \<Rightarrow> nat" where
  "chunk_addr w n c =
     (let f = fd_lookup w n in
      if root f \<noteq> 0 \<and> c < 1024 ^ Suc (height f)
      then tree_map (map_of (nodes w)) (height f) (root f) c else 0)"

definition file_nodes :: "lib \<Rightarrow> nat \<Rightarrow> nat set" where
  "file_nodes w n =
     (let f = fd_lookup w n in
      if root f = 0 then {} else node_set_of (map_of (nodes w)) (height f) (root f))"

definition wf_lib :: "lib \<Rightarrow> bool" where
  "wf_lib w \<longleftrightarrow>
     (\<forall>n < 1024. height (fd_lookup w n) \<le> 4 \<and> (root (fd_lookup w n) \<noteq> 0 \<longrightarrow>
        wf_tree (map_of (nodes w)) (height (fd_lookup w n)) (root (fd_lookup w n))))
     \<and> (\<forall>n < 1024. \<forall>m < 1024. n \<noteq> m \<longrightarrow> file_nodes w n \<inter> file_nodes w m = {})"

lemma wf_libD:
  assumes "wf_lib w" "n < 1024"
  shows "height (fd_lookup w n) \<le> 4"
    and "root (fd_lookup w n) \<noteq> 0 \<Longrightarrow>
      wf_tree (map_of (nodes w)) (height (fd_lookup w n)) (root (fd_lookup w n))"
    and "m < 1024 \<Longrightarrow> n \<noteq> m \<Longrightarrow> file_nodes w n \<inter> file_nodes w m = {}"
    and "file_nodes w n \<subseteq> dom (map_of (nodes w))"
  using assms wf_tree_dom by (auto simp: wf_lib_def file_nodes_def Let_def)

lemma is_fd_nat: "is_fd fd \<Longrightarrow> nat fd < 1024"
  by (simp add: OPEN_MAX_def nat_less_iff)

text \<open>A step that works on the tree of one file keeps the library well formed and every other
  file as it was.\<close>

lemma lib_step:
  assumes wf: "wf_lib w" and n: "n < 1024" and fl: "fd_lookup w' = (fd_lookup w)(n := f')"
    and frame: "\<And>q. q \<in> dom (map_of (nodes w)) \<Longrightarrow> q \<notin> file_nodes w n
      \<Longrightarrow> map_of (nodes w') q = map_of (nodes w) q"
    and new: "height f' \<le> 4" "root f' \<noteq> 0 \<Longrightarrow> wf_tree (map_of (nodes w')) (height f') (root f')"
      "file_nodes w' n \<subseteq> file_nodes w n \<union> - dom (map_of (nodes w))"
  shows "wf_lib w'" and "m < 1024 \<Longrightarrow> m \<noteq> n \<Longrightarrow> chunk_addr w' m = chunk_addr w m"
    and "m < 1024 \<Longrightarrow> m \<noteq> n \<Longrightarrow> file_nodes w' m = file_nodes w m"
proof -
  have same: "\<forall>q \<in> file_nodes w m. map_of (nodes w') q = map_of (nodes w) q"
    if "m < 1024" "m \<noteq> n" for m
    using frame wf_libD(4) [OF wf that(1)] wf_libD(3) [OF wf that(1) n that(2)] by blast
  have sub: "root (fd_lookup w m) \<noteq> 0 \<Longrightarrow> \<forall>q \<in> node_set_of (map_of (nodes w)) (height (fd_lookup w m))
      (root (fd_lookup w m)). map_of (nodes w') q = map_of (nodes w) q"
    if "m < 1024" "m \<noteq> n" for m
    using same [OF that] by (simp add: file_nodes_def Let_def)
  show addr: "chunk_addr w' m = chunk_addr w m" if "m < 1024" "m \<noteq> n" for m
    using tree_map_frame [OF sub [OF that]] that(2)
    by (auto simp: chunk_addr_def fl Let_def fun_eq_iff)
  show fn: "file_nodes w' m = file_nodes w m" if "m < 1024" "m \<noteq> n" for m
    using tree_frame [OF sub [OF that]] that(2) by (auto simp: file_nodes_def fl Let_def)
  have dis: "file_nodes w' n \<inter> file_nodes w' m = {}" if "m < 1024" "m \<noteq> n" for m
    using new(3) wf_libD(3) [OF wf n that(1)] wf_libD(4) [OF wf that(1)] that(2) unfolding fn [OF that] by blast
  have "file_nodes w' k \<inter> file_nodes w' m = {}" if "k < 1024" "m < 1024" "k \<noteq> m" for k m
    using dis [OF that(2)] dis [OF that(1)] wf_libD(3) [OF wf that] fn [OF that(1)] fn [OF that(2)] that(3)
    by (cases "k = n"; cases "m = n") auto
  moreover have "height (fd_lookup w' k) \<le> 4 \<and> (root (fd_lookup w' k) \<noteq> 0 \<longrightarrow>
      wf_tree (map_of (nodes w')) (height (fd_lookup w' k)) (root (fd_lookup w' k)))" if k: "k < 1024" for k
    using new(1,2) wf_libD(1,2) [OF wf k] tree_frame [OF sub [OF k]] by (cases "k = n") (auto simp: fl)
  ultimately show "wf_lib w'" unfolding wf_lib_def by blast
qed

lemma wf_lib_cong:
  assumes "nodes w' = nodes w" "\<And>n. root (fd_lookup w' n) = root (fd_lookup w n)"
    "\<And>n. height (fd_lookup w' n) = height (fd_lookup w n)"
  shows "wf_lib w' = wf_lib w" "chunk_addr w' = chunk_addr w" "file_nodes w' = file_nodes w"
proof -
  show "file_nodes w' = file_nodes w" "chunk_addr w' = chunk_addr w"
    using assms by (simp_all add: file_nodes_def chunk_addr_def Let_def fun_eq_iff)
  then show "wf_lib w' = wf_lib w" using assms by (simp add: wf_lib_def)
qed

section \<open>Mapping a chunk\<close>

text \<open>
  What the code relies on of the allocator and of \<open>mmap\<close>, whose address is chosen by the kernel
  and is never the null pointer; \<open>mmap\<close> may fail.
\<close>

definition env_ok :: "env \<Rightarrow> bool" where
  "env_ok e \<longleftrightarrow> malloc_ok e \<and> (\<forall>fd perms off k. e_mmap e fd perms off k \<noteq> 0)"

lemma env_okD: "env_ok e \<Longrightarrow> malloc_ok e" "env_ok e \<Longrightarrow> e_mmap e fd perms off k \<noteq> 0"
  by (simp_all add: env_ok_def)

text \<open>One file's tree maps one more chunk; everything else about the library is unchanged.\<close>

definition mapped :: "lib \<Rightarrow> lib \<Rightarrow> nat \<Rightarrow> nat \<Rightarrow> nat \<Rightarrow> bool" where
  "mapped w w' n c a \<longleftrightarrow> wf_lib w' \<and> root (fd_lookup w' n) \<noteq> 0
     \<and> (\<forall>m < 1024. \<forall>c'. chunk_addr w' m c' = (if m = n \<and> c' = c then a else chunk_addr w m c'))
     \<and> (\<exists>r h. fd_lookup w' = (fd_lookup w)(n := fd_lookup w n\<lparr>root := r, height := h\<rparr>))"

lemma insertedD:
  assumes "inserted H H' h p c a"
  shows "wf_tree H' h p"
    and "c' < 1024 ^ Suc h \<Longrightarrow> tree_map H' h p c' = (if c' = c then a else tree_map H h p c')"
    and "node_set_of H h p \<subseteq> node_set_of H' h p"
    and "node_set_of H' h p \<subseteq> node_set_of H h p \<union> - dom H"
    and "q \<in> dom H \<Longrightarrow> q \<notin> node_set_of H h p \<Longrightarrow> H' q = H q"
    and "dom H' = dom H \<union> node_set_of H' h p"
  using assms unfolding inserted_def by simp_all

text \<open>Raising a file's tree and then inserting one chunk.\<close>

lemma mapped_intro:
  assumes wf: "wf_lib w" and n: "n < 1024" and r0: "root (fd_lookup w n) \<noteq> 0"
    and g: "grown (map_of (nodes w)) H1 (height (fd_lookup w n)) (root (fd_lookup w n)) h r"
    and i: "inserted H1 (map_of (nodes w')) h r c a"
    and h: "h \<le> 4" "c < 1024 ^ Suc h"
    and fl: "fd_lookup w' = (fd_lookup w)(n := fd_lookup w n\<lparr>root := r, height := h\<rparr>)"
  shows "mapped w w' n c a"
proof -
  let ?H = "map_of (nodes w)" and ?H' = "map_of (nodes w')"
  note G = grownD [OF g] and I = insertedD [OF i]
  have fn: "file_nodes w n = node_set_of ?H (height (fd_lookup w n)) (root (fd_lookup w n))"
    using r0 by (simp add: file_nodes_def Let_def)
  have r: "r \<noteq> 0" using wf_tree_root [OF I(1)] by simp
  have fn': "file_nodes w' n = node_set_of ?H' h r" using r by (simp add: file_nodes_def fl Let_def)
  have frame: "?H' q = ?H q" if "q \<in> dom ?H" "q \<notin> file_nodes w n" for q
  proof -
    have "q \<notin> node_set_of H1 h r" using that G(5) fn by blast
    then show ?thesis using I(5) [of q] G(6) [OF that(1)] G(7) that(1) by simp
  qed
  have new: "file_nodes w' n \<subseteq> file_nodes w n \<union> - dom ?H"
    unfolding fn fn' using I(4) G(5,7) by blast
  note step = lib_step [OF wf n fl frame]
  have wf': "wf_lib w'" using h(1) I(1) new by (intro step(1)) simp_all
  have other: "chunk_addr w' m = chunk_addr w m" if "m < 1024" "m \<noteq> n" for m
    using h(1) I(1) new that by (intro step(2)) simp_all
  have pow: "(1024 :: nat) ^ Suc (height (fd_lookup w n)) \<le> 1024 ^ Suc h"
    using G(1) by (intro power_increasing) simp_all
  have this_file: "chunk_addr w' n c' = (if c' = c then a else chunk_addr w n c')" for c'
  proof (cases "c' < 1024 ^ Suc h")
    case True
    then show ?thesis using I(2) [OF True] G(3) [OF True] r r0 by (simp add: chunk_addr_def fl Let_def)
  next
    case False
    then have "c' \<noteq> c" "\<not> c' < 1024 ^ Suc (height (fd_lookup w n))"
      using h(2) order_less_le_trans [OF _ pow, of c'] by auto
    then show ?thesis using False by (simp add: chunk_addr_def fl Let_def del: power_Suc)
  qed
  have "chunk_addr w' m c' = (if m = n \<and> c' = c then a else chunk_addr w m c')" if "m < 1024" for m c'
    using other [OF that] this_file by (cases "m = n") simp_all
  then show ?thesis unfolding mapped_def using wf' r fl by (intro conjI allI impI exI) (simp_all add: fl)
qed

lemma map_chunk_wp:
  fixes e fd off perms w
  assumes e: "env_ok e" and wf: "wf_lib w" and fd: "is_fd fd"
    and r0: "root (fd_lookup w (nat fd)) \<noteq> 0" and off: "0 \<le> off" "off < 2 ^ 63"
  defines "a \<equiv> e_mmap e fd perms (ALIGN_MMAP_DOWN off) (mmap_count w)"
  shows "wp (map_chunk e fd off perms)
    (\<lambda>b w'. b = a \<and> a \<noteq> MAP_FAILED \<and> mapped w w' (nat fd) (chunk off) a
        \<and> hit_count w' = hit_count w \<and> mmap_count w' = Suc (mmap_count w))
    (\<lambda>x _. x = Trap Assert_Failed \<and> a = MAP_FAILED) w"
proof (cases "a = MAP_FAILED")
  case True
  then show ?thesis by (simp add: map_chunk_def wp_simps a_def Let_def)
next
  case False
  let ?n = "nat fd"
  let ?h = "height (fd_lookup w ?n)" and ?nh = "calculate_new_height off"
  let ?so = "ALIGN_MMAP_DOWN off"
  define v where "v = mmap_count_update Suc w"
  have v: "fd_lookup v = fd_lookup w" by (simp add: v_def)
  define h where "h = max ?h ?nh"
  note n = is_fd_nat [OF fd] and M = env_okD(1) [OF e]
  note W = wf_libD [OF wf n]
  have nh: "?nh \<le> 4" "chunk off < 1024 ^ Suc ?nh" using calculate_new_height_spec [OF off] by simp_all
  have h4: "h \<le> 4" using W(1) nh(1) by (simp add: h_def)
  have so: "0 \<le> ?so" "?so < 2 ^ 63" "chunk ?so = chunk off"
    using off pos_mod_sign [of 2097152 off] by (auto simp: align_down chunk_def MAX_MMAP_SIZE_def
        zmod_le_nonneg_dividend minus_mod_eq_mult_div)
  have "(1024 :: nat) ^ Suc ?nh \<le> 1024 ^ Suc h" by (intro power_increasing) (simp_all add: h_def)
  then have ch: "chunk ?so < 1024 ^ Suc h" using nh(2) so(3) by linarith
  let ?Q = "\<lambda>b w'. b = a \<and> mapped w w' ?n (chunk off) a
        \<and> hit_count w' = hit_count w \<and> mmap_count w' = Suc (mmap_count w)"
  have ins: "wp (insert_loop e h r ?so a) (\<lambda>_ w'. ?Q a w') (\<lambda>_ _. False) u"
    if u: "fd_lookup u = (fd_lookup w)(?n := fd_lookup w ?n\<lparr>root := r, height := h\<rparr>)"
      "hit_count u = hit_count w" "mmap_count u = Suc (mmap_count w)"
      and g: "grown (map_of (nodes w)) (map_of (nodes u)) ?h (root (fd_lookup w ?n)) h r" for u r
  proof (rule wp_mono [OF insert_loop_wp [OF M grownD(2) [OF g] h4 so(1,2) ch]])
    fix x w'
    assume "\<exists>al. w' = u\<lparr>nodes := al\<rparr> \<and> inserted (map_of (nodes u)) (map_of al) h r (chunk ?so) a"
    then obtain al where w': "w' = u\<lparr>nodes := al\<rparr>"
      and i: "inserted (map_of (nodes u)) (map_of (nodes w')) h r (chunk ?so) a" by auto
    have "mapped w w' ?n (chunk ?so) a"
      using wf n r0 g i h4 ch by (rule mapped_intro) (simp add: w' u)
    then show "?Q a w'" by (simp add: w' u so(3))
  qed
  have grow: "wp (whenP (?h < ?nh) (bindP (grow_loop e fd (?nh - ?h)) (\<lambda>_. set_nvf fd (height_update (\<lambda>_. ?nh)))))
     (\<lambda>_ u. \<exists>r. fd_lookup u = (fd_lookup w)(?n := fd_lookup w ?n\<lparr>root := r, height := h\<rparr>)
        \<and> hit_count u = hit_count w \<and> mmap_count u = Suc (mmap_count w)
        \<and> grown (map_of (nodes w)) (map_of (nodes u)) ?h (root (fd_lookup w ?n)) h r) (\<lambda>_ _. False) v"
  proof (cases "?h < ?nh")
    case False
    then have "h = ?h" by (simp add: h_def)
    then show ?thesis using False W(2) [OF r0]
      by (simp add: wp_simps v_def) (rule exI [of _ "root (fd_lookup w ?n)"], simp add: grown_refl)
  next
    case True
    then have hh: "h = ?nh" "?h + (?nh - ?h) = ?nh" by (simp_all add: h_def)
    have "wf_tree (map_of (nodes v)) ?h (root (fd_lookup v ?n))" using W(2) [OF r0] by (simp add: v_def)
    from grow_loop_wp [OF M fd this, of "?nh - ?h"] show ?thesis
      unfolding hh(2) using True
      by (auto simp: wp_simps v_def file_update_def hh(1) elim!: wp_mono)
  qed
  show ?thesis
    using False fd
    apply (simp add: map_chunk_def wp_simps wp_get_nvf Let_def v del: wp_whenP flip: a_def v_def)
    apply (rule wp_mono [OF grow])
     apply clarsimp
     apply (rule wp_mono [OF ins])
    apply simp_all
    done
qed

section \<open>The cache of mappings\<close>

text \<open>
  The abstract view: which chunk of which file is mapped where, and how often the library found
  a mapping or made one.
\<close>

record cache =
  c_map :: "nat \<Rightarrow> nat \<Rightarrow> nat"
  c_hits :: nat
  c_maps :: nat

definition abs_cache :: "lib \<Rightarrow> cache" where
  "abs_cache w = \<lparr>c_map = (\<lambda>n c. if n < 1024 then chunk_addr w n c else 0),
     c_hits = hit_count w, c_maps = mmap_count w\<rparr>"

definition cache_get :: "env \<Rightarrow> int \<Rightarrow> int \<Rightarrow> nat \<Rightarrow> cache \<Rightarrow> nat option \<times> cache" where
  "cache_get e fd perms c s =
     (if c_map s (nat fd) c \<noteq> 0 then (Some (c_map s (nat fd) c), s\<lparr>c_hits := Suc (c_hits s)\<rparr>)
      else let a = e_mmap e fd perms (2097152 * int c) (c_maps s) in
           if a = MAP_FAILED then (None, s\<lparr>c_maps := Suc (c_maps s)\<rparr>)
           else (Some a, s\<lparr>c_map := (c_map s)(nat fd := (c_map s (nat fd))(c := a)),
                           c_maps := Suc (c_maps s)\<rparr>))"

text \<open>The fields of a file that the cache leaves alone.\<close>

definition file_view :: "nvfile \<Rightarrow> int \<times> int \<times> int \<times> int \<times> int" where
  "file_view f = (valid f, canRead f, canWrite f, offset f, length_of f)"

lemma lookup_wp:
  assumes "wf_lib w" "n < 1024" "root (fd_lookup w n) \<noteq> 0" and "0 \<le> off" "off < 2 ^ 52"
  shows "wp (lookup_loop (height (fd_lookup w n)) (root (fd_lookup w n)) off) Q E w =
    (let v = chunk_addr w n (chunk off) in Q (if v = 0 then None else Some v) w)"
proof (cases "chunk off < 1024 ^ Suc (height (fd_lookup w n))")
  case True
  then show ?thesis
    using lookup_loop_wp [OF wf_libD(2) [OF assms(1-3)] wf_libD(1) [OF assms(1,2)] assms(4) _ True]
      assms(3,5) by (simp add: chunk_addr_def Let_def)
next
  case False
  have "chunk off div 1024 ^ height (fd_lookup w n) \<le> chunk off" by (rule div_le_dividend)
  moreover have "chunk off < 2147483648" using assms(4,5) by (simp add: chunk_def MAX_MMAP_SIZE_def)
  ultimately have "chunk off div 1024 ^ height (fd_lookup w n) < 2147483648" by (rule le_less_trans)
  then show ?thesis
    using False assms wf_libD(1) [OF assms(1,2)] lookup_loop_beyond [of "height (fd_lookup w n)" off]
    by (simp add: chunk_addr_def Let_def)
qed

lemma align_chunk: "0 \<le> off \<Longrightarrow> ALIGN_MMAP_DOWN off = 2097152 * int (chunk off)"
  by (simp add: align_down chunk_def MAX_MMAP_SIZE_def minus_mod_eq_mult_div pos_imp_zdiv_nonneg_iff)

lemma mapped_abs:
  assumes "mapped w w' n c a" "n < 1024" "hit_count w' = hit_count w" "mmap_count w' = Suc (mmap_count w)"
  shows "abs_cache w' = (abs_cache w)\<lparr>c_map := (c_map (abs_cache w))(n := (c_map (abs_cache w) n)(c := a)),
    c_maps := Suc (c_maps (abs_cache w))\<rparr>"
  using assms by (auto simp: abs_cache_def mapped_def fun_eq_iff)

lemma get_mmap_address_wp:
  assumes e: "env_ok e" and wf: "wf_lib w" and fd: "is_fd fd"
    and r0: "root (fd_lookup w (nat fd)) \<noteq> 0" and off: "0 \<le> off" "off < 2 ^ 52"
  shows "wp (get_mmap_address e fd off len perms)
    (\<lambda>(p, n) w'. (\<exists>a. cache_get e fd perms (chunk off) (abs_cache w) = (Some a, abs_cache w')
          \<and> p = a + nat (off mod 2097152))
        \<and> n = min len (2097152 - off mod 2097152)
        \<and> wf_lib w' \<and> root (fd_lookup w' (nat fd)) \<noteq> 0
        \<and> (\<forall>m. file_view (fd_lookup w' m) = file_view (fd_lookup w m)))
    (\<lambda>x _. x = Trap Assert_Failed \<and> fst (cache_get e fd perms (chunk off) (abs_cache w)) = None) w"
proof -
  let ?n = "nat fd" and ?c = "chunk off"
  note n = is_fd_nat [OF fd]
  have off63: "off < 2 ^ 63" using off(2) by simp
  have inner: "off smod 2097152 = off mod 2097152"
    using off(1) by (cases "off = 0") (simp_all add: signed_modulo_int_def sgn_if)
  have mod_b: "0 \<le> off mod 2097152" "off mod 2097152 < 2097152" by simp_all
  have res: "u64 (2097152 - off mod 2097152) = 2097152 - off mod 2097152"
  proof (rule u64_id)
    have "(2097152 :: int) < 2 ^ 64" by simp
    then show "2097152 - off mod 2097152 < 2 ^ 64" using mod_b(1) by linarith
  qed (use mod_b(2) in linarith)
  have cm: "c_map (abs_cache w) ?n ?c = chunk_addr w ?n ?c" using n by (simp add: abs_cache_def)
  have cmaps: "c_maps (abs_cache w) = mmap_count w" by (simp add: abs_cache_def)
  show ?thesis
  proof (cases "chunk_addr w ?n ?c = 0")
    case False
    let ?w = "hit_count_update Suc w"
    have view: "wf_lib ?w \<longleftrightarrow> wf_lib w" "chunk_addr ?w = chunk_addr w"
      by (rule wf_lib_cong; simp)+
    have abs: "abs_cache ?w = (abs_cache w)\<lparr>c_hits := Suc (c_hits (abs_cache w))\<rparr>"
      by (simp add: abs_cache_def view cong: if_cong)
    show ?thesis
      using False fd wf r0 off mod_b cm
      by (simp add: get_mmap_address_def wp_simps wp_get_nvf lookup_wp [OF wf n r0 off] Let_def inner
          cache_get_def abs view MAX_MMAP_SIZE_def res nat_add_distrib min_def)
  next
    case True
    have C: "cache_get e fd perms ?c (abs_cache w) =
      (let a = e_mmap e fd perms (ALIGN_MMAP_DOWN off) (mmap_count w) in
           if a = MAP_FAILED then (None, (abs_cache w)\<lparr>c_maps := Suc (c_maps (abs_cache w))\<rparr>)
           else (Some a, (abs_cache w)\<lparr>c_map := (c_map (abs_cache w))(?n := (c_map (abs_cache w) ?n)(?c := a)),
                           c_maps := Suc (c_maps (abs_cache w))\<rparr>))"
      using True cm off(1) cmaps by (simp add: cache_get_def align_chunk)
    show ?thesis
      using fd True
      apply (simp add: get_mmap_address_def wp_simps wp_get_nvf lookup_wp [OF wf n r0 off] Let_def inner
          MAX_MMAP_SIZE_def res)
      apply (rule wp_mono [OF map_chunk_wp [OF e wf fd r0 off(1) off63]])
       apply (auto simp: C Let_def mapped_abs [OF _ n] nat_add_distrib)
        apply (auto simp: mapped_def file_view_def)
      done
  qed
qed

section \<open>The contract of a mapping cache\<close>

text \<open>A list of calls, one after the other.\<close>

fun each :: "('b \<Rightarrow> ('w, 'a) prog) \<Rightarrow> 'b list \<Rightarrow> ('w, 'a list) prog" where
  "each f [] = ret []"
| "each f (x # xs) = bindP (f x) (\<lambda>a. bindP (each f xs) (\<lambda>as. ret (a # as)))"

text \<open>
  What the readers rely on: a request for a range of a file returns a pointer into the mapping of
  the chunk that holds it and how much of the range lies in that chunk; a mapping is made at most
  once and never moves.
\<close>

locale mapping_cache =
  fixes ready :: "'e \<Rightarrow> int \<Rightarrow> 'w \<Rightarrow> bool"
    and addr :: "int \<Rightarrow> 'w \<Rightarrow> nat \<Rightarrow> nat"
    and maps :: "'w \<Rightarrow> nat"
    and get :: "'e \<Rightarrow> int \<Rightarrow> int \<Rightarrow> int \<Rightarrow> int \<Rightarrow> ('w, nat \<times> int) prog"
  assumes get_law: "ready e fd w \<Longrightarrow> 0 \<le> off \<Longrightarrow> off < 2 ^ 52 \<Longrightarrow>
    wp (get e fd off len perms)
      (\<lambda>r w'. ready e fd w' \<and> addr fd w' (chunk off) \<noteq> 0
          \<and> (\<forall>c. c \<noteq> chunk off \<longrightarrow> addr fd w' c = addr fd w c)
          \<and> (\<forall>c. addr fd w c \<noteq> 0 \<longrightarrow> addr fd w' c = addr fd w c)
          \<and> maps w' = maps w + (if addr fd w (chunk off) = 0 then 1 else 0)
          \<and> r = (addr fd w' (chunk off) + nat (off mod 2097152), min len (2097152 - off mod 2097152)))
      (\<lambda>_ _. False) w"
begin

lemma each_law:
  assumes "ready e fd w" and "\<forall>(off, len) \<in> set reqs. 0 \<le> off \<and> off < 2 ^ 52"
  shows "wp (each (\<lambda>(off, len). get e fd off len perms) reqs)
    (\<lambda>rs w'. ready e fd w' \<and> (\<forall>c. addr fd w c \<noteq> 0 \<longrightarrow> addr fd w' c = addr fd w c)
       \<and> maps w' = maps w + card ((\<lambda>(off, len). chunk off) ` set reqs - {c. addr fd w c \<noteq> 0})
       \<and> rs = map (\<lambda>(off, len). (addr fd w' (chunk off) + nat (off mod 2097152),
                                min len (2097152 - off mod 2097152))) reqs)
    (\<lambda>_ _. False) w"
  using assms
proof (induction reqs arbitrary: w)
  case Nil
  then show ?case by (simp add: wp_simps)
next
  case (Cons r reqs)
  obtain off len where r: "r = (off, len)" by (cases r)
  have off: "0 \<le> off" "off < 2 ^ 52" using Cons.prems(2) by (simp_all add: r)
  let ?C = "(\<lambda>(off, len). chunk off) ` set reqs" and ?M = "\<lambda>w. {c. addr fd w c \<noteq> 0}"
  show ?case
    unfolding each.simps wp_bindP r prod.case
  proof (rule wp_mono [OF get_law [OF Cons.prems(1) off]], elim conjE)
    fix a w1
    assume rd: "ready e fd w1" and nz: "addr fd w1 (chunk off) \<noteq> 0"
      and fr1: "\<forall>c. c \<noteq> chunk off \<longrightarrow> addr fd w1 c = addr fd w c"
      and fr2: "\<forall>c. addr fd w c \<noteq> 0 \<longrightarrow> addr fd w1 c = addr fd w c"
      and mp: "maps w1 = maps w + (if addr fd w (chunk off) = 0 then 1 else 0)"
      and a: "a = (addr fd w1 (chunk off) + nat (off mod 2097152), min len (2097152 - off mod 2097152))"
    have M: "?M w1 = insert (chunk off) (?M w)"
    proof (rule set_eqI)
      fix c show "c \<in> ?M w1 \<longleftrightarrow> c \<in> insert (chunk off) (?M w)"
        using fr1 nz by (cases "c = chunk off") auto
    qed
    have card: "card (insert (chunk off) ?C - ?M w)
        = (if addr fd w (chunk off) = 0 then 1 else 0) + card (?C - ?M w1)"
    proof (cases "addr fd w (chunk off) = 0")
      case True
      then have "insert (chunk off) ?C - ?M w = insert (chunk off) (?C - ?M w1)" unfolding M by auto
      moreover have "card (insert (chunk off) (?C - ?M w1)) = Suc (card (?C - ?M w1))"
        using nz by (intro card_insert_disjoint) simp_all
      ultimately have "card (insert (chunk off) ?C - ?M w) = Suc (card (?C - ?M w1))" by (rule ssubst)
      then show ?thesis using True by simp
    next
      case False
      then have "insert (chunk off) ?C - ?M w = ?C - ?M w1" unfolding M by auto
      then show ?thesis using False by simp
    qed
    have "wp (each (\<lambda>(off, len). get e fd off len perms) reqs)
      (\<lambda>rs w'. ready e fd w' \<and> (\<forall>c. addr fd w1 c \<noteq> 0 \<longrightarrow> addr fd w' c = addr fd w1 c)
         \<and> maps w' = maps w1 + card (?C - ?M w1)
         \<and> rs = map (\<lambda>(off, len). (addr fd w' (chunk off) + nat (off mod 2097152),
                                  min len (2097152 - off mod 2097152))) reqs)
      (\<lambda>_ _. False) w1"
      using rd Cons.prems(2) by (intro Cons.IH) auto
    then show "wp (each (\<lambda>(off, len). get e fd off len perms) reqs)
        (\<lambda>b. wp (ret (a # b)) (\<lambda>rs w'. ready e fd w' \<and> (\<forall>c. addr fd w c \<noteq> 0 \<longrightarrow> addr fd w' c = addr fd w c)
         \<and> maps w' = maps w + card ((\<lambda>(off, len). chunk off) ` set ((off, len) # reqs) - ?M w)
         \<and> rs = map (\<lambda>(off, len). (addr fd w' (chunk off) + nat (off mod 2097152),
                                  min len (2097152 - off mod 2097152))) ((off, len) # reqs))
        (\<lambda>_ _. False)) (\<lambda>_ _. False) w1"
    proof (rule wp_mono, unfold wp_ret, elim conjE)
      fix b w'
      assume *: "ready e fd w'" "\<forall>c. addr fd w1 c \<noteq> 0 \<longrightarrow> addr fd w' c = addr fd w1 c"
        "maps w' = maps w1 + card (?C - ?M w1)"
        "b = map (\<lambda>(off, len). (addr fd w' (chunk off) + nat (off mod 2097152),
                                  min len (2097152 - off mod 2097152))) reqs"
      have "addr fd w' c = addr fd w c" if "addr fd w c \<noteq> 0" for c
        using fr2 *(2) that by simp
      moreover have "addr fd w' (chunk off) = addr fd w1 (chunk off)" using *(2) nz by simp
      ultimately show "ready e fd w' \<and> (\<forall>c. addr fd w c \<noteq> 0 \<longrightarrow> addr fd w' c = addr fd w c)
         \<and> maps w' = maps w + card ((\<lambda>(off, len). chunk off) ` set ((off, len) # reqs) - ?M w)
         \<and> a # b = map (\<lambda>(off, len). (addr fd w' (chunk off) + nat (off mod 2097152),
                                  min len (2097152 - off mod 2097152))) ((off, len) # reqs)"
        using *(1,3,4) a mp card by simp
    qed simp
  qed simp
qed

end

text \<open>The library provides it, in an environment whose \<open>mmap\<close> does not fail.\<close>

definition mmap_ready :: "env \<Rightarrow> int \<Rightarrow> lib \<Rightarrow> bool" where
  "mmap_ready e fd w \<longleftrightarrow> env_ok e \<and> (\<forall>d p off k. e_mmap e d p off k \<noteq> MAP_FAILED)
     \<and> wf_lib w \<and> is_fd fd \<and> root (fd_lookup w (nat fd)) \<noteq> 0"

lemma cache_get_facts:
  assumes "cache_get e fd perms c s = (Some a, s')"
    and "\<And>off k. e_mmap e fd perms off k \<noteq> 0"
  shows "a \<noteq> 0" "c_map s' (nat fd) = (c_map s (nat fd))(c := a)"
    and "c_map s (nat fd) c \<noteq> 0 \<Longrightarrow> a = c_map s (nat fd) c"
    and "c_maps s' = c_maps s + (if c_map s (nat fd) c = 0 then 1 else 0)"
  using assms by (auto simp: cache_get_def Let_def split: if_splits)

lemma cache_get_ready:
  assumes "mmap_ready e fd w" and get: "cache_get e fd perms c (abs_cache w) = (Some a, abs_cache w')"
  shows "a \<noteq> 0" "chunk_addr w' (nat fd) c = a"
    and "c' \<noteq> c \<Longrightarrow> chunk_addr w' (nat fd) c' = chunk_addr w (nat fd) c'"
    and "chunk_addr w (nat fd) c' \<noteq> 0 \<Longrightarrow> chunk_addr w' (nat fd) c' = chunk_addr w (nat fd) c'"
    and "mmap_count w' = mmap_count w + (if chunk_addr w (nat fd) c = 0 then 1 else 0)"
proof -
  have n: "nat fd < 1024" using assms(1) is_fd_nat by (simp add: mmap_ready_def)
  have cm: "c_map (abs_cache v) (nat fd) = chunk_addr v (nat fd)" "c_maps (abs_cache v) = mmap_count v" for v
    using n by (simp_all add: abs_cache_def)
  have nz: "e_mmap e fd perms off k \<noteq> 0" for off k
    using assms(1) by (simp add: mmap_ready_def env_okD)
  note F = cache_get_facts [OF get nz, unfolded cm]
  show "a \<noteq> 0" "chunk_addr w' (nat fd) c = a"
    "c' \<noteq> c \<Longrightarrow> chunk_addr w' (nat fd) c' = chunk_addr w (nat fd) c'"
    "chunk_addr w (nat fd) c' \<noteq> 0 \<Longrightarrow> chunk_addr w' (nat fd) c' = chunk_addr w (nat fd) c'"
    "mmap_count w' = mmap_count w + (if chunk_addr w (nat fd) c = 0 then 1 else 0)"
    using F by (auto simp: fun_upd_def)
qed

interpretation noposix: mapping_cache mmap_ready "\<lambda>fd w. chunk_addr w (nat fd)" mmap_count get_mmap_address
proof
  fix e fd w off len perms
  assume rd: "mmap_ready e fd w" and off: "(0 :: int) \<le> off" "off < 2 ^ 52"
  then have r: "env_ok e" "wf_lib w" "is_fd fd" "root (fd_lookup w (nat fd)) \<noteq> 0"
    by (simp_all add: mmap_ready_def)
  have some: "fst (cache_get e fd perms c s) = None \<Longrightarrow> False" for c s
    using rd by (auto simp: cache_get_def mmap_ready_def Let_def split: if_splits)
  show "wp (get_mmap_address e fd off len perms)
      (\<lambda>r w'. mmap_ready e fd w' \<and> chunk_addr w' (nat fd) (chunk off) \<noteq> 0
          \<and> (\<forall>c. c \<noteq> chunk off \<longrightarrow> chunk_addr w' (nat fd) c = chunk_addr w (nat fd) c)
          \<and> (\<forall>c. chunk_addr w (nat fd) c \<noteq> 0 \<longrightarrow> chunk_addr w' (nat fd) c = chunk_addr w (nat fd) c)
          \<and> mmap_count w' = mmap_count w + (if chunk_addr w (nat fd) (chunk off) = 0 then 1 else 0)
          \<and> r = (chunk_addr w' (nat fd) (chunk off) + nat (off mod 2097152), min len (2097152 - off mod 2097152)))
      (\<lambda>_ _. False) w"
    using cache_get_ready [OF rd] rd
    by (intro wp_mono [OF get_mmap_address_wp [OF r off]])
      (auto simp: mmap_ready_def split: prod.splits dest: some)
qed

section \<open>A concrete library state\<close>

definition sample_env :: env where
  "sample_env = \<lparr>e_malloc = (\<lambda>used. Suc (sum_list used)),
     e_mmap = (\<lambda>fd p off k. 2097152 * Suc k)\<rparr>"

text \<open>Descriptor 3 is open for reading and writing on a file of 10000000 bytes, with an empty root.\<close>

definition sample_lib :: lib where
  "sample_lib = init_lib\<lparr>fd_lookup := (fd_lookup init_lib)(3 := \<lparr>valid = 1, canRead = 1, canWrite = 1,
       offset = 0, length_of = 10000000, maplength = 0, root = 1, height = 0\<rparr>),
     nodes := [(1, \<lambda>_. 0)]\<rparr>"

lemma sample_env_ok: "env_ok sample_env" "malloc_ok sample_env"
proof -
  have "Suc (sum_list used) \<notin> set used" for used
    using member_le_sum_list [of "Suc (sum_list used)" used] by auto
  then show "malloc_ok sample_env" by (simp add: malloc_ok_def sample_env_def)
  then show "env_ok sample_env" by (simp add: env_ok_def) (simp add: sample_env_def)
qed

lemma sample_lib_sel [simp]:
  "fd_lookup sample_lib 3 = \<lparr>valid = 1, canRead = 1, canWrite = 1, offset = 0, length_of = 10000000,
     maplength = 0, root = 1, height = 0\<rparr>"
  "n \<noteq> 3 \<Longrightarrow> fd_lookup sample_lib n = fd_lookup init_lib n"
  "nodes sample_lib = [(1, \<lambda>_. 0)]" "hit_count sample_lib = 0" "mmap_count sample_lib = 0"
  by (simp_all add: sample_lib_def init_lib_def)

lemma init_lib_sel [simp]: "root (fd_lookup init_lib n) = 0" "height (fd_lookup init_lib n) = 0"
  by (simp_all add: init_lib_def)

lemma sample_lib_wf: "wf_lib sample_lib"
proof -
  have "root (fd_lookup sample_lib n) = (if n = 3 then 1 else 0)" "height (fd_lookup sample_lib n) = 0" for n
    by (cases "n = 3"; simp)+
  then show ?thesis by (auto simp: wf_lib_def file_nodes_def Let_def)
qed

lemma sample_ready: "mmap_ready sample_env 3 sample_lib"
proof -
  have "2097152 * Suc k \<noteq> MAP_FAILED" for k
  proof
    have "even (2097152 * Suc k)" by (rule even_mult_iff [THEN iffD2]) simp
    moreover assume "2097152 * Suc k = MAP_FAILED"
    ultimately have "even MAP_FAILED" by (rule subst [rotated])
    then show False by (simp add: MAP_FAILED_def)
  qed
  then show ?thesis
    using sample_env_ok sample_lib_wf by (simp add: mmap_ready_def OPEN_MAX_def) (simp add: sample_env_def)
qed

lemma sample_addr [simp]: "chunk_addr sample_lib 3 c = 0"
  by (simp add: chunk_addr_def entries_def Let_def)

section \<open>Properties\<close>

text \<open>
  C1: \<open>get_mmap_address\<close> refines the cache of mappings: for every offset below 4 PB of an open
  file it returns the address that the abstract cache returns, plus the offset within the
  chunk, and the number of bytes of the request that lie in the chunk; the new state represents
  the new state of the cache and is well formed; the only early end is the failed assertion
  after a failed \<open>mmap\<close>, exactly when the abstract cache has no result.
\<close>

theorem get_mmap_address_refines:
  assumes "env_ok e" "wf_lib w" "0 \<le> fd" "fd < 1024" "root (fd_lookup w (nat fd)) \<noteq> 0"
    and "0 \<le> off" "off < 2 ^ 52"
  shows "wp (get_mmap_address e fd off len perms)
    (\<lambda>(p, n) w'. (\<exists>a. cache_get e fd perms (chunk off) (abs_cache w) = (Some a, abs_cache w')
          \<and> p = a + nat (off mod 2097152))
        \<and> n = min len (2097152 - off mod 2097152)
        \<and> wf_lib w' \<and> root (fd_lookup w' (nat fd)) \<noteq> 0
        \<and> (\<forall>m. file_view (fd_lookup w' m) = file_view (fd_lookup w m)))
    (\<lambda>x _. x = Trap Assert_Failed \<and> fst (cache_get e fd perms (chunk off) (abs_cache w)) = None) w"
  using assms by (intro get_mmap_address_wp) (simp_all add: OPEN_MAX_def)

theorem get_mmap_address_refines_witness:
  "wp (get_mmap_address sample_env 3 (2 ^ 40 + 5) 100 1) (\<lambda>(p, n) w'. n = 100 \<and> wf_lib w')
     (\<lambda>x _. x = Trap Assert_Failed) sample_lib"
  using sample_env_ok sample_lib_wf
  by (intro wp_mono [OF get_mmap_address_refines [of sample_env sample_lib 3 "2 ^ 40 + 5" 100 1]]) auto

text \<open>
  C2: Over any sequence of accesses to an open file, each 2 MB chunk is mapped at most once: the
  number of \<open>mmap\<close> calls grows by the number of chunks touched that were not mapped before, no
  mapping ever moves, and every access got the address of its chunk in the final state.
\<close>

theorem accesses_map_once:
  assumes "mmap_ready e fd w" and "\<forall>(off, len) \<in> set reqs. 0 \<le> off \<and> off < 2 ^ 52"
  shows "wp (each (\<lambda>(off, len). get_mmap_address e fd off len perms) reqs)
    (\<lambda>rs w'. (\<forall>c. chunk_addr w (nat fd) c \<noteq> 0 \<longrightarrow> chunk_addr w' (nat fd) c = chunk_addr w (nat fd) c)
       \<and> mmap_count w' = mmap_count w
           + card ((\<lambda>(off, len). chunk off) ` set reqs - {c. chunk_addr w (nat fd) c \<noteq> 0})
       \<and> rs = map (\<lambda>(off, len). (chunk_addr w' (nat fd) (chunk off) + nat (off mod 2097152),
                                min len (2097152 - off mod 2097152))) reqs)
    (\<lambda>_ _. False) w"
  using noposix.each_law [OF assms] by (rule wp_mono) auto

theorem accesses_map_once_witness:
  "wp (each (\<lambda>(off, len). get_mmap_address sample_env 3 off len 3) [(0, 4096), (5000000, 10), (100, 8)])
     (\<lambda>rs w'. mmap_count w' = 2 \<and> map snd rs = [4096, 10, 8]) (\<lambda>_ _. False) sample_lib"
proof -
  have "(\<lambda>(off :: int, len :: int). chunk off) ` set [(0, 4096), (5000000, 10), (100, 8)]
      - {c. chunk_addr sample_lib (nat 3) c \<noteq> 0} = {0, 2}"
    by (auto simp: chunk_def MAX_MMAP_SIZE_def)
  then show ?thesis
    using sample_ready
    by (intro wp_mono [OF accesses_map_once [of sample_env 3 sample_lib "[(0, 4096), (5000000, 10), (100, 8)]" 3]])
      simp_all
qed

end
