(* ===== verification/Noposix_Files.thy ===== *)
theory Noposix_Files
  imports Noposix_Ops
begin

text \<open>
  The calls that programs make: \<open>open1\<close>, \<open>pread1\<close>, \<open>read1\<close>, \<open>lseek1\<close> and \<open>close1\<close> of
  \<open>lib/fileops_noposix.c\<close>, on top of the cache of mappings, and the inputs on which the library
  does not do what its callers expect: read-only files, offsets from 4 PB on, closed files, and
  the memory that \<open>close1\<close> does not give back.
\<close>

section \<open>Opening\<close>

lemma file_nodes_0: "root (fd_lookup w n) = 0 \<Longrightarrow> file_nodes w n = {}"
  by (simp add: file_nodes_def Let_def)

text \<open>A file whose root is an empty table has nothing mapped.\<close>

lemma empty_root:
  assumes "map_of (nodes w) r = Some (\<lambda>_. 0)" "r \<noteq> 0" "root (fd_lookup w n) = r"
  shows "wf_tree (map_of (nodes w)) h r" "file_nodes w n = {r}" "chunk_addr w n c = 0"
proof -
  have "entries (map_of (nodes w)) r = (\<lambda>_. 0)" "r \<in> dom (map_of (nodes w))"
    using assms(1) by (auto simp: entries_def)
  from fresh_leaf [OF this(1) assms(2) this(2)]
  show "wf_tree (map_of (nodes w)) h r" "file_nodes w n = {r}" "chunk_addr w n c = 0"
    using assms by (simp_all add: file_nodes_def chunk_addr_def Let_def)
qed

definition opened :: "lib \<Rightarrow> lib \<Rightarrow> nat \<Rightarrow> bool" where
  "opened w w' n \<longleftrightarrow> wf_lib w' \<and> root (fd_lookup w' n) \<noteq> 0 \<and> (\<forall>c. chunk_addr w' n c = 0)
     \<and> (\<forall>m < 1024. m \<noteq> n \<longrightarrow> fd_lookup w' m = fd_lookup w m \<and> chunk_addr w' m = chunk_addr w m)
     \<and> hit_count w' = hit_count w \<and> mmap_count w' = mmap_count w"

lemma opened_intro:
  assumes wf: "wf_lib w" and n: "n < 1024" and r: "r \<noteq> 0" "r \<in> file_nodes w n \<or> r \<notin> dom (map_of (nodes w))"
    and al: "map_of (nodes w') = (map_of (nodes w))(r \<mapsto> (\<lambda>_. 0))"
    and fl: "fd_lookup w' = (fd_lookup w)(n := f')" "root f' = r" "height f' = height (fd_lookup w n)"
    and cnt: "hit_count w' = hit_count w" "mmap_count w' = mmap_count w"
  shows "opened w w' n"
proof -
  have root: "root (fd_lookup w' n) = r" "map_of (nodes w') r = Some (\<lambda>_. 0)" by (simp_all add: fl al)
  note E = empty_root [OF root(2) r(1) root(1)]
  note step = lib_step [OF wf n fl(1)]
  have frame: "map_of (nodes w') q = map_of (nodes w) q"
    if "q \<in> dom (map_of (nodes w))" "q \<notin> file_nodes w n" for q
    using that r(2) by (auto simp: al)
  have h: "height f' \<le> 4" using wf_libD(1) [OF wf n] fl(3) by simp
  have t: "wf_tree (map_of (nodes w')) (height f') (root f')" using E(1) fl(2) by simp
  have new: "file_nodes w' n \<subseteq> file_nodes w n \<union> - dom (map_of (nodes w))" using r(2) E(2) by auto
  show ?thesis unfolding opened_def
    using step(1) [OF frame h t new] step(2) [OF frame h t new] root(1) r(1) E(3) cnt
    by (auto simp: fl(1))
qed

lemma init_file_wp:
  assumes M: "malloc_ok e" and wf: "wf_lib w" and fd: "is_fd fd"
  shows "wp (init_file e fd)
    (\<lambda>_ w'. opened w w' (nat fd) \<and> file_view (fd_lookup w' (nat fd)) = file_view (fd_lookup w (nat fd)))
    (\<lambda>_ _. False) w"
proof (cases "root (fd_lookup w (nat fd)) = 0")
  case True
  then show ?thesis
    using fd malloc_fresh [OF M, of "nodes w"]
    by (auto simp: init_file_def wp_simps wp_get_nvf wp_new_node [OF M] Let_def update_conv' file_view_def
        intro!: opened_intro [OF wf is_fd_nat [OF fd], where r = "e_malloc e (map fst (nodes w))"])
next
  case False
  let ?r = "root (fd_lookup w (nat fd))"
  have r: "?r \<in> file_nodes w (nat fd)" using False by (simp add: file_nodes_def Let_def)
  obtain a where a: "map_of (nodes w) ?r = Some a"
    using wf_libD(4) [OF wf is_fd_nat [OF fd]] r by blast
  show ?thesis
    using fd False a r
    by (auto simp: init_file_def wp_simps wp_get_nvf update_conv' file_view_def clear_node_def wp_def
        get_nvf_def bindP_def query_def
        intro!: opened_intro [OF wf is_fd_nat [OF fd], where r = ?r])
qed

text \<open>The fields that \<open>open1\<close> sets before it initialises the tree.\<close>

definition open_fields :: "int \<Rightarrow> int \<Rightarrow> nvfile \<Rightarrow> nvfile" where
  "open_fields st_size oflag f = f\<lparr>length_of := u64 st_size, maplength := 0, valid := 1, offset := 0,
     canRead := (if oflag AND F_RDWR \<noteq> 0 then 1 else 0),
     canWrite := (if oflag AND F_RDWR \<noteq> 0 \<or> oflag AND F_WRONLY \<noteq> 0 then 1 else 0)\<rparr>"

lemma open_fields_sel [simp]:
  "root (open_fields st fl f) = root f" "height (open_fields st fl f) = height f"
  by (simp_all add: open_fields_def)

lemma file_update_twice [simp]:
  "file_update fd g (file_update fd f w) = file_update fd (g \<circ> f) w"
  by (simp add: file_update_def)

lemma file_update_cong: "(\<And>f. g f = h f) \<Longrightarrow> file_update fd g w = file_update fd h w"
  by (simp add: file_update_def)

lemma file_update_abs:
  assumes "\<And>f. root (g f) = root f" "\<And>f. height (g f) = height f"
  shows "wf_lib (file_update fd g w) = wf_lib w" "chunk_addr (file_update fd g w) = chunk_addr w"
    "file_nodes (file_update fd g w) = file_nodes w"
  by (rule wf_lib_cong; simp add: assms)+

lemma open1_eq:
  assumes "is_fd fd"
  shows "wp (open1 e fd st fl) Q E w =
    wp (init_file e fd) (\<lambda>_. Q fd) E (file_update fd (open_fields st fl) w)"
proof -
  have zero: "fl AND F_RDONLY = 0" by (simp add: F_RDONLY_def)
  show ?thesis
    using assms
    by (auto simp: open1_def wp_simps wp_get_nvf zero comp_def open_fields_def
        intro!: arg_cong [where f = "wp (init_file e fd) (\<lambda>_. Q fd) E"] file_update_cong)
qed

lemma open1_wp:
  assumes M: "malloc_ok e" and wf: "wf_lib w" and fd: "is_fd fd"
  shows "wp (open1 e fd st fl)
    (\<lambda>r w'. r = fd \<and> opened w w' (nat fd)
        \<and> file_view (fd_lookup w' (nat fd)) = file_view (open_fields st fl (fd_lookup w (nat fd))))
    (\<lambda>_ _. False) w"
proof -
  let ?w = "file_update fd (open_fields st fl) w"
  have A: "wf_lib ?w = wf_lib w" "chunk_addr ?w = chunk_addr w"
    by (simp_all add: file_update_abs)
  have "wf_lib ?w" using wf A by simp
  from init_file_wp [OF M this fd] show ?thesis
    by (auto simp: open1_eq [OF fd] opened_def A elim!: wp_mono)
qed

section \<open>Reading\<close>

text \<open>How many bytes of a request are served: up to the end of the file and of the chunk.\<close>

definition served :: "int \<Rightarrow> int \<Rightarrow> int \<Rightarrow> int" where
  "served len sz off =
     (if len \<le> off then 0 else min (min sz (len - off)) (2097152 - off mod 2097152))"

lemma served_bounds:
  "0 \<le> sz \<Longrightarrow> 0 \<le> served len sz off" "0 < sz \<Longrightarrow> off < len \<Longrightarrow> 0 < served len sz off"
  "0 \<le> sz \<Longrightarrow> served len sz off \<le> sz" "0 \<le> sz \<Longrightarrow> off \<le> len \<Longrightarrow> off + served len sz off \<le> len"
  "served len sz off \<le> 2097152 - off mod 2097152"
proof -
  have "0 < 2097152 - off mod 2097152" by simp
  then show "0 \<le> sz \<Longrightarrow> 0 \<le> served len sz off" "0 < sz \<Longrightarrow> off < len \<Longrightarrow> 0 < served len sz off"
    "0 \<le> sz \<Longrightarrow> served len sz off \<le> sz" "0 \<le> sz \<Longrightarrow> off \<le> len \<Longrightarrow> off + served len sz off \<le> len"
    "served len sz off \<le> 2097152 - off mod 2097152"
    by (auto simp: served_def min_def)
qed

definition same_views :: "lib \<Rightarrow> lib \<Rightarrow> bool" where
  "same_views w w' \<longleftrightarrow> (\<forall>m. file_view (fd_lookup w' m) = file_view (fd_lookup w m))"

lemma get_mmap_address_ready:
  assumes rd: "mmap_ready e fd w" and off: "0 \<le> off" "off < 2 ^ 52"
  shows "wp (get_mmap_address e fd off len perms)
    (\<lambda>r w'. mmap_ready e fd w' \<and> same_views w w' \<and> chunk_addr w' (nat fd) (chunk off) \<noteq> 0
        \<and> (\<forall>c. c \<noteq> chunk off \<longrightarrow> chunk_addr w' (nat fd) c = chunk_addr w (nat fd) c)
        \<and> (\<forall>c. chunk_addr w (nat fd) c \<noteq> 0 \<longrightarrow> chunk_addr w' (nat fd) c = chunk_addr w (nat fd) c)
        \<and> (chunk_addr w (nat fd) (chunk off) = 0 \<longrightarrow>
             chunk_addr w' (nat fd) (chunk off) = e_mmap e fd perms (off - off mod 2097152) (mmap_count w))
        \<and> r = (chunk_addr w' (nat fd) (chunk off) + nat (off mod 2097152),
               min len (2097152 - off mod 2097152)))
    (\<lambda>_ _. False) w"
proof -
  have r: "env_ok e" "wf_lib w" "is_fd fd" "root (fd_lookup w (nat fd)) \<noteq> 0"
    using rd by (simp_all add: mmap_ready_def)
  have n: "nat fd < 1024" using r(3) by (rule is_fd_nat)
  have al: "off - off mod 2097152 = 2097152 * int (chunk off)"
    using off(1) by (simp add: align_chunk flip: align_down)
  have fresh: "a = e_mmap e fd perms (off - off mod 2097152) (mmap_count w)"
    if "cache_get e fd perms (chunk off) (abs_cache w) = (Some a, s')" "chunk_addr w (nat fd) (chunk off) = 0"
    for a s'
    using that n unfolding al by (auto simp: cache_get_def abs_cache_def Let_def split: if_splits)
  have some: "fst (cache_get e fd perms c s) = None \<Longrightarrow> False" for c s
    using rd by (auto simp: cache_get_def mmap_ready_def Let_def split: if_splits)
  show ?thesis
    using cache_get_ready [OF rd] rd fresh
    by (intro wp_mono [OF get_mmap_address_wp [OF r off]])
      (auto simp: mmap_ready_def same_views_def split: prod.splits dest: some)
qed

lemma do_pread_wp:
  assumes rd: "mmap_ready e fd w" and off: "0 \<le> off" "off < 2 ^ 52" and sz: "0 \<le> sz" "sz < 2 ^ 63"
    and len: "0 \<le> length_of (fd_lookup w (nat fd))" "length_of (fd_lookup w (nat fd)) < 2 ^ 63"
  defines "n \<equiv> served (length_of (fd_lookup w (nat fd))) sz off"
  shows "wp (do_pread e fd sz off)
    (\<lambda>(m, p) w'. m = n \<and> mmap_ready e fd w' \<and> same_views w w'
        \<and> (\<forall>c. chunk_addr w (nat fd) c \<noteq> 0 \<longrightarrow> chunk_addr w' (nat fd) c = chunk_addr w (nat fd) c)
        \<and> (if n = 0 then p = None \<and> w' = w
           else chunk_addr w' (nat fd) (chunk off) \<noteq> 0
             \<and> p = Some (chunk_addr w' (nat fd) (chunk off) + nat (off mod 2097152))
             \<and> (chunk_addr w (nat fd) (chunk off) = 0 \<longrightarrow> chunk_addr w' (nat fd) (chunk off)
                  = e_mmap e fd (max_perms_of (fd_lookup w (nat fd))) (off - off mod 2097152) (mmap_count w))))
    (\<lambda>_ _. False) w"
proof -
  let ?f = "fd_lookup w (nat fd)"
  let ?l = "if length_of ?f \<ge> off + sz then sz else length_of ?f - off"
  have fd: "is_fd fd" using rd by (simp add: mmap_ready_def)
  have u: "u64 off = off" "u64 (off + sz) = off + sz"
    using off sz by (simp_all add: u64_id)
  have small: "s64 (min x (2097152 - off mod 2097152)) = min x (2097152 - off mod 2097152)"
    if "0 < x" for x
  proof (rule s64_id)
    have "2097152 - off mod 2097152 \<le> 2097152" "(2097152 :: int) < 2 ^ 63" by simp_all
    then have "2097152 - off mod 2097152 < 2 ^ 63" by linarith
    then show "min x (2097152 - off mod 2097152) < 2 ^ 63" by (rule le_less_trans [OF min.cobounded2])
    have "0 < 2097152 - off mod 2097152" by simp
    with that have "0 < min x (2097152 - off mod 2097152)" by (simp only: min_less_iff_conj)
    moreover have "- (2 ^ 63) \<le> (0 :: int)" by simp
    ultimately show "- (2 ^ 63) \<le> min x (2097152 - off mod 2097152)" by linarith
  qed
  show ?thesis
  proof (cases "off < length_of ?f \<and> 0 < ?l")
    case False
    then have n0: "n = 0" using sz(1) by (auto simp: n_def served_def split: if_splits)
    have "sz = 0" if "off < length_of ?f" using that False sz(1) by (auto split: if_splits)
    then have "wp (do_pread e fd sz off) Q E w = Q (0, None) w" for Q E
      using fd len by (cases "off < length_of ?f") (auto simp: do_pread_def wp_simps wp_get_nvf u Let_def s64_id)
    then show ?thesis using rd n0 by (simp add: same_views_def)
  next
    case True
    have n1: "n = min ?l (2097152 - off mod 2097152)"
      using True by (auto simp: n_def served_def min_def)
    have "0 < 2097152 - off mod 2097152" by simp
    then have n2: "0 < n" unfolding n1 using True by simp
    have eq: "wp (do_pread e fd sz off) Q E w
        = wp (get_mmap_address e fd off ?l (max_perms_of ?f)) (\<lambda>(b, r). Q (s64 r, Some b)) E w" for Q E
    proof -
      have "s64 sz = sz" "u64 sz = sz" using sz by (simp_all add: s64_id u64_id)
      moreover have "u64 (length_of ?f - off) = length_of ?f - off"
        "s64 (length_of ?f - off) = length_of ?f - off"
        using True off(1) len by (auto simp: u64_id s64_id)
      ultimately show ?thesis
        using True fd by (cases "off + sz \<le> length_of ?f")
          (simp_all add: do_pread_def wp_simps wp_get_nvf u Let_def case_prod_unfold)
    qed
    have n3: "s64 (min ?l (2097152 - off mod 2097152)) = n"
      unfolding n1 using True by (intro small) blast
    obtain l where l: "l = ?l" by blast
    show ?thesis
      unfolding eq using n2 n3 unfolding l [symmetric]
      by (intro wp_mono [OF get_mmap_address_ready [OF rd off]]) simp_all
  qed
qed

text \<open>\<open>read1\<close> reads at the file's offset and moves it by what was served.\<close>

lemma mmap_ready_file_update:
  assumes "\<And>f. root (g f) = root f" "\<And>f. height (g f) = height f"
  shows "mmap_ready e fd (file_update fd' g w) = mmap_ready e fd w"
  using assms by (simp add: mmap_ready_def file_update_abs)

lemma read1_wp:
  assumes rd: "mmap_ready e fd w" and sz: "0 \<le> sz" "sz < 2 ^ 63"
    and off: "0 \<le> offset (fd_lookup w (nat fd))" "offset (fd_lookup w (nat fd)) < 2 ^ 52"
    and len: "0 \<le> length_of (fd_lookup w (nat fd))" "length_of (fd_lookup w (nat fd)) < 2 ^ 63"
  defines "off0 \<equiv> offset (fd_lookup w (nat fd))"
  defines "n \<equiv> served (length_of (fd_lookup w (nat fd))) sz off0"
  shows "wp (read1 e fd sz)
    (\<lambda>(m, p) w'. m = n \<and> mmap_ready e fd w'
        \<and> (\<forall>c. chunk_addr w (nat fd) c \<noteq> 0 \<longrightarrow> chunk_addr w' (nat fd) c = chunk_addr w (nat fd) c)
        \<and> (0 < n \<longrightarrow> chunk_addr w' (nat fd) (chunk off0) \<noteq> 0 \<and>
             p = Some (chunk_addr w' (nat fd) (chunk off0) + nat (off0 mod 2097152)))
        \<and> offset (fd_lookup w' (nat fd)) = off0 + n
        \<and> length_of (fd_lookup w' (nat fd)) = length_of (fd_lookup w (nat fd)))
    (\<lambda>_ _. False) w"
proof -
  have fd: "is_fd fd" using rd by (simp add: mmap_ready_def)
  have s: "s64 off0 = off0" using off by (simp add: off0_def s64_id)
  have n: "0 \<le> n" "n \<le> sz" using served_bounds sz(1) by (simp_all add: n_def)
  have u: "u64 (off0 + n) = off0 + n" using off n sz unfolding off0_def by (intro u64_id) simp_all
  have eq: "wp (read1 e fd sz) Q E w
      = wp (do_pread e fd sz off0) (\<lambda>(m, p) w'. Q (m, p) (file_update fd (offset_update (\<lambda>x. u64 (x + m))) w')) E w"
    for Q E using fd by (simp add: read1_def wp_simps wp_get_nvf s flip: off0_def)
      (simp add: case_prod_unfold wp_simps)
  have abs: "chunk_addr (file_update fd (offset_update f) v) = chunk_addr v"
    "mmap_ready e fd (file_update fd (offset_update f) v) = mmap_ready e fd v" for f v
    by (simp_all add: file_update_abs mmap_ready_file_update)
  have v: "offset (fd_lookup w' (nat fd)) = off0" "length_of (fd_lookup w' (nat fd)) = length_of (fd_lookup w (nat fd))"
    if "same_views w w'" for w' using that by (auto simp: same_views_def file_view_def off0_def)
  show ?thesis
    unfolding eq using off u n
    by (intro wp_mono [OF do_pread_wp [OF rd _ _ sz len, of off0]])
      (auto simp: off0_def [symmetric] n_def [symmetric] abs v split: prod.splits if_splits)
qed

text \<open>
  A request size that divides 2 MB, from an offset that is a multiple of it, never crosses the
  end of a chunk, so that reads inside the file are never short.
\<close>

lemma served_full:
  assumes "sz dvd 2097152" "sz dvd off" "0 < sz" "off + sz \<le> len"
  shows "served len sz off = sz"
proof -
  have "sz dvd 2097152 - off mod 2097152" using assms(1,2) by (simp add: dvd_mod)
  moreover have "0 < 2097152 - off mod 2097152" by simp
  ultimately have "sz \<le> 2097152 - off mod 2097152" by (intro zdvd_imp_le)
  then show ?thesis using assms(3,4) by (simp add: served_def min_def)
qed

text \<open>\<open>n\<close> sequential reads of one size, as the worker threads of the benchmarks make them.\<close>

definition read_run :: "env \<Rightarrow> int \<Rightarrow> int \<Rightarrow> nat \<Rightarrow> (int \<times> nat option) list lprog" where
  "read_run e fd sz n = each (\<lambda>_. read1 e fd sz) (replicate n ())"

lemma read_run_simps:
  "read_run e fd sz 0 = ret []"
  "read_run e fd sz (Suc n) = bindP (read1 e fd sz) (\<lambda>a. bindP (read_run e fd sz n) (\<lambda>as. ret (a # as)))"
  by (simp_all add: read_run_def)

lemma read_run_wp:
  assumes "mmap_ready e fd w" and sz: "0 < sz" "sz dvd 2097152"
    and "0 \<le> offset (fd_lookup w (nat fd))" "sz dvd offset (fd_lookup w (nat fd))"
    and "length_of (fd_lookup w (nat fd)) < 2 ^ 52"
    and "offset (fd_lookup w (nat fd)) + int n * sz \<le> length_of (fd_lookup w (nat fd))"
  shows "wp (read_run e fd sz n)
    (\<lambda>rs w'. mmap_ready e fd w'
        \<and> (\<forall>c. chunk_addr w (nat fd) c \<noteq> 0 \<longrightarrow> chunk_addr w' (nat fd) c = chunk_addr w (nat fd) c)
        \<and> length rs = n
        \<and> (\<forall>i < n. let o' = offset (fd_lookup w (nat fd)) + int i * sz in
             rs ! i = (sz, Some (chunk_addr w' (nat fd) (chunk o') + nat (o' mod 2097152))))
        \<and> offset (fd_lookup w' (nat fd)) = offset (fd_lookup w (nat fd)) + int n * sz)
    (\<lambda>_ _. False) w"
  using assms(1,4-)
proof (induction n arbitrary: w)
  case 0
  then show ?case by (simp add: read_run_simps wp_simps)
next
  case (Suc n)
  let ?o = "offset (fd_lookup w (nat fd))" and ?l = "length_of (fd_lookup w (nat fd))"
  let ?addr = "\<lambda>w o'. chunk_addr w (nat fd) (chunk o') + nat (o' mod 2097152)"
  have le: "?o + sz \<le> ?l"
  proof -
    have "0 \<le> int n * sz" using sz(1) by simp
    then show ?thesis using Suc.prems(5) by (simp add: algebra_simps)
  qed
  have full: "served ?l sz ?o = sz" using sz(2) Suc.prems(3) sz(1) le by (rule served_full)
  have szb: "0 \<le> sz" "sz < 2 ^ 63"
    using sz zdvd_imp_le [OF sz(2)] by simp_all
  have ob: "?o < 2 ^ 52" "0 \<le> ?l" "?l < 2 ^ 63" using Suc.prems(2,4) le sz(1) by simp_all
  note R = read1_wp [OF Suc.prems(1) szb Suc.prems(2) ob, unfolded full]
  show ?case
    unfolding read_run_simps wp_bindP
  proof (rule wp_mono [OF R], clarsimp)
    fix p w1
    assume rd: "mmap_ready e fd w1"
      and st: "\<forall>c. 0 < chunk_addr w (nat fd) c \<longrightarrow> chunk_addr w1 (nat fd) c = chunk_addr w (nat fd) c"
      and p: "0 < sz \<longrightarrow> 0 < chunk_addr w1 (nat fd) (chunk ?o) \<and> p = Some (?addr w1 ?o)"
      and o1: "offset (fd_lookup w1 (nat fd)) = ?o + sz" and l1: "length_of (fd_lookup w1 (nat fd)) = ?l"
    note ih = Suc.IH [OF rd, unfolded o1 l1, OF _ _ Suc.prems(4)]
    have ih: "wp (read_run e fd sz n) (\<lambda>as w'. mmap_ready e fd w'
          \<and> (\<forall>c. chunk_addr w1 (nat fd) c \<noteq> 0 \<longrightarrow> chunk_addr w' (nat fd) c = chunk_addr w1 (nat fd) c)
          \<and> length as = n
          \<and> (\<forall>i < n. let o' = ?o + sz + int i * sz in as ! i = (sz, Some (?addr w' o')))
          \<and> offset (fd_lookup w' (nat fd)) = ?o + sz + int n * sz) (\<lambda>_ _. False) w1"
      using Suc.prems(2,3,5) sz(1) by (intro ih) (simp_all add: algebra_simps)
    show "wp (read_run e fd sz n)
        (\<lambda>as. wp (ret ((sz, p) # as)) (\<lambda>rs w'. mmap_ready e fd w'
          \<and> (\<forall>c. 0 < chunk_addr w (nat fd) c \<longrightarrow> chunk_addr w' (nat fd) c = chunk_addr w (nat fd) c)
          \<and> length rs = Suc n
          \<and> (\<forall>i < Suc n. let o' = ?o + int i * sz in rs ! i = (sz, Some (?addr w' o')))
          \<and> offset (fd_lookup w' (nat fd)) = ?o + (1 + int n) * sz) (\<lambda>_ _. False)) (\<lambda>_ _. False) w1"
    proof (rule wp_mono [OF ih], unfold wp_ret, intro conjI allI impI)
      fix as w'
      let ?P = "mmap_ready e fd w'
          \<and> (\<forall>c. chunk_addr w1 (nat fd) c \<noteq> 0 \<longrightarrow> chunk_addr w' (nat fd) c = chunk_addr w1 (nat fd) c)
          \<and> length as = n
          \<and> (\<forall>i < n. let o' = ?o + sz + int i * sz in as ! i = (sz, Some (?addr w' o')))
          \<and> offset (fd_lookup w' (nat fd)) = ?o + sz + int n * sz"
      assume P: ?P
      show "mmap_ready e fd w'" "length ((sz, p) # as) = Suc n"
        "offset (fd_lookup w' (nat fd)) = ?o + (1 + int n) * sz"
        using P by (simp_all add: algebra_simps)
      show "chunk_addr w' (nat fd) c = chunk_addr w (nat fd) c" if "0 < chunk_addr w (nat fd) c" for c
        using P st that by simp
      show "let o' = ?o + int i * sz in ((sz, p) # as) ! i = (sz, Some (?addr w' o'))" if "i < Suc n" for i
      proof (cases i)
        case 0
        then show ?thesis using P p sz(1) by simp
      next
        case (Suc j)
        then have "as ! j = (sz, Some (?addr w' (?o + sz + int j * sz)))" using P that by (simp add: Let_def)
        then show ?thesis using Suc by (simp add: algebra_simps)
      qed
    qed simp
  qed simp
qed

section \<open>Closing\<close>

text \<open>The tables that \<open>free_btree\<close> gives back: those above the leaves.\<close>

fun inner_nodes :: "store \<Rightarrow> nat \<Rightarrow> nat \<Rightarrow> nat set" where
  "inner_nodes H 0 p = {}"
| "inner_nodes H (Suc h) p =
     insert p (\<Union>i \<in> {i. i < 1024 \<and> entries H p i \<noteq> 0}. inner_nodes H h (entries H p i))"

lemma inner_nodes_subset: "inner_nodes H h p \<subseteq> node_set_of H h p"
  by (induction h arbitrary: p) auto

lemma inner_nodes_frame:
  assumes "\<forall>q \<in> inner_nodes H h p. H' q = H q"
  shows "inner_nodes H' h p = inner_nodes H h p"
  using assms
proof (induction h arbitrary: p)
  case (Suc h)
  have e: "entries H' p = entries H p" using Suc.prems by (simp add: entries_def)
  have "inner_nodes H' h (entries H p i) = inner_nodes H h (entries H p i)"
    if "i < 1024" "entries H p i \<noteq> 0" for i
    using Suc.prems that by (intro Suc.IH) auto
  then show ?case by (auto simp: e)
qed simp

definition restrict_out :: "store \<Rightarrow> nat set \<Rightarrow> store" where
  "restrict_out H S = (\<lambda>q. if q \<in> S then None else H q)"

lemma free_btree_wp:
  assumes "wf_tree (map_of (nodes w)) h p"
  shows "wp (free_btree h p)
    (\<lambda>_ w'. \<exists>al. w' = w\<lparr>nodes := al\<rparr> \<and> map_of al = restrict_out (map_of (nodes w)) (inner_nodes (map_of (nodes w)) h p))
    (\<lambda>_ _. False) w"
  using assms
proof (induction h arbitrary: p w)
  case 0
  then show ?case by (auto simp: wp_simps restrict_out_def intro!: exI [of _ "nodes w"])
next
  case (Suc h)
  let ?H = "map_of (nodes w)"
  have p: "p \<noteq> 0" "p \<in> dom ?H" using Suc.prems by simp_all
  define S where "S k = (\<Union>i \<in> {i. i < k \<and> entries ?H p i \<noteq> 0}. inner_nodes ?H h (entries ?H p i))" for k :: nat
  define E where "E k = (\<lambda>i. if i < k then 0 else entries ?H p i)" for k :: nat
  let ?I = "\<lambda>k (_ :: unit) v. \<exists>al. v = w\<lparr>nodes := al\<rparr> \<and> map_of al = (restrict_out ?H (S k))(p \<mapsto> E k)"
  have notin: "p \<notin> S k" if "k \<le> 1024" for k
  proof -
    have "p \<notin> inner_nodes ?H h (entries ?H p i)" if "i < 1024" "entries ?H p i \<noteq> 0" for i
      using Suc.prems that inner_nodes_subset [of ?H h "entries ?H p i"] by auto
    then show ?thesis using that by (auto simp: S_def)
  qed
  have body: "wp (bindP (node_get p (0 + int k)) (\<lambda>v.
        if v \<noteq> 0 then bindP (free_btree h v) (\<lambda>_. node_set p (0 + int k) 0) else ret ())) (?I (Suc k)) (\<lambda>_ _. False) v"
    if k: "k < 1024" and I: "?I k a v" for k a v
  proof -
    obtain al where v: "v = w\<lparr>nodes := al\<rparr>" and al: "map_of al = (restrict_out ?H (S k))(p \<mapsto> E k)"
      using I by blast
    have ek: "entries (map_of al) p k = entries ?H p k" by (simp add: al E_def)
    have pd: "p \<in> dom (map_of (nodes v))" by (simp add: v al)
    show ?thesis
    proof (cases "entries ?H p k = 0")
      case True
      have "S (Suc k) = S k" "E (Suc k) = E k"
        using True by (auto simp: S_def E_def less_Suc_eq fun_eq_iff)
      then show ?thesis using k True p pd ek al by (auto simp: wp_simps wp_node_get v)
    next
      case False
      let ?c = "entries ?H p k"
      have wfc: "wf_tree ?H h ?c" "p \<notin> node_set_of ?H h ?c" using Suc.prems k False by simp_all
      have dis: "node_set_of ?H h ?c \<inter> S k = {}"
      proof -
        have "node_set_of ?H h ?c \<inter> inner_nodes ?H h (entries ?H p i) = {}"
          if "i < k" "entries ?H p i \<noteq> 0" for i
        proof -
          have "node_set_of ?H h ?c \<inter> node_set_of ?H h (entries ?H p i) = {}"
            using Suc.prems k that False by auto
          then show ?thesis using inner_nodes_subset [of ?H h "entries ?H p i"] by blast
        qed
        then show ?thesis by (auto simp: S_def)
      qed
      have same: "\<forall>q \<in> node_set_of ?H h ?c. map_of al q = ?H q"
        using dis wfc(2) by (auto simp: al restrict_out_def)
      have inn: "inner_nodes (map_of al) h ?c = inner_nodes ?H h ?c"
        using same inner_nodes_subset by (intro inner_nodes_frame) blast
      have wfv: "wf_tree (map_of (nodes v)) h ?c" using tree_frame [OF same] wfc(1) by (simp add: v)
      have S: "S (Suc k) = S k \<union> inner_nodes ?H h ?c" using False by (auto simp: S_def less_Suc_eq)
      have pn: "p \<notin> inner_nodes ?H h ?c" using wfc(2) inner_nodes_subset by blast
      have "wp (free_btree h ?c) (\<lambda>_. wp (node_set p (int k) 0) (?I (Suc k)) (\<lambda>_ _. False)) (\<lambda>_ _. False) v"
      proof (rule wp_mono [OF Suc.IH [OF wfv]])
        fix x u
        assume "\<exists>al. u = v\<lparr>nodes := al\<rparr> \<and> map_of al = restrict_out (map_of (nodes v)) (inner_nodes (map_of (nodes v)) h ?c)"
        then obtain al2 where u: "u = w\<lparr>nodes := al2\<rparr>"
          and al2: "map_of al2 = restrict_out (map_of al) (inner_nodes ?H h ?c)" by (auto simp: v inn)
        have p2: "map_of al2 p = Some (E k)" using pn by (simp add: al2 al restrict_out_def)
        have "map_of (AList.update p ((E k)(k := 0)) al2) = (restrict_out ?H (S (Suc k)))(p \<mapsto> E (Suc k))"
          by (auto simp: update_conv' al2 al restrict_out_def S E_def fun_eq_iff)
        then show "wp (node_set p (int k) 0) (?I (Suc k)) (\<lambda>_ _. False) u"
          using k p(1) p2 domI [where m = "map_of al2" and a = p] by (simp add: wp_node_set u entries_def) blast
      qed simp
      then show ?thesis using k False p pd ek by (simp add: wp_simps wp_node_get v)
    qed
  qed
  have init: "?I 0 () w"
    using p by (auto simp: S_def E_def restrict_out_def entries_def fun_eq_iff intro!: exI [of _ "nodes w"])
  have S_all: "inner_nodes ?H (Suc h) p = insert p (S 1024)" by (auto simp: S_def)
  show ?case
    unfolding free_btree.simps wp_bindP
  proof (rule wp_for_int [where I = ?I])
    show "?I 0 () w" by (rule init)
    fix a v assume "?I 1024 a v"
    then obtain al where v: "v = w\<lparr>nodes := al\<rparr>" "map_of al = (restrict_out ?H (S 1024))(p \<mapsto> E 1024)" by blast
    show "wp (free_node p) (\<lambda>_ w'. \<exists>al. w' = w\<lparr>nodes := al\<rparr>
        \<and> map_of al = restrict_out ?H (inner_nodes ?H (Suc h) p)) (\<lambda>_ _. False) v"
      unfolding S_all using v
      by (auto simp: free_node_def wp_simps delete_conv' restrict_out_def fun_eq_iff)
  qed (use body in \<open>assumption | simp\<close>)+
qed

definition closed :: "lib \<Rightarrow> lib \<Rightarrow> nat \<Rightarrow> bool" where
  "closed w w' n \<longleftrightarrow> wf_lib w' \<and> root (fd_lookup w' n) = 0 \<and> height (fd_lookup w' n) = 0
     \<and> valid (fd_lookup w' n) = 0
     \<and> (\<forall>m < 1024. m \<noteq> n \<longrightarrow> fd_lookup w' m = fd_lookup w m \<and> chunk_addr w' m = chunk_addr w m)
     \<and> hit_count w' = hit_count w \<and> mmap_count w' = mmap_count w"

text \<open>What \<open>free_file\<close> does after \<open>free_btree\<close>.\<close>

definition after_free :: "int \<Rightarrow> nat \<Rightarrow> nat \<Rightarrow> lib \<Rightarrow> lib" where
  "after_free fd h r w =
     (if h = 0 then file_update fd (root_update (\<lambda>_. 0))
                      ((file_update fd (height_update (\<lambda>_. 0)) w)\<lparr>nodes := AList.delete r (nodes w)\<rparr>)
      else file_update fd (root_update (\<lambda>_. 0)) (file_update fd (height_update (\<lambda>_. 0)) w))"

lemma close1_wp:
  assumes wf: "wf_lib w" and fd: "is_fd fd" and r0: "root (fd_lookup w (nat fd)) \<noteq> 0"
  defines "h \<equiv> height (fd_lookup w (nat fd))" and "r \<equiv> root (fd_lookup w (nat fd))"
  shows "wp (close1 fd)
    (\<lambda>x w'. x = 0 \<and> closed w w' (nat fd) \<and> length_of (fd_lookup w' (nat fd)) = length_of (fd_lookup w (nat fd))
      \<and> map_of (nodes w') = restrict_out (map_of (nodes w))
          (if h = 0 then {r} else inner_nodes (map_of (nodes w)) h r))
    (\<lambda>_ _. False) w"
proof -
  let ?n = "nat fd" and ?S = "if h = 0 then {r} else inner_nodes (map_of (nodes w)) h r"
  note n = is_fd_nat [OF fd]
  have fn: "file_nodes w ?n = node_set_of (map_of (nodes w)) h r"
    using r0 by (simp add: file_nodes_def Let_def h_def r_def)
  have sub: "?S \<subseteq> file_nodes w ?n" using inner_nodes_subset [of "map_of (nodes w)" h r] by (auto simp: fn)
  have closed: "closed w w' ?n"
    if "fd_lookup w' = (fd_lookup w)(?n := f')" "root f' = 0" "height f' = 0" "valid f' = 0"
      "map_of (nodes w') = restrict_out (map_of (nodes w)) ?S"
      "hit_count w' = hit_count w" "mmap_count w' = mmap_count w" for w' f'
  proof -
    note step = lib_step [OF wf n that(1)]
    have frame: "map_of (nodes w') q = map_of (nodes w) q"
      if "q \<in> dom (map_of (nodes w))" "q \<notin> file_nodes w ?n" for q
      using that sub by (auto simp: \<open>map_of (nodes w') = _\<close> restrict_out_def split: if_splits)
    have new: "file_nodes w' ?n \<subseteq> file_nodes w ?n \<union> - dom (map_of (nodes w))"
      using that by (simp add: file_nodes_0)
    have "wf_lib w'" using that(2,3) new by (intro step(1) frame) simp_all
    moreover have "chunk_addr w' m = chunk_addr w m" if "m < 1024" "m \<noteq> ?n" for m
      using \<open>root f' = 0\<close> \<open>height f' = 0\<close> new that by (intro step(2) frame) simp_all
    ultimately show ?thesis using that by (simp add: closed_def)
  qed
  let ?w = "file_update fd (valid_update (\<lambda>_. 0)) w"
  have A: "wf_lib ?w" using wf by (simp add: file_update_abs)
  have tree: "wf_tree (map_of (nodes ?w)) h r" using wf_libD(2) [OF wf n r0] by (simp add: h_def r_def)
  have eq: "wp (close1 fd) Q E w = wp (free_btree h r) (\<lambda>_ v. Q 0
       (after_free fd h r v)) E ?w" for Q E
    using fd r0 by (simp add: close1_def free_file_def wp_simps wp_get_nvf Let_def free_node_def
        after_free_def if_distrib [of "Q 0"] cong: if_cong flip: h_def r_def)
  show ?thesis
    unfolding eq
  proof (rule wp_mono [OF free_btree_wp [OF tree]])
    fix x v
    assume "\<exists>al. v = ?w\<lparr>nodes := al\<rparr> \<and> map_of al = restrict_out (map_of (nodes ?w)) (inner_nodes (map_of (nodes ?w)) h r)"
    then obtain al where v: "v = ?w\<lparr>nodes := al\<rparr>"
      "map_of al = restrict_out (map_of (nodes w)) (inner_nodes (map_of (nodes w)) h r)" by auto
    let ?v = "after_free fd h r v"
    have "map_of (nodes ?v) = restrict_out (map_of (nodes w)) ?S"
      using v(2) by (auto simp: after_free_def v(1) delete_conv' restrict_out_def fun_eq_iff)
    moreover have "fd_lookup ?v = (fd_lookup w)(?n := (fd_lookup w ?n)\<lparr>valid := 0, height := 0, root := 0\<rparr>)"
      by (simp add: after_free_def v(1) fun_eq_iff)
    moreover have "hit_count ?v = hit_count w" "mmap_count ?v = mmap_count w"
      by (simp_all add: after_free_def v(1))
    ultimately show "0 = 0 \<and> closed w ?v ?n \<and> length_of (fd_lookup ?v ?n) = length_of (fd_lookup w ?n)
      \<and> map_of (nodes ?v) = restrict_out (map_of (nodes w)) ?S"
      by (auto intro!: closed)
  qed simp
qed

text \<open>The leaf tables of a tree, which \<open>free_btree\<close> leaves alone.\<close>

fun leaf_nodes :: "store \<Rightarrow> nat \<Rightarrow> nat \<Rightarrow> nat set" where
  "leaf_nodes H 0 p = {p}"
| "leaf_nodes H (Suc h) p = (\<Union>i \<in> {i. i < 1024 \<and> entries H p i \<noteq> 0}. leaf_nodes H h (entries H p i))"

lemma leaf_nodes_subset: "leaf_nodes H h p \<subseteq> node_set_of H h p"
  by (induction h arbitrary: p) auto

lemma leaf_inner_disjoint: "wf_tree H h p \<Longrightarrow> leaf_nodes H h p \<inter> inner_nodes H h p = {}"
proof (induction h arbitrary: p)
  case (Suc h)
  have one: "leaf_nodes H h (entries H p i) \<inter> inner_nodes H h (entries H p j) = {}"
    if "i < 1024" "j < 1024" "entries H p i \<noteq> 0" "entries H p j \<noteq> 0" for i j
  proof (cases "i = j")
    case True
    then show ?thesis using Suc that by simp
  next
    case False
    then have "node_set_of H h (entries H p i) \<inter> node_set_of H h (entries H p j) = {}"
      using Suc.prems that by auto
    then show ?thesis
      using leaf_nodes_subset [of H h "entries H p i"] inner_nodes_subset [of H h "entries H p j"] by blast
  qed
  have root: "p \<notin> leaf_nodes H h (entries H p i)" if "i < 1024" "entries H p i \<noteq> 0" for i
    using Suc.prems that leaf_nodes_subset [of H h "entries H p i"] by auto
  show ?case using one root by auto
qed simp

lemma node_set_split: "node_set_of H h p = inner_nodes H h p \<union> leaf_nodes H h p"
  by (induction h arbitrary: p) auto

section \<open>Properties\<close>

text \<open>
  C8: A positioned read of a file that is open returns the number of bytes up to the end of the
  request, the end of the file or the end of the 2 MB chunk, whichever comes first (0 from the
  end of the file on), and a pointer to the mapped byte at that offset; established mappings do
  not move and the descriptor's own offset and permissions do not change.
\<close>

theorem pread1_served:
  assumes "mmap_ready e fd w" and "0 \<le> off" "off < 2 ^ 52" and "0 \<le> sz" "sz < 2 ^ 63"
    and "0 \<le> length_of (fd_lookup w (nat fd))" "length_of (fd_lookup w (nat fd)) < 2 ^ 63"
  shows "wp (pread1 e fd sz off)
    (\<lambda>(m, p) w'. m = served (length_of (fd_lookup w (nat fd))) sz off
        \<and> mmap_ready e fd w' \<and> same_views w w'
        \<and> (\<forall>c. chunk_addr w (nat fd) c \<noteq> 0 \<longrightarrow> chunk_addr w' (nat fd) c = chunk_addr w (nat fd) c)
        \<and> (if m = 0 then p = None \<and> w' = w
           else p = Some (chunk_addr w' (nat fd) (chunk off) + nat (off mod 2097152))))
    (\<lambda>_ _. False) w"
  unfolding pread1_def using do_pread_wp [OF assms]
  by (rule wp_mono) (simp_all add: case_prod_unfold split: if_splits)

theorem pread1_served_witness:
  "wp (pread1 sample_env 3 100 9999990) (\<lambda>(m, p) w'. m = 10 \<and> p \<noteq> None) (\<lambda>_ _. False) sample_lib"
  using sample_ready
  by (intro wp_mono [OF pread1_served [of sample_env 3 sample_lib 9999990 100]]) (auto simp: served_def)

text \<open>
  C9: Sequential reads with a request size that divides 2 MB, from an offset that is a multiple
  of it, are never short inside the file: \<open>n\<close> calls of \<open>read1\<close> each return the whole size and a
  pointer to the right byte, and leave the offset of the descriptor \<open>n\<close> sizes further.
\<close>

theorem read_run_full:
  assumes "mmap_ready e fd w" and "0 < sz" "sz dvd 2097152"
    and "0 \<le> offset (fd_lookup w (nat fd))" "sz dvd offset (fd_lookup w (nat fd))"
    and "length_of (fd_lookup w (nat fd)) < 2 ^ 52"
    and "offset (fd_lookup w (nat fd)) + int n * sz \<le> length_of (fd_lookup w (nat fd))"
  shows "wp (read_run e fd sz n)
    (\<lambda>rs w'. length rs = n
        \<and> (\<forall>i < n. let o' = offset (fd_lookup w (nat fd)) + int i * sz in
             rs ! i = (sz, Some (chunk_addr w' (nat fd) (chunk o') + nat (o' mod 2097152))))
        \<and> offset (fd_lookup w' (nat fd)) = offset (fd_lookup w (nat fd)) + int n * sz)
    (\<lambda>_ _. False) w"
  using read_run_wp [OF assms] by (rule wp_mono) auto

theorem read_run_full_witness:
  "wp (read_run sample_env 3 4096 600) (\<lambda>rs w'. length rs = 600 \<and> offset (fd_lookup w' 3) = 2457600)
     (\<lambda>_ _. False) sample_lib"
  using sample_ready
  by (intro wp_mono [OF read_run_full [of sample_env 3 sample_lib 4096 600]]) auto

text \<open>
  Opening a file gives its descriptor an empty tree, whatever tree an earlier file left there:
  no chunk is mapped, the offset is 0, the length is the one \<open>stat\<close> returned, and the trees of all
  other descriptors are untouched.
\<close>

theorem open1_empty:
  assumes "malloc_ok e" "wf_lib w" "0 \<le> fd" "fd < 1024"
  shows "wp (open1 e fd st_size oflag)
    (\<lambda>r w'. r = fd \<and> wf_lib w' \<and> root (fd_lookup w' (nat fd)) \<noteq> 0
        \<and> (\<forall>c. chunk_addr w' (nat fd) c = 0)
        \<and> offset (fd_lookup w' (nat fd)) = 0 \<and> length_of (fd_lookup w' (nat fd)) = u64 st_size
        \<and> (\<forall>m < 1024. m \<noteq> nat fd \<longrightarrow> fd_lookup w' m = fd_lookup w m \<and> chunk_addr w' m = chunk_addr w m))
    (\<lambda>_ _. False) w"
  using assms
  by (intro wp_mono [OF open1_wp]) (auto simp: OPEN_MAX_def opened_def file_view_def open_fields_def)

theorem open1_empty_witness:
  "wp (open1 sample_env 4 12345 F_RDWR) (\<lambda>r w'. r = 4 \<and> length_of (fd_lookup w' 4) = 12345)
     (\<lambda>_ _. False) sample_lib"
  using sample_env_ok sample_lib_wf
  by (intro wp_mono [OF open1_empty [of sample_env sample_lib 4 12345 F_RDWR]]) (auto simp: u64_def)

text \<open>
  C30: A file opened with \<open>O_RDONLY\<close> is mapped without any access right: \<open>O_RDONLY\<close> is 0, so the
  test \<open>oflag & O_RDONLY\<close> never holds, \<open>canRead\<close> stays 0, and the first read of each chunk asks
  the kernel for a mapping with protection 0, whose pages may not be read.
\<close>

theorem open1_rdonly_no_access:
  assumes "malloc_ok e" "wf_lib w" "\<forall>d p o' k. e_mmap e d p o' k \<noteq> 0 \<and> e_mmap e d p o' k \<noteq> MAP_FAILED"
    and "0 \<le> fd" "fd < 1024" and "0 < st_size" "st_size < 2 ^ 63" and "0 < sz" "sz < 2 ^ 63"
  shows "wp (bindP (open1 e fd st_size F_RDONLY) (\<lambda>fd. read1 e fd sz))
    (\<lambda>(m, p) w'. 0 < m \<and> p = Some (e_mmap e fd 0 0 (mmap_count w)))
    (\<lambda>_ _. False) w"
proof -
  have fd: "is_fd fd" using assms(4,5) by (simp add: OPEN_MAX_def)
  show ?thesis
    unfolding wp_bindP
  proof (rule wp_mono [OF open1_wp [OF assms(1,2) fd]])
    fix r v
    assume "r = fd \<and> opened w v (nat fd)
      \<and> file_view (fd_lookup v (nat fd)) = file_view (open_fields st_size F_RDONLY (fd_lookup w (nat fd)))"
    then have r: "r = fd" and op: "opened w v (nat fd)" and off: "offset (fd_lookup v (nat fd)) = 0"
      and len: "length_of (fd_lookup v (nat fd)) = st_size" and perms: "max_perms_of (fd_lookup v (nat fd)) = 0"
      using assms(6,7)
      by (auto simp: file_view_def open_fields_def u64_id max_perms_of_def F_RDONLY_def)
    have rd: "mmap_ready e fd v"
      using assms(1,3) op fd by (simp add: mmap_ready_def env_ok_def opened_def)
    have eq: "wp (read1 e fd sz) Q E v
      = wp (do_pread e fd sz 0) (\<lambda>(m, p) w'. Q (m, p) (file_update fd (offset_update (\<lambda>x. u64 (x + m))) w')) E v"
      for Q E using fd off by (simp add: read1_def wp_simps wp_get_nvf s64_def)
        (simp add: case_prod_unfold wp_simps)
    have "0 < served st_size sz 0" using assms(6,8) by (intro served_bounds)
    then show "wp (read1 e r sz) (\<lambda>(m, p) w'. 0 < m \<and> p = Some (e_mmap e fd 0 0 (mmap_count w)))
        (\<lambda>_ _. False) v"
      unfolding r eq using do_pread_wp [OF rd, of 0 sz] assms(6-9) op
      by (auto simp: len perms opened_def elim!: wp_mono)
  qed simp
qed

theorem open1_rdonly_no_access_witness:
  "wp (bindP (open1 sample_env 4 12345 F_RDONLY) (\<lambda>fd. read1 sample_env fd 512))
     (\<lambda>(m, p) w'. 0 < m \<and> p = Some (e_mmap sample_env 4 0 0 0)) (\<lambda>_ _. False) sample_lib"
  using sample_env_ok sample_lib_wf sample_ready
    open1_rdonly_no_access [of sample_env sample_lib 4 12345 512]
  by (simp add: mmap_ready_def env_ok_def)

text \<open>
  C29: \<open>close1\<close> empties the descriptor and leaves every other file alone, but it gives memory
  back only in part.  A tree of height 0 is freed.  Of a higher tree exactly the tables above the
  leaves are freed: what remains allocated of its nodes is every leaf table, and no descriptor
  leads to them any more.
\<close>

theorem close1_leaks_leaves:
  assumes "wf_lib w" "0 \<le> fd" "fd < 1024" "root (fd_lookup w (nat fd)) \<noteq> 0"
  shows "wp (close1 fd)
    (\<lambda>x w'. x = 0 \<and> closed w w' (nat fd)
      \<and> dom (map_of (nodes w')) - file_nodes w (nat fd) = dom (map_of (nodes w)) - file_nodes w (nat fd)
      \<and> (let leaves = leaf_nodes (map_of (nodes w)) (height (fd_lookup w (nat fd))) (root (fd_lookup w (nat fd)))
         in if height (fd_lookup w (nat fd)) = 0 then dom (map_of (nodes w')) \<inter> file_nodes w (nat fd) = {}
            else dom (map_of (nodes w')) \<inter> file_nodes w (nat fd) = leaves
              \<and> (\<forall>m < 1024. leaves \<inter> file_nodes w' m = {})))
    (\<lambda>_ _. False) w"
proof -
  have fd: "is_fd fd" using assms(2,3) by (simp add: OPEN_MAX_def)
  let ?n = "nat fd"
  let ?H = "map_of (nodes w)" and ?h = "height (fd_lookup w ?n)" and ?r = "root (fd_lookup w ?n)"
  let ?S = "if ?h = 0 then {?r} else inner_nodes ?H ?h ?r"
  have tree: "wf_tree ?H ?h ?r" using wf_libD(2) [OF assms(1) is_fd_nat [OF fd] assms(4)] .
  have dom: "dom (restrict_out ?H S) = dom ?H - S" for S by (auto simp: restrict_out_def split: if_splits)
  have fn: "file_nodes w ?n = node_set_of ?H ?h ?r" using assms(4) by (simp add: file_nodes_def Let_def)
  have sub: "?S \<subseteq> file_nodes w ?n" unfolding fn using inner_nodes_subset [of ?H ?h ?r] by simp
  have leaves: "(dom ?H - inner_nodes ?H ?h ?r) \<inter> file_nodes w ?n = leaf_nodes ?H ?h ?r"
    unfolding fn using leaf_inner_disjoint [OF tree] node_set_split [of ?H ?h ?r] wf_tree_dom [OF tree] by blast
  have zero: "?h = 0 \<Longrightarrow> file_nodes w ?n = {?r}" by (simp add: fn)
  have gone: "leaf_nodes ?H ?h ?r \<inter> file_nodes w' m = {}"
    if "closed w w' ?n" "map_of (nodes w') = restrict_out ?H ?S" "m < 1024" for w' m
  proof (cases "m = ?n")
    case True
    then show ?thesis using that(1) by (simp add: closed_def file_nodes_def)
  next
    case False
    then have d: "file_nodes w ?n \<inter> file_nodes w m = {}"
      using wf_libD(3) [OF assms(1) is_fd_nat [OF fd] that(3)] by blast
    have "file_nodes w' m = file_nodes w m"
    proof (cases "root (fd_lookup w m) = 0")
      case False
      have "\<forall>q \<in> node_set_of ?H (height (fd_lookup w m)) (root (fd_lookup w m)). map_of (nodes w') q = ?H q"
        using d sub False unfolding that(2) by (auto simp: restrict_out_def file_nodes_def Let_def)
      from tree_frame [OF this] show ?thesis
        using that(1,3) \<open>m \<noteq> ?n\<close> False by (simp add: closed_def file_nodes_def Let_def)
    qed (use that(1,3) \<open>m \<noteq> ?n\<close> in \<open>simp add: closed_def file_nodes_def\<close>)
    with d leaf_nodes_subset [of ?H ?h ?r] show ?thesis unfolding fn by blast
  qed
  show ?thesis
  proof (rule wp_mono [OF close1_wp [OF assms(1) fd assms(4)]])
    fix x w'
    assume A: "x = 0 \<and> closed w w' ?n \<and> length_of (fd_lookup w' ?n) = length_of (fd_lookup w ?n)
      \<and> map_of (nodes w') = restrict_out ?H ?S"
    then have d: "dom (map_of (nodes w')) = dom ?H - ?S" by (simp add: dom)
    have "dom (map_of (nodes w')) - file_nodes w ?n = dom ?H - file_nodes w ?n" unfolding d using sub by blast
    moreover have "?h = 0 \<Longrightarrow> dom (map_of (nodes w')) \<inter> file_nodes w ?n = {}" unfolding d using zero by simp
    moreover have "?h \<noteq> 0 \<Longrightarrow> dom (map_of (nodes w')) \<inter> file_nodes w ?n = leaf_nodes ?H ?h ?r"
      unfolding d using leaves by simp
    ultimately show "x = 0 \<and> closed w w' ?n \<and> dom (map_of (nodes w')) - file_nodes w ?n = dom ?H - file_nodes w ?n
      \<and> (let leaves = leaf_nodes ?H ?h ?r in if ?h = 0 then dom (map_of (nodes w')) \<inter> file_nodes w ?n = {}
            else dom (map_of (nodes w')) \<inter> file_nodes w ?n = leaves \<and> (\<forall>m < 1024. leaves \<inter> file_nodes w' m = {}))"
      using A gone unfolding Let_def by simp
  qed simp
qed

text \<open>
  A tree of height 1 with its one leaf, and what closing it leaves behind: node 1 is freed, and
  node 2 is lost.
\<close>

definition sample_high :: lib where
  "sample_high = sample_lib\<lparr>
     fd_lookup := (fd_lookup sample_lib)(3 := (fd_lookup sample_lib 3)\<lparr>height := 1\<rparr>),
     nodes := [(1, (\<lambda>_. 0)(0 := 2)), (2, (\<lambda>_. 0)(0 := 2097152))]\<rparr>"

theorem close1_leaks_leaves_witness:
  "wp (close1 3) (\<lambda>x w'. x = 0 \<and> dom (map_of (nodes w')) = {2} \<and> (\<forall>m < 1024. 2 \<notin> file_nodes w' m))
     (\<lambda>_ _. False) sample_high"
proof -
  have sel: "fd_lookup sample_high n = (if n = 3 then (fd_lookup sample_lib 3)\<lparr>height := 1\<rparr> else fd_lookup init_lib n)"
    "map_of (nodes sample_high) = [1 \<mapsto> (\<lambda>_. 0)(0 := 2), 2 \<mapsto> (\<lambda>_. 0)(0 := 2097152)]" for n
    by (auto simp: sample_high_def fun_eq_iff)
  have e: "entries [1 \<mapsto> (\<lambda>_. 0)(0 := 2), 2 \<mapsto> (\<lambda>_. 0)(0 := 2097152)] 1 i = (if i = 0 then 2 else 0)" for i
    by (simp add: entries_def)
  have set: "{i. i < (1024 :: nat) \<and> i = 0} = {0}" by auto
  have nodes: "file_nodes sample_high 3 = {1, 2}"
    by (simp add: file_nodes_def Let_def sel e set)
  have other: "n \<noteq> 3 \<Longrightarrow> file_nodes sample_high n = {}" for n
    by (simp add: file_nodes_def Let_def sel init_lib_def)
  have wf: "wf_lib sample_high"
    unfolding wf_lib_def
  proof (intro conjI allI impI)
    fix n m :: nat assume "n \<noteq> m"
    then have "n \<noteq> 3 \<or> m \<noteq> 3" by auto
    then show "file_nodes sample_high n \<inter> file_nodes sample_high m = {}" using other by blast
  qed (auto simp: sel e init_lib_def split: if_splits)
  have lv: "leaf_nodes (map_of (nodes sample_high)) 1 1 = {2}"
    by (simp add: sel e set)
  show ?thesis
  proof (rule wp_mono [OF close1_leaks_leaves [OF wf, of 3]])
    fix x w'
    assume "x = 0 \<and> closed sample_high w' (nat 3)
      \<and> dom (map_of (nodes w')) - file_nodes sample_high (nat 3)
          = dom (map_of (nodes sample_high)) - file_nodes sample_high (nat 3)
      \<and> (let leaves = leaf_nodes (map_of (nodes sample_high)) (height (fd_lookup sample_high (nat 3)))
              (root (fd_lookup sample_high (nat 3)))
         in if height (fd_lookup sample_high (nat 3)) = 0 then dom (map_of (nodes w')) \<inter> file_nodes sample_high (nat 3) = {}
            else dom (map_of (nodes w')) \<inter> file_nodes sample_high (nat 3) = leaves
              \<and> (\<forall>m < 1024. leaves \<inter> file_nodes w' m = {}))"
    then have A: "x = 0" "dom (map_of (nodes w')) - {1, 2} = {}" "dom (map_of (nodes w')) \<inter> {1, 2} = {2}"
      "\<forall>m < 1024. {2} \<inter> file_nodes w' m = {}"
      using lv by (simp_all add: nodes sel(1) Let_def) (simp add: sel(2))
    then show "x = 0 \<and> dom (map_of (nodes w')) = {2} \<and> (\<forall>m < 1024. 2 \<notin> file_nodes w' m)" by blast
  qed (simp_all add: sel(1))
qed

text \<open>
  Reading from a descriptor after \<open>close1\<close> is not refused but crashes: the length of the
  closed file is still there and its root is the null pointer.
\<close>

theorem pread1_after_close_crashes:
  assumes "wf_lib w" "0 \<le> fd" "fd < 1024" "root (fd_lookup w (nat fd)) \<noteq> 0"
    and "0 \<le> off" "off < 2 ^ 31" "off < length_of (fd_lookup w (nat fd))"
    and "length_of (fd_lookup w (nat fd)) < 2 ^ 63" and "0 < sz" "sz < 2 ^ 63"
  shows "wp (bindP (close1 fd) (\<lambda>_. pread1 e fd sz off)) (\<lambda>_ _. False)
    (\<lambda>x _. x = Trap Null_Deref) w"
  unfolding wp_bindP
proof (rule wp_mono [OF close1_wp])
  show fd: "is_fd fd" using assms(2,3) by (simp add: OPEN_MAX_def)
  fix x v
  assume "x = 0 \<and> closed w v (nat fd) \<and> length_of (fd_lookup v (nat fd)) = length_of (fd_lookup w (nat fd))
    \<and> map_of (nodes v) = restrict_out (map_of (nodes w))
        (if height (fd_lookup w (nat fd)) = 0 then {root (fd_lookup w (nat fd))}
         else inner_nodes (map_of (nodes w)) (height (fd_lookup w (nat fd))) (root (fd_lookup w (nat fd))))"
  then have v: "root (fd_lookup v (nat fd)) = 0" "height (fd_lookup v (nat fd)) = 0"
    "length_of (fd_lookup v (nat fd)) = length_of (fd_lookup w (nat fd))" by (simp_all add: closed_def)
  let ?l = "length_of (fd_lookup w (nat fd))"
  have c: "chunk off < 1024" using assms(5,6) by (simp add: chunk_def MAX_MMAP_SIZE_def nat_less_iff)
  have crash: "wp (lookup_loop 0 0 off) Q E v = E (Trap Null_Deref) v" for Q E
    using c assms(5,6) by (subst lookup_loop.simps) (simp add: wp_simps tree_index_eq node_get_def wp_def bindP_def
        try_res_def ret_def)
  have u: "u64 off = off" "u64 (off + sz) = off + sz" "u64 (?l - off) = ?l - off" "s64 sz = sz"
    "s64 (?l - off) = ?l - off" "u64 sz = sz"
    using assms(5-10) by (simp_all add: u64_id s64_id)
  show "wp (pread1 e fd sz off) (\<lambda>_ _. False) (\<lambda>x _. x = Trap Null_Deref) v"
    using fd v assms(5-10)
    by (simp add: pread1_def do_pread_def wp_simps wp_get_nvf u Let_def get_mmap_address_def crash)
qed (use assms in simp_all)

theorem pread1_after_close_crashes_witness:
  "wp (bindP (close1 3) (\<lambda>_. pread1 sample_env 3 100 0)) (\<lambda>_ _. False)
     (\<lambda>x _. x = Trap Null_Deref) sample_lib"
  using sample_lib_wf by (intro pread1_after_close_crashes) simp_all

text \<open>
  C31: While the tree of a file has height 0, the lookup truncates the chunk number to the 32 bits
  of the C variable \<open>index\<close>: an access at an offset that is a multiple of 8 PB above an offset in
  the first 2 GB whose chunk is mapped is answered from that chunk, as a hit, instead of from the
  chunk of its own offset.  (In a higher tree the quotient of the first division is below
  \<open>2 ^ 32\<close>, and nothing is lost.)
\<close>

theorem index_truncation_aliases:
  assumes "wf_lib w" "0 \<le> fd" "fd < 1024" "root (fd_lookup w (nat fd)) \<noteq> 0"
    and "height (fd_lookup w (nat fd)) = 0"
    and "0 \<le> off" "off < 2 ^ 31" "chunk_addr w (nat fd) (chunk off) \<noteq> 0" and "0 \<le> k" "k < 1024"
  shows "wp (get_mmap_address e fd (k * 2 ^ 53 + off) len perms)
    (\<lambda>(p, n) w'. p = chunk_addr w (nat fd) (chunk off) + nat (off mod 2097152)
        \<and> w' = w\<lparr>hit_count := Suc (hit_count w)\<rparr>)
    (\<lambda>_ _. False) w"
proof -
  have fd: "is_fd fd" using assms(2,3) by (simp add: OPEN_MAX_def)
  let ?o = "k * 2 ^ 53 + off" and ?r = "root (fd_lookup w (nat fd))"
  have o: "0 \<le> ?o" "?o < 2 ^ 63" using assms(6,7,9,10) by simp_all
  have c: "off div 2097152 < 1024" "0 \<le> off div 2097152"
    using assms(6,7) by (simp_all add: pos_imp_zdiv_nonneg_iff)
  have "?o div 2097152 = k * 2 ^ 32 + off div 2097152" by simp
  then have co: "int (chunk ?o) = k * 2 ^ 32 + off div 2097152"
    using c(2) assms(9) by (simp add: chunk_def MAX_MMAP_SIZE_def)
  have "s32 (k * 2 ^ 32 + off div 2097152) = (k * 2 ^ 32 + (off div 2097152 + 2 ^ 31)) mod 2 ^ 32 - 2 ^ 31"
    by (simp only: s32_def add.assoc)
  also have "\<dots> = (off div 2097152 + 2 ^ 31) mod 2 ^ 32 - 2 ^ 31" by (simp only: mod_mult_self3)
  also have "\<dots> = off div 2097152" using c by (simp add: mod_pos_pos_trivial)
  finally have s: "s32 (k * 2 ^ 32 + off div 2097152) = off div 2097152" .
  have "tree_index 0 ?o = Inr (s32 (int (chunk ?o div 1024 ^ 0)))"
    using o by (intro tree_index_eq) simp_all
  then have idx: "tree_index 0 ?o = Inr (off div 2097152)"
    by (simp only: power_0 div_by_1 co s)
  have tree: "wf_tree (map_of (nodes w)) 0 ?r"
    using wf_libD(2) [OF assms(1) is_fd_nat [OF fd] assms(4)] assms(5) by simp
  have hit: "entries (map_of (nodes w)) ?r (nat (off div 2097152)) = chunk_addr w (nat fd) (chunk off)"
    using assms(4,5) c by (simp add: chunk_addr_def Let_def chunk_def MAX_MMAP_SIZE_def nat_less_iff)
  obtain x where x: "x = ?o" by blast
  have "wp (lookup_loop 0 ?r x) Q E w = Q (Some (chunk_addr w (nat fd) (chunk off))) w" for Q E
    using c tree assms(8) idx [folded x] by (subst lookup_loop.simps) (simp add: wp_simps wp_node_get hit)
  moreover have "x smod 2097152 = off mod 2097152"
  proof -
    have "?o smod 2097152 = ?o mod 2097152"
      using o(1) by (cases "?o = 0") (simp_all add: signed_modulo_int_def sgn_if)
    also have "\<dots> = (k * 2 ^ 32 * 2097152 + off) mod 2097152" by (simp add: mult.commute)
    also have "\<dots> = off mod 2097152" by (simp only: mod_mult_self3)
    finally show ?thesis by (simp only: x)
  qed
  ultimately show ?thesis
    unfolding x [symmetric] using fd assms(5) by (simp add: get_mmap_address_def wp_simps wp_get_nvf Let_def MAX_MMAP_SIZE_def nat_add_distrib)
qed

text \<open>The sample state after chunk 0 of descriptor 3 has been mapped at address 2097152.\<close>

definition sample_mapped :: lib where
  "sample_mapped = sample_lib\<lparr>nodes := [(1, (\<lambda>_. 0)(0 := 2097152))]\<rparr>"

theorem index_truncation_aliases_witness:
  "wp (get_mmap_address sample_env 3 (1 * 2 ^ 53 + 7) 10 3) (\<lambda>(p, n) w'. p = 2097159) (\<lambda>_ _. False) sample_mapped"
proof -
  have sel: "fd_lookup sample_mapped = fd_lookup sample_lib"
    "nodes sample_mapped = [(1, (\<lambda>_. 0)(0 := 2097152))]" by (simp_all add: sample_mapped_def)
  have "root (fd_lookup sample_lib n) = (if n = 3 then 1 else 0)" "height (fd_lookup sample_lib n) = 0" for n
    by (cases "n = 3"; simp)+
  then have wf: "wf_lib sample_mapped" by (auto simp: wf_lib_def file_nodes_def Let_def sel)
  have a: "chunk_addr sample_mapped 3 (chunk 7) = 2097152"
    by (simp add: chunk_addr_def Let_def sel chunk_def MAX_MMAP_SIZE_def entries_def)
  show ?thesis
    using wf a by (intro wp_mono [OF index_truncation_aliases [of sample_mapped 3 7 1]]) (auto simp: sel)
qed

end
