(* ===== verification/Noposix_Local.thy ===== *)
theory Noposix_Local
  imports Noposix_Files
begin

text \<open>
  Calls of the library on one descriptor leave the entries of all other descriptors in
  \<open>fd_lookup\<close> alone, whether the call returns or crashes; and a typing of call sequences: calls on
  open descriptors with sizes and offsets in range keep the library well formed and never crash,
  unless the kernel refuses a mapping, which the library asserts against.
\<close>

section \<open>Programs that touch one entry\<close>

definition touches_only :: "nat \<Rightarrow> 'a lprog \<Rightarrow> bool" where
  "touches_only n p \<longleftrightarrow> (\<forall>w m. m \<noteq> n \<longrightarrow> fd_lookup (snd (p w)) m = fd_lookup w m)"

named_theorems touches \<open>what touches one entry of the table only\<close>

lemma touchesI: "(\<And>w m. m \<noteq> n \<Longrightarrow> fd_lookup (snd (p w)) m = fd_lookup w m) \<Longrightarrow> touches_only n p"
  by (simp add: touches_only_def)

lemma touches_ret [touches]: "touches_only n (ret a)"
  and touches_halt [touches]: "touches_only n (halt e)"
  and touches_query [touches]: "touches_only n (query f)"
  and touches_try [touches]: "touches_only n (try_res r)"
  by (auto simp: touches_only_def ret_def halt_def query_def try_res_def split: sum.splits)

lemma touches_update [touches]: "(\<And>w. fd_lookup (f w) = fd_lookup w) \<Longrightarrow> touches_only n (update f)"
  by (simp add: touches_only_def update_def)

lemma touches_bindP [touches]:
  assumes "touches_only n p" "\<And>a. touches_only n (k a)"
  shows "touches_only n (bindP p k)"
proof (rule touchesI)
  fix w :: lib and m assume m: "m \<noteq> n"
  have p: "fd_lookup (snd (p w)) m = fd_lookup w m" using assms(1) m by (simp add: touches_only_def)
  show "fd_lookup (snd (bindP p k w)) m = fd_lookup w m"
  proof (cases "fst (p w)")
    case (Inl e)
    then show ?thesis using p by (simp add: bindP_def case_prod_unfold)
  next
    case (Inr a)
    have "fd_lookup (snd (k a (snd (p w)))) m = fd_lookup (snd (p w)) m"
      using assms(2) m by (simp add: touches_only_def)
    then show ?thesis using p Inr by (simp add: bindP_def case_prod_unfold)
  qed
qed

lemma touches_if [touches]: "touches_only n p \<Longrightarrow> touches_only n q \<Longrightarrow> touches_only n (if b then p else q)"
  by simp

lemma touches_when [touches]: "touches_only n p \<Longrightarrow> touches_only n (whenP b p)"
  by (simp add: whenP_def touches)

lemma touches_for [touches]: "(\<And>i a. touches_only n (body i a)) \<Longrightarrow> touches_only n (for_int k i body a)"
  by (induction k arbitrary: i a) (auto intro!: touches)

lemma touches_get [touches]: "touches_only n (get_nvf fd)"
  by (simp add: get_nvf_def touches)

lemma touches_set [touches]: "nat fd = n \<Longrightarrow> touches_only n (set_nvf fd f)"
  by (auto simp: touches_only_def set_nvf_def update_def)

lemma touches_node [touches]:
  "touches_only n (node_get p i)" "touches_only n (node_set p i v)" "touches_only n (new_node e)"
  "touches_only n (clear_node p)" "touches_only n (free_node p)"
  by (auto simp: touches_only_def node_get_def node_set_def new_node_def clear_node_def free_node_def update_def
      Let_def split: option.splits)

lemma touches_lookup [touches]: "touches_only n (lookup_loop h p so)"
proof (induction h arbitrary: p so)
  case 0
  then show ?case by (subst lookup_loop.simps) (auto intro!: touches)
next
  case (Suc h)
  then show ?case by (subst lookup_loop.simps) (auto intro!: touches)
qed

lemma touches_grow [touches]: "nat fd = n \<Longrightarrow> touches_only n (grow_loop e fd k)"
  by (induction k) (auto intro!: touches simp: Let_def)

lemma touches_insert [touches]: "touches_only n (insert_loop e h p so a)"
  by (induction e h p so a rule: insert_loop.induct) (auto intro!: touches)

lemma touches_free_btree [touches]: "touches_only n (free_btree h p)"
  by (induction h arbitrary: p) (auto intro!: touches)

lemma touches_map_chunk [touches]: "nat fd = n \<Longrightarrow> touches_only n (map_chunk e fd off perms)"
  by (auto simp: map_chunk_def Let_def intro!: touches)

lemma touches_get_mmap [touches]: "nat fd = n \<Longrightarrow> touches_only n (get_mmap_address e fd off len perms)"
  by (auto simp: get_mmap_address_def Let_def intro!: touches split: option.splits)

lemma touches_do_pread [touches]: "nat fd = n \<Longrightarrow> touches_only n (do_pread e fd sz off)"
  by (auto simp: do_pread_def Let_def intro!: touches split: prod.splits)

lemma touches_calls:
  "touches_only (nat fd) (read1 e fd sz)" "touches_only (nat fd) (pread1 e fd sz off)"
  "touches_only (nat fd) (lseek1 fd off whence)" "touches_only (nat fd) (close1 fd)"
  "touches_only (nat fd) (open1 e fd st_size oflag)"
  by (auto simp: read1_def pread1_def lseek1_def close1_def open1_def free_file_def init_file_def Let_def
      intro!: touches split: prod.splits)

text \<open>A program with a weakest precondition keeps its frame in it.\<close>

lemma wp_touches:
  assumes "touches_only n p" "wp p Q (\<lambda>_ _. False) w"
  shows "wp p (\<lambda>a w'. Q a w' \<and> (\<forall>m. m \<noteq> n \<longrightarrow> fd_lookup w' m = fd_lookup w m)) (\<lambda>_ _. False) w"
proof -
  have "\<forall>m. m \<noteq> n \<longrightarrow> fd_lookup (snd (p w)) m = fd_lookup w m" using assms(1) by (simp add: touches_only_def)
  then show ?thesis using assms(2) by (auto simp: wp_def split: prod.splits sum.splits)
qed


section \<open>Typed call sequences\<close>

text \<open>A call of the library; \<open>C_open\<close> carries what \<open>open\<close> and \<open>stat\<close> returned.\<close>

datatype libcall =
    C_open int int int
  | C_read int int
  | C_pread int int int
  | C_write int int
  | C_lseek int int
  | C_close int

definition do_call :: "env \<Rightarrow> libcall \<Rightarrow> unit lprog" where
  "do_call e c = (case c of
     C_open fd st_size oflag \<Rightarrow> bindP (open1 e fd st_size oflag) (\<lambda>_. ret ())
   | C_read fd sz \<Rightarrow> bindP (read1 e fd sz) (\<lambda>_. ret ())
   | C_pread fd sz off \<Rightarrow> bindP (pread1 e fd sz off) (\<lambda>_. ret ())
   | C_write fd sz \<Rightarrow> bindP (write1 fd sz) (\<lambda>_. ret ())
   | C_lseek fd off \<Rightarrow> bindP (lseek1 fd off SEEK_SET) (\<lambda>_. ret ())
   | C_close fd \<Rightarrow> bindP (close1 fd) (\<lambda>_. ret ()))"

primrec do_calls :: "env \<Rightarrow> libcall list \<Rightarrow> unit lprog" where
  "do_calls e [] = ret ()"
| "do_calls e (c # cs) = bindP (do_call e c) (\<lambda>_. do_calls e cs)"

text \<open>The type of a sequence: which descriptors are open before and after it.\<close>

definition small :: "int \<Rightarrow> bool" where
  "small x \<longleftrightarrow> 0 \<le> x \<and> x < 2 ^ 52"

inductive call_type :: "int set \<Rightarrow> libcall \<Rightarrow> int set \<Rightarrow> bool" where
  open_type: "is_fd fd \<Longrightarrow> small st_size \<Longrightarrow> call_type D (C_open fd st_size oflag) (insert fd D)"
| read_type: "fd \<in> D \<Longrightarrow> small sz \<Longrightarrow> call_type D (C_read fd sz) D"
| pread_type: "fd \<in> D \<Longrightarrow> small sz \<Longrightarrow> small off \<Longrightarrow> call_type D (C_pread fd sz off) D"
| write_type: "call_type D (C_write fd sz) D"
| lseek_type: "fd \<in> D \<Longrightarrow> small off \<Longrightarrow> call_type D (C_lseek fd off) D"
| close_type: "fd \<in> D \<Longrightarrow> call_type D (C_close fd) (D - {fd})"

inductive calls_type :: "int set \<Rightarrow> libcall list \<Rightarrow> int set \<Rightarrow> bool" where
  nil_type: "calls_type D [] D"
| cons_type: "call_type D c D1 \<Longrightarrow> calls_type D1 cs D2 \<Longrightarrow> calls_type D (c # cs) D2"

inductive_cases calls_typeE: "calls_type D (c # cs) D'"

text \<open>A state has the type \<open>D\<close>: the library is well formed and every descriptor of \<open>D\<close> has a tree.\<close>

definition open_ok :: "lib \<Rightarrow> int \<Rightarrow> bool" where
  "open_ok w fd \<longleftrightarrow> is_fd fd \<and> root (fd_lookup w (nat fd)) \<noteq> 0
     \<and> small (offset (fd_lookup w (nat fd))) \<and> small (length_of (fd_lookup w (nat fd)))"

definition env_total :: "env \<Rightarrow> bool" where
  "env_total e \<longleftrightarrow> env_ok e \<and> (\<forall>d p off k. e_mmap e d p off k \<noteq> MAP_FAILED)"

definition lib_type :: "int set \<Rightarrow> lib \<Rightarrow> bool" where
  "lib_type D w \<longleftrightarrow> wf_lib w \<and> (\<forall>fd \<in> D. open_ok w fd)"

lemma lib_type_ready: "env_total e \<Longrightarrow> lib_type D w \<Longrightarrow> fd \<in> D \<Longrightarrow> mmap_ready e fd w"
  by (simp add: env_total_def lib_type_def mmap_ready_def open_ok_def)

lemma open_ok_same: "fd_lookup w' (nat fd) = fd_lookup w (nat fd) \<Longrightarrow> open_ok w' fd = open_ok w fd"
  by (simp add: open_ok_def)

text \<open>A step that keeps the library well formed and touches one entry needs to retype that one only.\<close>

lemma lib_type_step:
  assumes t: "lib_type D w" and wf: "wf_lib w'" and fd: "is_fd fd"
    and frame: "\<forall>m. m \<noteq> nat fd \<longrightarrow> fd_lookup w' m = fd_lookup w m"
    and D: "\<And>d. d \<in> D' \<Longrightarrow> d = fd \<and> open_ok w' fd \<or> d \<noteq> fd \<and> d \<in> D"
  shows "lib_type D' w'"
proof -
  have "open_ok w' d" if d: "d \<in> D'" for d
  proof (cases "d = fd")
    case True
    then show ?thesis using D [OF d] by simp
  next
    case False
    then have "d \<in> D" using D [OF d] by simp
    then have ok: "open_ok w d" using t by (simp add: lib_type_def)
    then have "nat d \<noteq> nat fd" using False fd by (simp add: open_ok_def eq_nat_nat_iff)
    then show ?thesis using frame ok open_ok_same [of w' d w] by simp
  qed
  then show ?thesis using wf by (simp add: lib_type_def)
qed

lemma served_le: "0 \<le> sz \<Longrightarrow> 0 \<le> off \<Longrightarrow> small off \<Longrightarrow> small len \<Longrightarrow> small (off + served len sz off)"
  by (auto simp: small_def served_def min_def)

lemma read1_typed:
  assumes e: "env_total e" and t: "lib_type D w" and fd: "fd \<in> D" and sz: "small sz"
  defines "f \<equiv> fd_lookup w (nat fd)"
  shows "wp (read1 e fd sz)
    (\<lambda>(m, p) w'. lib_type D w' \<and> m = served (length_of f) sz (offset f)
        \<and> offset (fd_lookup w' (nat fd)) = offset f + served (length_of f) sz (offset f)
        \<and> length_of (fd_lookup w' (nat fd)) = length_of f
        \<and> (\<forall>m. m \<noteq> nat fd \<longrightarrow> fd_lookup w' m = fd_lookup w m))
    (\<lambda>_ _. False) w"
proof -
  have ok: "open_ok w fd" using t fd by (simp add: lib_type_def)
  have s: "small (offset f)" "small (length_of f)" "is_fd fd" using ok by (simp_all add: open_ok_def f_def)
  have r: "0 \<le> sz" "sz < 2 ^ 63" "0 \<le> offset f" "offset f < 2 ^ 52" "0 \<le> length_of f" "length_of f < 2 ^ 63"
    using sz s by (simp_all add: small_def)
  have small: "small (offset f + served (length_of f) sz (offset f))" using r s by (intro served_le)
  note R = read1_wp [OF lib_type_ready [OF e t fd] r(1,2) r(3-6) [unfolded f_def], folded f_def]
  show ?thesis
  proof (rule wp_mono [OF wp_touches [OF touches_calls(1) R]], clarsimp)
    fix p w'
    assume rd: "mmap_ready e fd w'" and len: "length_of (fd_lookup w' (nat fd)) = length_of f"
      and off: "offset (fd_lookup w' (nat fd)) = offset f + served (length_of f) sz (offset f)"
      and frame: "\<forall>m. m \<noteq> nat fd \<longrightarrow> fd_lookup w' m = fd_lookup w m"
    have "open_ok w' fd" using rd small s by (simp add: open_ok_def mmap_ready_def len off)
    moreover have "wf_lib w'" using rd by (simp add: mmap_ready_def)
    ultimately show "lib_type D w'" using t s(3) frame by (intro lib_type_step [OF t]) auto
  qed simp
qed


text \<open>Every typed call returns, in a state of the type it is given.\<close>

lemma lseek1_typed:
  assumes t: "lib_type D w" and fd: "fd \<in> D" and off: "small off"
  shows "wp (lseek1 fd off SEEK_SET)
    (\<lambda>r w'. r = off \<and> lib_type D w' \<and> fd_lookup w' (nat fd) = (fd_lookup w (nat fd))\<lparr>offset := off\<rparr>
        \<and> (\<forall>m. m \<noteq> nat fd \<longrightarrow> fd_lookup w' m = fd_lookup w m))
    (\<lambda>_ _. False) w"
proof -
  have ok: "open_ok w fd" using t fd by (simp add: lib_type_def)
  then have i: "is_fd fd" by (simp add: open_ok_def)
  let ?w = "file_update fd (offset_update (\<lambda>_. off)) w"
  have u: "u64 off = off" "s64 off = off" using off by (simp_all add: small_def u64_id s64_id)
  have "wf_lib ?w" using t by (simp add: lib_type_def file_update_abs)
  moreover have "open_ok ?w fd" using ok off by (simp add: open_ok_def)
  ultimately have "lib_type D ?w" using t i by (intro lib_type_step [OF t]) auto
  then show ?thesis
    using i by (simp add: lseek1_def wp_simps wp_get_nvf SEEK_SET_def u)
qed

lemma pread1_typed:
  assumes e: "env_total e" and t: "lib_type D w" and fd: "fd \<in> D" and sz: "small sz" and off: "small off"
  shows "wp (pread1 e fd sz off)
    (\<lambda>(m, p) w'. lib_type D w' \<and> m = served (length_of (fd_lookup w (nat fd))) sz off
        \<and> length_of (fd_lookup w' (nat fd)) = length_of (fd_lookup w (nat fd))
        \<and> (\<forall>m. m \<noteq> nat fd \<longrightarrow> fd_lookup w' m = fd_lookup w m))
    (\<lambda>_ _. False) w"
proof -
  have ok: "open_ok w fd" using t fd by (simp add: lib_type_def)
  have r: "0 \<le> off" "off < 2 ^ 52" "0 \<le> sz" "sz < 2 ^ 63" "0 \<le> length_of (fd_lookup w (nat fd))"
    "length_of (fd_lookup w (nat fd)) < 2 ^ 63"
    using sz off ok by (simp_all add: small_def open_ok_def)
  note R = do_pread_wp [OF lib_type_ready [OF e t fd] r]
  show ?thesis
    unfolding pread1_def
  proof (rule wp_mono [OF wp_touches [OF touches_do_pread [OF refl] R]], clarsimp simp del: split_paired_All)
    fix w' assume rd: "mmap_ready e fd w'" and sv: "same_views w w'"
      and frame: "\<forall>m. m \<noteq> nat fd \<longrightarrow> fd_lookup w' m = fd_lookup w m"
    have v: "file_view (fd_lookup w' (nat fd)) = file_view (fd_lookup w (nat fd))" using sv by (simp add: same_views_def)
    then have "open_ok w' fd" using rd ok by (simp add: open_ok_def mmap_ready_def file_view_def)
    moreover have "wf_lib w'" using rd by (simp add: mmap_ready_def)
    ultimately have "lib_type D w'" using ok frame by (intro lib_type_step [OF t]) (auto simp: open_ok_def)
    then show "lib_type D w' \<and> length_of (fd_lookup w' (nat fd)) = length_of (fd_lookup w (nat fd))"
      using v by (simp add: file_view_def)
  qed simp
qed

lemma open1_typed:
  assumes e: "env_total e" and t: "lib_type D w" and fd: "is_fd fd" and st: "small st_size"
  shows "wp (open1 e fd st_size oflag)
    (\<lambda>r w'. r = fd \<and> lib_type (insert fd D) w' \<and> length_of (fd_lookup w' (nat fd)) = st_size
        \<and> (\<forall>m. m \<noteq> nat fd \<longrightarrow> fd_lookup w' m = fd_lookup w m))
    (\<lambda>_ _. False) w"
proof -
  have M: "malloc_ok e" "wf_lib w" using e t by (simp_all add: env_total_def env_ok_def lib_type_def)
  have u: "u64 st_size = st_size" using st by (simp add: small_def u64_id)
  show ?thesis
  proof (rule wp_mono [OF wp_touches [OF touches_calls(5) open1_wp [OF M fd]]], clarsimp)
    fix w' assume op: "opened w w' (nat fd)"
      and v: "file_view (fd_lookup w' (nat fd)) = file_view (open_fields st_size oflag (fd_lookup w (nat fd)))"
      and frame: "\<forall>m. m \<noteq> nat fd \<longrightarrow> fd_lookup w' m = fd_lookup w m"
    have len: "length_of (fd_lookup w' (nat fd)) = st_size" using v u by (simp add: file_view_def open_fields_def)
    have "open_ok w' fd"
      using op v fd st u by (auto simp: opened_def open_ok_def file_view_def open_fields_def small_def)
    moreover have "wf_lib w'" using op by (simp add: opened_def)
    ultimately have "lib_type (insert fd D) w'" using fd frame by (intro lib_type_step [OF t]) auto
    then show "lib_type (insert fd D) w' \<and> length_of (fd_lookup w' (nat fd)) = st_size" using len by simp
  qed simp
qed

lemma close1_typed:
  assumes t: "lib_type D w" and fd: "fd \<in> D"
  shows "wp (close1 fd)
    (\<lambda>_ w'. lib_type (D - {fd}) w' \<and> (\<forall>m. m \<noteq> nat fd \<longrightarrow> fd_lookup w' m = fd_lookup w m))
    (\<lambda>_ _. False) w"
proof -
  have r: "wf_lib w" "is_fd fd" "root (fd_lookup w (nat fd)) \<noteq> 0"
    using assms by (simp_all add: lib_type_def open_ok_def)
  show ?thesis
  proof (rule wp_mono [OF wp_touches [OF touches_calls(4) close1_wp [OF r]]], clarsimp)
    fix w' assume cl: "closed w w' (nat fd)" and frame: "\<forall>m. m \<noteq> nat fd \<longrightarrow> fd_lookup w' m = fd_lookup w m"
    then show "lib_type (D - {fd}) w'"
      using r(2) by (intro lib_type_step [OF t]) (auto simp: closed_def)
  qed simp
qed

lemma call_preserves:
  assumes e: "env_total e" and t: "lib_type D w" and c: "call_type D c D'"
  shows "wp (do_call e c) (\<lambda>_ w'. lib_type D' w') (\<lambda>_ _. False) w"
  using c
proof cases
  case (open_type fd st_size oflag)
  show ?thesis
    unfolding open_type do_call_def libcall.case wp_bindP wp_ret
    by (rule wp_mono [OF open1_typed [OF e t open_type(3,4)]]) auto
next
  case (read_type fd sz)
  show ?thesis
    unfolding read_type do_call_def libcall.case wp_bindP wp_ret
    by (rule wp_mono [OF read1_typed [OF e t read_type(3,4)]]) auto
next
  case (pread_type fd sz off)
  show ?thesis
    unfolding pread_type do_call_def libcall.case wp_bindP wp_ret
    by (rule wp_mono [OF pread1_typed [OF e t pread_type(3-5)]]) auto
next
  case (write_type fd sz)
  then show ?thesis using t by (simp add: do_call_def write1_def wp_simps)
next
  case (lseek_type fd off)
  show ?thesis
    unfolding lseek_type do_call_def libcall.case wp_bindP wp_ret
    by (rule wp_mono [OF lseek1_typed [OF t lseek_type(3,4)]]) auto
next
  case (close_type fd)
  show ?thesis
    unfolding close_type do_call_def libcall.case wp_bindP wp_ret
    by (rule wp_mono [OF close1_typed [OF t close_type(3)]]) auto
qed

lemma calls_preserve:
  "env_total e \<Longrightarrow> calls_type D cs D' \<Longrightarrow> lib_type D w \<Longrightarrow>
    wp (do_calls e cs) (\<lambda>_ w'. lib_type D' w') (\<lambda>_ _. False) w"
proof (induction cs arbitrary: D w)
  case Nil
  from Nil.prems(2) show ?case using Nil.prems(3) by (cases) (simp add: wp_simps)
next
  case (Cons c cs)
  from Cons.prems(2) obtain D1 where c: "call_type D c D1" and cs: "calls_type D1 cs D'" by (rule calls_typeE)
  show ?case
    unfolding do_calls.simps wp_bindP
    by (rule wp_mono [OF call_preserves [OF Cons.prems(1,3) c]]) (use Cons.IH [OF Cons.prems(1) cs] in auto)
qed

lemma init_lib_type: "lib_type {} init_lib"
  by (simp add: lib_type_def wf_lib_def file_nodes_def Let_def)

lemma sample_env_total: "env_total sample_env"
  using sample_ready sample_env_ok by (simp add: env_total_def mmap_ready_def)

section \<open>Mappings that fail\<close>

text \<open>
  An environment that answers as \<open>e\<close> does where \<open>e\<close> does not fail.  A library call under \<open>e\<close>
  either goes as under it, or ends in the assertion behind the \<open>mmap\<close> that failed, the last one
  that was made.
\<close>

definition unfailing :: "env \<Rightarrow> env" where
  "unfailing e = e\<lparr>e_mmap := (\<lambda>fd perms off k. if e_mmap e fd perms off k = MAP_FAILED then 1 else e_mmap e fd perms off k)\<rparr>"

lemma unfailing_sel [simp]: "e_malloc (unfailing e) = e_malloc e"
  "e_mmap e fd perms off k \<noteq> MAP_FAILED \<Longrightarrow> e_mmap (unfailing e) fd perms off k = e_mmap e fd perms off k"
  by (simp_all add: unfailing_def)

lemma unfailing_total: "env_ok e \<Longrightarrow> env_total (unfailing e)"
  by (simp add: env_total_def env_ok_def malloc_ok_def) (simp add: unfailing_def MAP_FAILED_def)

definition refused :: "env \<Rightarrow> int \<Rightarrow> lib \<Rightarrow> bool" where
  "refused e fd w \<longleftrightarrow> (\<exists>perms off k. mmap_count w = Suc k \<and> e_mmap e fd perms off k = MAP_FAILED)"

definition follows :: "env \<Rightarrow> int set \<Rightarrow> 'a lprog \<Rightarrow> 'a lprog \<Rightarrow> bool" where
  "follows e F p q \<longleftrightarrow>
     (\<forall>w. p w = q w \<or> (\<exists>w'. p w = (Inl (Trap Assert_Failed), w') \<and> (\<exists>fd \<in> F. refused e fd w')))"

named_theorems follows_rules \<open>what a call under a failing environment follows\<close>

lemma follows_refl [follows_rules]: "follows e F p p"
  by (simp add: follows_def)

lemma follows_bindP [follows_rules]:
  assumes "follows e F p q" "\<And>a. follows e F (k a) (l a)"
  shows "follows e F (bindP p k) (bindP q l)"
  unfolding follows_def
proof
  fix w
  consider "p w = q w" | w' where "p w = (Inl (Trap Assert_Failed), w')" "\<exists>fd \<in> F. refused e fd w'"
    using assms(1) unfolding follows_def by blast
  then show "bindP p k w = bindP q l w \<or>
      (\<exists>w'. bindP p k w = (Inl (Trap Assert_Failed), w') \<and> (\<exists>fd \<in> F. refused e fd w'))"
  proof cases
    case 1
    show ?thesis
    proof (cases "q w")
      case (Pair r w1)
      show ?thesis
      proof (cases r)
        case (Inr a)
        then show ?thesis using 1 Pair assms(2) [of a] by (simp add: bindP_def follows_def)
      qed (use 1 Pair in \<open>simp add: bindP_def\<close>)
    qed
  next
    case 2
    then show ?thesis by (simp add: bindP_def)
  qed
qed

lemma follows_if [follows_rules]:
  "follows e F p q \<Longrightarrow> follows e F p' q' \<Longrightarrow> follows e F (if b then p else p') (if b then q else q')"
  by simp

lemma new_node_unfailing: "new_node (unfailing e) = new_node e"
  by (simp add: new_node_def fun_eq_iff)

lemma grow_unfailing: "grow_loop (unfailing e) fd n = grow_loop e fd n"
  by (induction n) (simp_all add: new_node_unfailing)

lemma insert_unfailing: "insert_loop (unfailing e) h p so a = insert_loop e h p so a"
  by (induction h arbitrary: p so) (simp_all add: new_node_unfailing cong: if_cong)

lemma follows_map_chunk [follows_rules]:
  "fd \<in> F \<Longrightarrow> follows e F (map_chunk e fd off perms) (map_chunk (unfailing e) fd off perms)"
  unfolding follows_def
proof
  fix w :: lib assume F: "fd \<in> F"
  let ?a = "e_mmap e fd perms (ALIGN_MMAP_DOWN off) (mmap_count w)"
  show "map_chunk e fd off perms w = map_chunk (unfailing e) fd off perms w \<or>
      (\<exists>w'. map_chunk e fd off perms w = (Inl (Trap Assert_Failed), w') \<and> (\<exists>fd \<in> F. refused e fd w'))"
  proof (cases "?a = MAP_FAILED")
    case True
    then have "map_chunk e fd off perms w = (Inl (Trap Assert_Failed), mmap_count_update Suc w)"
      by (simp add: map_chunk_def bindP_def query_def update_def halt_def Let_def)
    moreover have "refused e fd (mmap_count_update Suc w)" unfolding refused_def using True by auto
    ultimately show ?thesis using F by blast
  next
    case False
    then show ?thesis
      by (simp add: map_chunk_def bindP_def query_def update_def Let_def grow_unfailing insert_unfailing)
  qed
qed

lemma follows_get [follows_rules]:
  "fd \<in> F \<Longrightarrow> follows e F (get_mmap_address e fd off len perms) (get_mmap_address (unfailing e) fd off len perms)"
  unfolding get_mmap_address_def
  by (intro follows_rules) (auto split: option.split intro!: follows_rules)

lemma follows_pread [follows_rules]:
  "fd \<in> F \<Longrightarrow> follows e F (do_pread e fd sz off) (do_pread (unfailing e) fd sz off)"
  unfolding do_pread_def Let_def case_prod_unfold by (intro follows_rules)

lemma open1_unfailing: "open1 (unfailing e) fd st_size oflag = open1 e fd st_size oflag"
proof -
  have "init_file (unfailing e) fd = init_file e fd" unfolding init_file_def new_node_unfailing ..
  then show ?thesis unfolding open1_def by (simp only:)
qed

definition reads_in :: "libcall list \<Rightarrow> int set" where
  "reads_in cs = {fd. \<exists>sz off. C_read fd sz \<in> set cs \<or> C_pread fd sz off \<in> set cs}"

lemma follows_call [follows_rules]:
  assumes "reads_in [c] \<subseteq> F"
  shows "follows e F (do_call e c) (do_call (unfailing e) c)"
  using assms
  by (cases c) (simp_all add: do_call_def reads_in_def read1_def pread1_def case_prod_unfold open1_unfailing follows_rules)

lemma follows_calls: "reads_in cs \<subseteq> F \<Longrightarrow> follows e F (do_calls e cs) (do_calls (unfailing e) cs)"
proof (induction cs)
  case (Cons c cs)
  have "reads_in [c] \<subseteq> F" "reads_in cs \<subseteq> F" using Cons.prems by (auto simp: reads_in_def)
  with Cons.IH show ?case by (simp add: follows_rules)
qed (simp add: follows_refl)

lemma wp_follows:
  assumes "follows e F p q" "wp q Q (\<lambda>_ _. False) w"
  shows "wp p Q (\<lambda>x w'. x = Trap Assert_Failed \<and> (\<exists>fd \<in> F. refused e fd w')) w"
proof -
  have "p w = q w \<or> (\<exists>w'. p w = (Inl (Trap Assert_Failed), w') \<and> (\<exists>fd \<in> F. refused e fd w'))"
    using assms(1) unfolding follows_def by blast
  then show ?thesis using assms(2) by (auto simp: wp_def split: prod.splits sum.splits)
qed

section \<open>Properties\<close>


text \<open>A kernel that refuses to map what is only open for writing.\<close>

definition strict_env :: env where
  "strict_env = sample_env\<lparr>e_mmap := (\<lambda>fd perms off k. if perms = PROT_WRITE then MAP_FAILED else 2097152 * Suc k)\<rparr>"

lemma strict_env_ok: "env_ok strict_env"
proof -
  have "2097152 * Suc k \<noteq> 0" for k by simp
  then show ?thesis using sample_env_ok(2)
    by (simp add: env_ok_def malloc_ok_def strict_env_def MAP_FAILED_def)
qed


end
