(* ===== verification/Pthread_Noposix.thy ===== *)
theory Pthread_Noposix
  imports Pthread_Test Noposix_Local
begin

text \<open>
  \<open>pthread_test_noposix.c\<close>: the doorbell benchmark on the library of \<open>fileops_noposix.c\<close>.  The
  workers use the global variable \<open>fops\<close>, which a local variable of \<open>main\<close> shadows.

  A call of the library is one step: calls on different descriptors share only \<open>malloc\<close>, which is
  thread safe, and two counters of the statistics.  The rest is as in \<open>Doorbell\<close>.
\<close>

section \<open>State and steps\<close>

record ncfg =
  nc_cfg :: cfg            \<comment> \<open>with the global \<open>fops\<close>\<close>
  nc_fd :: "nat \<Rightarrow> int"
  nc_env :: env

datatype npc =
    N_Create nat
  | N_Seek nat nat | N_Ring nat nat | N_Poll nat nat
  | N_Report nat
  | N_Join nat | N_Close nat
  | N_End | N_Crash trap

record nstate =
  n_main :: npc
  n_worker :: "nat \<Rightarrow> worker_pc"
  n_bell :: "nat \<Rightarrow> int"
  n_lib :: lib
  n_buf :: "nat \<Rightarrow> nat"      \<comment> \<open>the pointers \<open>buf[i]\<close>, which the reads replace\<close>
  n_errors :: nat

definition to_n :: "npc \<Rightarrow> nstate \<Rightarrow> nstate" where
  "to_n pc s = s\<lparr>n_main := pc\<rparr>"

definition to_w :: "nat \<Rightarrow> worker_pc \<Rightarrow> nstate \<Rightarrow> nstate" where
  "to_w pid pc s = s\<lparr>n_worker := (n_worker s)(pid := pc)\<rparr>"

text \<open>A call of the library and what follows it; a crash ends the process.\<close>

definition lib_call :: "'a lprog \<Rightarrow> ('a \<Rightarrow> nstate \<Rightarrow> nstate) \<Rightarrow> nstate \<Rightarrow> nstate" where
  "lib_call p k s = (case p (n_lib s) of
     (Inr a, l) \<Rightarrow> k a (s\<lparr>n_lib := l\<rparr>)
   | (Inl (Trap t), l) \<Rightarrow> s\<lparr>n_lib := l, n_main := N_Crash t\<rparr>
   | (Inl (Exit x), l) \<Rightarrow> s\<lparr>n_lib := l, n_main := N_End\<rparr>)"

definition n_top :: "cfg \<Rightarrow> nat \<Rightarrow> npc" where
  "n_top c r = (if has_round c r then N_Seek r 0 else N_Join 0)"

fun nmain_step :: "ncfg \<Rightarrow> nstate \<Rightarrow> npc \<Rightarrow> nstate option" where
  "nmain_step c s (N_Create i) = Some
     (if i < num_threads (nc_cfg c) then to_n (N_Create (Suc i)) (to_w i (worker_top (nc_cfg c) 0) s)
      else to_n (n_top (nc_cfg c) 0) s)"
| "nmain_step c s (N_Seek r i) = Some
     (if i < num_threads (nc_cfg c)
      then lib_call (lseek1 (nc_fd c i) 0 SEEK_SET) (\<lambda>_. to_n (N_Seek r (Suc i))) s
      else to_n (N_Ring r 0) s)"
| "nmain_step c s (N_Ring r i) = Some
     (if i < num_threads (nc_cfg c) then to_n (N_Ring r (Suc i)) (s\<lparr>n_bell := (n_bell s)(i * 8 := START)\<rparr>)
      else to_n (N_Poll r 0) s)"
| "nmain_step c s (N_Poll r i) = Some
     (if i < num_threads (nc_cfg c)
      then if n_bell s (i * 8) \<noteq> FINISHED then to_n (N_Poll r 0) s else to_n (N_Poll r (Suc i)) s
      else to_n (N_Report r) s)"
| "nmain_step c s (N_Report r) = Some
     (if count (nc_cfg c) r = 0 then to_n (N_Crash Div_By_Zero) s else to_n (n_top (nc_cfg c) (Suc r)) s)"
| "nmain_step c s (N_Join i) =
     (if i < num_threads (nc_cfg c)
      then if n_worker s i = W_Exit then Some (to_n (N_Close i) s) else None
      else Some (to_n N_End s))"
| "nmain_step c s (N_Close i) = Some (lib_call (close1 (nc_fd c i)) (\<lambda>_. to_n (N_Join (Suc i))) s)"
| "nmain_step c s N_End = None"
| "nmain_step c s (N_Crash t) = None"

text \<open>The \<open>switch (fops)\<close> of a transfer: the result and the pointer, if the call sets it.\<close>

definition n_transfer :: "env \<Rightarrow> fops \<Rightarrow> int \<Rightarrow> int \<Rightarrow> int \<Rightarrow> (int \<times> nat option) lprog" where
  "n_transfer e f fd sz off = (case f of
     Op_read \<Rightarrow> read1 e fd sz
   | Op_write \<Rightarrow> bindP (write1 fd sz) (\<lambda>r. ret (r, None))
   | Op_pread \<Rightarrow> pread1 e fd sz off
   | Op_pwrite \<Rightarrow> bindP (pwrite1 fd sz off) (\<lambda>r. ret (r, None)))"

definition n_result :: "nat \<Rightarrow> int \<Rightarrow> int \<times> nat option \<Rightarrow> nstate \<Rightarrow> nstate" where
  "n_result pid sz = (\<lambda>(r, p) s.
     s\<lparr>n_buf := (case p of None \<Rightarrow> n_buf s | Some a \<Rightarrow> (n_buf s)(pid := a)),
       n_errors := n_errors s + (if r \<noteq> sz then 1 else 0)\<rparr>)"

fun nworker_step :: "ncfg \<Rightarrow> nat \<Rightarrow> nstate \<Rightarrow> worker_pc \<Rightarrow> nstate option" where
  "nworker_step c pid s W_New = None"
| "nworker_step c pid s (W_Poll r) = Some (if n_bell s (pid * 8) = START then to_w pid (W_Seek r) s else s)"
| "nworker_step c pid s (W_Seek r) = Some
     (if fops (nc_cfg c) = Op_read \<or> fops (nc_cfg c) = Op_write
      then lib_call (lseek1 (nc_fd c pid) (int (start_offset (nc_cfg c) pid)) SEEK_SET) (\<lambda>_. to_w pid (W_Io r 0)) s
      else to_w pid (W_Io r 0) s)"
| "nworker_step c pid s (W_Io r i) = Some
     (let sz = round_size (nc_cfg c) r in
      if i < count (nc_cfg c) r
      then lib_call (n_transfer (nc_env c) (fops (nc_cfg c)) (nc_fd c pid) (int sz)
             (int (start_offset (nc_cfg c) pid + i * sz)))
             (\<lambda>res s. to_w pid (W_Io r (Suc i)) (n_result pid (int sz) res s)) s
      else to_w pid (W_Bell r) s)"
| "nworker_step c pid s (W_Bell r) = Some
     (to_w pid (worker_top (nc_cfg c) (Suc r)) (s\<lparr>n_bell := (n_bell s)(pid * 8 := FINISHED)\<rparr>))"
| "nworker_step c pid s W_Exit = None"

definition n_running :: "nstate \<Rightarrow> bool" where
  "n_running s \<longleftrightarrow> (case n_main s of N_End \<Rightarrow> False | N_Crash t \<Rightarrow> False | _ \<Rightarrow> True)"

inductive nstep :: "ncfg \<Rightarrow> nstate \<Rightarrow> nstate \<Rightarrow> bool" for c where
  main: "nmain_step c s (n_main s) = Some s' \<Longrightarrow> nstep c s s'"
| worker: "pid < num_threads (nc_cfg c) \<Longrightarrow> n_running s \<Longrightarrow> nworker_step c pid s (n_worker s pid) = Some s' \<Longrightarrow>
    nstep c s s'"

inductive_cases nstepE: "nstep c s s'"

definition ninit :: "lib \<Rightarrow> (nat \<Rightarrow> nat) \<Rightarrow> nstate" where
  "ninit l bufs = \<lparr>n_main = N_Create 0, n_worker = (\<lambda>_. W_New), n_bell = (\<lambda>_. 0), n_lib = l, n_buf = bufs, n_errors = 0\<rparr>"

inductive nreach :: "ncfg \<Rightarrow> nstate \<Rightarrow> nstate \<Rightarrow> bool" for c s0 where
  init: "nreach c s0 s0"
| step: "nreach c s0 s \<Longrightarrow> nstep c s s' \<Longrightarrow> nreach c s0 s'"

section \<open>The setup\<close>

type_synonym 'a bprog = "(world \<times> lib, 'a) prog"

definition on_world :: "'a wprog \<Rightarrow> 'a bprog" where
  "on_world p = (\<lambda>(w, l). let (r, w') = p w in (r, (w', l)))"

definition on_lib :: "'a lprog \<Rightarrow> 'a bprog" where
  "on_lib p = (\<lambda>(w, l). let (r, l') = p l in (r, (w, l')))"

text \<open>\<open>open1\<close> is \<open>open\<close> and \<open>stat\<close> of the system, then \<open>open1\<close> of the library model.\<close>

definition stat_size :: "string \<Rightarrow> world \<Rightarrow> int" where
  "stat_size path w = (case w_dir w path of None \<Rightarrow> 0 | Some n \<Rightarrow> int (i_size (w_ino w n)))"

fun open_all1 :: "env \<Rightarrow> nat \<Rightarrow> int list bprog" where
  "open_all1 e 0 = ret []"
| "open_all1 e (Suc n) =
     bindP (on_world (call (sys_open test1 [O_CREAT, O_RDWR]))) (\<lambda>fd.
     bindP (on_world (query (stat_size test1))) (\<lambda>st_size.
     bindP (on_lib (open1 e fd st_size F_RDWR)) (\<lambda>fd.
     bindP (open_all1 e n) (\<lambda>fds. ret (fd # fds)))))"

definition warm_thread1 :: "env \<Rightarrow> fops \<Rightarrow> int \<Rightarrow> int \<Rightarrow> int \<Rightarrow> int \<Rightarrow> unit bprog" where
  "warm_thread1 e f fs n i fd =
     (let off = fs div n * i in
      bindP (whenP (f = Op_read \<or> f = Op_write) (bindP (on_lib (lseek1 fd off SEEK_SET)) (\<lambda>_. ret ()))) (\<lambda>_.
      bindP (for_int (nat (fs div (4096 * n))) 0
               (\<lambda>j off. bindP (on_lib (n_transfer e f fd 4096 off)) (\<lambda>(r, p).
                  bindP (whenP (r \<noteq> 4096) (on_world (say (Err_Size 4096 r)))) (\<lambda>_. ret (off + 4096)))) off) (\<lambda>_.
      ret ())))"

fun warm_all1 :: "env \<Rightarrow> fops \<Rightarrow> int \<Rightarrow> int \<Rightarrow> int \<Rightarrow> int list \<Rightarrow> unit bprog" where
  "warm_all1 e f fs n i [] = ret ()"
| "warm_all1 e f fs n i (fd # fds) = bindP (warm_thread1 e f fs n i fd) (\<lambda>_. warm_all1 e f fs n (i + 1) fds)"

definition NOPOSIX_END :: int where
  "NOPOSIX_END = 4 * 1024 * 512"

text \<open>
  The configuration of the threads has the global \<open>fops\<close>: no statement assigns it, so it is
  \<open>op_read\<close>, the value 0.
\<close>

definition noposix_cfg :: "nat \<Rightarrow> nat \<Rightarrow> cfg" where
  "noposix_cfg n fs = \<lparr>num_threads = n, start_size = 4096, end_size = nat NOPOSIX_END, FILE_SIZE = fs, fops = Op_read\<rparr>"

definition noposix_setup :: "env \<Rightarrow> string list \<Rightarrow> (int + cfg \<times> int list \<times> int) bprog" where
  "noposix_setup e argv =
     (if length argv < 7 then bindP (on_world (say Usage)) (\<lambda>_. ret (Inl 0))
      else
      bindP (try_res (c_strcpy 20 (argv ! 1))) (\<lambda>fs_type.
      bindP (try_res (c_strcpy 40 (argv ! 2))) (\<lambda>quill_enabled.
      case fops_arg (argv ! 3) of None \<Rightarrow> bindP (on_world (say Err_Plain)) (\<lambda>_. ret (Inl 0)) | Some f \<Rightarrow>
      let n = thread_arg (argv ! 4) in
      bindP (try_res (size_arg (argv ! 5))) (\<lambda>szo.
      case szo of None \<Rightarrow> bindP (on_world (say Bad_Unit)) (\<lambda>_. ret (Inl 0)) | Some fs0 \<Rightarrow>
      let fs = clamp_size NOPOSIX_END fs0 in
      bindP (try_res (c_strcpy 60 (argv ! 6))) (\<lambda>filename.
      bindP (on_world (call (c_fopen_a filename))) (\<lambda>output.
      bindP (on_world (alloc_all NOPOSIX_END (nat n))) (\<lambda>bufs.
      case bufs of None \<Rightarrow> ret (Inl 0) | Some bs \<Rightarrow>
      bindP (open_all1 e (nat n)) (\<lambda>fds.
      bindP (warm_all1 e f fs n 0 fds) (\<lambda>_.
      ret (Inr (noposix_cfg (nat n) (nat fs), fds, output)))))))))))"


section \<open>The invariant\<close>

text \<open>
  What the run needs: an environment whose \<open>malloc\<close> and \<open>mmap\<close> succeed, a descriptor of its own for
  every thread, and slices that are a positive multiple of 2 MB.
\<close>

definition n_ok :: "ncfg \<Rightarrow> bool" where
  "n_ok c \<longleftrightarrow> (let n = num_threads (nc_cfg c); fs = FILE_SIZE (nc_cfg c) in
     env_total (nc_env c) \<and> inj_on (nc_fd c) {..<n} \<and> 0 < n
     \<and> nc_cfg c = noposix_cfg n fs \<and> 2097152 dvd fs div n \<and> 0 < fs div n \<and> fs < 2 ^ 51)"

definition n_offset :: "ncfg \<Rightarrow> nstate \<Rightarrow> nat \<Rightarrow> int" where
  "n_offset c s pid = offset (fd_lookup (n_lib s) (nat (nc_fd c pid)))"

definition n_idle :: "ncfg \<Rightarrow> nstate \<Rightarrow> nat \<Rightarrow> nat \<Rightarrow> bool" where
  "n_idle c s pid r \<longleftrightarrow> n_bell s (pid * 8) \<noteq> START \<and> n_worker s pid = worker_top (nc_cfg c) r"

definition n_active :: "ncfg \<Rightarrow> nstate \<Rightarrow> nat \<Rightarrow> nat \<Rightarrow> bool" where
  "n_active c s pid r \<longleftrightarrow> n_bell s (pid * 8) = START \<and>
     (n_worker s pid = W_Poll r \<or> n_worker s pid = W_Seek r \<or> n_worker s pid = W_Bell r
      \<or> (\<exists>i \<le> count (nc_cfg c) r. n_worker s pid = W_Io r i
          \<and> n_offset c s pid = int (start_offset (nc_cfg c) pid + i * round_size (nc_cfg c) r)))"

definition n_done :: "ncfg \<Rightarrow> nstate \<Rightarrow> nat \<Rightarrow> nat \<Rightarrow> bool" where
  "n_done c s pid r \<longleftrightarrow> n_bell s (pid * 8) = FINISHED \<and> n_worker s pid = worker_top (nc_cfg c) (Suc r)"

fun n_phase :: "ncfg \<Rightarrow> nstate \<Rightarrow> npc \<Rightarrow> nat \<Rightarrow> bool" where
  "n_phase c s (N_Create i) pid \<longleftrightarrow>
     n_bell s (pid * 8) = 0 \<and> n_worker s pid = (if pid < i then worker_top (nc_cfg c) 0 else W_New)"
| "n_phase c s (N_Seek r i) pid \<longleftrightarrow> has_round (nc_cfg c) r \<and> n_idle c s pid r"
| "n_phase c s (N_Ring r i) pid \<longleftrightarrow> has_round (nc_cfg c) r \<and>
     (if pid < i then n_active c s pid r \<or> n_done c s pid r else n_idle c s pid r)"
| "n_phase c s (N_Poll r i) pid \<longleftrightarrow> has_round (nc_cfg c) r \<and>
     (n_active c s pid r \<or> n_done c s pid r) \<and> (pid < i \<longrightarrow> n_done c s pid r)"
| "n_phase c s (N_Report r) pid \<longleftrightarrow> has_round (nc_cfg c) r \<and> n_done c s pid r"
| "n_phase c s (N_Join i) pid \<longleftrightarrow> n_worker s pid = W_Exit"
| "n_phase c s (N_Close i) pid \<longleftrightarrow> n_worker s pid = W_Exit"
| "n_phase c s N_End pid \<longleftrightarrow> n_worker s pid = W_Exit"
| "n_phase c s (N_Crash t) pid \<longleftrightarrow> False"

text \<open>The descriptors below this one are closed.\<close>

fun n_closed :: "ncfg \<Rightarrow> npc \<Rightarrow> nat" where
  "n_closed c (N_Join i) = i"
| "n_closed c (N_Close i) = i"
| "n_closed c N_End = num_threads (nc_cfg c)"
| "n_closed c _ = 0"

definition n_files :: "ncfg \<Rightarrow> lib \<Rightarrow> nat \<Rightarrow> bool" where
  "n_files c l k \<longleftrightarrow> lib_type (nc_fd c ` {k..<num_threads (nc_cfg c)}) l
     \<and> (\<forall>pid. k \<le> pid \<and> pid < num_threads (nc_cfg c) \<longrightarrow>
          int (FILE_SIZE (nc_cfg c)) \<le> length_of (fd_lookup l (nat (nc_fd c pid))))"

definition n_inv :: "ncfg \<Rightarrow> nstate \<Rightarrow> bool" where
  "n_inv c s \<longleftrightarrow> (\<forall>pid < num_threads (nc_cfg c). n_phase c s (n_main s) pid)
     \<and> n_files c (n_lib s) (n_closed c (n_main s)) \<and> (\<forall>i. n_main s = N_Close i \<longrightarrow> i < num_threads (nc_cfg c))
     \<and> n_errors s = 0"

lemma n_sel [simp]:
  "n_main (to_n pc s) = pc" "n_worker (to_n pc s) = n_worker s" "n_bell (to_n pc s) = n_bell s"
  "n_lib (to_n pc s) = n_lib s" "n_errors (to_n pc s) = n_errors s"
  "n_main (to_w pid q s) = n_main s" "n_worker (to_w pid q s) = (n_worker s)(pid := q)"
  "n_bell (to_w pid q s) = n_bell s" "n_lib (to_w pid q s) = n_lib s" "n_errors (to_w pid q s) = n_errors s"
  by (simp_all add: to_n_def to_w_def)

lemma n_phase_cong:
  assumes "n_bell s' (pid * 8) = n_bell s (pid * 8)" "n_worker s' pid = n_worker s pid"
    and "n_offset c s' pid = n_offset c s pid"
  shows "n_phase c s' pc pid = n_phase c s pc pid"
  using assms by (cases pc) (simp_all add: n_idle_def n_active_def n_done_def)

lemma lib_call_wp:
  assumes "wp p Q (\<lambda>_ _. False) (n_lib s)"
  obtains a l where "Q a l" "lib_call p k s = k a (s\<lparr>n_lib := l\<rparr>)"
proof -
  obtain a l where "p (n_lib s) = (Inr a, l)" "Q a l" using wp_returns [OF assms] by blast
  then show ?thesis by (intro that [of a l]) (simp_all add: lib_call_def)
qed

lemma n_fd_apart:
  assumes "n_ok c" "n_files c l k" "k \<le> p" "k \<le> q" "p < num_threads (nc_cfg c)" "q < num_threads (nc_cfg c)" "p \<noteq> q"
  shows "nat (nc_fd c p) \<noteq> nat (nc_fd c q)"
proof -
  have "nc_fd c p \<noteq> nc_fd c q"
    using assms(1,5-7) by (auto simp: n_ok_def Let_def dest: inj_onD)
  moreover have "open_ok l (nc_fd c p)" "open_ok l (nc_fd c q)"
    using assms(2-6) by (auto simp: n_files_def lib_type_def)
  ultimately show ?thesis by (simp add: open_ok_def eq_nat_nat_iff)
qed

text \<open>A library call on the descriptor of one thread that keeps the lengths keeps the files.\<close>

lemma n_files_call:
  assumes "n_files c l k" "lib_type (nc_fd c ` {k..<num_threads (nc_cfg c)}) l'"
    and "\<And>m. length_of (fd_lookup l' m) = length_of (fd_lookup l m)"
  shows "n_files c l' k"
  using assms by (simp add: n_files_def)

section \<open>The invariant is preserved\<close>

lemma n_rounds:
  assumes "n_ok c"
  shows "round_size (nc_cfg c) r = 4096 * 2 ^ r" "has_round (nc_cfg c) r \<longleftrightarrow> r \<le> 9" "fops (nc_cfg c) = Op_read"
    "num_threads (nc_cfg c) > 0" "FILE_SIZE (nc_cfg c) < 2 ^ 51"
proof -
  obtain n fs where C: "nc_cfg c = noposix_cfg n fs" "0 < n" "fs < 2 ^ 51"
    using assms by (auto simp: n_ok_def Let_def)
  have "(2 :: nat) ^ r \<le> 2 ^ 9 \<longleftrightarrow> r \<le> 9" by (rule power_increasing_iff) simp
  then show "round_size (nc_cfg c) r = 4096 * 2 ^ r" "has_round (nc_cfg c) r \<longleftrightarrow> r \<le> 9" "fops (nc_cfg c) = Op_read"
    "num_threads (nc_cfg c) > 0" "FILE_SIZE (nc_cfg c) < 2 ^ 51"
    using C by (simp_all add: round_size_def has_round_def noposix_cfg_def NOPOSIX_END_def)
qed

lemma n_round_dvd: "n_ok c \<Longrightarrow> has_round (nc_cfg c) r \<Longrightarrow> round_size (nc_cfg c) r dvd 2097152"
proof -
  assume c: "n_ok c" and "has_round (nc_cfg c) r"
  then have "r \<le> 9" by (simp add: n_rounds)
  then have "(2 :: nat) ^ r dvd 2 ^ 9" by (intro le_imp_power_dvd)
  then have "4096 * 2 ^ r dvd 4096 * (2 :: nat) ^ 9" by (intro mult_dvd_mono) simp_all
  then show ?thesis using c by (simp add: n_rounds)
qed

lemma n_count_pos:
  assumes c: "n_ok c" and r: "has_round (nc_cfg c) r"
  shows "count (nc_cfg c) r \<noteq> 0"
proof -
  let ?w = "FILE_SIZE (nc_cfg c) div num_threads (nc_cfg c)"
  have w: "2097152 dvd ?w" "0 < ?w" using c by (simp_all add: n_ok_def Let_def)
  have "round_size (nc_cfg c) r dvd ?w" using n_round_dvd [OF c r] w(1) by (rule dvd_trans)
  then have "round_size (nc_cfg c) r \<le> ?w" using w(2) by (rule dvd_imp_le)
  moreover have "0 < round_size (nc_cfg c) r" using c by (simp add: n_rounds)
  ultimately have "0 < ?w div round_size (nc_cfg c) r" by (simp add: div_greater_zero_iff)
  then show ?thesis by (simp add: count_def div_mult2_eq)
qed

text \<open>Every transfer of a slice lies in the slice, at a multiple of its size.\<close>

lemma n_request:
  assumes c: "n_ok c" and r: "has_round (nc_cfg c) r" and i: "i < count (nc_cfg c) r" and pid: "pid < num_threads (nc_cfg c)"
  defines "off \<equiv> start_offset (nc_cfg c) pid + i * round_size (nc_cfg c) r"
  shows "round_size (nc_cfg c) r dvd off" "off + round_size (nc_cfg c) r \<le> FILE_SIZE (nc_cfg c)"
    "0 < round_size (nc_cfg c) r" "round_size (nc_cfg c) r \<le> 2097152"
proof -
  let ?w = "FILE_SIZE (nc_cfg c) div num_threads (nc_cfg c)" and ?sz = "round_size (nc_cfg c) r"
  have dv: "?sz dvd 2097152" by (rule n_round_dvd [OF c r])
  then show "?sz \<le> 2097152" by (rule dvd_imp_le) simp
  have "?sz dvd ?w" using dv c by (auto simp: n_ok_def Let_def intro: dvd_trans)
  then show "?sz dvd off" by (simp add: off_def start_offset_def)
  have "Suc i * ?sz \<le> ?w" using i by (intro io_le) simp
  then have "off + ?sz \<le> start_offset (nc_cfg c) (Suc pid)" by (simp add: off_def start_offset_def)
  also have "\<dots> \<le> start_offset (nc_cfg c) (num_threads (nc_cfg c))" using pid by (intro slice_mono) simp
  also have "\<dots> \<le> FILE_SIZE (nc_cfg c)" by (rule slice_end)
  finally show "off + ?sz \<le> FILE_SIZE (nc_cfg c)" .
  show "0 < ?sz" using c by (simp add: n_rounds)
qed


lemma n_inv_phases:
  "(\<And>q. q < num_threads (nc_cfg c) \<Longrightarrow> n_phase c s (n_main s) q) \<Longrightarrow> n_files c (n_lib s) (n_closed c (n_main s)) \<Longrightarrow>
    (\<And>i. n_main s = N_Close i \<Longrightarrow> i < num_threads (nc_cfg c)) \<Longrightarrow> n_errors s = 0 \<Longrightarrow> n_inv c s"
  by (simp add: n_inv_def)

lemma n_closed_top [simp]: "n_closed c (n_top C r) = 0"
  by (simp add: n_top_def)

lemma n_files_in: "n_files c l k \<Longrightarrow> k \<le> i \<Longrightarrow> i < num_threads (nc_cfg c) \<Longrightarrow> nc_fd c i \<in> nc_fd c ` {k..<num_threads (nc_cfg c)}"
  by auto

lemma nmain_files:
  assumes c: "n_ok c" and inv: "n_inv c s" and st: "nmain_step c s (n_main s) = Some s'"
  shows "n_files c (n_lib s') (n_closed c (n_main s')) \<and> n_errors s' = 0
    \<and> (\<forall>i. n_main s' = N_Close i \<longrightarrow> i < num_threads (nc_cfg c))
    \<and> (\<forall>q < num_threads (nc_cfg c). n_phase c s' (n_main s') q)"
proof -
  let ?n = "num_threads (nc_cfg c)" and ?k = "n_closed c (n_main s)"
  let ?goal = "n_files c (n_lib s') (n_closed c (n_main s')) \<and> n_errors s' = 0
    \<and> (\<forall>i. n_main s' = N_Close i \<longrightarrow> i < ?n) \<and> (\<forall>q < ?n. n_phase c s' (n_main s') q)"
  have I: "n_phase c s (n_main s) q" if "q < ?n" for q using inv that by (simp add: n_inv_def)
  have F: "n_files c (n_lib s) ?k" and E: "n_errors s = 0" using inv by (simp_all add: n_inv_def)
  have t: "lib_type (nc_fd c ` {?k..<?n}) (n_lib s)" using F by (simp add: n_files_def)
  note phase_defs = n_idle_def n_active_def n_done_def n_offset_def
  have goal: ?goal if "n_lib s' = n_lib s" "n_closed c (n_main s') = ?k" "n_errors s' = 0"
    "\<And>i. n_main s' = N_Close i \<Longrightarrow> i < ?n"
    "\<And>q. q < ?n \<Longrightarrow> n_phase c s (n_main s) q \<Longrightarrow> n_phase c s' (n_main s') q"
    using that F I by simp
  show ?goal
  proof (cases "n_main s")
    case (N_Create i)
    then show ?thesis using st E
      by (intro goal) (auto simp: phase_defs n_top_def worker_top_def split: if_splits)
  next
    case (N_Seek r i)
    show ?thesis
    proof (cases "i < ?n")
      case False
      then show ?thesis using N_Seek st E by (intro goal) (auto simp: phase_defs)
    next
      case True
      have fd: "nc_fd c i \<in> nc_fd c ` {?k..<?n}" using True N_Seek by simp
      have s0: "small 0" by (simp add: small_def)
      obtain l where l: "lib_type (nc_fd c ` {?k..<?n}) l"
        "fd_lookup l (nat (nc_fd c i)) = (fd_lookup (n_lib s) (nat (nc_fd c i)))\<lparr>offset := 0\<rparr>"
        "\<forall>m. m \<noteq> nat (nc_fd c i) \<longrightarrow> fd_lookup l m = fd_lookup (n_lib s) m"
        and eq: "lib_call (lseek1 (nc_fd c i) 0 SEEK_SET) (\<lambda>_. to_n (N_Seek r (Suc i))) s
          = to_n (N_Seek r (Suc i)) (s\<lparr>n_lib := l\<rparr>)"
        by (rule lib_call_wp [OF lseek1_typed [OF t fd s0], of "\<lambda>_. to_n (N_Seek r (Suc i))"]) blast
      have s': "s' = to_n (N_Seek r (Suc i)) (s\<lparr>n_lib := l\<rparr>)" using st N_Seek True eq by simp
      have "length_of (fd_lookup l m) = length_of (fd_lookup (n_lib s) m)" for m
        using l(2,3) by (cases "m = nat (nc_fd c i)") simp_all
      then have "n_files c l ?k" by (rule n_files_call [OF F l(1)])
      then show ?thesis using I E N_Seek by (auto simp: s' n_idle_def)
    qed
  next
    case (N_Ring r i)
    then show ?thesis using st E
      by (intro goal) (auto simp: phase_defs worker_top_def less_Suc_eq split: if_splits)
  next
    case (N_Poll r i)
    have "n_done c s i r" if "i < ?n" "n_bell s (i * 8) = FINISHED"
      using I [OF that(1)] that(2) N_Poll by (auto simp: n_active_def)
    then show ?thesis using N_Poll st E I
      by (intro goal) (auto simp: phase_defs less_Suc_eq split: if_splits)
  next
    case (N_Report r)
    have "has_round (nc_cfg c) r" using I [of 0] N_Report n_rounds(4) [OF c] by simp
    then have "count (nc_cfg c) r \<noteq> 0" by (rule n_count_pos [OF c])
    then show ?thesis using N_Report st E I
      by (intro goal) (auto simp: phase_defs n_top_def worker_top_def split: if_splits)
  next
    case (N_Join i)
    have "i \<le> ?n \<Longrightarrow> n_files c (n_lib s) i" using F N_Join by simp
    show ?thesis
    proof (cases "i < ?n")
      case True
      then show ?thesis using N_Join st E by (intro goal) (auto split: if_splits)
    next
      case False
      then have "n_files c (n_lib s) ?n" using F N_Join by (auto simp: n_files_def lib_type_def)
      then show ?thesis using False N_Join st E I by auto
    qed
  next
    case (N_Close i)
    have i: "i < ?n" using inv N_Close by (simp add: n_inv_def)
    have fd: "nc_fd c i \<in> nc_fd c ` {?k..<?n}" using i N_Close by simp
    obtain l where l: "lib_type (nc_fd c ` {i..<?n} - {nc_fd c i}) l"
      "\<forall>m. m \<noteq> nat (nc_fd c i) \<longrightarrow> fd_lookup l m = fd_lookup (n_lib s) m"
      and eq: "lib_call (close1 (nc_fd c i)) (\<lambda>_. to_n (N_Join (Suc i))) s = to_n (N_Join (Suc i)) (s\<lparr>n_lib := l\<rparr>)"
      by (rule lib_call_wp [OF close1_typed [OF t fd], of "\<lambda>_. to_n (N_Join (Suc i))"])
        (unfold N_Close n_closed.simps, blast)
    have s': "s' = to_n (N_Join (Suc i)) (s\<lparr>n_lib := l\<rparr>)" using st N_Close eq by simp
    have sub: "nc_fd c ` {Suc i..<?n} \<subseteq> nc_fd c ` {i..<?n} - {nc_fd c i}"
      using c i by (auto simp: n_ok_def Let_def dest!: inj_onD)
    have "length_of (fd_lookup l (nat (nc_fd c q))) = length_of (fd_lookup (n_lib s) (nat (nc_fd c q)))"
      if "Suc i \<le> q" "q < ?n" for q
    proof -
      have "nat (nc_fd c q) \<noteq> nat (nc_fd c i)"
        using that i F N_Close by (intro n_fd_apart [OF c, of "n_lib s" i]) auto
      then show ?thesis using l(2) by simp
    qed
    then have "n_files c l (Suc i)"
      using F N_Close l(1) sub by (auto simp: n_files_def lib_type_def)
    then show ?thesis using I E N_Close by (auto simp: s')
  qed (use st in simp_all)
qed

lemma nmain_inv: "n_ok c \<Longrightarrow> n_inv c s \<Longrightarrow> nmain_step c s (n_main s) = Some s' \<Longrightarrow> n_inv c s'"
  using nmain_files unfolding n_inv_def by blast


text \<open>A worker that has been started works in the round that the main thread rings or polls for.\<close>

definition n_busy :: "nstate \<Rightarrow> nat \<Rightarrow> nat \<Rightarrow> bool" where
  "n_busy s pid r \<longleftrightarrow> n_worker s pid = W_Seek r \<or> (\<exists>i. n_worker s pid = W_Io r i) \<or> n_worker s pid = W_Bell r
     \<or> n_worker s pid = W_Poll r \<and> n_bell s (pid * 8) = START"

lemma n_busy_phase:
  assumes inv: "n_phase c s pc pid" and b: "n_busy s pid r"
  shows "has_round (nc_cfg c) r" "n_active c s pid r" "n_closed c pc = 0"
    and "n_active c s' pid r \<or> n_done c s' pid r \<Longrightarrow> n_phase c s' pc pid"
proof -
  have top: "n_worker s pid \<noteq> worker_top (nc_cfg c) r'" if "n_bell s (pid * 8) \<noteq> START" for r'
    using b that by (auto simp: n_busy_def worker_top_def)
  have act: "n_active c s pid r' \<Longrightarrow> r' = r \<and> n_bell s (pid * 8) = START" for r'
    using b by (auto simp: n_active_def n_busy_def)
  have fin: "\<not> n_done c s pid r'" for r' using top [of "Suc r'"] by (auto simp: n_done_def)
  have idl: "\<not> n_idle c s pid r'" for r' using top [of r'] by (auto simp: n_idle_def)
  have new: "n_worker s pid \<noteq> W_New" "n_worker s pid \<noteq> W_Exit" using b by (auto simp: n_busy_def)
  have phase: "has_round (nc_cfg c) r \<and> n_active c s pid r
      \<and> ((\<exists>i. pid < i \<and> pc = N_Ring r i) \<or> (\<exists>i \<le> pid. pc = N_Poll r i))"
    using inv fin idl new top [of 0]
    by (cases pc) (auto dest: act simp: worker_top_def not_less split: if_splits)
  then show "has_round (nc_cfg c) r" "n_active c s pid r" "n_closed c pc = 0" by auto
  show "n_active c s' pid r \<or> n_done c s' pid r \<Longrightarrow> n_phase c s' pc pid" using phase by auto
qed

text \<open>What a worker's step does to its own part and to the shared part.\<close>

definition n_own_step :: "ncfg \<Rightarrow> nstate \<Rightarrow> nstate \<Rightarrow> nat \<Rightarrow> nat \<Rightarrow> bool" where
  "n_own_step c s s' pid r \<longleftrightarrow> n_main s' = n_main s \<and> (n_active c s' pid r \<or> n_done c s' pid r)
     \<and> n_files c (n_lib s') 0 \<and> n_errors s' = 0
     \<and> (\<forall>q. q \<noteq> pid \<longrightarrow> n_bell s' (q * 8) = n_bell s (q * 8) \<and> n_worker s' q = n_worker s q)
     \<and> (\<forall>m. m \<noteq> nat (nc_fd c pid) \<longrightarrow> fd_lookup (n_lib s') m = fd_lookup (n_lib s) m)"

lemma n_own_same_lib:
  assumes "n_main s' = n_main s" "n_active c s' pid r \<or> n_done c s' pid r" "n_lib s' = n_lib s" "n_errors s' = n_errors s"
    and "\<And>q. q \<noteq> pid \<Longrightarrow> n_bell s' (q * 8) = n_bell s (q * 8) \<and> n_worker s' q = n_worker s q"
    and "n_files c (n_lib s) 0" "n_errors s = 0"
  shows "n_own_step c s s' pid r"
  using assms by (simp add: n_own_step_def)

lemma n_seek_own:
  assumes c: "n_ok c" and F: "n_files c (n_lib s) 0" and E: "n_errors s = 0" and pid: "pid < num_threads (nc_cfg c)"
    and pc: "n_worker s pid = W_Seek r" and bell: "n_bell s (pid * 8) = START"
    and st: "nworker_step c pid s (n_worker s pid) = Some s'"
  shows "n_own_step c s s' pid r"
proof -
  let ?D = "nc_fd c ` {0..<num_threads (nc_cfg c)}" and ?o = "int (start_offset (nc_cfg c) pid)"
  have t: "lib_type ?D (n_lib s)" and fd: "nc_fd c pid \<in> ?D" using F pid by (simp_all add: n_files_def)
  have "start_offset (nc_cfg c) pid \<le> start_offset (nc_cfg c) (num_threads (nc_cfg c))"
    using pid by (intro slice_mono) simp
  also have "\<dots> \<le> FILE_SIZE (nc_cfg c)" by (rule slice_end)
  also have "\<dots> < 2 ^ 51" by (rule n_rounds(5) [OF c])
  finally have o: "small ?o" by (simp add: small_def)
  obtain l where l: "lib_type ?D l"
    "fd_lookup l (nat (nc_fd c pid)) = (fd_lookup (n_lib s) (nat (nc_fd c pid)))\<lparr>offset := ?o\<rparr>"
    "\<forall>m. m \<noteq> nat (nc_fd c pid) \<longrightarrow> fd_lookup l m = fd_lookup (n_lib s) m"
    and eq: "lib_call (lseek1 (nc_fd c pid) ?o SEEK_SET) (\<lambda>_. to_w pid (W_Io r 0)) s = to_w pid (W_Io r 0) (s\<lparr>n_lib := l\<rparr>)"
    by (rule lib_call_wp [OF lseek1_typed [OF t fd o], of "\<lambda>_. to_w pid (W_Io r 0)"]) blast
  have s': "s' = to_w pid (W_Io r 0) (s\<lparr>n_lib := l\<rparr>)" using st pc eq n_rounds(3) [OF c] by simp
  have "length_of (fd_lookup l m) = length_of (fd_lookup (n_lib s) m)" for m
    using l(2,3) by (cases "m = nat (nc_fd c pid)") simp_all
  then have "n_files c l 0" by (intro n_files_call [OF F l(1)])
  moreover have "n_active c s' pid r" using bell l(2) by (simp add: s' n_active_def n_offset_def)
  ultimately show ?thesis using E l(3) by (simp add: n_own_step_def s')
qed

lemma n_io_own:
  assumes c: "n_ok c" and F: "n_files c (n_lib s) 0" and E: "n_errors s = 0" and pid: "pid < num_threads (nc_cfg c)"
    and pc: "n_worker s pid = W_Io r i" and bell: "n_bell s (pid * 8) = START" and r: "has_round (nc_cfg c) r"
    and i: "i < count (nc_cfg c) r"
    and off: "n_offset c s pid = int (start_offset (nc_cfg c) pid + i * round_size (nc_cfg c) r)"
    and st: "nworker_step c pid s (n_worker s pid) = Some s'"
  shows "n_own_step c s s' pid r"
proof -
  let ?D = "nc_fd c ` {0..<num_threads (nc_cfg c)}" and ?f = "fd_lookup (n_lib s) (nat (nc_fd c pid))"
  let ?sz = "round_size (nc_cfg c) r" and ?e = "nc_env c" and ?fd = "nc_fd c pid"
  let ?k = "\<lambda>res s. to_w pid (W_Io r (Suc i)) (n_result pid (int ?sz) res s)"
  have t: "lib_type ?D (n_lib s)" and fd: "?fd \<in> ?D" using F pid by (simp_all add: n_files_def)
  have e: "env_total ?e" using c by (simp add: n_ok_def Let_def)
  note q = n_request [OF c r i pid]
  have sz: "small (int ?sz)" using q(4) by (simp add: small_def)
  have len: "int (FILE_SIZE (nc_cfg c)) \<le> length_of ?f" using F pid by (simp add: n_files_def)
  have o: "offset ?f = int (start_offset (nc_cfg c) pid + i * ?sz)" using off by (simp add: n_offset_def)
  have full: "served (length_of ?f) (int ?sz) (offset ?f) = int ?sz"
  proof (rule served_full)
    show "int ?sz dvd 2097152" using n_round_dvd [OF c r] by (metis int_dvd_int_iff of_nat_numeral)
    show "int ?sz dvd offset ?f" using q(1) by (simp only: o int_dvd_int_iff)
    have "int (start_offset (nc_cfg c) pid + i * ?sz + ?sz) \<le> int (FILE_SIZE (nc_cfg c))" using q(2) by (simp only: of_nat_le_iff)
    then show "offset ?f + int ?sz \<le> length_of ?f" using len by (simp add: o)
  qed (use q(3) in simp)
  note R = read1_typed [OF e t fd sz, unfolded full]
  obtain res l where res: "case res of (m, p) \<Rightarrow> lib_type ?D l \<and> m = int ?sz
      \<and> offset (fd_lookup l (nat ?fd)) = offset ?f + int ?sz \<and> length_of (fd_lookup l (nat ?fd)) = length_of ?f
      \<and> (\<forall>m. m \<noteq> nat ?fd \<longrightarrow> fd_lookup l m = fd_lookup (n_lib s) m)"
    and eq: "lib_call (read1 ?e ?fd (int ?sz)) ?k s = ?k res (s\<lparr>n_lib := l\<rparr>)"
    by (rule lib_call_wp [OF R, of ?k]) blast
  obtain m p where mp: "res = (m, p)" by (cases res)
  have s': "s' = ?k res (s\<lparr>n_lib := l\<rparr>)" using st pc i eq n_rounds(3) [OF c] by (simp add: Let_def n_transfer_def)
  have l: "lib_type ?D l" "m = int ?sz" "offset (fd_lookup l (nat ?fd)) = offset ?f + int ?sz"
    "length_of (fd_lookup l (nat ?fd)) = length_of ?f" "\<forall>m. m \<noteq> nat ?fd \<longrightarrow> fd_lookup l m = fd_lookup (n_lib s) m"
    using res mp by simp_all
  have sel: "n_main s' = n_main s" "n_bell s' = n_bell s" "n_worker s' = (n_worker s)(pid := W_Io r (Suc i))"
    "n_lib s' = l" "n_errors s' = 0"
    using E l(2) by (simp_all add: s' mp n_result_def)
  have "length_of (fd_lookup l m) = length_of (fd_lookup (n_lib s) m)" for m
    using l(4,5) by (cases "m = nat ?fd") simp_all
  then have "n_files c l 0" by (intro n_files_call [OF F l(1)])
  moreover have "n_active c s' pid r" using bell i l(3) by (simp add: sel n_active_def n_offset_def o algebra_simps)
  ultimately show ?thesis using l(5) by (simp add: n_own_step_def sel)
qed

lemma nworker_inv:
  assumes c: "n_ok c" and inv: "n_inv c s" and pid: "pid < num_threads (nc_cfg c)"
    and st: "nworker_step c pid s (n_worker s pid) = Some s'"
  shows "n_inv c s'"
proof (cases "\<exists>r. n_busy s pid r")
  case False
  then have "s' = s" using st by (cases "n_worker s pid") (auto simp: n_busy_def)
  then show ?thesis using inv by simp
next
  case True
  then obtain r where b: "n_busy s pid r" by blast
  have I: "n_phase c s (n_main s) q" if "q < num_threads (nc_cfg c)" for q using inv that by (simp add: n_inv_def)
  note P = n_busy_phase [OF I [OF pid] b]
  have F: "n_files c (n_lib s) 0" and E: "n_errors s = 0" using inv P(3) by (simp_all add: n_inv_def)
  have bell: "n_bell s (pid * 8) = START" using P(2) by (simp add: n_active_def)
  from b consider (poll) "n_worker s pid = W_Poll r" | (seek) "n_worker s pid = W_Seek r"
    | (io) i where "n_worker s pid = W_Io r i" | (bell) "n_worker s pid = W_Bell r" by (auto simp: n_busy_def)
  then have own: "n_own_step c s s' pid r"
  proof cases
    case poll
    then show ?thesis using st bell by (intro n_own_same_lib F E) (auto simp: n_active_def)
  next
    case seek
    then show ?thesis by (intro n_seek_own [OF c F E pid _ bell st])
  next
    case (io i)
    have act: "i \<le> count (nc_cfg c) r" "n_offset c s pid = int (start_offset (nc_cfg c) pid + i * round_size (nc_cfg c) r)"
      using P(2) io by (auto simp: n_active_def)
    show ?thesis
    proof (cases "i < count (nc_cfg c) r")
      case True
      then show ?thesis by (rule n_io_own [OF c F E pid io bell P(1) _ act(2) st])
    next
      case False
      then show ?thesis using st io bell by (intro n_own_same_lib F E) (auto simp: n_active_def Let_def)
    qed
  next
    case bell
    then show ?thesis using st by (intro n_own_same_lib F E) (auto simp: n_done_def)
  qed
  have "n_phase c s' (n_main s') q" if q: "q < num_threads (nc_cfg c)" for q
  proof (cases "q = pid")
    case True
    then show ?thesis using P(4) [of s'] own by (simp add: n_own_step_def)
  next
    case False
    have "nat (nc_fd c q) \<noteq> nat (nc_fd c pid)" by (rule n_fd_apart [OF c F _ _ q pid False]) simp_all
    then have "n_phase c s' (n_main s) q = n_phase c s (n_main s) q"
      using own False by (intro n_phase_cong) (simp_all add: n_own_step_def n_offset_def)
    then show ?thesis using I [OF q] own by (simp add: n_own_step_def)
  qed
  then show ?thesis using own P(3) inv by (simp add: n_inv_def n_own_step_def)
qed

lemma nreach_inv: "nreach c s0 s \<Longrightarrow> n_ok c \<Longrightarrow> n_inv c s0 \<Longrightarrow> n_inv c s"
proof (induction rule: nreach.induct)
  case (step s s')
  from step.hyps(2) show ?case
    by (rule nstepE) (use step nmain_inv nworker_inv in blast)+
qed simp

lemma ninit_inv: "n_files c l 0 \<Longrightarrow> n_inv c (ninit l bufs)"
  by (simp add: n_inv_def ninit_def)


section \<open>What the setup leaves\<close>

lemma wp_on_world [wp_simps]: "wp (on_world p) Q E = (\<lambda>(w, l). wp p (\<lambda>a w'. Q a (w', l)) (\<lambda>e w'. E e (w', l)) w)"
  by (auto simp: wp_def on_world_def fun_eq_iff Let_def split: prod.splits sum.splits)

lemma wp_on_lib [wp_simps]: "wp (on_lib p) Q E = (\<lambda>(w, l). wp p (\<lambda>a l'. Q a (w, l')) (\<lambda>e l'. E e (w, l')) l)"
  by (auto simp: wp_def on_lib_def fun_eq_iff Let_def split: prod.splits sum.splits)

lemma put_fd_length: "put_fd f t = (n, t') \<Longrightarrow> n \<le> length t \<and> length t' \<le> Suc (length t)"
  by (induction f t arbitrary: n t' rule: put_fd.induct) (auto split: prod.splits)

text \<open>Opening with \<open>O_CREAT\<close> leaves the sizes of all files, and the table grows by one at most.\<close>

definition opens_ok :: "world \<Rightarrow> int \<Rightarrow> world \<Rightarrow> bool" where
  "opens_ok w fd w' \<longleftrightarrow> wf_world w' \<and> w_mem w' = w_mem w \<and> w_log w' = w_log w \<and> (\<forall>p. stat_size p w' = stat_size p w)
     \<and> length (w_fds w') \<le> Suc (length (w_fds w)) \<and> (\<forall>d. get_fd w d \<noteq> None \<longrightarrow> get_fd w' d \<noteq> None)"

lemma sys_open_sizes:
  assumes o: "sys_open path fl w = (fd, w')" and "O_CREAT \<in> set fl" "O_EXCL \<notin> set fl" "O_TRUNC \<notin> set fl"
    and wf: "wf_world w"
  shows "opens_ok w fd w'" "path \<noteq> [] \<Longrightarrow> 0 \<le> fd \<and> fd \<le> int (length (w_fds w)) \<and> get_fd w fd = None \<and> get_fd w' fd \<noteq> None"
proof -
  have inst: "length (w_fds w2) \<le> Suc (length (w_fds w1)) \<and> fd \<le> int (length (w_fds w1))"
    if "install fl n w1 = (fd, w2)" for n w1 w2
    using that put_fd_length by (auto simp: install_def split: prod.splits)
  show "opens_ok w fd w'" "path \<noteq> [] \<Longrightarrow> 0 \<le> fd \<and> fd \<le> int (length (w_fds w)) \<and> get_fd w fd = None \<and> get_fd w' fd \<noteq> None"
  proof (atomize (full), cases "path = []")
    case True
    then show "opens_ok w fd w' \<and> (path \<noteq> [] \<longrightarrow> 0 \<le> fd \<and> fd \<le> int (length (w_fds w)) \<and> get_fd w fd = None \<and> get_fd w' fd \<noteq> None)"
      using o wf by (simp add: sys_open_def opens_ok_def)
  next
    case False
    show "opens_ok w fd w' \<and> (path \<noteq> [] \<longrightarrow> 0 \<le> fd \<and> fd \<le> int (length (w_fds w)) \<and> get_fd w fd = None \<and> get_fd w' fd \<noteq> None)"
    proof (cases "w_dir w path")
      case (Some n)
      then have i: "install fl n w = (fd, w')" using o assms(2-4) False by (simp add: sys_open_def)
      note s = install_spec [OF i]
      have "get_fd w d \<noteq> None \<Longrightarrow> get_fd w' d \<noteq> None" for d using s(4) by simp
      then show ?thesis using s inst [OF i] wf by (simp add: opens_ok_def stat_size_def wf_world_def split: option.splits)
    next
      case None
      let ?w1 = "set_ino (w_next w) empty_inode
          (w\<lparr>w_dir := (w_dir w)(path := Some (w_next w)), w_next := Suc (w_next w)\<rparr>)"
      have i: "install fl (w_next w) ?w1 = (fd, w')" using o assms(2-4) False None by (simp add: sys_open_def)
      note s = install_spec [OF i]
      have g: "get_fd (w\<lparr>w_dir := x, w_next := y\<rparr>) d = get_fd w d" for d x y by (simp add: get_fd_def)
      have "stat_size p w' = stat_size p w" for p
        using None wf by (auto simp: stat_size_def s(5,6) empty_inode_def wf_world_def split: option.splits)
      moreover have "wf_world w'" using wf by (auto simp: wf_world_def s(6,12) less_Suc_eq)
      moreover have "get_fd w d \<noteq> None \<Longrightarrow> get_fd w' d \<noteq> None" for d using s(4) [of d] by (simp add: g)
      ultimately show ?thesis using s(1-3,8,9) inst [OF i] by (simp add: opens_ok_def g)
    qed
  qed
qed


text \<open>The descriptors: distinct, free before, and typed, each with the size of the test file.\<close>

definition fds_ok :: "world \<Rightarrow> lib \<Rightarrow> int set \<Rightarrow> int list \<Rightarrow> lib \<Rightarrow> bool" where
  "fds_ok w l D fds l' \<longleftrightarrow> distinct fds \<and> lib_type (D \<union> set fds) l'
     \<and> (\<forall>fd \<in> set fds. get_fd w fd = None \<and> length_of (fd_lookup l' (nat fd)) = stat_size test1 w)
     \<and> (\<forall>m. m \<notin> nat ` set fds \<longrightarrow> fd_lookup l' m = fd_lookup l m)"

lemma test1_nonempty [simp]: "test1 \<noteq> []"
  by (simp add: test1_def)

lemma open_all1_wp:
  assumes e: "env_total e"
  shows "lib_type D l \<Longrightarrow> wf_world w \<Longrightarrow> length (w_fds w) + n \<le> 1024 \<Longrightarrow> small (stat_size test1 w) \<Longrightarrow>
    wp (open_all1 e n) (\<lambda>fds (w', l'). length fds = n \<and> fds_ok w l D fds l' \<and> w_log w' = w_log w) (\<lambda>_ _. False) (w, l)"
proof (induction n arbitrary: w l D)
  case 0
  then show ?case by (simp add: wp_simps fds_ok_def)
next
  case (Suc n)
  obtain fd w1 where o: "sys_open test1 [O_CREAT, O_RDWR] w = (fd, w1)" by fastforce
  have w1: "opens_ok w fd w1" by (rule sys_open_sizes(1) [OF o]) (use Suc.prems in simp_all)
  have fd: "0 \<le> fd \<and> fd \<le> int (length (w_fds w)) \<and> get_fd w fd = None \<and> get_fd w1 fd \<noteq> None"
    by (rule sys_open_sizes(2) [OF o]) (use Suc.prems in simp_all)
  then have isfd: "is_fd fd" using Suc.prems(3) by (simp add: OPEN_MAX_def)
  have sz: "stat_size test1 w1 = stat_size test1 w" using w1 by (simp add: opens_ok_def)
  note O = open1_typed [OF e Suc.prems(1) isfd, of "stat_size test1 w" F_RDWR]
  have rest: "wp (open_all1 e n) (\<lambda>fds (w', l'). length fds = n \<and> fds_ok w1 l1 (insert fd D) fds l' \<and> w_log w' = w_log w1)
      (\<lambda>_ _. False) (w1, l1)"
    if "lib_type (insert fd D) l1" for l1
    using that w1 Suc.prems by (intro Suc.IH) (simp_all add: opens_ok_def)
  have cons: "fds_ok w l D (fd # fds) l'"
    if l1: "length_of (fd_lookup l1 (nat fd)) = stat_size test1 w" "\<forall>m. m \<noteq> nat fd \<longrightarrow> fd_lookup l1 m = fd_lookup l m"
      and ok: "fds_ok w1 l1 (insert fd D) fds l'" for fds l1 l'
  proof -
    have free: "get_fd w1 d = None" if "d \<in> set fds" for d using ok that by (simp add: fds_ok_def)
    then have nin: "fd \<notin> set fds" using fd by auto
    have neg: "0 \<le> d" if "d \<in> set fds" for d
      using ok that by (auto simp: fds_ok_def lib_type_def open_ok_def)
    have nnin: "nat fd \<notin> nat ` set fds"
    proof
      assume "nat fd \<in> nat ` set fds"
      then obtain d where "d \<in> set fds" "nat fd = nat d" by auto
      then show False using nin neg fd by (metis eq_nat_nat_iff)
    qed
    have "get_fd w d = None" if "d \<in> set fds" for d
      using free [OF that] w1 by (auto simp: opens_ok_def)
    moreover have "length_of (fd_lookup l' (nat fd)) = stat_size test1 w" using ok nnin l1(1) by (simp add: fds_ok_def)
    moreover have "fd_lookup l' m = fd_lookup l m" if "m \<notin> nat ` set (fd # fds)" for m
      using ok that l1(2) by (simp add: fds_ok_def)
    ultimately show ?thesis using ok nin fd sz by (simp add: fds_ok_def insert_commute Un_commute)
  qed
  have "wp (open1 e fd (stat_size test1 w) F_RDWR)
    (\<lambda>r l1. wp (open_all1 e n) (\<lambda>fds (w', l'). length fds = n \<and> fds_ok w l D (r # fds) l' \<and> w_log w' = w_log w) (\<lambda>_ _. False) (w1, l1))
    (\<lambda>_ _. False) l"
  proof (rule wp_mono [OF O [OF Suc.prems(4)]])
    fix r l1
    assume "r = fd \<and> lib_type (insert fd D) l1 \<and> length_of (fd_lookup l1 (nat fd)) = stat_size test1 w
      \<and> (\<forall>m. m \<noteq> nat fd \<longrightarrow> fd_lookup l1 m = fd_lookup l m)"
    then show "wp (open_all1 e n) (\<lambda>fds (w', l'). length fds = n \<and> fds_ok w l D (r # fds) l' \<and> w_log w' = w_log w) (\<lambda>_ _. False) (w1, l1)"
      using w1 by (intro wp_mono [OF rest]) (auto simp: opens_ok_def intro: cons)
  qed simp
  then show ?case
    by (simp add: wp_simps o sz case_prod_unfold)
qed

text \<open>The warm-up keeps the descriptors typed and their lengths.\<close>

definition keeps_files :: "int set \<Rightarrow> lib \<Rightarrow> lib \<Rightarrow> bool" where
  "keeps_files D l l' \<longleftrightarrow> lib_type D l' \<and> (\<forall>m. length_of (fd_lookup l' m) = length_of (fd_lookup l m))"

lemma n_transfer_keeps:
  assumes e: "env_total e" and t: "lib_type D l" and fd: "fd \<in> D" and sz: "small sz" "small off"
  shows "wp (n_transfer e f fd sz off) (\<lambda>_ l'. keeps_files D l l') (\<lambda>_ _. False) l"
proof -
  have len: "\<forall>m. length_of (fd_lookup l' m) = length_of (fd_lookup l m)"
    if "length_of (fd_lookup l' (nat fd)) = length_of (fd_lookup l (nat fd))" "\<forall>m. m \<noteq> nat fd \<longrightarrow> fd_lookup l' m = fd_lookup l m" for l'
    using that by metis
  show ?thesis
  proof (cases f)
    case Op_read
    show ?thesis unfolding Op_read n_transfer_def fops.case
      by (rule wp_mono [OF read1_typed [OF e t fd sz(1)]]) (use len in \<open>auto simp: keeps_files_def\<close>)
  next
    case Op_pread
    show ?thesis unfolding Op_pread n_transfer_def fops.case
      by (rule wp_mono [OF pread1_typed [OF e t fd sz]]) (use len in \<open>auto simp: keeps_files_def\<close>)
  qed (use t in \<open>simp_all add: n_transfer_def write1_def pwrite1_def wp_simps keeps_files_def\<close>)
qed

lemma keeps_files_trans: "keeps_files D l l1 \<Longrightarrow> keeps_files D l1 l2 \<Longrightarrow> keeps_files D l l2"
  by (simp add: keeps_files_def)

lemma keeps_files_refl: "lib_type D l \<Longrightarrow> keeps_files D l l"
  by (simp add: keeps_files_def)

lemma warm_count: "1 \<le> n \<Longrightarrow> fs \<le> 2147483648 \<Longrightarrow> nat (fs div (4096 * n)) \<le> 524288"
proof -
  assume "1 \<le> n" "fs \<le> (2147483648 :: int)"
  then have "fs div (4096 * n) \<le> 2147483648 div (4096 * n)" by (intro zdiv_mono1) simp_all
  also have "\<dots> \<le> 2147483648 div 4096" using \<open>1 \<le> n\<close> by (intro zdiv_mono2) simp_all
  finally show ?thesis by simp
qed

text \<open>Where the slices are multiples of 2 MB and lie in the file, every transfer is served in full.\<close>

definition warm_ok :: "int set \<Rightarrow> lib \<Rightarrow> int \<Rightarrow> int \<Rightarrow> bool" where
  "warm_ok D l fs n \<longleftrightarrow> 2097152 dvd fs div n \<and> (\<forall>fd \<in> D. fs \<le> length_of (fd_lookup l (nat fd)))"

lemma warm_ok_keeps: "keeps_files D l l' \<Longrightarrow> warm_ok D l' fs n = warm_ok D l fs n"
  by (simp add: warm_ok_def keeps_files_def)

lemma n_transfer_full:
  assumes e: "env_total e" and t: "lib_type D l" and fd: "fd \<in> D" and off: "small off" "4096 dvd off"
    and len: "off + 4096 \<le> length_of (fd_lookup l (nat fd))"
    and o: "f = Op_read \<Longrightarrow> offset (fd_lookup l (nat fd)) = off"
  shows "wp (n_transfer e f fd 4096 off)
    (\<lambda>(r, _) l'. r = 4096 \<and> (f = Op_read \<longrightarrow> offset (fd_lookup l' (nat fd)) = off + 4096)) (\<lambda>_ _. False) l"
proof -
  have sz: "small 4096" by (simp add: small_def)
  have full: "served (length_of (fd_lookup l (nat fd))) 4096 off = 4096"
    using off len by (intro served_full) simp_all
  show ?thesis
  proof (cases f)
    case Op_read
    show ?thesis unfolding Op_read n_transfer_def fops.case
      by (rule wp_mono [OF read1_typed [OF e t fd sz]]) (use o [OF Op_read] full in auto)
  next
    case Op_pread
    show ?thesis unfolding Op_pread n_transfer_def fops.case
      by (rule wp_mono [OF pread1_typed [OF e t fd sz off(1)]]) (use full in auto)
  qed (simp_all add: n_transfer_def write1_def pwrite1_def wp_simps s64_id)
qed

lemma warm_slice:
  assumes n: "1 \<le> n" "0 \<le> fs" "fs \<le> 2147483648" "0 \<le> i" "i < (n :: int)"
  shows "0 \<le> fs div n * i" "fs div n * i \<le> 2147483648" "fs div n * i + fs div n \<le> fs"
    "k < nat (fs div (4096 * n)) \<Longrightarrow> int k * 4096 + 4096 \<le> fs div n"
proof -
  have "fs div n * (i + 1) \<le> fs div n * n" using n by (intro mult_left_mono) (simp_all add: pos_imp_zdiv_nonneg_iff)
  also have "\<dots> \<le> fs" using n by (simp add: minus_mod_eq_div_mult [symmetric])
  finally show "fs div n * i + fs div n \<le> fs" by (simp add: distrib_left)
  then show "fs div n * i \<le> 2147483648" using n pos_imp_zdiv_nonneg_iff [of n fs] by linarith
  show "0 \<le> fs div n * i" using n by (simp add: pos_imp_zdiv_nonneg_iff)
  assume "k < nat (fs div (4096 * n))"
  then have "int k + 1 \<le> fs div n div 4096" using n by (simp add: zdiv_zmult2_eq mult.commute zless_nat_eq_int_zless)
  then show "int k * 4096 + 4096 \<le> fs div n" by linarith
qed

lemma warm_thread1_wp:
  assumes e: "env_total e" and t: "lib_type D l" and fd: "fd \<in> D" and n: "1 \<le> n" "0 \<le> fs" "fs \<le> 2147483648" "0 \<le> i" "i < n"
  shows "wp (warm_thread1 e f fs n i fd)
    (\<lambda>_ (w', l'). keeps_files D l l' \<and> (warm_ok D l fs n \<longrightarrow> w_log w' = w_log w)) (\<lambda>_ _. False) (w, l)"
proof -
  note off = warm_slice [OF n] and c = warm_count [OF n(1,3)]
  let ?G = "warm_ok D l fs n"
  define I where "I k off v \<longleftrightarrow> off = fs div n * i + int k * 4096 \<and> keeps_files D l (snd v)
      \<and> (?G \<longrightarrow> w_log (fst v) = w_log w \<and> (f = Op_read \<longrightarrow> offset (fd_lookup (snd v) (nat fd)) = off))"
    for k off and v :: "world \<times> lib"
  have transfer: "wp (n_transfer e f fd 4096 off')
      (\<lambda>(r, p) l2. I (Suc k) (off' + 4096) (if r \<noteq> 4096 then (w1\<lparr>w_log := w_log w1 @ [Err_Size 4096 r]\<rparr>, l2) else (w1, l2)))
      (\<lambda>_ _. False) l1"
    if k: "k < nat (fs div (4096 * n))" and J: "I k off' (w1, l1)" for k off' w1 l1
  proof -
    have o: "off' = fs div n * i + int k * 4096" and t1: "lib_type D l1" and K: "keeps_files D l l1"
      using J by (simp_all add: I_def keeps_files_def)
    have s: "small off'" "small 4096" using o k c off by (simp_all add: small_def)
    note keeps = n_transfer_keeps [OF e t1 fd s(2,1)]
    show ?thesis
    proof (cases ?G)
      case False
      then show ?thesis by (intro wp_mono [OF keeps]) (auto simp: I_def o intro: keeps_files_trans [OF K])
    next
      case G: True
      have "4096 dvd fs div n" using G by (auto simp: warm_ok_def intro: dvd_trans [of 4096 2097152])
      then have d: "4096 dvd off'" by (simp add: o)
      have "fs \<le> length_of (fd_lookup l1 (nat fd))" using G fd K by (simp add: keeps_files_def warm_ok_def)
      then have len: "off' + 4096 \<le> length_of (fd_lookup l1 (nat fd))" using off(3) off(4) [OF k] by (simp add: o)
      have p: "offset (fd_lookup l1 (nat fd)) = off'" if "f = Op_read" using J G that by (simp add: I_def)
      have W: "w_log w1 = w_log w" using J G by (simp add: I_def)
      show ?thesis
        using wp_both [OF keeps n_transfer_full [OF e t1 fd s(1) d len p]]
        by (rule wp_mono) (auto simp: I_def o W intro: keeps_files_trans [OF K])
    qed
  qed
  have loop: "wp (for_int (nat (fs div (4096 * n))) 0
      (\<lambda>j off. bindP (on_lib (n_transfer e f fd 4096 off)) (\<lambda>(r, p).
         bindP (whenP (r \<noteq> 4096) (on_world (say (Err_Size 4096 r)))) (\<lambda>_. ret (off + 4096)))) (fs div n * i))
      (\<lambda>_ v. keeps_files D l (snd v) \<and> (?G \<longrightarrow> w_log (fst v) = w_log w)) (\<lambda>_ _. False) v"
    if v: "I 0 (fs div n * i) v" for v
  proof (rule wp_for_int [where I = I])
    fix k off' and v :: "world \<times> lib"
    assume k: "k < nat (fs div (4096 * n))" and J: "I k off' v"
    obtain w1 l1 where v: "v = (w1, l1)" by (cases v)
    show "wp (bindP (on_lib (n_transfer e f fd 4096 off')) (\<lambda>(r, p).
         bindP (whenP (r \<noteq> 4096) (on_world (say (Err_Size 4096 r)))) (\<lambda>_. ret (off' + 4096)))) (I (Suc k)) (\<lambda>_ _. False) v"
      unfolding v by (simp add: wp_simps case_prod_unfold say_def)
        (rule wp_mono [OF transfer [OF k J [unfolded v]]], auto split: if_splits)
  qed (use v c in \<open>auto simp: I_def\<close>)
  have seek: "wp (whenP (f = Op_read \<or> f = Op_write) (bindP (on_lib (lseek1 fd (fs div n * i) SEEK_SET)) (\<lambda>_. ret ())))
      (\<lambda>_ v. I 0 (fs div n * i) v) (\<lambda>_ _. False) (w, l)"
  proof -
    have o: "small (fs div n * i)" using off by (simp add: small_def)
    have len: "length_of (fd_lookup l' m) = length_of (fd_lookup l m)"
      if "fd_lookup l' (nat fd) = (fd_lookup l (nat fd))\<lparr>offset := x\<rparr>" "\<forall>m. m \<noteq> nat fd \<longrightarrow> fd_lookup l' m = fd_lookup l m" for l' m x
      using that by (cases "m = nat fd") simp_all
    show ?thesis
      using keeps_files_refl [OF t] len
      by (auto simp: wp_simps I_def keeps_files_def intro!: wp_mono [OF lseek1_typed [OF t fd o]])
  qed
  show ?thesis
    unfolding warm_thread1_def Let_def wp_bindP
    by (rule wp_mono [OF seek], rule wp_mono [OF loop]) (auto simp: wp_simps)
qed

lemma warm_all1_wp:
  assumes e: "env_total e" and n: "1 \<le> n" "0 \<le> fs" "fs \<le> 2147483648"
  shows "lib_type D l \<Longrightarrow> set fds \<subseteq> D \<Longrightarrow> 0 \<le> i \<Longrightarrow> i + int (length fds) \<le> n \<Longrightarrow>
    wp (warm_all1 e f fs n i fds)
      (\<lambda>_ (w', l'). keeps_files D l l' \<and> (warm_ok D l fs n \<longrightarrow> w_log w' = w_log w)) (\<lambda>_ _. False) (w, l)"
proof (induction fds arbitrary: i w l)
  case Nil
  then show ?case by (simp add: wp_simps keeps_files_refl)
next
  case (Cons fd fds)
  have fd: "fd \<in> D" using Cons.prems(2) by simp
  show ?case
    unfolding warm_all1.simps wp_bindP
  proof (rule wp_mono [OF warm_thread1_wp [OF e Cons.prems(1) fd n Cons.prems(3)]])
    fix x and v :: "world \<times> lib"
    assume "case v of (w', l') \<Rightarrow> keeps_files D l l' \<and> (warm_ok D l fs n \<longrightarrow> w_log w' = w_log w)"
    then obtain w1 l1 where v: "v = (w1, l1)" "keeps_files D l l1" "warm_ok D l fs n \<longrightarrow> w_log w1 = w_log w"
      by (cases v) simp
    have "wp (warm_all1 e f fs n (i + 1) fds)
        (\<lambda>_ (w', l'). keeps_files D l1 l' \<and> (warm_ok D l1 fs n \<longrightarrow> w_log w' = w_log w1)) (\<lambda>_ _. False) (w1, l1)"
      using Cons.prems v(2) by (intro Cons.IH) (simp_all add: keeps_files_def)
    then show "wp (warm_all1 e f fs n (i + 1) fds)
        (\<lambda>_ (w', l'). keeps_files D l l' \<and> (warm_ok D l fs n \<longrightarrow> w_log w' = w_log w)) (\<lambda>_ _. False) v"
      unfolding v(1)
      by (rule wp_mono) (use v(3) warm_ok_keeps [OF v(2)] in \<open>auto intro: keeps_files_trans [OF v(2)]\<close>)
  qed (use Cons.prems in simp_all)
qed


lemma alloc_all_keeps: "wp (alloc_all bytes n) (\<lambda>bs w'. bs \<noteq> None \<longrightarrow> w' = w) (\<lambda>_ _. False) w"
proof (induction n)
  case (Suc n)
  show ?case
  proof (cases "bytes \<le> w_mem w")
    case True
    have "wp (alloc_all bytes n) (\<lambda>bs w'. map_option ((#) (w_junk w)) bs \<noteq> None \<longrightarrow> w' = w) (\<lambda>_ _. False) w"
      by (rule wp_mono [OF Suc]) auto
    with True show ?thesis by (simp add: wp_simps sys_memalign_def)
  qed (simp add: wp_simps sys_memalign_def say_def)
qed (simp add: wp_simps)

definition setup_left :: "world \<Rightarrow> lib \<Rightarrow> cfg \<times> int list \<times> int \<Rightarrow> bool" where
  "setup_left w l' = (\<lambda>(c, fds, out). \<exists>n fs. c = noposix_cfg n fs \<and> 1 \<le> n \<and> n \<le> 16
     \<and> 2097152 \<le> fs \<and> fs \<le> 2147483648 \<and> length fds = n \<and> distinct fds \<and> lib_type (set fds) l'
     \<and> (\<forall>fd \<in> set fds. length_of (fd_lookup l' (nat fd)) = stat_size test1 w))"

text \<open>
  The part of the setup behind the arguments.  It prints nothing about an error where the file is
  long enough and its slices are multiples of 2 MB.
\<close>

definition setup_quiet :: "world \<Rightarrow> world \<Rightarrow> cfg \<Rightarrow> bool" where
  "setup_quiet w w' c \<longleftrightarrow>
     (int (FILE_SIZE c) \<le> stat_size test1 w \<and> 2097152 dvd FILE_SIZE c div num_threads c \<longrightarrow> w_log w' = w_log w)"

lemma setup_files_wp:
  assumes e: "env_total e" and l: "wf_lib l" and w: "wf_world w" "length (w_fds w) \<le> 1000" "small (stat_size test1 w)"
    and n: "1 \<le> n" "n \<le> 16" "2097152 \<le> fs" "fs \<le> 2147483648"
  shows "wp (bindP (open_all1 e (nat n)) (\<lambda>fds. bindP (warm_all1 e f fs n 0 fds) (\<lambda>_.
      ret (Inr (noposix_cfg (nat n) (nat fs), fds, out)))))
    (\<lambda>r (w', l'). case r of Inl (x :: int) \<Rightarrow> False | Inr x \<Rightarrow> setup_left w l' x \<and> setup_quiet w w' (fst x))
    (\<lambda>_ _. False) (w, l)"
proof -
  have t: "lib_type {} l" using l by (simp add: lib_type_def)
  have "length (w_fds w) + nat n \<le> 1024" using w(2) n by simp
  note open1 = open_all1_wp [OF e t w(1) this w(3)]
  show ?thesis
    unfolding wp_bindP wp_ret
  proof (rule wp_mono [OF open1])
    fix fds and v :: "world \<times> lib"
    assume "case v of (w', l') \<Rightarrow> length fds = nat n \<and> fds_ok w l {} fds l' \<and> w_log w' = w_log w"
    then obtain w1 l1 where v: "v = (w1, l1)" "length fds = nat n" "fds_ok w l {} fds l1" "w_log w1 = w_log w"
      by (cases v) simp
    have t1: "lib_type (set fds) l1" and d: "distinct fds"
      and len: "\<forall>fd \<in> set fds. length_of (fd_lookup l1 (nat fd)) = stat_size test1 w"
      using v(3) by (simp_all add: fds_ok_def)
    have dv: "2097152 dvd fs div n" if "2097152 dvd nat fs div nat n"
    proof -
      have "int 2097152 dvd int (nat fs div nat n)" using that by (simp only: of_nat_dvd_iff)
      then show ?thesis using n by (simp add: zdiv_int)
    qed
    have quiet: "setup_quiet w w' (noposix_cfg (nat n) (nat fs))"
      if "warm_ok (set fds) l1 fs n \<longrightarrow> w_log w' = w_log w1" for w'
      using that dv len v(4) n by (auto simp: setup_quiet_def warm_ok_def noposix_cfg_def)
    have "wp (warm_all1 e f fs n 0 fds)
        (\<lambda>_ (w', l'). keeps_files (set fds) l1 l' \<and> (warm_ok (set fds) l1 fs n \<longrightarrow> w_log w' = w_log w1)) (\<lambda>_ _. False) (w1, l1)"
      using n v(2) by (intro warm_all1_wp [OF e _ _ _ t1]) simp_all
    then show "wp (warm_all1 e f fs n 0 fds)
        (\<lambda>a v. (\<lambda>(w', l'). case Inr (noposix_cfg (nat n) (nat fs), fds, out) of Inl (x :: int) \<Rightarrow> False
           | Inr x \<Rightarrow> setup_left w l' x \<and> setup_quiet w w' (fst x)) v) (\<lambda>_ _. False) v"
      unfolding v(1)
      by (rule wp_mono) (use n v(2) d len quiet in \<open>auto simp: keeps_files_def setup_left_def intro!: exI\<close>)
  qed simp
qed

text \<open>The setup crashes on its arguments only, before it has opened anything.\<close>

lemma noposix_setup_wp:
  assumes e: "env_total e" and l: "wf_lib l" and w: "wf_world w" "length (w_fds w) < 1000" "small (stat_size test1 w)"
  shows "wp (noposix_setup e argv)
    (\<lambda>r (w', l'). case r of Inl x \<Rightarrow> x = 0 | Inr x \<Rightarrow> setup_left w l' x \<and> setup_quiet w w' (fst x))
    (\<lambda>x v. (x = Trap Buffer_Overflow \<or> x = Trap Out_Of_Bounds) \<and> v = (w, l)) (w, l)"
proof -
  note n = thread_arg_range [of "argv ! 4"]
  have fs: "2097152 \<le> clamp_size NOPOSIX_END x" "clamp_size NOPOSIX_END x \<le> 2147483648" for x
    using clamp_size_range [of NOPOSIX_END x] by (auto simp: NOPOSIX_END_def)
  let ?Q = "\<lambda>r (w', l'). case r of Inl (x :: int) \<Rightarrow> x = 0 | Inr x \<Rightarrow> setup_left w l' x \<and> setup_quiet w w' (fst x)"
  let ?E = "\<lambda>x v. (x = Trap Buffer_Overflow \<or> x = Trap Out_Of_Bounds) \<and> v = (w, l)"
  have files: "wp (open_all1 e (nat (thread_arg (argv ! 4)))) (\<lambda>fds. wp (warm_all1 e f (clamp_size NOPOSIX_END x) (thread_arg (argv ! 4)) 0 fds)
      (\<lambda>_. ?Q (Inr (noposix_cfg (nat (thread_arg (argv ! 4))) (nat (clamp_size NOPOSIX_END x)), fds, out))) ?E) ?E (w1, l)"
    if "opens_ok w d w1" for f x out d w1
  proof -
    have w1: "wf_world w1" "length (w_fds w1) \<le> 1000" "small (stat_size test1 w1)"
      "setup_left w1 = setup_left w" "setup_quiet w1 = setup_quiet w"
      using that w by (simp_all add: opens_ok_def setup_left_def setup_quiet_def fun_eq_iff)
    show ?thesis
      using setup_files_wp [OF e l w1(1-3) n [THEN conjunct1] n [THEN conjunct2] fs, of f x out]
      unfolding wp_bindP wp_ret by (elim wp_mono) (auto simp: w1(4,5) elim!: wp_mono)
  qed
  have fopen: "opens_ok w (fst (c_fopen_a f w)) (snd (c_fopen_a f w))" for f
    unfolding c_fopen_a_def by (rule sys_open_sizes(1) [OF prod.collapse [symmetric]]) (use w in simp_all)
  show ?thesis
    unfolding noposix_setup_def
    by (auto simp: wp_simps say_def c_strcpy_def size_arg_def Let_def split: sum.splits option.splits
        intro!: wp_mono [OF alloc_all_keeps])
      (use files [OF fopen] in simp)
qed


lemma noposix_cfg_sel [simp]:
  "num_threads (noposix_cfg n fs) = n" "FILE_SIZE (noposix_cfg n fs) = fs" "fops (noposix_cfg n fs) = Op_read"
  by (simp_all add: noposix_cfg_def)

section \<open>A concrete run\<close>

definition noposix_argv :: "string list" where
  "noposix_argv = [''test'', ''pmfs'', ''noposix'', ''write'', ''1'', ''2M'', ''out'']"

definition mb2_world :: world where
  "mb2_world = one_file_world\<lparr>w_ino := (\<lambda>_. \<lparr>i_data = (\<lambda>_. 0), i_size = 2097152\<rparr>)\<rparr>"

lemma mb2_world_sel:
  "stat_size test1 mb2_world = 2097152" "wf_world mb2_world" "w_mem mb2_world = 67108864" "w_fds mb2_world = []"
  by (simp_all add: mb2_world_def stat_size_def one_file_world_def wf_world_def fresh_world_def)

lemma noposix_args:
  "thread_arg ''1'' = 1" "size_arg ''2M'' = Inr (Some 2097152)" "clamp_size NOPOSIX_END 2097152 = 2097152"
  "c_strcpy 20 ''pmfs'' = Inr ''pmfs''" "c_strcpy 40 ''noposix'' = Inr ''noposix''" "c_strcpy 60 ''out'' = Inr ''out''"
  by code_simp+

lemma sample_argv_sel:
  "length noposix_argv = 7" "noposix_argv ! 1 = ''pmfs''" "noposix_argv ! 2 = ''noposix''" "noposix_argv ! 3 = ''write''"
  "noposix_argv ! Suc 0 = ''pmfs''"
  "noposix_argv ! 4 = ''1''" "noposix_argv ! 5 = ''2M''" "noposix_argv ! 6 = ''out''" "fops_arg ''write'' = Some Op_write"
  by (simp_all add: noposix_argv_def fops_arg_def)

lemma bindP_ret: "bindP (ret a) k = k a"
  by (simp add: bindP_def ret_def fun_eq_iff)

lemma bindP_Inr: "p w = (Inr a, w') \<Longrightarrow> bindP p k w = k a w'"
  by (simp add: bindP_def)

lemma noposix_sample_run:
  "\<exists>fds out w' l'. noposix_setup sample_env noposix_argv (mb2_world, init_lib)
     = (Inr (Inr (noposix_cfg 1 2097152, fds, out)), (w', l'))"
proof -
  obtain out w1 where o: "c_fopen_a ''out'' mb2_world = (out, w1)" by fastforce
  have w1: "opens_ok mb2_world out w1"
    by (rule sys_open_sizes(1) [OF o [unfolded c_fopen_a_def]]) (simp_all add: mb2_world_sel)
  have nn: "nat 1 = Suc 0" "nat 2097152 = 2097152" by simp_all
  let ?p = "bindP (open_all1 sample_env (Suc 0)) (\<lambda>fds. bindP (warm_all1 sample_env Op_write 2097152 1 0 fds) (\<lambda>_.
      ret (Inr (noposix_cfg (Suc 0) 2097152, fds, out) :: int + cfg \<times> int list \<times> int)))"
  have "alloc_all NOPOSIX_END (Suc 0) w1 = (Inr (Some [w_junk w1]), w1)"
    using w1 by (simp add: bindP_def call_def ret_def sys_memalign_def opens_ok_def mb2_world_sel NOPOSIX_END_def)
  then have c: "on_world (call (c_fopen_a ''out'')) (mb2_world, init_lib) = (Inr out, (w1, init_lib))"
    "on_world (alloc_all NOPOSIX_END (Suc 0)) (w1, init_lib) = (Inr (Some [w_junk w1]), (w1, init_lib))"
    by (simp_all add: on_world_def call_def o)
  have b: "bindP (on_world (call (c_fopen_a ''out''))) k (mb2_world, init_lib) = k out (w1, init_lib)"
    "bindP (on_world (alloc_all NOPOSIX_END (Suc 0))) k2 (w1, init_lib) = k2 (Some [w_junk w1]) (w1, init_lib)" for k k2
    by (rule bindP_Inr, rule c)+
  have tr: "try_res (Inr a) = ret a" for a by (simp add: try_res_def)
  have eq: "noposix_setup sample_env noposix_argv (mb2_world, init_lib) = ?p (w1, init_lib)"
    by (simp only: noposix_setup_def sample_argv_sel less_irrefl noposix_args tr bindP_ret Let_def if_False option.case b nn)
  have "wp ?p (\<lambda>r (w', l'). case r of Inl x \<Rightarrow> False | Inr x \<Rightarrow> setup_left w1 l' x \<and> setup_quiet w1 w' (fst x))
    (\<lambda>_ _. False) (w1, init_lib)"
  proof -
    have f: "wf_lib init_lib" "wf_world w1" "length (w_fds w1) \<le> 1000" "small (stat_size test1 w1)"
      using w1 init_lib_type by (auto simp: opens_ok_def mb2_world_sel small_def lib_type_def)
    show ?thesis
      by (rule setup_files_wp [OF sample_env_total f, of 1 2097152 Op_write out, unfolded nn]) simp_all
  qed
  from wp_returns [OF this] obtain r v where r: "?p (w1, init_lib) = (Inr r, v)" by (elim exE conjE) (rule that)
  have "wp ?p (\<lambda>r v. \<exists>fds. r = Inr (noposix_cfg 1 2097152, fds, out)) (\<lambda>_ _. True) (w1, init_lib)"
    unfolding wp_bindP wp_ret by (intro wpI) auto
  from wp_result [OF this r] obtain fds where "r = Inr (noposix_cfg 1 2097152, fds, out)" by blast
  then show ?thesis using r eq by (cases v) auto
qed

section \<open>Properties\<close>

lemma setup_left_inv:
  assumes "env_total e" and left: "setup_left w l' (c, fds, out)" and size: "int (FILE_SIZE c) \<le> stat_size test1 w"
    and slice: "2097152 dvd FILE_SIZE c div num_threads c"
  defines "C \<equiv> \<lparr>nc_cfg = c, nc_fd = (!) fds, nc_env = e\<rparr>"
  shows "n_ok C" "n_inv C (ninit l' bufs)"
proof -
  obtain n fs where c: "c = noposix_cfg n fs" "1 \<le> n" "n \<le> 16" "2097152 \<le> fs" "fs \<le> 2147483648"
    and fds: "length fds = n" "distinct fds" "lib_type (set fds) l'"
      "\<forall>fd \<in> set fds. length_of (fd_lookup l' (nat fd)) = stat_size test1 w"
    using left by (auto simp: setup_left_def)
  have set: "(!) fds ` {0..<n} = set fds" using fds(1) nth_image [of n fds] by simp
  have "0 < fs div n" using c(2-4) by (simp add: div_greater_zero_iff)
  moreover have "inj_on ((!) fds) {..<n}" using fds(1,2) by (simp add: inj_on_nth)
  ultimately show "n_ok C" using assms(1) slice c by (simp add: n_ok_def C_def)
  have "n_files C l' 0" using fds size set c by (simp add: n_files_def C_def)
  then show "n_inv C (ninit l' bufs)" by (rule ninit_inv)
qed

lemma n_clean: "n_ok c \<Longrightarrow> n_inv c s0 \<Longrightarrow> nreach c s0 s \<Longrightarrow> fops (nc_cfg c) = Op_read \<and> n_errors s = 0 \<and> n_main s \<noteq> N_Crash t"
proof -
  assume ok: "n_ok c" and inv: "n_inv c s0" and reach: "nreach c s0 s"
  have I: "n_inv c s" by (rule nreach_inv [OF reach ok inv])
  then have "n_phase c s (n_main s) 0" using n_rounds(4) [OF ok] by (simp add: n_inv_def)
  then show ?thesis using I n_rounds(3) [OF ok] by (auto simp: n_inv_def)
qed

text \<open>A call of the library returns where the invariant holds behind it.\<close>

lemma lib_call_goes:
  assumes "n_inv c (lib_call p k s)" "n_worker s pid \<noteq> W_Exit" "pid < num_threads (nc_cfg c)"
  shows "\<exists>a l. lib_call p k s = k a (s\<lparr>n_lib := l\<rparr>)"
proof (cases "p (n_lib s)")
  case (Pair r l)
  show ?thesis
  proof (cases r)
    case (Inr a)
    then show ?thesis using Pair by (auto simp: lib_call_def)
  next
    case (Inl x)
    have "n_phase c (lib_call p k s) (n_main (lib_call p k s)) pid" using assms by (simp add: n_inv_def)
    then show ?thesis using Inl Pair assms(2) by (cases x) (simp_all add: lib_call_def)
  qed
qed

text \<open>One thread: the main thread starts the first round, the worker makes its first read.\<close>

lemma noposix_first_read:
  assumes "n_ok c" "n_inv c (ninit l bufs)" and n: "num_threads (nc_cfg c) = 1"
  shows "\<exists>s. nreach c (ninit l bufs) s \<and> n_worker s 0 = W_Io 0 1"
proof -
  let ?s0 = "ninit l bufs"
  define at where "at pc q b s \<longleftrightarrow> nreach c ?s0 s \<and> n_main s = pc \<and> n_worker s 0 = q \<and> n_bell s 0 = b" for pc q b s
  have main: "nreach c ?s0 s'" if "at pc q b s" "nmain_step c s pc = Some s'" for pc q b s s'
    using that by (auto simp: at_def intro: nreach.step nstep.main)
  have worker: "nreach c ?s0 s'" if "at (N_Poll 0 0) q b s" "nworker_step c 0 s q = Some s'" for q b s s'
  proof -
    have "nstep c s s'" by (rule nstep.worker [of 0]) (use that in \<open>auto simp: at_def n n_running_def\<close>)
    then show ?thesis using that(1) by (auto simp: at_def intro: nreach.step)
  qed
  have inv: "n_inv c s" if "nreach c ?s0 s" for s using that assms(1,2) by (rule nreach_inv)
  note rd = n_rounds [OF assms(1)]
  have top: "has_round (nc_cfg c) 0" by (simp add: rd)
  have w0: "worker_top (nc_cfg c) 0 = W_Poll 0" "n_top (nc_cfg c) 0 = N_Seek 0 0" by (simp_all add: top worker_top_def n_top_def)
  have "at (N_Create 0) W_New 0 ?s0" by (simp add: at_def ninit_def nreach.init)
  from main [OF this] have "\<exists>s. at (N_Create 1) (W_Poll 0) 0 s" by (auto simp: at_def n w0 ninit_def)
  then obtain s1 where s1: "at (N_Create 1) (W_Poll 0) 0 s1" ..
  from main [OF s1] s1 have "\<exists>s. at (N_Seek 0 0) (W_Poll 0) 0 s" by (auto simp: at_def n w0)
  then obtain s2 where s2: "at (N_Seek 0 0) (W_Poll 0) 0 s2" ..
  let ?k = "\<lambda>_. to_n (N_Seek 0 (Suc 0))"
  have r3: "nreach c ?s0 (lib_call (lseek1 (nc_fd c 0) 0 SEEK_SET) ?k s2)" by (rule main [OF s2]) (simp add: n)
  then obtain l3 where "lib_call (lseek1 (nc_fd c 0) 0 SEEK_SET) ?k s2 = ?k 0 (s2\<lparr>n_lib := l3\<rparr>)"
    using lib_call_goes [OF inv [OF r3], of 0] s2 by (auto simp: n at_def)
  with r3 s2 have "\<exists>s. at (N_Seek 0 1) (W_Poll 0) 0 s" by (auto simp: at_def)
  then obtain s3 where s3: "at (N_Seek 0 1) (W_Poll 0) 0 s3" ..
  from main [OF s3] s3 have "\<exists>s. at (N_Ring 0 0) (W_Poll 0) 0 s" by (auto simp: at_def n)
  then obtain s4 where s4: "at (N_Ring 0 0) (W_Poll 0) 0 s4" ..
  from main [OF s4] s4 have "\<exists>s. at (N_Ring 0 1) (W_Poll 0) START s" by (auto simp: at_def n)
  then obtain s5 where s5: "at (N_Ring 0 1) (W_Poll 0) START s5" ..
  from main [OF s5] s5 have "\<exists>s. at (N_Poll 0 0) (W_Poll 0) START s" by (auto simp: at_def n)
  then obtain s6 where s6: "at (N_Poll 0 0) (W_Poll 0) START s6" ..
  from worker [OF s6] s6 have "\<exists>s. at (N_Poll 0 0) (W_Seek 0) START s" by (auto simp: at_def)
  then obtain s7 where s7: "at (N_Poll 0 0) (W_Seek 0) START s7" ..
  let ?o = "int (start_offset (nc_cfg c) 0)" and ?k = "\<lambda>_. to_w 0 (W_Io 0 0)"
  have r8: "nreach c ?s0 (lib_call (lseek1 (nc_fd c 0) ?o SEEK_SET) ?k s7)" by (rule worker [OF s7]) (simp add: rd)
  then obtain l8 where "lib_call (lseek1 (nc_fd c 0) ?o SEEK_SET) ?k s7 = ?k 0 (s7\<lparr>n_lib := l8\<rparr>)"
    using lib_call_goes [OF inv [OF r8], of 0] s7 by (auto simp: n at_def)
  with r8 s7 have "\<exists>s. at (N_Poll 0 0) (W_Io 0 0) START s" by (auto simp: at_def)
  then obtain s8 where s8: "at (N_Poll 0 0) (W_Io 0 0) START s8" ..
  have pos: "0 < count (nc_cfg c) 0" using n_count_pos [OF assms(1) top] by simp
  let ?sz = "int (round_size (nc_cfg c) 0)"
  let ?p = "n_transfer (nc_env c) (fops (nc_cfg c)) (nc_fd c 0) ?sz (int (start_offset (nc_cfg c) 0))"
  let ?k = "\<lambda>res s. to_w 0 (W_Io 0 1) (n_result 0 ?sz res s)"
  have r9: "nreach c ?s0 (lib_call ?p ?k s8)" by (rule worker [OF s8]) (use pos in \<open>simp add: Let_def\<close>)
  then obtain a l where "lib_call ?p ?k s8 = ?k a (s8\<lparr>n_lib := l\<rparr>)"
    using lib_call_goes [OF inv [OF r9], of 0] s8 by (auto simp: n at_def)
  with r9 show ?thesis by auto
qed

text \<open>
  C6: End to end, from the arguments of \<open>main\<close> to every state of every interleaving.  With a \<open>malloc\<close>
  and an \<open>mmap\<close> that succeed, the setup ends, with the warm-up calls of every thread; it crashes
  on its arguments only (one that is too long, an empty size), before it has opened a file.  If the
  test file is at least as long as the file size asked for, and the slice of a thread is a multiple
  of 2 MB, no transfer of the warm-up prints an error, and in the threads that follow no transfer
  prints one, the library never crashes and no round divides by zero.  Whatever operation was asked
  for, the threads only ever read.
\<close>

theorem noposix_threads_clean:
  assumes "env_total e" "wf_lib l" "wf_world w" "length (w_fds w) < 1000" "stat_size test1 w < 2 ^ 52"
  shows "wp (noposix_setup e argv)
    (\<lambda>r (w', l'). case r of Inl x \<Rightarrow> x = 0
      | Inr (c, fds, out) \<Rightarrow> int (FILE_SIZE c) \<le> stat_size test1 w \<and> 2097152 dvd FILE_SIZE c div num_threads c
          \<longrightarrow> w_log w' = w_log w
            \<and> (\<forall>bufs s. nreach \<lparr>nc_cfg = c, nc_fd = (!) fds, nc_env = e\<rparr> (ninit l' bufs) s
                 \<longrightarrow> fops c = Op_read \<and> n_errors s = 0 \<and> (\<forall>t. n_main s \<noteq> N_Crash t)))
    (\<lambda>x v. (x = Trap Buffer_Overflow \<or> x = Trap Out_Of_Bounds) \<and> v = (w, l)) (w, l)"
proof (rule wp_mono [OF noposix_setup_wp [OF assms(1-4)]])
  show "small (stat_size test1 w)" using assms(5) by (simp add: small_def stat_size_def split: option.splits)
  fix r and v :: "world \<times> lib"
  assume "case v of (w', l') \<Rightarrow> case r of Inl x \<Rightarrow> x = 0 | Inr x \<Rightarrow> setup_left w l' x \<and> setup_quiet w w' (fst x)"
  then show "case v of (w', l') \<Rightarrow> case r of Inl x \<Rightarrow> x = 0
      | Inr (c, fds, out) \<Rightarrow> int (FILE_SIZE c) \<le> stat_size test1 w \<and> 2097152 dvd FILE_SIZE c div num_threads c
          \<longrightarrow> w_log w' = w_log w
            \<and> (\<forall>bufs s. nreach \<lparr>nc_cfg = c, nc_fd = (!) fds, nc_env = e\<rparr> (ninit l' bufs) s
                 \<longrightarrow> fops c = Op_read \<and> n_errors s = 0 \<and> (\<forall>t. n_main s \<noteq> N_Crash t))"
    using n_clean [OF setup_left_inv [OF assms(1)]] by (fastforce simp: setup_quiet_def split: sum.splits)
qed

theorem noposix_threads_clean_witness:
  "\<exists>fds out w' l' s. noposix_setup sample_env noposix_argv (mb2_world, init_lib)
       = (Inr (Inr (noposix_cfg 1 2097152, fds, out)), (w', l'))
     \<and> w_log w' = w_log mb2_world
     \<and> nreach \<lparr>nc_cfg = noposix_cfg 1 2097152, nc_fd = (!) fds, nc_env = sample_env\<rparr> (ninit l' (\<lambda>_. 0)) s
     \<and> n_worker s 0 = W_Io 0 1 \<and> n_errors s = 0 \<and> (\<forall>t. n_main s \<noteq> N_Crash t)"
proof -
  obtain fds out w' l' where s: "noposix_setup sample_env noposix_argv (mb2_world, init_lib)
     = (Inr (Inr (noposix_cfg 1 2097152, fds, out)), (w', l'))" using noposix_sample_run by blast
  have wf: "wf_lib init_lib" using init_lib_type by (simp add: lib_type_def)
  let ?C = "\<lparr>nc_cfg = noposix_cfg 1 2097152, nc_fd = (!) fds, nc_env = sample_env\<rparr>"
  have "small (stat_size test1 mb2_world)" by (simp add: mb2_world_sel small_def)
  from wp_result [OF noposix_setup_wp [OF sample_env_total wf _ _ this] s]
  have left: "setup_left mb2_world l' (noposix_cfg 1 2097152, fds, out)" by (simp add: mb2_world_sel)
  have C: "n_ok ?C" "n_inv ?C (ninit l' (\<lambda>_. 0))"
    by (rule setup_left_inv [OF sample_env_total left]; simp add: mb2_world_sel)+
  obtain u where u: "nreach ?C (ninit l' (\<lambda>_. 0)) u" "n_worker u 0 = W_Io 0 1"
    using noposix_first_read [OF C] by auto
  from wp_result [OF noposix_threads_clean [OF sample_env_total wf] s]
  have "w_log w' = w_log mb2_world \<and> n_errors u = 0 \<and> (\<forall>t. n_main u \<noteq> N_Crash t)"
    using u(1) by (simp add: mb2_world_sel)
  then show ?thesis using s u by blast
qed

end
