(* ===== verification/Mmap_Bench.thy ===== *)
theory Mmap_Bench
  imports Mapping_Io Latency
begin

text \<open>
  The benchmarks that reach the file through a shared mapping: \<open>mmap_write.c\<close> fills the mapping
  request by request with changing letters, \<open>mmap_read.c\<close> writes the file in blocks of 4 MB and
  then reads it through the mapping, \<open>mmap_to_ram.c\<close> copies a page over and over.  None of them
  sizes the file to the length that it maps.  The measured times are arguments.  \<open>msync\<close> does not
  change what processes see; \<open>size * i\<close> stays below the file size and does not overflow.
\<close>

section \<open>The programs\<close>

definition mmap_write_round :: "mapping option \<Rightarrow> int \<Rightarrow> int \<Rightarrow> byte \<Rightarrow> byte wprog" where
  "mmap_write_round data sz i c =
     bindP (map_store data (nat (sz * i)) (\<lambda>_. c) (nat sz)) (\<lambda>_. ret (next_char c))"

definition mmap_write_main :: "int \<Rightarrow> int \<Rightarrow> string list \<Rightarrow> int wprog" where
  "mmap_write_main time1 time2 argv =
     (if length argv < 4 then bindP (say Usage) (\<lambda>_. ret 0)
      else
      with_size 4096 (argv ! 2) (\<lambda>FILE_SIZE.
      bindP (try_res (c_strcpy 60 (argv ! 3))) (\<lambda>filename.
      let c = first_byte filename in
      with_buffer END_SIZE (\<lambda>buf.
      bindP (call (sys_open test1 [O_CREAT, O_RDWR])) (\<lambda>fd.
      let sz = req_arg END_SIZE (argv ! 1) in
      bindP (query (sys_mmap FILE_SIZE True fd 0)) (\<lambda>data.
      bindP (call (sys_lseek fd 0)) (\<lambda>_.
      if sz = 0 then trap Div_By_Zero
      else
      let count = FILE_SIZE div sz in
      bindP (for_int (nat count) 0 (mmap_write_round data sz) c) (\<lambda>_.
      if count = 0 then trap Div_By_Zero
      else
      bindP (say (Report (time1 div count) 0)) (\<lambda>_.
      bindP (say (Report (time2 div count) 0)) (\<lambda>_.
      bindP (call (sys_close fd)) (\<lambda>_.
      bindP (map_store data 0 (\<lambda>_. 100) 40) (\<lambda>_. ret 0))))))))))))"

definition mmap_read_blocks :: "int \<Rightarrow> nat" where
  "mmap_read_blocks FILE_SIZE =
     nat (let count = FILE_SIZE div END_SIZE in if count = 0 then count + 1 else count)"

definition mmap_read_main :: "int \<Rightarrow> int \<Rightarrow> string list \<Rightarrow> int wprog" where
  "mmap_read_main time1 time2 argv =
     (if length argv < 4 then bindP (say Usage) (\<lambda>_. ret 0)
      else
      with_size 4096 (argv ! 2) (\<lambda>FILE_SIZE.
      bindP (try_res (c_strcpy 60 (argv ! 3))) (\<lambda>filename.
      let c = first_byte filename in
      with_buffer END_SIZE (\<lambda>buf.
      bindP (call (sys_open test1 [O_CREAT, O_RDWR])) (\<lambda>fd.
      bindP (for_int (mmap_read_blocks FILE_SIZE) 0
               (\<lambda>i _. bindP (call (sys_write fd buf (nat END_SIZE))) (\<lambda>_. ret ())) ()) (\<lambda>_.
      let sz = req_arg END_SIZE (argv ! 1) in
      bindP (query (sys_mmap FILE_SIZE False fd 0)) (\<lambda>data.
      let buf = memset buf 0 c (nat sz) in
      bindP (call (sys_lseek fd 0)) (\<lambda>_.
      if sz = 0 then trap Div_By_Zero
      else
      let count = FILE_SIZE div sz in
      bindP (for_int (nat count) 0
               (\<lambda>i buf. bindP (map_load data (nat (sz * i)) (nat sz)) (\<lambda>b.
                        ret (blit buf 0 b 0 (nat sz)))) buf) (\<lambda>_.
      if count = 0 then trap Div_By_Zero
      else
      bindP (say (Report (time1 div count) 0)) (\<lambda>_.
      bindP (say (Report (time2 div count) 0)) (\<lambda>_.
      bindP (call (sys_close fd)) (\<lambda>_. ret 0))))))))))))"

text \<open>
  \<open>mmap_to_ram.c\<close>: \<open>END_SIZE\<close> is 4096, so the loop over the sizes has one round.  Writing the
  results needs the stream that \<open>fopen\<close> returned; the line itself and the switch for the kernel's
  tracing are not modelled.
\<close>

definition RAM_PAGE :: int where
  "RAM_PAGE = 4096"

definition c_fprintf :: "int \<Rightarrow> unit wprog" where
  "c_fprintf f = (if f < 0 then trap Null_Deref else ret ())"

function mmap_to_ram_rounds :: "int \<Rightarrow> mapping option \<Rightarrow> int \<Rightarrow> int \<Rightarrow> byte \<times> buffer \<Rightarrow> (byte \<times> buffer) wprog" where
  "mmap_to_ram_rounds FILE_SIZE data output size0 cb =
     (if 0 < size0 \<and> size0 \<le> RAM_PAGE
      then
        let (c, buf) = cb; buf = memset buf 0 c (nat size0); count = s32 (FILE_SIZE div size0) in
        bindP (for_int (nat count) 0
                 (\<lambda>i d. bindP (map_store data d buf (nat size0)) (\<lambda>_. ret (d + nat size0))) 0) (\<lambda>_.
        if count = 0 then trap Div_By_Zero
        else
        bindP (say (Report size0 count)) (\<lambda>_.
        bindP (c_fprintf output) (\<lambda>_.
        mmap_to_ram_rounds FILE_SIZE data output (size0 * 2) (c + 1, buf))))
      else ret cb)"
  by pat_completeness auto
termination
  by (relation "measure (\<lambda>(FILE_SIZE, data, output, size0, cb). nat (RAM_PAGE + 1 - size0))") auto

declare mmap_to_ram_rounds.simps [simp del]

definition mmap_to_ram_main :: "string list \<Rightarrow> int wprog" where
  "mmap_to_ram_main argv =
     (if length argv < 6 then bindP (say Usage) (\<lambda>_. ret 0)
      else
      bindP (try_res (c_strcpy 20 (argv ! 1))) (\<lambda>fs_type.
      bindP (try_res (c_strcpy 20 (argv ! 2))) (\<lambda>use_nvp.
      with_size RAM_PAGE (argv ! 4) (\<lambda>FILE_SIZE.
      bindP (try_res (c_strcpy 60 (argv ! 5))) (\<lambda>filename.
      bindP (call (c_fopen_a filename)) (\<lambda>output.
      with_buffer RAM_PAGE (\<lambda>buf.
      bindP (call (sys_open test1 [O_CREAT, O_RDWR])) (\<lambda>fd.
      bindP (query (sys_mmap FILE_SIZE True fd 0)) (\<lambda>data.
      bindP (mmap_to_ram_rounds FILE_SIZE data output 4096 (65, buf)) (\<lambda>_.
      bindP (c_fclose output) (\<lambda>_.
      bindP (call (sys_close fd)) (\<lambda>_. ret 0))))))))))))"

section \<open>Storing request by request\<close>

definition filled :: "inode \<Rightarrow> nat \<Rightarrow> (nat \<Rightarrow> byte) \<Rightarrow> nat \<Rightarrow> inode" where
  "filled f s pat k = poke f 0 (\<lambda>j. pat (j div s)) (k * s)"

lemma filled_0 [simp]: "filled f s pat 0 = f"
  by (simp add: filled_def)

lemma filled_size [simp]: "i_size (filled f s pat k) = i_size f"
  by (simp add: filled_def)

lemma filled_Suc:
  assumes "0 < s" and "\<And>j. j < s \<Longrightarrow> src j = pat k"
  shows "poke (filled f s pat k) (s * k) src s = filled f s pat (Suc k)"
proof -
  have "i_data (poke (filled f s pat k) (s * k) src s) i = i_data (filled f s pat (Suc k)) i" for i
  proof (cases "s * k \<le> i \<and> i < s * k + s")
    case True
    then have "i div s = k" by (intro div_nat_eqI) (simp_all add: mult.commute)
    moreover have "src (i - s * k) = pat k" using True by (intro assms(2)) linarith
    ultimately show ?thesis using True by (simp add: filled_def mult.commute)
  next
    case False
    then show ?thesis by (auto simp: filled_def mult.commute)
  qed
  then show ?thesis by (intro inode.equality) (simp_all add: fun_eq_iff del: poke_sel(2))
qed

text \<open>The loop of \<open>mmap_write\<close> on a mapping of the whole file.\<close>

definition mm_letter :: "string list \<Rightarrow> nat \<Rightarrow> byte" where
  "mm_letter argv k = (next_char ^^ k) (first_byte (argv ! 3))"

lemma mmap_write_loop:
  assumes s: "0 < s" and cnt: "int cnt \<le> 2147483648" "cnt * s \<le> nat len"
    and Q: "\<And>c. cnt * s \<le> page_up (i_size (w_ino w n)) \<Longrightarrow> cnt < 2147483648 \<Longrightarrow>
      Q c (set_ino n (filled (w_ino w n) s (\<lambda>k. (next_char ^^ k) c0) cnt) w)"
    and O: "\<And>v. cnt * s \<le> page_up (i_size (w_ino w n)) \<Longrightarrow> cnt = 2147483648 \<Longrightarrow> E (Trap Int_Overflow) v"
    and B: "\<And>v. page_up (i_size (w_ino w n)) < cnt * s \<Longrightarrow> E (Trap Bus_Error) v"
  shows "wp (for_int cnt 0 (mmap_write_round (Some (whole n len True)) (int s)) c0) Q E w"
proof (rule wp_for_int_stops [where I = "\<lambda>k c v. c = (next_char ^^ k) c0
      \<and> k * s \<le> page_up (i_size (w_ino w n)) \<and> v = set_ino n (filled (w_ino w n) s (\<lambda>k. (next_char ^^ k) c0) k) w"])
  fix k c v
  assume k: "k < cnt" and I: "c = (next_char ^^ k) c0
      \<and> k * s \<le> page_up (i_size (w_ino w n)) \<and> v = set_ino n (filled (w_ino w n) s (\<lambda>k. (next_char ^^ k) c0) k) w"
  have le: "Suc k * s \<le> cnt * s" using k by (intro mult_le_mono1) simp
  have pos: "nat (int s * (0 + int k)) = s * k" by (simp flip: of_nat_mult)
  show "wp (mmap_write_round (Some (whole n len True)) (int s) (0 + int k) c)
      (\<lambda>c v. c = (next_char ^^ Suc k) c0 \<and> Suc k * s \<le> page_up (i_size (w_ino w n))
        \<and> v = set_ino n (filled (w_ino w n) s (\<lambda>k. (next_char ^^ k) c0) (Suc k)) w) E v"
    unfolding mmap_write_round_def wp_bindP pos nat_int
  proof (rule wp_store_whole)
    show "s * k + s \<le> nat len" using le cnt(2) by (simp add: mult.commute)
    show "E (Trap Bus_Error) u" if "page_up (i_size (w_ino v n)) < s * k + s" for u
      using that le I by (intro B) (simp add: mult.commute)
  qed (use I filled_Suc [OF s] s in \<open>simp_all add: wp_simps mult.commute set_ino_def\<close>)
qed (use assms in \<open>auto simp: not_le\<close>)

section \<open>Whole runs\<close>

definition test1_inode :: "world \<Rightarrow> inode" where
  "test1_inode w = (case w_dir w test1 of Some n \<Rightarrow> w_ino w n | None \<Rightarrow> empty_inode)"

lemma open_test1_inode:
  assumes "sys_open test1 [O_CREAT, O_RDWR] w = (fd, w1)"
  obtains n where "w_dir w1 test1 = Some n" and "get_fd w1 fd = Some (rw_file n 0)"
    and "w_ino w1 n = test1_inode w" and "w_fmax w1 = w_fmax w" and "w_log w1 = w_log w"
    and "0 \<le> fd" and "w_mem w1 = w_mem w" and "w_junk w1 = w_junk w"
    and "\<And>fd'. get_fd w fd' \<noteq> None \<Longrightarrow> get_fd w1 fd' = get_fd w fd'"
proof -
  obtain n where n: "w_dir w1 test1 = Some n" "get_fd w1 fd = Some (rw_file n 0)" "0 \<le> fd"
      "w_log w1 = w_log w" "w_mem w1 = w_mem w" "w_fmax w1 = w_fmax w" "w_junk w1 = w_junk w"
    and keep: "\<And>p m. w_dir w p = Some m \<Longrightarrow> w_dir w1 p = Some m"
    and old: "w_dir w test1 = Some n \<Longrightarrow> w_ino w1 = w_ino w"
    and new: "w_dir w test1 = None \<longrightarrow> n = w_next w \<and> w_ino w1 n = empty_inode"
    and fds: "\<And>fd'. get_fd w fd' \<noteq> None \<Longrightarrow> get_fd w1 fd' = get_fd w fd'"
    by (rule sys_open_creat [OF assms]) (auto simp: test1_def)
  have "w_ino w1 n = test1_inode w"
  proof (cases "w_dir w test1")
    case None
    with new show ?thesis by (auto simp: test1_inode_def)
  next
    case (Some k)
    with keep n(1) have "k = n" by fastforce
    with Some old show ?thesis by (simp add: test1_inode_def)
  qed
  with n fds show thesis by (intro that [of n]) simp_all
qed

definition mmap_write_end :: "string list \<Rightarrow> nat \<Rightarrow> stop + int" where
  "mmap_write_end argv z =
     (if lat_size argv = 0 then Inl (Trap Div_By_Zero)
      else if page_up z < lat_count argv * lat_size argv then Inl (Trap Bus_Error)
      else if lat_count argv = 2147483648 then Inl (Trap Int_Overflow)
      else if lat_count argv = 0 then Inl (Trap Div_By_Zero)
      else Inr 0)"

lemma lat_count_size: "lat_ok argv \<Longrightarrow> lat_count argv * lat_size argv \<le> nat (lat_file_size argv)"
proof -
  assume ok: "lat_ok argv"
  show ?thesis
  proof (cases "lat_size argv = 0")
    case False
    have "int (lat_count argv) * int (lat_size argv) \<le> lat_file_size argv"
      using lat_count_facts(1) [OF ok] False
      by (metis bot_nat_0.not_eq_extremum div_mult_mod_eq le_add_same_cancel1 of_nat_0_less_iff pos_mod_sign)
    then show ?thesis by (metis nat_int nat_mono of_nat_mult)
  qed simp
qed

lemma mmap_write_wp:
  assumes ok: "lat_ok argv" and mem: "END_SIZE \<le> w_mem w"
  shows "wp (mmap_write_main time1 time2 argv)
    (\<lambda>r w'. mmap_write_end argv (i_size (test1_inode w)) = Inr r
       \<and> (\<exists>n. w_dir w' test1 = Some n \<and> w_ino w' n =
            poke (filled (test1_inode w) (lat_size argv) (mm_letter argv) (lat_count argv)) 0 (\<lambda>_. 100) 40))
    (\<lambda>e _. mmap_write_end argv (i_size (test1_inode w)) = Inl e) w"
proof -
  let ?s = "lat_size argv" and ?c = "first_byte (argv ! 3)" and ?len = "lat_file_size argv"
  let ?f = "test1_inode w"
  note rng = lat_file_range [OF ok]
  obtain fd w1 where op: "sys_open test1 [O_CREAT, O_RDWR] w = (fd, w1)" by fastforce
  obtain n where n: "w_dir w1 test1 = Some n" "get_fd w1 fd = Some (rw_file n 0)" "w_ino w1 n = ?f"
    by (rule open_test1_inode [OF op])
  define w2 where "w2 = set_fd fd (Some (rw_file n 0)) w1"
  have seek: "sys_lseek fd 0 w1 = (0, w2)" using lseek_rw [OF n(2), of 0] by (simp add: w2_def)
  have mm: "sys_mmap ?len True fd 0 w1 = Some (whole n ?len True)"
    using n(2) rng by (intro sys_mmap_whole) auto
  obtain m where m: "size_arg (argv ! 2) = Inr (Some m)" "clamp_size 4096 m = ?len"
    using lat_okD(3) [OF ok] by blast
  note sim = mmap_write_main_def wp_bindP wp_call wp_try_res wp_query with_size_def with_buffer_def Let_def
    op seek lat_size_simp mm
  show ?thesis
  proof (cases "?s = 0")
    case True
    then show ?thesis
      using lat_okD(1,2) [OF ok] mem m by (simp add: sim wp_halt mmap_write_end_def)
  next
    case False
    then have s: "0 < ?s" by simp
    note C = lat_count_facts [OF ok s]
    define post where "post = (\<lambda>c :: byte.
      if int (lat_count argv) = 0 then trap Div_By_Zero
      else
      bindP (say (Report (time1 div int (lat_count argv)) 0)) (\<lambda>_.
      bindP (say (Report (time2 div int (lat_count argv)) 0)) (\<lambda>_.
      bindP (call (sys_close fd)) (\<lambda>_.
      bindP (map_store (Some (whole n ?len True)) 0 (\<lambda>_. 100) 40) (\<lambda>_. ret (0 :: int))))))"
    have eq: "wp (mmap_write_main time1 time2 argv) Q E w =
        wp (for_int (lat_count argv) 0 (mmap_write_round (Some (whole n ?len True)) (int ?s)) ?c)
          (\<lambda>c. wp (post c) Q E) E w2" for Q E
      using lat_okD(1,2) [OF ok] mem m s by (simp add: sim C(1) post_def)
    have i2: "w_ino w2 n = ?f" "w_dir w2 test1 = Some n" using n by (simp_all add: w2_def)
    show ?thesis
      unfolding eq
    proof (rule mmap_write_loop [OF s C(2) lat_count_size [OF ok]])
      let ?g = "filled (w_ino w2 n) ?s (\<lambda>k. (next_char ^^ k) ?c) (lat_count argv)"
      fix c assume fit: "lat_count argv * ?s \<le> page_up (i_size (w_ino w2 n))" and lt: "lat_count argv < 2147483648"
      show "wp (post c) (\<lambda>r w'. mmap_write_end argv (i_size ?f) = Inr r
          \<and> (\<exists>n. w_dir w' test1 = Some n \<and> w_ino w' n = poke (filled ?f ?s (mm_letter argv) (lat_count argv)) 0 (\<lambda>_. 100) 40))
        (\<lambda>e _. mmap_write_end argv (i_size ?f) = Inl e) (set_ino n ?g w2)"
      proof (cases "lat_count argv = 0")
        case True
        with s show ?thesis by (simp add: post_def wp_halt mmap_write_end_def)
      next
        case False
        then have "0 < lat_count argv * ?s" using s by simp
        then have pg: "40 \<le> page_up (i_size ?f)"
          using fit i2 page_up_pos [of "i_size ?f"] by (cases "i_size ?f = 0") (auto simp: PAGE_def)
        have fin: "wp (map_store (Some (whole n ?len True)) 0 (\<lambda>_. 100) 40) (\<lambda>_ w'. (\<exists>n. w_dir w' test1 = Some n
            \<and> w_ino w' n = poke (filled ?f ?s (mm_letter argv) (lat_count argv)) 0 (\<lambda>_. 100) 40)) (\<lambda>_ _. False) v"
          if "w_ino v n = ?g" "w_dir v test1 = Some n" for v
          using that i2 rng pg by (intro wp_store_whole) (auto simp: mm_letter_def [abs_def])
        have ve: "mmap_write_end argv (i_size ?f) = Inr 0"
          using fit lt False s i2 by (simp add: mmap_write_end_def)
        show ?thesis
          unfolding post_def using False i2
          by (simp add: wp_bindP wp_call say_def wp_update wp_ret ve) (intro wp_mono [OF fin]; simp)
      qed
    qed (use s i2 in \<open>auto simp: mmap_write_end_def\<close>)
  qed
qed

section \<open>\<open>mmap_read\<close>\<close>

text \<open>The blocks of 4 MB that are written first, if the file system has room for them.\<close>

definition mm_blocks :: "string list \<Rightarrow> nat" where
  "mm_blocks argv = mmap_read_blocks (lat_file_size argv)"

lemma mm_blocks_eq:
  assumes "lat_ok argv"
  shows "mm_blocks argv = max 1 (nat (lat_file_size argv div END_SIZE))"
    and "mm_blocks argv * 4194304 \<le> 2147483648"
proof -
  note f = lat_file_range [OF assms]
  have d: "0 \<le> lat_file_size argv div END_SIZE" "lat_file_size argv div END_SIZE \<le> 512"
    using f zdiv_mono1 [of "lat_file_size argv" 2147483648 4194304]
    by (simp_all add: END_SIZE_value pos_imp_zdiv_nonneg_iff)
  then show eq: "mm_blocks argv = max 1 (nat (lat_file_size argv div END_SIZE))"
    by (simp add: mm_blocks_def mmap_read_blocks_def Let_def)
  from d(2) show "mm_blocks argv * 4194304 \<le> 2147483648" by (simp add: eq)
qed

definition block_inv :: "world \<Rightarrow> int \<Rightarrow> nat \<Rightarrow> nat \<Rightarrow> nat \<Rightarrow> world \<Rightarrow> bool" where
  "block_inv w0 fd n z k w \<longleftrightarrow> get_fd w fd = Some (rw_file n (k * 4194304)) \<and> w_dir w = w_dir w0
     \<and> w_fmax w = w_fmax w0 \<and> i_size (w_ino w n) = max z (k * 4194304)"

lemma block_round:
  assumes "block_inv w0 fd n z k w" and "Suc k * 4194304 \<le> w_fmax w0"
  shows "wp (bindP (call (sys_write fd buf (nat END_SIZE))) (\<lambda>_. ret ())) (\<lambda>_. block_inv w0 fd n z (Suc k)) E w"
proof -
  have fd: "get_fd w fd = Some (rw_file n (k * 4194304))" using assms(1) by (simp add: block_inv_def)
  have wr: "sys_write fd buf 4194304 w = (int 4194304, set_fd fd (Some (rw_file n (k * 4194304 + 4194304)))
      (set_ino n (ino_put (w_ino w n) (k * 4194304) buf 4194304) w))"
    using sys_write_plain [OF fd, of 4194304 buf] assms by (simp add: block_inv_def)
  show ?thesis
    using assms(1) fd by (simp add: wp_simps END_SIZE_value wr block_inv_def get_fd_set_fd ino_put_size)
qed

definition mmap_read_end :: "string list \<Rightarrow> nat \<Rightarrow> stop + int" where
  "mmap_read_end argv z =
     (if lat_size argv = 0 then Inl (Trap Div_By_Zero)
      else if page_up (max z (mm_blocks argv * 4194304)) < lat_count argv * lat_size argv then Inl (Trap Bus_Error)
      else if lat_count argv = 2147483648 then Inl (Trap Int_Overflow)
      else if lat_count argv = 0 then Inl (Trap Div_By_Zero)
      else Inr 0)"

lemma mmap_read_loop:
  assumes s: "0 < s" and cnt: "int cnt \<le> 2147483648" "cnt * s \<le> nat len"
    and Q: "\<And>b. cnt * s \<le> page_up (i_size (w_ino w n)) \<Longrightarrow> cnt < 2147483648 \<Longrightarrow> Q b w"
    and O: "cnt * s \<le> page_up (i_size (w_ino w n)) \<Longrightarrow> cnt = 2147483648 \<Longrightarrow> E (Trap Int_Overflow) w"
    and B: "page_up (i_size (w_ino w n)) < cnt * s \<Longrightarrow> E (Trap Bus_Error) w"
  shows "wp (for_int cnt 0
      (\<lambda>i buf. bindP (map_load (Some (whole n len False)) (nat (int s * i)) (nat (int s))) (\<lambda>b.
               ret (blit buf 0 b 0 (nat (int s))))) buf) Q E w"
proof (rule wp_for_int_stops [where I = "\<lambda>k b v. k * s \<le> page_up (i_size (w_ino w n)) \<and> v = w"])
  fix k b v
  assume k: "k < cnt" and I: "k * s \<le> page_up (i_size (w_ino w n)) \<and> v = w"
  have le: "Suc k * s \<le> cnt * s" using k by (intro mult_le_mono1) simp
  have pos: "nat (int s * (0 + int k)) = s * k" by (simp flip: of_nat_mult)
  show "wp (bindP (map_load (Some (whole n len False)) (nat (int s * (0 + int k))) (nat (int s))) (\<lambda>b'.
      ret (blit b 0 b' 0 (nat (int s))))) (\<lambda>b v. Suc k * s \<le> page_up (i_size (w_ino w n)) \<and> v = w) E v"
    unfolding wp_bindP pos nat_int
  proof (rule wp_load_whole)
    show "s * k + s \<le> nat len" using le cnt(2) by (simp add: mult.commute)
    show "E (Trap Bus_Error) v" if "page_up (i_size (w_ino v n)) < s * k + s"
      using that le I B by (simp add: mult.commute)
  qed (use I s in \<open>simp_all add: wp_simps mult.commute\<close>)
qed (use assms in \<open>auto simp: not_le\<close>)

lemma mmap_read_ends:
  assumes ok: "lat_ok argv" and mem: "END_SIZE \<le> w_mem w" and fmax: "2147483648 \<le> w_fmax w"
  shows "fst (mmap_read_main time1 time2 argv w) = mmap_read_end argv (i_size (test1_inode w))"
proof -
  let ?s = "lat_size argv" and ?c = "first_byte (argv ! 3)" and ?len = "lat_file_size argv"
  let ?z = "i_size (test1_inode w)"
  note rng = lat_file_range [OF ok]
  obtain fd w1 where op: "sys_open test1 [O_CREAT, O_RDWR] w = (fd, w1)" by fastforce
  obtain n where n: "get_fd w1 fd = Some (rw_file n 0)" "w_ino w1 n = test1_inode w" "w_fmax w1 = w_fmax w"
    by (rule open_test1_inode [OF op])
  obtain m where m: "size_arg (argv ! 2) = Inr (Some m)" "clamp_size 4096 m = ?len"
    using lat_okD(3) [OF ok] by blast
  define rest where "rest = (\<lambda>_ :: unit.
      bindP (query (sys_mmap ?len False fd 0)) (\<lambda>data.
      bindP (call (sys_lseek fd 0)) (\<lambda>_.
      if int ?s = 0 then trap Div_By_Zero
      else
      bindP (for_int (nat (?len div int ?s)) 0
               (\<lambda>i buf. bindP (map_load data (nat (int ?s * i)) (nat (int ?s))) (\<lambda>b.
                        ret (blit buf 0 b 0 (nat (int ?s))))) (memset (w_junk w) 0 ?c (nat (int ?s)))) (\<lambda>_.
      if ?len div int ?s = 0 then trap Div_By_Zero
      else
      bindP (say (Report (time1 div (?len div int ?s)) 0)) (\<lambda>_.
      bindP (say (Report (time2 div (?len div int ?s)) 0)) (\<lambda>_.
      bindP (call (sys_close fd)) (\<lambda>_. ret (0 :: int))))))))"
  have junk: "w_junk w1 = w_junk w" by (rule open_test1_inode [OF op])
  have eq: "wp (mmap_read_main time1 time2 argv) Q E w =
      wp (for_int (mm_blocks argv) 0 (\<lambda>i _. bindP (call (sys_write fd (w_junk w) (nat END_SIZE))) (\<lambda>_. ret ())) ())
        (\<lambda>u. wp (rest u) Q E) E w1" for Q E
    using lat_okD(1,2) [OF ok] mem m
    by (simp add: mmap_read_main_def wp_bindP wp_call wp_try_res with_size_def with_buffer_def Let_def op
        lat_size_simp rest_def junk mm_blocks_def cong: if_cong split del: if_split)
  have blocks: "wp (for_int (mm_blocks argv) 0 (\<lambda>i _. bindP (call (sys_write fd (w_junk w) (nat END_SIZE))) (\<lambda>_. ret ())) ())
      (\<lambda>_. block_inv w1 fd n ?z (mm_blocks argv)) (\<lambda>_ _. False) w1"
  proof (rule wp_for_int [where I = "\<lambda>k _. block_inv w1 fd n ?z k"])
    fix k a v assume k: "k < mm_blocks argv" and I: "block_inv w1 fd n ?z k v"
    have "Suc k * 4194304 \<le> mm_blocks argv * 4194304" using k by (intro mult_le_mono1) simp
    then have "Suc k * 4194304 \<le> w_fmax w1" using fmax mm_blocks_eq(2) [OF ok] n(3) by linarith
    with I show "wp (bindP (call (sys_write fd (w_junk w) (nat END_SIZE))) (\<lambda>_. ret ()))
        (\<lambda>_. block_inv w1 fd n ?z (Suc k)) (\<lambda>_ _. False) v" by (rule block_round)
  qed (use n mm_blocks_eq(2) [OF ok] in \<open>auto simp: block_inv_def\<close>)
  have fin: "wp (rest u) (\<lambda>a _. mmap_read_end argv ?z = Inr a) (\<lambda>e _. mmap_read_end argv ?z = Inl e) v"
    if I: "block_inv w1 fd n ?z (mm_blocks argv) v" for u v
  proof -
    have fd: "get_fd v fd = Some (rw_file n (mm_blocks argv * 4194304))"
      and zz: "i_size (w_ino v n) = max ?z (mm_blocks argv * 4194304)" using I by (simp_all add: block_inv_def)
    have mm: "sys_mmap ?len False fd 0 v = Some (whole n ?len False)"
      using fd rng by (intro sys_mmap_whole) auto
    show ?thesis
    proof (cases "?s = 0")
      case True
      then show ?thesis
        by (simp add: rest_def wp_bindP wp_query wp_call mm lseek_rw [OF fd] wp_halt mmap_read_end_def)
    next
      case False
      then have s: "0 < ?s" by simp
      note C = lat_count_facts [OF ok s]
      have nz: "int ?s \<noteq> 0" using False by simp
      have sk: "w_ino (snd (sys_lseek fd 0 v)) n = w_ino v n" by simp
      have body: "wp (rest u) Q E v = wp (for_int (lat_count argv) 0
          (\<lambda>i buf. bindP (map_load (Some (whole n ?len False)) (nat (int ?s * i)) (nat (int ?s))) (\<lambda>b.
                   ret (blit buf 0 b 0 (nat (int ?s))))) (memset (w_junk w) 0 ?c ?s))
          (\<lambda>_. wp (if int (lat_count argv) = 0 then trap Div_By_Zero
            else bindP (say (Report (time1 div int (lat_count argv)) 0)) (\<lambda>_.
              bindP (say (Report (time2 div int (lat_count argv)) 0)) (\<lambda>_.
              bindP (call (sys_close fd)) (\<lambda>_. ret 0)))) Q E) E (snd (sys_lseek fd 0 v))" for Q E
        unfolding rest_def wp_bindP wp_query wp_call mm C(1) if_not_P [OF nz] nat_int ..
      show ?thesis
        unfolding body
        by (rule mmap_read_loop [OF s C(2) lat_count_size [OF ok]])
          (use s zz in \<open>auto simp: wp_simps say_def mmap_read_end_def\<close>)
    qed
  qed
  have "wp (mmap_read_main time1 time2 argv) (\<lambda>a _. mmap_read_end argv ?z = Inr a)
      (\<lambda>e _. mmap_read_end argv ?z = Inl e) w"
    unfolding eq using blocks by (rule wp_mono) (auto intro: fin)
  then show ?thesis by (auto simp: wp_def split: prod.splits sum.splits)
qed

section \<open>\<open>mmap_to_ram\<close>\<close>

definition ram_args :: "string list \<Rightarrow> bool" where
  "ram_args argv \<longleftrightarrow> 6 \<le> length argv \<and> length (argv ! 1) < 20 \<and> length (argv ! 2) < 20
     \<and> length (argv ! 5) < 60 \<and> argv ! 5 \<noteq> []
     \<and> (case size_arg (argv ! 4) of Inr (Some n) \<Rightarrow> True | _ \<Rightarrow> False)"

definition ram_file_size :: "string list \<Rightarrow> int" where
  "ram_file_size argv = (case size_arg (argv ! 4) of Inr (Some n) \<Rightarrow> clamp_size RAM_PAGE n | _ \<Rightarrow> 0)"

definition ram_pages :: "string list \<Rightarrow> nat" where
  "ram_pages argv = nat (ram_file_size argv div RAM_PAGE)"

lemma ram_argsD:
  assumes "ram_args argv"
  shows "\<not> length argv < 6" "c_strcpy 20 (argv ! 1) = Inr (argv ! 1)" "c_strcpy 20 (argv ! 2) = Inr (argv ! 2)"
    "c_strcpy 60 (argv ! 5) = Inr (argv ! 5)" "argv ! 5 \<noteq> []"
    "\<exists>n. size_arg (argv ! 4) = Inr (Some n) \<and> clamp_size RAM_PAGE n = ram_file_size argv"
    "4096 \<le> ram_file_size argv" "ram_file_size argv \<le> 2147483648"
  using assms clamp_size_range [of RAM_PAGE]
  by (auto simp: ram_args_def c_strcpy_def ram_file_size_def RAM_PAGE_def split: sum.splits option.splits)

lemma ram_pages_facts:
  assumes "ram_args argv"
  shows "ram_file_size argv div 4096 = int (ram_pages argv)" "1 \<le> ram_pages argv" "ram_pages argv \<le> 524288"
    "ram_pages argv * 4096 \<le> nat (ram_file_size argv)"
proof -
  note f = ram_argsD(7,8) [OF assms]
  have d: "1 \<le> ram_file_size argv div 4096" "ram_file_size argv div 4096 \<le> 524288"
    using f zdiv_mono1 [of 4096 "ram_file_size argv" 4096] zdiv_mono1 [of "ram_file_size argv" 2147483648 4096]
    by simp_all
  show eq: "ram_file_size argv div 4096 = int (ram_pages argv)" using d by (simp add: ram_pages_def RAM_PAGE_def)
  with d show "1 \<le> ram_pages argv" "ram_pages argv \<le> 524288" by linarith+
  have "ram_file_size argv div 4096 * 4096 \<le> ram_file_size argv" by simp
  then show "ram_pages argv * 4096 \<le> nat (ram_file_size argv)" unfolding eq by linarith
qed

lemma ram_copy_loop:
  assumes cnt: "cnt < 2147483648" "cnt * 4096 \<le> nat len" and buf: "\<And>j. j < 4096 \<Longrightarrow> buf j = c"
    and Q: "\<And>d. cnt * 4096 \<le> page_up (i_size (w_ino w n)) \<Longrightarrow>
      Q d (set_ino n (filled (w_ino w n) 4096 (\<lambda>_. c) cnt) w)"
    and B: "\<And>v. page_up (i_size (w_ino w n)) < cnt * 4096 \<Longrightarrow> E (Trap Bus_Error) v"
  shows "wp (for_int cnt 0
      (\<lambda>i d. bindP (map_store (Some (whole n len True)) d buf 4096) (\<lambda>_. ret (d + 4096))) 0) Q E w"
proof (rule wp_for_int [where I = "\<lambda>k d v. d = 4096 * k \<and> k * 4096 \<le> page_up (i_size (w_ino w n))
      \<and> v = set_ino n (filled (w_ino w n) 4096 (\<lambda>_. c) k) w"])
  fix k d v
  assume k: "k < cnt" and I: "d = 4096 * k \<and> k * 4096 \<le> page_up (i_size (w_ino w n))
      \<and> v = set_ino n (filled (w_ino w n) 4096 (\<lambda>_. c) k) w"
  have le: "Suc k * 4096 \<le> cnt * 4096" using k by (intro mult_le_mono1) simp
  have step: "poke (filled (w_ino w n) 4096 (\<lambda>_. c) k) (4096 * k) buf 4096
      = filled (w_ino w n) 4096 (\<lambda>_. c) (Suc k)"
    using buf by (intro filled_Suc) auto
  show "wp (bindP (map_store (Some (whole n len True)) d buf 4096) (\<lambda>_. ret (d + 4096)))
      (\<lambda>d v. d = 4096 * Suc k \<and> Suc k * 4096 \<le> page_up (i_size (w_ino w n))
        \<and> v = set_ino n (filled (w_ino w n) 4096 (\<lambda>_. c) (Suc k)) w) E v"
    unfolding wp_bindP
  proof (rule wp_store_whole)
    show "d + 4096 \<le> nat len" using le cnt(2) I by simp
    show "E (Trap Bus_Error) u" if "page_up (i_size (w_ino v n)) < d + 4096" for u
      using that le I by (intro B) (simp add: mult.commute)
  qed (use I step in \<open>simp_all add: wp_simps mult.commute set_ino_def\<close>)
qed (use cnt Q in auto)

definition mmap_to_ram_end :: "string list \<Rightarrow> nat \<Rightarrow> stop + int" where
  "mmap_to_ram_end argv z = (if page_up z < ram_pages argv * 4096 then Inl (Trap Bus_Error) else Inr 0)"

lemma mmap_to_ram_wp:
  assumes ok: "ram_args argv" and mem: "RAM_PAGE \<le> w_mem w" and wf: "wf_world w" and n: "w_dir w test1 = Some n"
  shows "wp (mmap_to_ram_main argv)
    (\<lambda>r w'. mmap_to_ram_end argv (i_size (w_ino w n)) = Inr r
       \<and> w_ino w' n = filled (w_ino w n) 4096 (\<lambda>_. 65) (ram_pages argv)
       \<and> w_log w' = w_log w @ [Report 4096 (int (ram_pages argv))])
    (\<lambda>e _. mmap_to_ram_end argv (i_size (w_ino w n)) = Inl e) w"
proof -
  note D = ram_argsD [OF ok] and P = ram_pages_facts [OF ok]
  obtain m where m: "size_arg (argv ! 4) = Inr (Some m)" "clamp_size RAM_PAGE m = ram_file_size argv"
    using D(6) by blast
  obtain out w1 where fo: "c_fopen_a (argv ! 5) w = (out, w1)" by fastforce
  obtain k where o: "0 \<le> out" "w_log w1 = w_log w" "w_mem w1 = w_mem w" "w_dir w1 test1 = Some n" "w_ino w1 n = w_ino w n"
  proof (rule sys_open_creat [OF fo [unfolded c_fopen_a_def] D(5)])
    fix k assume "0 \<le> out" "w_log w1 = w_log w" "w_mem w1 = w_mem w"
      and keep: "\<And>p m. w_dir w p = Some m \<Longrightarrow> w_dir w1 p = Some m"
      and ino: "\<And>m. m \<noteq> w_next w \<Longrightarrow> w_ino w1 m = w_ino w m"
    moreover have "n \<noteq> w_next w" using wf n unfolding wf_world_def by blast
    ultimately show thesis using that keep [OF n] ino by blast
  qed auto
  obtain fd w2 where op: "sys_open test1 [O_CREAT, O_RDWR] w1 = (fd, w2)" by fastforce
  obtain n' where n': "w_dir w2 test1 = Some n'" "get_fd w2 fd = Some (rw_file n' 0)" "w_log w2 = w_log w1"
    "w_ino w2 n' = test1_inode w1"
    by (rule open_test1_inode [OF op])
  have eqn: "n' = n"
  proof (rule open_test1 [OF op])
    fix i assume "\<And>p m. w_dir w1 p = Some m \<Longrightarrow> w_dir w2 p = Some m"
    from this [OF o(4)] n'(1) show ?thesis by simp
  qed
  have i2: "w_ino w2 n = w_ino w n" using n'(4) o by (simp add: eqn test1_inode_def)
  have mm: "sys_mmap (ram_file_size argv) True fd 0 w2 = Some (whole n (ram_file_size argv) True)"
    using n'(2) D(7) by (intro sys_mmap_whole) (auto simp: eqn)
  let ?buf = "memset (w_junk w1) 0 65 4096"
  let ?loop = "for_int (ram_pages argv) 0
      (\<lambda>i d. bindP (map_store (Some (whole n (ram_file_size argv) True)) d ?buf 4096) (\<lambda>_. ret (d + 4096))) 0"
  have s: "s32 (int (ram_pages argv)) = int (ram_pages argv)" using P(3) by (intro s32_id) simp_all
  have eq: "wp (mmap_to_ram_main argv) Q E w = wp ?loop (\<lambda>_. wp (bindP (say (Report 4096 (int (ram_pages argv)))) (\<lambda>_.
      bindP (c_fprintf out) (\<lambda>_. bindP (c_fclose out) (\<lambda>_. bindP (call (sys_close fd)) (\<lambda>_. ret 0))))) Q E) E w2" for Q E
    using D(1-4) mem m o P(2)
    by (simp add: mmap_to_ram_main_def wp_bindP wp_call wp_try_res wp_query with_size_def with_buffer_def Let_def fo op
        mm mmap_to_ram_rounds.simps RAM_PAGE_def P(1) s wp_ret)
  show ?thesis
    unfolding eq
    by (rule ram_copy_loop [of _ _ _ 65])
      (use P o i2 n' in \<open>auto simp: wp_simps say_def c_fprintf_def c_fclose_def mmap_to_ram_end_def\<close>)
qed

section \<open>Properties\<close>

text \<open>A file system whose test file is \<open>z\<close> zeros, for concrete runs.\<close>

definition sized_world :: "nat \<Rightarrow> world" where
  "sized_world z = one_file_world\<lparr>w_ino := (\<lambda>_. \<lparr>i_data = (\<lambda>_. 0), i_size = z\<rparr>)\<rparr>"

lemma sized_world_sel [simp]:
  "w_dir (sized_world z) test1 = Some 0" "w_mem (sized_world z) = 67108864"
  "w_fmax (sized_world z) = 2147483648" "i_size (w_ino (sized_world z) n) = z" "wf_world (sized_world z)"
  "i_size (test1_inode (sized_world z)) = z" "w_log (sized_world z) = []"
  by (simp_all add: sized_world_def one_file_world_def wf_world_def test1_inode_def)

text \<open>
  How \<open>mmap_write\<close> ends.  It maps the file without sizing it: unless the pages of the
  existing \<open>test1\<close> cover all requests, the first store past them is a bus error.  A missing file
  is created empty, so that every run on it with a request to make dies.
\<close>

theorem mmap_write_ends:
  assumes "lat_ok argv" and "END_SIZE \<le> w_mem w"
  shows "fst (mmap_write_main time1 time2 argv w) = mmap_write_end argv (i_size (test1_inode w))"
  using mmap_write_wp [OF assms, of time1 time2] by (auto simp: wp_def split: prod.splits sum.splits)

theorem mmap_write_ends_witness:
  "fst (mmap_write_main 1 1 latency_argv fresh_world) = Inl (Trap Bus_Error)"
  using mmap_write_ends [of latency_argv fresh_world 1 1]
  by (simp add: latency_sample END_SIZE_value mmap_write_end_def test1_inode_def empty_inode_def)

text \<open>
  C36: a shared mapping and \<open>write\<close> are the same file.  Given the same letter, request size and
  file size, on a \<open>test1\<close> that is large enough, \<open>mmap_write\<close> and \<open>integrity_test2_write\<close> both
  return 0 and leave the same bytes in all requests; \<open>mmap_write\<close> then overwrites the first
  40 bytes of its file with \<open>d\<close>.
\<close>

theorem mmap_write_same_as_write:
  assumes ok: "lat_ok [prog, req, sz, name]" and fs: "length fs_type < 20" "length quill < 40"
    and mem: "END_SIZE \<le> w_mem w" and cnt: "lat_count [prog, req, sz, name] < 2147483648"
    and some: "0 < lat_size [prog, req, sz, name]" "0 < lat_count [prog, req, sz, name]"
    and room: "lat_count [prog, req, sz, name] * lat_size [prog, req, sz, name] \<le> w_fmax w"
    and large: "lat_count [prog, req, sz, name] * lat_size [prog, req, sz, name] \<le> i_size (test1_inode w)"
  shows "\<exists>u v m n. mmap_write_main time1 time2 [prog, req, sz, name] w = (Inr 0, u) \<and> w_dir u test1 = Some m
    \<and> integrity_write_main [prog, fs_type, quill, req, sz, name] w = (Inr 0, v) \<and> w_dir v test1 = Some n
    \<and> (\<forall>j < lat_count [prog, req, sz, name] * lat_size [prog, req, sz, name].
         i_data (w_ino u m) j = (if j < 40 then 100 else i_data (w_ino v n) j))"
proof -
  let ?a = "[prog, req, sz, name]" and ?b = "[prog, fs_type, quill, req, sz, name]"
  have r: "req_arg END_SIZE req = int (lat_size ?a)" using lat_size_int [of ?a] by simp
  have f: "arg_file_size ?b = lat_file_size ?a" by (simp add: arg_file_size_def lat_file_size_def)
  have p: "args_parsed ?b" using ok fs by (simp add: args_parsed_def lat_ok_def)
  have args1: "args_ok ?b" using p some(1) by (simp add: args_ok_def r)
  have args2: "arg_chunk ?b = lat_size ?a" by (simp add: arg_chunk_def r)
  have args3: "arg_count ?b = lat_count ?a" by (simp add: arg_count_def lat_count_def f r)
  have args4: "letter ?b = mm_letter ?a" by (simp add: letter_def mm_letter_def fun_eq_iff)
  have "arg_count ?b \<noteq> 2147483648" using cnt by (simp add: args3)
  from write_returns [OF args1 mem this] obtain v where
    v: "integrity_write_main ?b w = (Inr 0, v)" "written ?b w v" by blast
  have "w_log v = w_log w" using room by (intro letter_fits [OF _ v(2)]) (simp add: args2 args3)
  with v(2) obtain n where n: "w_dir v test1 = Some n"
    and ch: "inode.holds_chunks (w_ino v n) (lat_size ?a) (mm_letter ?a) (lat_count ?a)"
    unfolding written_def args2 args3 args4 by blast
  have le: "lat_count ?a * lat_size ?a \<le> page_up (i_size (test1_inode w))"
    using large page_up_ge by (rule le_trans)
  then have e: "mmap_write_end ?a (i_size (test1_inode w)) = Inr 0"
    using some cnt by (simp add: mmap_write_end_def)
  obtain u m where u: "mmap_write_main time1 time2 ?a w = (Inr 0, u)" "w_dir u test1 = Some m"
      "w_ino u m = poke (filled (test1_inode w) (lat_size ?a) (mm_letter ?a) (lat_count ?a)) 0 (\<lambda>_. 100) 40"
    using mmap_write_wp [OF ok mem, of time1 time2] e by (auto simp: wp_def split: prod.splits sum.splits)
  have "i_data (w_ino u m) j = (if j < 40 then 100 else i_data (w_ino v n) j)" if "j < lat_count ?a * lat_size ?a" for j
    unfolding u(3) using that ch by (simp add: filled_def inode.holds_chunks_def)
  with u(1,2) v(1) n show ?thesis by blast
qed

theorem mmap_write_same_as_write_witness:
  "\<exists>u v m n. mmap_write_main 9 9 latency_argv (sized_world 8192) = (Inr 0, u) \<and> w_dir u test1 = Some m
    \<and> integrity_write_main [''test'', ''pmfs'', ''posix'', ''1000'', ''8K'', ''x''] (sized_world 8192) = (Inr 0, v)
    \<and> w_dir v test1 = Some n \<and> i_data (w_ino u m) 7999 = i_data (w_ino v n) 7999"
  using mmap_write_same_as_write [of "''test''" "''1000''" "''8K''" "''x''" "''pmfs''" "''posix''"
      "sized_world 8192" 9 9]
  by (fastforce simp: latency_sample latency_sample [unfolded latency_argv_def] latency_argv_def END_SIZE_value)

text \<open>
  How \<open>mmap_read\<close> ends, on a file system that takes the blocks it writes first.  It writes
  whole blocks of 4 MB, at least one, and no rest: if the file size is no multiple of 4 MB and the
  old file is not longer, the requests behind the last block are a bus error.
\<close>

theorem mmap_read_bus_error:
  assumes "lat_ok argv" and "END_SIZE \<le> w_mem w" and "2147483648 \<le> w_fmax w"
  shows "fst (mmap_read_main time1 time2 argv w) = mmap_read_end argv (i_size (test1_inode w))"
  using assms by (rule mmap_read_ends)

theorem mmap_read_bus_error_witness:
  "fst (mmap_read_main 1 1 [''test'', ''1048576'', ''6M'', ''x''] fresh_world) = Inl (Trap Bus_Error)"
proof -
  let ?a = "[''test'', ''1048576'', ''6M'', ''x'']"
  have "size_arg ''6M'' = Inr (Some 6291456)" "req_arg END_SIZE ''1048576'' = 1048576" by code_simp+
  then have "lat_ok ?a" "lat_size ?a = 1048576" "lat_file_size ?a = 6291456"
    by (simp_all add: lat_ok_def lat_size_def lat_file_size_def clamp_size_def)
  moreover from this have "lat_count ?a = 6" "mm_blocks ?a = 1"
    by (simp_all add: lat_count_def mm_blocks_eq END_SIZE_value)
  moreover have "page_up 4194304 = 4194304" by (intro page_up_page) (simp add: PAGE_def)
  ultimately show ?thesis
    using mmap_read_bus_error [of ?a fresh_world 1 1]
    by (simp add: END_SIZE_value mmap_read_end_def test1_inode_def empty_inode_def)
qed

text \<open>
  \<open>mmap_to_ram\<close> fills the pages of an existing file that is large enough with \<open>A\<close>, one page
  per request, prints one line and returns 0; on a shorter file it dies of a bus error.
\<close>

theorem mmap_to_ram_fills:
  assumes "ram_args argv" and "RAM_PAGE \<le> w_mem w" and "wf_world w" and "w_dir w test1 = Some n"
  shows "fst (mmap_to_ram_main argv w) =
      (if page_up (i_size (w_ino w n)) < ram_pages argv * 4096 then Inl (Trap Bus_Error) else Inr 0)
    \<and> (ram_pages argv * 4096 \<le> i_size (w_ino w n) \<longrightarrow>
        w_log (snd (mmap_to_ram_main argv w)) = w_log w @ [Report 4096 (int (ram_pages argv))]
      \<and> i_size (w_ino (snd (mmap_to_ram_main argv w)) n) = i_size (w_ino w n)
      \<and> (\<forall>j. i_data (w_ino (snd (mmap_to_ram_main argv w)) n) j =
           (if j < ram_pages argv * 4096 then 65 else i_data (w_ino w n) j)))"
  using mmap_to_ram_wp [OF assms] page_up_ge [of "i_size (w_ino w n)"]
  by (auto simp: wp_def mmap_to_ram_end_def filled_def split: prod.splits sum.splits if_splits)

theorem mmap_to_ram_fills_witness:
  "fst (mmap_to_ram_main [''test'', ''pmfs'', ''raw'', ''0'', ''9K'', ''out''] (sized_world 8192)) = Inr 0
   \<and> i_data (w_ino (snd (mmap_to_ram_main [''test'', ''pmfs'', ''raw'', ''0'', ''9K'', ''out''] (sized_world 8192))) 0) 8191 = 65"
proof -
  have "size_arg ''9K'' = Inr (Some 9216)" by code_simp
  then have "ram_args [''test'', ''pmfs'', ''raw'', ''0'', ''9K'', ''out'']"
    "ram_pages [''test'', ''pmfs'', ''raw'', ''0'', ''9K'', ''out''] = 2"
    by (simp_all add: ram_args_def ram_pages_def ram_file_size_def RAM_PAGE_def clamp_size_def)
  then show ?thesis
    using mmap_to_ram_fills [of "[''test'', ''pmfs'', ''raw'', ''0'', ''9K'', ''out'']" "sized_world 8192" 0]
      page_up_ge [of 8192]
    by (simp add: RAM_PAGE_def)
qed

end
