(* ===== verification/Mmap_Tests.thy ===== *)
theory Mmap_Tests
  imports Mmap_Bench
begin

text \<open>
  The tests of the mapping system calls: \<open>mmap-test.c\<close>, \<open>munmap-test.c\<close>, \<open>msync-test.c\<close>,
  \<open>mprotect-test.c\<close>, \<open>mmap-truncate.c\<close>, \<open>mmap_stale_pmd.c\<close> and \<open>fs-write.c\<close>.  Measured times
  are arguments; \<open>msync\<close>, \<open>munmap\<close> and \<open>sleep\<close> change nothing that the programs see.  A failed
  comparison is recorded as one event; the strings it prints are left out.
\<close>

section \<open>Shared steps\<close>

text \<open>\<open>posix_memalign\<close> refuses an alignment that is no power of two from the size of a pointer on.\<close>

definition pow2 :: "int \<Rightarrow> bool" where
  "pow2 a \<longleftrightarrow> a \<in> set (map (\<lambda>k. 2 ^ k) [3..<64])"

definition with_aligned :: "int \<Rightarrow> (buffer \<Rightarrow> int wprog) \<Rightarrow> int wprog" where
  "with_aligned n k = (if pow2 n then with_buffer n k else bindP (say No_Mem) (\<lambda>_. ret 0))"

definition write_blocks :: "nat \<Rightarrow> int \<Rightarrow> buffer \<Rightarrow> nat \<Rightarrow> unit wprog" where
  "write_blocks cnt fd buf n =
     for_int cnt 0 (\<lambda>i _. bindP (call (sys_write fd buf n)) (\<lambda>_. ret ())) ()"

section \<open>The programs\<close>

text \<open>\<open>msync-test.c\<close> and \<open>mprotect-test.c\<close> start with the same code.\<close>

definition sync_bufsize :: "int \<Rightarrow> int" where
  "sync_bufsize FILE_SIZE = (let bufsize = END_SIZE in if bufsize > FILE_SIZE then FILE_SIZE else bufsize)"

definition sync_count :: "int \<Rightarrow> int \<Rightarrow> int" where
  "sync_count FILE_SIZE bufsize = (let count = FILE_SIZE div bufsize in if count = 0 then count + 1 else count)"

definition map_setup ::
  "string list \<Rightarrow> (int \<Rightarrow> mapping option \<Rightarrow> buffer \<Rightarrow> int \<Rightarrow> int \<Rightarrow> int \<Rightarrow> int wprog) \<Rightarrow> int wprog" where
  "map_setup argv k =
     (if length argv < 4 then bindP (say Usage) (\<lambda>_. ret 0)
      else
      with_size 4096 (argv ! 2) (\<lambda>FILE_SIZE.
      bindP (try_res (c_strcpy 60 (argv ! 3))) (\<lambda>filename.
      let c = first_byte filename;
          bufsize = sync_bufsize FILE_SIZE in
      with_aligned bufsize (\<lambda>buf.
      let buf = memset buf 0 97 (nat bufsize) in
      bindP (call (sys_open test1 [O_CREAT, O_RDWR])) (\<lambda>fd.
      bindP (write_blocks (nat (sync_count FILE_SIZE bufsize)) fd buf (nat bufsize)) (\<lambda>_.
      let sz = req_arg END_SIZE (argv ! 1) in
      bindP (query (sys_mmap FILE_SIZE True fd 0)) (\<lambda>data.
      let buf = memset buf 0 c (nat bufsize) in
      bindP (call (sys_lseek fd 0)) (\<lambda>_.
      if sz = 0 then trap Div_By_Zero
      else k fd data buf bufsize sz (FILE_SIZE div sz)))))))))"

definition msync_test_main :: "int \<Rightarrow> string list \<Rightarrow> int wprog" where
  "msync_test_main time1 argv =
     map_setup argv (\<lambda>fd data buf bufsize sz count.
      if bufsize < sz then trap Out_Of_Bounds
      else
      bindP (map_store data 0 buf (nat sz)) (\<lambda>_.
      if count = 0 then trap Div_By_Zero
      else
      bindP (say (Report (time1 div count) 0)) (\<lambda>_.
      bindP (map_store data 0 (\<lambda>_. 100) 1) (\<lambda>_.
      bindP (say (Report (time1 div count) 0)) (\<lambda>_.
      bindP (map_store data 0 (\<lambda>_. 97) 1) (\<lambda>_.
      bindP (say (Report (time1 div count) 0)) (\<lambda>_.
      bindP (say (Report (time1 div count) 0)) (\<lambda>_.
      bindP (call (sys_close fd)) (\<lambda>_. ret 0)))))))))"

definition mprotect_test_main :: "int \<Rightarrow> string list \<Rightarrow> int wprog" where
  "mprotect_test_main time1 argv =
     map_setup argv (\<lambda>fd data buf bufsize sz count.
      if count = 0 then trap Div_By_Zero
      else
      bindP (say (Report (time1 div count) 0)) (\<lambda>_.
      bindP (say (Report (time1 div count) 0)) (\<lambda>_.
      let data = map_option (protect 4096 4096) data in
      bindP (map_store data 0 (\<lambda>_. 100) 1) (\<lambda>_.
      let buf = memset buf 0 122 (nat bufsize) in
      bindP (call (sys_write fd buf (nat bufsize))) (\<lambda>_.
      bindP (call (sys_close fd)) (\<lambda>_. ret 0))))))"

definition munmap_test_main :: "int \<Rightarrow> string list \<Rightarrow> int wprog" where
  "munmap_test_main time1 argv =
     (if length argv < 2 then bindP (say Usage) (\<lambda>_. ret 0)
      else
      with_size RAM_PAGE (argv ! 1) (\<lambda>FILE_SIZE.
      with_buffer RAM_PAGE (\<lambda>buf.
      let buf = memset buf 0 97 4096; count = FILE_SIZE div RAM_PAGE in
      bindP (call (sys_open test1 [O_CREAT, O_RDWR])) (\<lambda>fd.
      bindP (write_blocks (nat count) fd buf 4096) (\<lambda>_.
      bindP (query (sys_mmap RAM_PAGE True fd 0)) (\<lambda>data.
      bindP (map_store data 0 (\<lambda>_. 98) 4096) (\<lambda>_.
      bindP (query (sys_mmap RAM_PAGE True fd 8192)) (\<lambda>data.
      bindP (map_store data 0 (\<lambda>_. 99) 4096) (\<lambda>_.
      if count = 0 then trap Div_By_Zero
      else
      bindP (say (Report (time1 div count) 0)) (\<lambda>_.
      bindP (say (Report (time1 div count) 0)) (\<lambda>_.
      bindP (call (sys_close fd)) (\<lambda>_. ret 0))))))))))))"

definition mmap_test_main :: "int \<Rightarrow> string list \<Rightarrow> int wprog" where
  "mmap_test_main time1 argv =
     (if length argv < 3 then bindP (say Usage) (\<lambda>_. ret 0)
      else
      with_size END_SIZE (argv ! 1) (\<lambda>FILE_SIZE.
      bindP (try_res (c_strcpy 60 (argv ! 2))) (\<lambda>filename.
      with_buffer END_SIZE (\<lambda>buf.
      let count = FILE_SIZE div 4096 in
      bindP (call (sys_open test1 [O_CREAT, O_RDWR])) (\<lambda>fd.
      bindP (query (sys_mmap FILE_SIZE True fd 0)) (\<lambda>data.
      if count = 0 then trap Div_By_Zero
      else
      bindP (say (Report (time1 div count) 0)) (\<lambda>_.
      bindP (say (Report (time1 div count) 0)) (\<lambda>_.
      bindP (call (sys_close fd)) (\<lambda>_. ret 0)))))))))"

text \<open>
  \<open>mmap-truncate.c\<close> and \<open>mmap_stale_pmd.c\<close> compare a string with the first bytes of a mapping;
  these are in one page, so that looking at all of them faults exactly if looking at the first does.
\<close>

definition HELLO :: string where
  "HELLO = ''HELLO WORLD!''"

definition string_bytes :: "string \<Rightarrow> buffer" where
  "string_bytes s i = (if i < length s then of_char (s ! i) else 0)"

definition err_exit :: "int wprog" where
  "err_exit = bindP (say Err_Plain) (\<lambda>_. exit_with 1)"

definition strncmp_map :: "string \<Rightarrow> mapping option \<Rightarrow> bool wprog" where
  "strncmp_map s data =
     bindP (map_load data 0 (length s)) (\<lambda>b. ret (\<exists>i \<in> set [0..<length s]. b i \<noteq> string_bytes s i))"

definition mmap_truncate_main :: "string list \<Rightarrow> int wprog" where
  "mmap_truncate_main argv =
     (if length argv < 2 then bindP (say Usage) (\<lambda>_. exit_with 0)
      else
      bindP (call (sys_open (argv ! 1) [O_RDWR, O_CREAT])) (\<lambda>fd.
      if fd < 0 then err_exit
      else
      bindP (call (sys_pwrite fd (string_bytes HELLO) (length HELLO) 0)) (\<lambda>_.
      bindP (query (sys_mmap 4096 True fd 0)) (\<lambda>data.
      bindP (strncmp_map HELLO data) (\<lambda>differ.
      bindP (whenP differ (say Err_Plain)) (\<lambda>_.
      bindP (map_store data 0 (\<lambda>_. 83) 1) (\<lambda>_.
      bindP (call (sys_ftruncate fd 0)) (\<lambda>_.
      bindP (map_store data 0 (\<lambda>_. 104) 1) (\<lambda>_.
      bindP (call (sys_close fd)) (\<lambda>err.
      if err < 0 then err_exit
      else ret (if differ then 1 else 0)))))))))))"

definition mmap_stale_pmd_main :: "string list \<Rightarrow> int wprog" where
  "mmap_stale_pmd_main argv =
     (if length argv < 2 then bindP (say Usage) (\<lambda>_. exit_with 0)
      else
      bindP (call (sys_open (argv ! 1) [O_RDWR, O_CREAT])) (\<lambda>fd.
      if fd < 0 then err_exit
      else
      bindP (call (sys_ftruncate fd 0)) (\<lambda>_.
      bindP (call (sys_ftruncate fd (4 * 1024 * 1024))) (\<lambda>_.
      bindP (query (sys_mmap 4096 False fd 4096)) (\<lambda>data.
      bindP (map_load data 0 1) (\<lambda>a.
      bindP (call (sys_pwrite fd (string_bytes HELLO) (length HELLO) 4096)) (\<lambda>_.
      bindP (strncmp_map HELLO data) (\<lambda>differ.
      bindP (whenP differ (say Err_Plain)) (\<lambda>_.
      bindP (call (sys_close fd)) (\<lambda>err.
      if err < 0 then err_exit
      else ret (if differ then 1 else 0)))))))))))"

definition FILESIZE :: int where
  "FILESIZE = 1024 * 1024 * 1024"

definition fs_write_main :: "string list \<Rightarrow> int wprog" where
  "fs_write_main argv =
     (if length argv \<noteq> 2 then bindP (say Usage) (\<lambda>_. exit_with 1)
      else
      bindP (call (sys_open (argv ! 1) [O_RDWR, O_CREAT, O_TRUNC])) (\<lambda>fd.
      if fd = -1 then bindP (say Err_Plain) (\<lambda>_. exit_with 1)
      else
      bindP (call (sys_lseek fd (FILESIZE - 1))) (\<lambda>result.
      if result = -1 then bindP (call (sys_close fd)) (\<lambda>_. bindP (say Err_Plain) (\<lambda>_. exit_with 1))
      else
      bindP (call (sys_write fd (\<lambda>_. 0) 1)) (\<lambda>result.
      if result \<noteq> 1 then bindP (call (sys_close fd)) (\<lambda>_. bindP (say Err_Plain) (\<lambda>_. exit_with 1))
      else
      bindP (query (sys_mmap FILESIZE True fd 0)) (\<lambda>map.
      if map = None then bindP (call (sys_close fd)) (\<lambda>_. bindP (say Err_Plain) (\<lambda>_. exit_with 1))
      else
      bindP (for_int (nat (FILESIZE div (4096 * 512))) 0
               (\<lambda>i _. map_store map (nat (4096 * 512 * i)) (\<lambda>_. 100) 1) ()) (\<lambda>_.
      bindP (call (sys_close fd)) (\<lambda>_. ret 0)))))))"

section \<open>Writing equal blocks\<close>

lemma ino_put_again:
  "ino_put (ino_put f 0 (\<lambda>_. c) (k * n)) (k * n) (\<lambda>_. c) n = ino_put f 0 (\<lambda>_. c) (Suc k * n)"
  by (cases "n = 0 \<or> k = 0") (auto simp: ino_put_def fun_eq_iff)

lemma ino_put_cong: "(\<And>j. j < n \<Longrightarrow> b j = b' j) \<Longrightarrow> ino_put f off b n = ino_put f off b' n"
  by (auto simp: ino_put_def fun_eq_iff)

definition blocks_inv :: "world \<Rightarrow> int \<Rightarrow> nat \<Rightarrow> nat \<Rightarrow> byte \<Rightarrow> nat \<Rightarrow> world \<Rightarrow> bool" where
  "blocks_inv w0 fd n s c k v \<longleftrightarrow> get_fd v fd = Some (rw_file n (k * s))
     \<and> w_ino v = (w_ino w0)(n := ino_put (w_ino w0 n) 0 (\<lambda>_. c) (k * s))
     \<and> w_dir v = w_dir w0 \<and> w_log v = w_log w0 \<and> w_fmax v = w_fmax w0"

lemma write_blocks_wp:
  assumes fd: "get_fd w fd = Some (rw_file n 0)" and s: "0 < s" and cnt: "cnt < 2147483648"
    and buf: "\<And>j. j < s \<Longrightarrow> buf j = c" and room: "cnt * s \<le> w_fmax w"
  shows "wp (write_blocks cnt fd buf s) (\<lambda>_. blocks_inv w fd n s c cnt) (\<lambda>_ _. False) w"
  unfolding write_blocks_def
proof (rule wp_for_int [where I = "\<lambda>k _. blocks_inv w fd n s c k"])
  fix k a v assume k: "k < cnt" and I: "blocks_inv w fd n s c k v"
  have "Suc k * s \<le> cnt * s" using k by (intro mult_le_mono1) simp
  then have r: "k * s + s \<le> w_fmax v" using I room by (simp add: blocks_inv_def)
  have f: "get_fd v fd = Some (rw_file n (k * s))" using I by (simp add: blocks_inv_def)
  have put: "ino_put (w_ino v n) (k * s) buf s = ino_put (w_ino w n) 0 (\<lambda>_. c) (Suc k * s)"
    using I ino_put_cong [of s buf "\<lambda>_. c"] buf ino_put_again [of "w_ino w n" c k s]
    by (simp add: blocks_inv_def)
  have wr: "sys_write fd buf s v = (int s, set_fd fd (Some (rw_file n (k * s + s)))
      (set_ino n (ino_put (w_ino w n) 0 (\<lambda>_. c) (Suc k * s)) v))"
    using sys_write_plain [OF f, of s buf] r s put by simp
  show "wp (bindP (call (sys_write fd buf s)) (\<lambda>_. ret ())) (\<lambda>_. blocks_inv w fd n s c (Suc k)) (\<lambda>_ _. False) v"
    using I f by (simp add: wp_bindP wp_call wp_ret wr blocks_inv_def get_fd_set_fd add.commute)
qed (use fd cnt in \<open>auto simp: blocks_inv_def ino_put_def\<close>)

section \<open>\<open>msync-test\<close> and \<open>mprotect-test\<close>\<close>

definition sync_buf :: "string list \<Rightarrow> int" where
  "sync_buf argv = sync_bufsize (lat_file_size argv)"

definition sync_blocks :: "string list \<Rightarrow> nat" where
  "sync_blocks argv = nat (lat_file_size argv div sync_buf argv)"

lemma sync_buf_range:
  assumes "lat_ok argv"
  shows "4096 \<le> sync_buf argv" "sync_buf argv \<le> 4194304" "sync_buf argv \<le> lat_file_size argv"
  using lat_file_range [OF assms] by (auto simp: sync_buf_def sync_bufsize_def END_SIZE_value)

lemma sync_blocks_facts:
  assumes ok: "lat_ok argv"
  shows "lat_file_size argv div sync_buf argv = int (sync_blocks argv)" "1 \<le> sync_blocks argv"
    "sync_blocks argv < 2147483648" "sync_blocks argv * nat (sync_buf argv) \<le> nat (lat_file_size argv)"
proof -
  note b = sync_buf_range [OF ok] and f = lat_file_range [OF ok]
  have lo: "1 \<le> lat_file_size argv div sync_buf argv"
    using b zdiv_mono1 [of "sync_buf argv" "lat_file_size argv" "sync_buf argv"] by simp
  have hi: "lat_file_size argv div sync_buf argv \<le> lat_file_size argv div 4096"
    using b f by (intro zdiv_mono2) auto
  have hi2: "lat_file_size argv div 4096 \<le> 524288"
    using f zdiv_mono1 [of "lat_file_size argv" 2147483648 4096] by simp
  show eq: "lat_file_size argv div sync_buf argv = int (sync_blocks argv)" using lo by (simp add: sync_blocks_def)
  then show "1 \<le> sync_blocks argv" "sync_blocks argv < 2147483648" using lo hi hi2 by linarith+
  have "lat_file_size argv div sync_buf argv * sync_buf argv \<le> lat_file_size argv"
    using b f by (simp add: div_times_less_eq_dividend minus_mod_eq_div_mult [symmetric])
  then have "int (sync_blocks argv) * sync_buf argv \<le> lat_file_size argv" by (simp only: eq)
  then show "sync_blocks argv * nat (sync_buf argv) \<le> nat (lat_file_size argv)"
    using b by (metis int_nat_eq nat_int nat_mono of_nat_mult order_trans [of 0 4096] zero_le_numeral)
qed

text \<open>The state in which the two programs differ: the file is written and mapped.\<close>

definition sync_ready :: "string list \<Rightarrow> world \<Rightarrow> int \<Rightarrow> nat \<Rightarrow> world \<Rightarrow> bool" where
  "sync_ready argv w fd n v \<longleftrightarrow> get_fd v fd = Some (rw_file n 0) \<and> w_dir v test1 = Some n
     \<and> w_ino v n = ino_put (test1_inode w) 0 (\<lambda>_. 97) (sync_blocks argv * nat (sync_buf argv))
     \<and> w_log v = w_log w \<and> w_fmax v = w_fmax w"

lemma sync_ready_size:
  assumes "lat_ok argv" and "sync_ready argv w fd n v"
  shows "i_size (w_ino v n) = max (i_size (test1_inode w)) (sync_blocks argv * nat (sync_buf argv))"
    and "nat (sync_buf argv) \<le> i_size (w_ino v n)"
proof -
  have le: "1 * nat (sync_buf argv) \<le> sync_blocks argv * nat (sync_buf argv)"
    using sync_blocks_facts(2) [OF assms(1)] by (rule mult_le_mono1)
  have "0 < sync_blocks argv * nat (sync_buf argv)"
    using le sync_buf_range(1) [OF assms(1)] by simp
  with assms(2) show eq: "i_size (w_ino v n) = max (i_size (test1_inode w)) (sync_blocks argv * nat (sync_buf argv))"
    by (simp add: sync_ready_def ino_put_size)
  show "nat (sync_buf argv) \<le> i_size (w_ino v n)"
    unfolding eq using le by (simp only: mult_1 le_max_iff_disj simp_thms)
qed

lemma map_setup_wp:
  assumes ok: "lat_ok argv" and mem: "sync_buf argv \<le> w_mem w" and room: "2147483648 \<le> w_fmax w"
    and K: "\<And>fd n v. pow2 (sync_buf argv) \<Longrightarrow> sync_ready argv w fd n v \<Longrightarrow> 0 < lat_size argv \<Longrightarrow>
      wp (k fd (Some (whole n (lat_file_size argv) True))
            (memset (memset (w_junk w) 0 97 (nat (sync_buf argv))) 0 (first_byte (argv ! 3)) (nat (sync_buf argv)))
            (sync_buf argv) (int (lat_size argv)) (int (lat_count argv))) Q E v"
    and Z: "\<And>v. pow2 (sync_buf argv) \<Longrightarrow> lat_size argv = 0 \<Longrightarrow> E (Trap Div_By_Zero) v"
    and N: "\<not> pow2 (sync_buf argv) \<Longrightarrow> Q 0 (w\<lparr>w_log := w_log w @ [No_Mem]\<rparr>)"
  shows "wp (map_setup argv k) Q E w"
proof -
  let ?s = "lat_size argv" and ?c = "first_byte (argv ! 3)" and ?len = "lat_file_size argv" and ?b = "sync_buf argv"
  obtain m where m: "size_arg (argv ! 2) = Inr (Some m)" "clamp_size 4096 m = ?len"
    using lat_okD(3) [OF ok] by blast
  note B = sync_blocks_facts [OF ok] and R = sync_buf_range [OF ok] and F = lat_file_range [OF ok]
  show ?thesis
  proof (cases "pow2 ?b")
    case False
    then show ?thesis
      using lat_okD(1,2) [OF ok] m N
      by (simp add: map_setup_def wp_bindP wp_try_res with_size_def with_aligned_def Let_def say_def wp_update wp_ret
          flip: sync_buf_def)
  next
    case True
    obtain fd w1 where op: "sys_open test1 [O_CREAT, O_RDWR] w = (fd, w1)" by fastforce
    obtain n where n: "w_dir w1 test1 = Some n" "get_fd w1 fd = Some (rw_file n 0)"
      "w_ino w1 n = test1_inode w" "w_fmax w1 = w_fmax w" "w_log w1 = w_log w"
      by (rule open_test1_inode [OF op])
    let ?buf = "memset (w_junk w) 0 97 (nat ?b)"
    have "sync_blocks argv * nat ?b \<le> w_fmax w1" using B(4) F room n(4) by linarith
    then have wr: "wp (write_blocks (sync_blocks argv) fd ?buf (nat ?b))
        (\<lambda>_. blocks_inv w1 fd n (nat ?b) 97 (sync_blocks argv)) (\<lambda>_ _. False) w1"
      using R B(3) by (intro write_blocks_wp [OF n(2)]) auto
    have nz: "nat (sync_count ?len ?b) = sync_blocks argv" using B(1,2) by (simp add: sync_count_def)
    have eq: "wp (map_setup argv k) Q E w = wp (write_blocks (sync_blocks argv) fd ?buf (nat ?b)) (\<lambda>_.
        wp (bindP (query (sys_mmap ?len True fd 0)) (\<lambda>data.
            bindP (call (sys_lseek fd 0)) (\<lambda>_.
            if int ?s = 0 then trap Div_By_Zero
            else k fd data (memset ?buf 0 ?c (nat ?b)) ?b (int ?s) (?len div int ?s)))) Q E) E w1"
      using lat_okD(1,2) [OF ok] m True mem nz
      by (simp add: map_setup_def wp_bindP wp_call wp_try_res with_size_def with_aligned_def with_buffer_def Let_def
          op lat_size_simp cong: if_cong flip: sync_buf_def)
    show ?thesis
      unfolding eq using wr
    proof (rule wp_mono)
      fix u v assume I: "blocks_inv w1 fd n (nat ?b) 97 (sync_blocks argv) v"
      then have f: "get_fd v fd = Some (rw_file n (sync_blocks argv * nat ?b))" by (simp add: blocks_inv_def)
      have mm: "sys_mmap ?len True fd 0 v = Some (whole n ?len True)"
        using f F by (intro sys_mmap_whole) auto
      define v' where "v' = set_fd fd (Some (rw_file n 0)) v"
      have sk: "sys_lseek fd 0 v = (0, v')" using lseek_rw [OF f, of 0] by (simp add: v'_def)
      have ready: "sync_ready argv w fd n v'"
        using I n f by (simp add: sync_ready_def v'_def get_fd_set_fd blocks_inv_def)
      show "wp (bindP (query (sys_mmap ?len True fd 0)) (\<lambda>data.
            bindP (call (sys_lseek fd 0)) (\<lambda>_.
            if int ?s = 0 then trap Div_By_Zero
            else k fd data (memset ?buf 0 ?c (nat ?b)) ?b (int ?s) (?len div int ?s)))) Q E v"
      proof (cases "?s = 0")
        case True
        with Z [OF \<open>pow2 ?b\<close>] show ?thesis by (simp add: wp_bindP wp_query wp_call wp_halt)
      next
        case False
        with K [OF \<open>pow2 ?b\<close> ready] lat_count_facts(1) [OF ok] show ?thesis
          by (simp add: wp_bindP wp_query wp_call mm sk)
      qed
    qed simp
  qed
qed

lemma wp_store_inside:
  assumes "x + k \<le> nat len" and "x + k \<le> i_size (w_ino w n)" and "0 < k"
    and "Q () (set_ino n (poke (w_ino w n) x src k) w)"
  shows "wp (map_store (Some (whole n len True)) x src k) Q E w"
  using assms order_trans [OF assms(2) page_up_ge] by (intro wp_store_whole) auto

definition msync_end :: "string list \<Rightarrow> stop + int" where
  "msync_end argv =
     (if \<not> pow2 (sync_buf argv) then Inr 0
      else if lat_size argv = 0 then Inl (Trap Div_By_Zero)
      else if sync_buf argv < int (lat_size argv) then Inl (Trap Out_Of_Bounds)
      else Inr 0)"

definition mprotect_end :: "string list \<Rightarrow> stop + int" where
  "mprotect_end argv =
     (if \<not> pow2 (sync_buf argv) then Inr 0
      else if lat_size argv = 0 \<or> lat_count argv = 0 then Inl (Trap Div_By_Zero)
      else Inr 0)"

lemma msync_test_wp:
  assumes ok: "lat_ok argv" and mem: "sync_buf argv \<le> w_mem w" and room: "2147483648 \<le> w_fmax w"
  shows "wp (msync_test_main time1 argv)
    (\<lambda>r v. msync_end argv = Inr r \<and> (pow2 (sync_buf argv) \<longrightarrow> (\<exists>n. w_dir v test1 = Some n
        \<and> (\<forall>j < sync_blocks argv * nat (sync_buf argv). i_data (w_ino v n) j =
             (if 0 < j \<and> j < lat_size argv then first_byte (argv ! 3) else 97)))))
    (\<lambda>e v. msync_end argv = Inl e) w"
  unfolding msync_test_main_def
proof (rule map_setup_wp [OF ok mem room], goal_cases)
  case (1 fd n v)
  let ?b = "nat (sync_buf argv)" and ?s = "lat_size argv"
  note R = sync_buf_range [OF ok]
  show ?case
  proof (cases "sync_buf argv < int ?s")
    case True
    then show ?thesis using 1 by (simp add: wp_halt msync_end_def)
  next
    case False
    then have le: "?s \<le> ?b" "?s \<le> nat (lat_file_size argv)" "int ?s \<le> lat_file_size argv" using R by linarith+
    have sz: "?s \<le> i_size (w_ino v n)" "1 \<le> i_size (w_ino v n)"
      using sync_ready_size(2) [OF ok 1(2)] le 1(3) by linarith+
    have cnt: "lat_count argv \<noteq> 0" using lat_count_facts(3) [OF ok] 1 le by simp
    have e: "msync_end argv = Inr 0" using 1 False by (simp add: msync_end_def)
    show ?thesis
      unfolding if_not_P [OF False] wp_bindP nat_int
    proof (rule wp_store_inside)
      let ?buf = "memset (memset (w_junk w) 0 97 ?b) 0 (first_byte (argv ! 3)) ?b"
      let ?v1 = "set_ino n (poke (w_ino v n) 0 ?buf ?s) v"
      let ?g = "poke (poke (poke (w_ino v n) 0 ?buf ?s) 0 (\<lambda>_. 100) 1) 0 (\<lambda>_. 97) 1"
      have g: "i_data ?g j = (if 0 < j \<and> j < ?s then first_byte (argv ! 3) else 97)"
        if "j < sync_blocks argv * ?b" for j
        using that 1 le by (auto simp: sync_ready_def ino_put_def)
      show "wp (if int (lat_count argv) = 0 then trap Div_By_Zero else
         bindP (say (Report (time1 div int (lat_count argv)) 0)) (\<lambda>_.
         bindP (map_store (Some (whole n (lat_file_size argv) True)) 0 (\<lambda>_. 100) 1) (\<lambda>_.
         bindP (say (Report (time1 div int (lat_count argv)) 0)) (\<lambda>_.
         bindP (map_store (Some (whole n (lat_file_size argv) True)) 0 (\<lambda>_. 97) 1) (\<lambda>_.
         bindP (say (Report (time1 div int (lat_count argv)) 0)) (\<lambda>_.
         bindP (say (Report (time1 div int (lat_count argv)) 0)) (\<lambda>_.
         bindP (call (sys_close fd)) (\<lambda>_. ret 0))))))))
        (\<lambda>r v. msync_end argv = Inr r \<and> (pow2 (sync_buf argv) \<longrightarrow> (\<exists>n. w_dir v test1 = Some n
          \<and> (\<forall>j < sync_blocks argv * nat (sync_buf argv). i_data (w_ino v n) j =
               (if 0 < j \<and> j < lat_size argv then first_byte (argv ! 3) else 97)))))
        (\<lambda>e v. msync_end argv = Inl e) ?v1"
        using cnt sz le 1 lat_file_range [OF ok] g
        by (auto simp: wp_bindP say_def wp_update wp_call wp_ret e sync_ready_def simp del: poke_sel(2)
            intro!: wp_store_inside)
    qed (use le sz 1 in auto)
  qed
qed (simp_all add: msync_end_def)

lemma mprotect_test_wp:
  assumes ok: "lat_ok argv" and mem: "sync_buf argv \<le> w_mem w" and room: "2147483648 \<le> w_fmax w"
  shows "wp (mprotect_test_main time1 argv)
    (\<lambda>r v. mprotect_end argv = Inr r \<and> (pow2 (sync_buf argv) \<longrightarrow> (\<exists>n. w_dir v test1 = Some n
        \<and> (\<forall>j < sync_blocks argv * nat (sync_buf argv). i_data (w_ino v n) j =
             (if j < nat (sync_buf argv) then 122 else 97)))))
    (\<lambda>e v. mprotect_end argv = Inl e) w"
  unfolding mprotect_test_main_def
proof (rule map_setup_wp [OF ok mem room], goal_cases)
  case (1 fd n v)
  let ?b = "nat (sync_buf argv)" and ?s = "lat_size argv"
  let ?m = "protect 4096 4096 (whole n (lat_file_size argv) True)"
  note R = sync_buf_range [OF ok]
  have b: "0 < ?b" "4096 \<le> ?b" using R by linarith+
  show ?case
  proof (cases "lat_count argv = 0")
    case True
    then show ?thesis using 1 by (simp add: wp_halt mprotect_end_def)
  next
    case False
    have e: "mprotect_end argv = Inr 0" using 1 False by (simp add: mprotect_end_def)
    have f: "get_fd v fd = Some (rw_file n 0)" using 1 by (simp add: sync_ready_def)
    have st: "fault u ?m True 0 = None" if "w_ino u = w_ino v" for u
      using that sync_ready_size(2) [OF ok 1(2)] b lat_file_range [OF ok]
        page_up_ge [of "i_size (w_ino v n)"] page_up_ge [of "nat (lat_file_size argv)"]
      by (auto simp: fault_def protect_def PAGE_def)
    let ?f = "poke (w_ino v n) 0 (\<lambda>_. 100) 1"
    let ?buf = "memset (memset (memset (w_junk w) 0 97 ?b) 0 (first_byte (argv ! 3)) ?b) 0 122 ?b"
    have wr: "sys_write fd ?buf ?b u = (int ?b, set_fd fd (Some (rw_file n ?b)) (set_ino n (ino_put ?f 0 ?buf ?b) u))"
      if "get_fd u fd = Some (rw_file n 0)" "w_fmax u = w_fmax v" "w_ino u n = ?f" for u
      using sys_write_plain [of u fd "rw_file n 0" ?b ?buf] that b R room 1 by (simp add: sync_ready_def)
    have m: "m_ino ?m = n" "m_off ?m = 0" by (simp_all add: protect_def)
    have store: "wp (map_store (Some ?m) 0 (\<lambda>_. 100) 1) Q E u = Q () (set_ino n (poke (w_ino u n) 0 (\<lambda>_. 100) 1) u)"
      if "w_ino u = w_ino v" for Q E u
      using good_bytes_all [of 0 1 u ?m True] st [OF that]
      by (simp add: map_store_def wp_simps case_prod_unfold Let_def m)
    have g: "i_data (ino_put ?f 0 ?buf ?b) j = (if j < ?b then 122 else 97)" if "j < sync_blocks argv * ?b" for j
      using that 1 b by (auto simp: sync_ready_def ino_put_def)
    show ?thesis
      using False 1 f g
      by (simp add: wp_bindP say_def wp_update wp_call wp_ret Let_def store [simplified One_nat_def]
          wr [simplified One_nat_def] e) (simp add: sync_ready_def)
  qed
qed (simp_all add: mprotect_end_def)

section \<open>\<open>munmap-test\<close>\<close>

definition munmap_ok :: "string list \<Rightarrow> bool" where
  "munmap_ok argv \<longleftrightarrow> 2 \<le> length argv \<and> (case size_arg (argv ! 1) of Inr (Some n) \<Rightarrow> True | _ \<Rightarrow> False)"

definition munmap_pages :: "string list \<Rightarrow> nat" where
  "munmap_pages argv =
     nat ((case size_arg (argv ! 1) of Inr (Some n) \<Rightarrow> clamp_size RAM_PAGE n | _ \<Rightarrow> 0) div RAM_PAGE)"

lemma munmap_test_wp:
  assumes ok: "munmap_ok argv" and mem: "RAM_PAGE \<le> w_mem w" and room: "2147483648 \<le> w_fmax w"
  shows "wp (munmap_test_main time1 argv)
    (\<lambda>r v. r = 0 \<and> 8192 < max (i_size (test1_inode w)) (munmap_pages argv * 4096)
      \<and> (\<exists>n. w_dir v test1 = Some n \<and> (\<forall>j < munmap_pages argv * 4096. i_data (w_ino v n) j =
           (if j < 4096 then 98 else if 8192 \<le> j \<and> j < 12288 then 99 else 97))))
    (\<lambda>e v. e = Trap Bus_Error \<and> max (i_size (test1_inode w)) (munmap_pages argv * 4096) \<le> 8192) w"
proof -
  obtain m where m: "\<not> length argv < 2" "size_arg (argv ! 1) = Inr (Some m)"
    using ok by (auto simp: munmap_ok_def split: sum.splits option.splits)
  let ?p = "munmap_pages argv" and ?f = "test1_inode w"
  have c: "4096 \<le> clamp_size RAM_PAGE m" "clamp_size RAM_PAGE m \<le> 2147483648"
    using clamp_size_range [of RAM_PAGE m] by (auto simp: RAM_PAGE_def)
  then have "1 \<le> clamp_size RAM_PAGE m div 4096" "clamp_size RAM_PAGE m div 4096 \<le> 524288"
    using zdiv_mono1 [of 4096 "clamp_size RAM_PAGE m" 4096] zdiv_mono1 [of "clamp_size RAM_PAGE m" 2147483648 4096]
    by simp_all
  then have p: "clamp_size RAM_PAGE m div 4096 = int ?p" "1 \<le> ?p" "?p \<le> 524288"
    using m by (simp_all add: munmap_pages_def RAM_PAGE_def)
  obtain fd w1 where op: "sys_open test1 [O_CREAT, O_RDWR] w = (fd, w1)" by fastforce
  obtain n where n: "w_dir w1 test1 = Some n" "get_fd w1 fd = Some (rw_file n 0)" "w_ino w1 n = ?f" "w_fmax w1 = w_fmax w"
    by (rule open_test1_inode [OF op])
  let ?buf = "memset (w_junk w) 0 97 4096"
  define rest where "rest = bindP (query (sys_mmap RAM_PAGE True fd 0)) (\<lambda>data.
      bindP (map_store data 0 (\<lambda>_. 98) 4096) (\<lambda>_.
      bindP (query (sys_mmap RAM_PAGE True fd 8192)) (\<lambda>data.
      bindP (map_store data 0 (\<lambda>_. 99) 4096) (\<lambda>_.
      bindP (say (Report (time1 div int ?p) 0)) (\<lambda>_.
      bindP (say (Report (time1 div int ?p) 0)) (\<lambda>_.
      bindP (call (sys_close fd)) (\<lambda>_. ret (0 :: int))))))))"
  have eq: "wp (munmap_test_main time1 argv) Q E w = wp (write_blocks ?p fd ?buf 4096) (\<lambda>_. wp rest Q E) E w1" for Q E
    using m mem p
    by (simp add: munmap_test_main_def wp_bindP wp_call with_size_def with_buffer_def wp_try_res Let_def op rest_def
        RAM_PAGE_def)
  have wr: "wp (write_blocks ?p fd ?buf 4096) (\<lambda>_. blocks_inv w1 fd n 4096 97 ?p) (\<lambda>_ _. False) w1"
    using p room n(4) by (intro write_blocks_wp [OF n(2)]) auto
  show ?thesis
    unfolding eq using wr
  proof (rule wp_mono)
    fix u v assume I: "blocks_inv w1 fd n 4096 97 ?p v"
    then have f: "get_fd v fd = Some (rw_file n (?p * 4096))"
      and ino: "w_ino v n = ino_put ?f 0 (\<lambda>_. 97) (?p * 4096)" and d: "w_dir v test1 = Some n"
      using n by (simp_all add: blocks_inv_def)
    let ?z = "max (i_size ?f) (?p * 4096)"
    have sz: "i_size (w_ino v n) = ?z" using ino p(2) by (simp add: ino_put_size)
    have big: "4096 \<le> ?z" using p(2) by linarith
    let ?m = "\<lparr>m_ino = n, m_off = 8192, m_len = 4096, m_wr = (\<lambda>_. True)\<rparr>"
    have mm: "sys_mmap RAM_PAGE True fd 0 v = Some (whole n RAM_PAGE True)"
      using f by (intro sys_mmap_whole) (auto simp: RAM_PAGE_def)
    let ?v = "set_ino n (poke (w_ino v n) 0 (\<lambda>_. 98) 4096) v"
    have mm2: "sys_mmap RAM_PAGE True fd 8192 ?v = Some ?m"
      using f by (simp add: sys_mmap_def RAM_PAGE_def PAGE_def)
    have pu: "page_up 4096 = 4096" by (rule page_up_page) (simp add: PAGE_def)
    have fault: "fault ?v ?m True x = (if page_up ?z \<le> 8192 + x then Some Bus_Error else None)" if "x < 4096" for x
      using that sz by (simp add: fault_def pu)
    have low: "8192 + x < page_up ?z \<longleftrightarrow> 8192 < ?z" if "x < 4096" for x
      using that div_nat_eqI [of 4096 2 "8192 + x"] by (simp add: page_up_less PAGE_def del: less_max_iff_disj)
    show "wp rest (\<lambda>r v. r = 0 \<and> 8192 < ?z
      \<and> (\<exists>n. w_dir v test1 = Some n \<and> (\<forall>j < ?p * 4096. i_data (w_ino v n) j =
           (if j < 4096 then 98 else if 8192 \<le> j \<and> j < 12288 then 99 else 97))))
      (\<lambda>e v. e = Trap Bus_Error \<and> ?z \<le> 8192) v"
      unfolding rest_def wp_bindP wp_query mm
    proof (rule wp_store_inside)
      show "wp (map_store (sys_mmap RAM_PAGE True fd 8192 ?v) 0 (\<lambda>_. 99) 4096) (\<lambda>_.
          wp (say (Report (time1 div int ?p) 0)) (\<lambda>_.
          wp (say (Report (time1 div int ?p) 0)) (\<lambda>_.
          wp (call (sys_close fd)) (\<lambda>_. wp (ret 0) (\<lambda>r v. r = 0 \<and> 8192 < ?z
      \<and> (\<exists>n. w_dir v test1 = Some n \<and> (\<forall>j < ?p * 4096. i_data (w_ino v n) j =
           (if j < 4096 then 98 else if 8192 \<le> j \<and> j < 12288 then 99 else 97))))
      (\<lambda>e v. e = Trap Bus_Error \<and> ?z \<le> 8192)) (\<lambda>e v. e = Trap Bus_Error \<and> ?z \<le> 8192))
      (\<lambda>e v. e = Trap Bus_Error \<and> ?z \<le> 8192)) (\<lambda>e v. e = Trap Bus_Error \<and> ?z \<le> 8192))
      (\<lambda>e v. e = Trap Bus_Error \<and> ?z \<le> 8192) ?v"
      proof (cases "8192 < ?z")
        case True
        have g: "good_bytes ?v ?m True 0 4096 = 4096"
          using fault low True by (intro good_bytes_all) (simp add: not_le del: max_less_iff_conj less_max_iff_disj)
        have h: "i_data (poke (poke (w_ino v n) 0 (\<lambda>_. 98) 4096) 8192 (\<lambda>_. 99) 4096) j
            = (if j < 4096 then 98 else if 8192 \<le> j \<and> j < 12288 then 99 else 97)" if "j < ?p * 4096" for j
          using that by (simp add: ino ino_put_def)
        show ?thesis
          unfolding mm2 map_store_def using True g d h
          by (simp add: wp_simps Let_def say_def del: poke_sel(2) less_max_iff_disj)
      next
        case False
        have "fault ?v ?m True 0 = Some Bus_Error" using fault [of 0] low [of 0] False by (simp add: not_less)
        then show ?thesis unfolding mm2 using False by (intro wp_map_store_fault) auto
      qed
    qed (use big sz in \<open>auto simp: RAM_PAGE_def\<close>)
  qed simp
qed

section \<open>\<open>mmap-truncate\<close>, \<open>mmap_stale_pmd\<close> and \<open>fs-write\<close>\<close>

lemma string_bytes_HELLO: "length HELLO = 12"
  by (simp add: HELLO_def)

lemma flags_rdwr [simp]:
  "flags_ofile [O_RDWR, O_CREAT] n = rw_file n 0" "flags_ofile [O_RDWR, O_CREAT, O_TRUNC] n = rw_file n 0"
  by (simp_all add: flags_ofile_def rw_file_def)

lemma sys_ftruncate_rw:
  "get_fd w fd = Some (rw_file n off) \<Longrightarrow> 0 \<le> len \<Longrightarrow> len \<le> int (w_fmax w) \<Longrightarrow>
   sys_ftruncate fd len w = (0, set_ino n ((w_ino w n)\<lparr>i_data := (\<lambda>k. if k < min (i_size (w_ino w n)) (nat len)
     then i_data (w_ino w n) k else 0), i_size := nat len\<rparr>) w)"
  by (simp add: sys_ftruncate_def Let_def)

text \<open>Every run of \<open>mmap-truncate\<close> ends at one of its stores, with the file empty.\<close>

lemma mmap_truncate_wp:
  assumes "2 \<le> length argv" and "argv ! 1 \<noteq> []"
  shows "wp (mmap_truncate_main argv) (\<lambda>_ _. False)
    (\<lambda>e w'. e = Trap Bus_Error \<and> (\<exists>n. w_dir w' (argv ! 1) = Some n \<and> i_size (w_ino w' n) = 0)) w"
proof -
  obtain fd w1 where op: "sys_open (argv ! 1) [O_RDWR, O_CREAT] w = (fd, w1)" by fastforce
  obtain n where n: "w_dir w1 (argv ! 1) = Some n" "get_fd w1 fd = Some (rw_file n 0)" "0 \<le> fd"
    by (rule sys_open_creat [OF op assms(2)]) auto
  let ?E = "\<lambda>e w'. e = Trap Bus_Error \<and> (\<exists>n. w_dir w' (argv ! 1) = Some n \<and> i_size (w_ino w' n) = 0)"
  define w2 where "w2 = snd (sys_pwrite fd (string_bytes HELLO) (length HELLO) 0 w1)"
  have w2: "get_fd w2 fd = Some (rw_file n 0)" "w_dir w2 (argv ! 1) = Some n"
    using n by (simp_all add: w2_def sys_pwrite_def write_at_def dio_ok_def Let_def)
  have mm: "sys_mmap 4096 True fd 0 w2 = Some (whole n 4096 True)"
    using w2 by (intro sys_mmap_whole) auto
  define rest where "rest = (\<lambda>differ. bindP (whenP differ (say Err_Plain)) (\<lambda>_.
      bindP (map_store (Some (whole n 4096 True)) 0 (\<lambda>_. 83) 1) (\<lambda>_.
      bindP (call (sys_ftruncate fd 0)) (\<lambda>_.
      bindP (map_store (Some (whole n 4096 True)) 0 (\<lambda>_. 104) 1) (\<lambda>_.
      bindP (call (sys_close fd)) (\<lambda>err.
      if err < 0 then err_exit else ret (if differ then 1 else (0 :: int))))))))"
  have last: "wp (map_store (Some (whole n 4096 True)) 0 (\<lambda>_. 104) 1) Q ?E v"
    if "i_size (w_ino v n) = 0" "w_dir v (argv ! 1) = Some n" for v Q
    using that by (intro wp_store_whole) auto
  have rest: "wp (rest differ) Q ?E v"
    if v: "get_fd v fd = Some (rw_file n 0)" "w_dir v (argv ! 1) = Some n" for differ v Q
  proof -
    have "wp (map_store (Some (whole n 4096 True)) 0 (\<lambda>_. 83) 1) (\<lambda>_. wp (call (sys_ftruncate fd 0)) (\<lambda>_.
        wp (map_store (Some (whole n 4096 True)) 0 (\<lambda>_. 104) 1) Q' ?E) ?E) ?E u"
      if u: "get_fd u fd = Some (rw_file n 0)" "w_dir u (argv ! 1) = Some n" for u Q'
    proof (rule wp_store_whole)
      let ?u = "set_ino n (poke (w_ino u n) 0 (\<lambda>_. 83) 1) u"
      have "sys_ftruncate fd 0 ?u = (0, set_ino n ((w_ino ?u n)\<lparr>i_data := (\<lambda>k. if k < min (i_size (w_ino ?u n)) (nat 0)
         then i_data (w_ino ?u n) k else 0), i_size := nat 0\<rparr>) ?u)"
        using u(1) by (intro sys_ftruncate_rw) auto
      then show "wp (call (sys_ftruncate fd 0)) (\<lambda>_. wp (map_store (Some (whole n 4096 True)) 0 (\<lambda>_. 104) 1) Q' ?E) ?E ?u"
        using u by (simp add: wp_call) (rule last [simplified One_nat_def]; simp)
      fix j assume "page_up (i_size (w_ino u n)) < 0 + 1" "j < (1 :: nat)"
      then have "i_size (w_ino u n) = 0" using page_up_ge [of "i_size (w_ino u n)"] by simp
      then show "?E (Trap Bus_Error) (set_ino n (poke (w_ino u n) 0 (\<lambda>_. 83) j) u)" using u by simp
    qed auto
    then show ?thesis using v by (simp add: rest_def wp_bindP wp_whenP say_def wp_update)
  qed
  have cmp: "wp (strncmp_map HELLO (Some (whole n 4096 True))) (\<lambda>d. wp (rest d) Q ?E) ?E w2" for Q
    unfolding strncmp_map_def wp_bindP string_bytes_HELLO
  proof (rule wp_load_whole)
    show "wp (ret (\<exists>i\<in>set [0..<12]. i_data (w_ino w2 n) (0 + i) \<noteq> string_bytes HELLO i)) (\<lambda>d. wp (rest d) Q ?E) ?E w2"
      using rest [OF w2] by (simp add: wp_ret)
    assume "page_up (i_size (w_ino w2 n)) < 0 + 12"
    then have "i_size (w_ino w2 n) = 0" using page_up_pos [of "i_size (w_ino w2 n)"] by (fastforce simp: PAGE_def)
    with w2 show "?E (Trap Bus_Error) w2" by blast
  qed auto
  have eq: "wp (mmap_truncate_main argv) Q E w = wp (strncmp_map HELLO (Some (whole n 4096 True))) (\<lambda>d. wp (rest d) Q E) E w2"
    for Q E
    using assms(1) n(3) op mm by (simp add: mmap_truncate_main_def wp_bindP wp_call wp_query rest_def w2_def)
  show ?thesis unfolding eq by (rule cmp)
qed

text \<open>The mapping and \<open>pwrite\<close> are the same file.\<close>

definition hello_file :: "inode \<Rightarrow> bool" where
  "hello_file f \<longleftrightarrow> i_size f = 4 * 1024 * 1024
     \<and> (\<forall>j. i_data f j = (if 4096 \<le> j \<and> j < 4096 + length HELLO then string_bytes HELLO (j - 4096) else 0))"

lemma inode_updates: "(f :: inode)\<lparr>i_data := d, i_size := s\<rparr> = \<lparr>i_data = d, i_size = s\<rparr>"
  by (cases f) simp

lemma mmap_stale_pmd_wp:
  assumes "2 \<le> length argv" and "argv ! 1 \<noteq> []" and room: "4194304 \<le> w_fmax w"
  shows "wp (mmap_stale_pmd_main argv)
    (\<lambda>r w'. r = 0 \<and> w_log w' = w_log w \<and> (\<exists>n. w_dir w' (argv ! 1) = Some n \<and> hello_file (w_ino w' n)))
    (\<lambda>_ _. False) w"
proof -
  obtain fd w1 where op: "sys_open (argv ! 1) [O_RDWR, O_CREAT] w = (fd, w1)" by fastforce
  obtain n where n: "w_dir w1 (argv ! 1) = Some n" "get_fd w1 fd = Some (rw_file n 0)" "0 \<le> fd"
      "w_fmax w1 = w_fmax w" "w_log w1 = w_log w"
    by (rule sys_open_creat [OF op assms(2)]) auto
  let ?z = "\<lparr>i_data = (\<lambda>_. 0), i_size = 4194304\<rparr>"
  obtain w2 where t0: "sys_ftruncate fd 0 w1 = (0, w2)" and w2: "w_fds w2 = w_fds w1" "w_fmax w2 = w_fmax w1"
      "i_size (w_ino w2 n) = 0" "w_dir w2 = w_dir w1" "w_log w2 = w_log w1" "\<And>k. i_data (w_ino w2 n) k = 0"
    using sys_ftruncate_rw [OF n(2), of 0] by simp
  have f2: "get_fd w2 fd = Some (rw_file n 0)" using n(2) get_fd_cong [OF w2(1)] by simp
  define w3 where "w3 = set_ino n ?z w2"
  have t1: "sys_ftruncate fd 4194304 w2 = (0, w3)"
    using sys_ftruncate_rw [OF f2, of 4194304] room w2 n(4) by (simp add: w3_def inode_updates)
  let ?m = "\<lparr>m_ino = n, m_off = 4096, m_len = 4096, m_wr = (\<lambda>_. False)\<rparr>"
  have mm: "sys_mmap 4096 False fd 4096 w3 = Some ?m"
    using f2 by (simp add: sys_mmap_def w3_def PAGE_def)
  define h where "h = ino_put ?z 4096 (string_bytes HELLO) 12"
  have h: "hello_file h" "i_size h = 4194304"
    by (simp_all add: hello_file_def h_def ino_put_def string_bytes_HELLO)
  define w4 where "w4 = set_ino n h w3"
  have pw: "sys_pwrite fd (string_bytes HELLO) 12 4096 w3 = (12, w4)"
    using f2 room w2(2) n(4)
    by (simp add: sys_pwrite_def write_at_def dio_ok_def Let_def room_def w3_def w4_def h_def)
  have pu: "page_up 4194304 = 4194304" "page_up 4096 = 4096" by (simp_all add: page_up_page PAGE_def)
  have load: "wp (map_load (Some ?m) 0 k) Q E v = Q (\<lambda>i. i_data (w_ino v n) (4096 + i)) v"
    if "i_size (w_ino v n) = 4194304" "k \<le> 4096" for v k Q E
    using good_bytes_all [of 0 k v ?m False] that
    by (simp add: map_load_def wp_simps case_prod_unfold Let_def fault_def pu)
  have same: "\<not> (\<exists>i\<in>set [0..<12]. i_data h (4096 + i) \<noteq> string_bytes HELLO i)"
    by (simp add: h_def ino_put_def)
  have w4: "w_ino w4 n = h" "w_dir w4 = w_dir w1" "w_log w4 = w_log w1" "get_fd w4 fd = Some (rw_file n 0)"
    "w_ino w3 n = ?z"
    using w2 f2 by (simp_all add: w4_def w3_def)
  show ?thesis
    using assms(1) n h same w4 op
    by (simp add: mmap_stale_pmd_main_def wp_bindP wp_call wp_query t0 t1 mm load pw string_bytes_HELLO
        strncmp_map_def wp_ret wp_whenP sys_close_def)
qed

definition spread_file :: "inode \<Rightarrow> bool" where
  "spread_file f \<longleftrightarrow> i_size f = 1073741824 \<and> (\<forall>j. i_data f j = (if j mod 2097152 = 0 \<and> j < 1073741824 then 100 else 0))"

lemma fs_write_wp:
  assumes "length argv = 2" and "argv ! 1 \<noteq> []"
  shows "wp (fs_write_main argv)
    (\<lambda>r w'. r = 0 \<and> 1073741824 \<le> w_fmax w \<and> (\<exists>n. w_dir w' (argv ! 1) = Some n \<and> spread_file (w_ino w' n)))
    (\<lambda>e _. e = Exit 1 \<and> w_fmax w < 1073741824) w"
proof -
  obtain fd w1 where op: "sys_open (argv ! 1) [O_RDWR, O_CREAT, O_TRUNC] w = (fd, w1)" by fastforce
  have "\<exists>n. w_dir w1 (argv ! 1) = Some n \<and> get_fd w1 fd = Some (rw_file n 0) \<and> 0 \<le> fd
      \<and> w_fmax w1 = w_fmax w \<and> w_ino w1 n = empty_inode"
  proof (cases "w_dir w (argv ! 1)")
    case (Some n)
    then have "install [O_RDWR, O_CREAT, O_TRUNC] n (set_ino n empty_inode w) = (fd, w1)"
      using op assms(2) by (simp add: sys_open_def)
    from install_spec [OF this] Some show ?thesis by simp
  next
    case None
    then have "install [O_RDWR, O_CREAT, O_TRUNC] (w_next w) (set_ino (w_next w) empty_inode
        (w\<lparr>w_dir := (w_dir w)(argv ! 1 := Some (w_next w)), w_next := Suc (w_next w)\<rparr>)) = (fd, w1)"
      using op assms(2) by (simp add: sys_open_def)
    from install_spec [OF this] None show ?thesis by simp
  qed
  then obtain n where n: "w_dir w1 (argv ! 1) = Some n" "get_fd w1 fd = Some (rw_file n 0)" "0 \<le> fd"
      "w_fmax w1 = w_fmax w" "w_ino w1 n = empty_inode" by blast
  define w2 where "w2 = set_fd fd (Some (rw_file n 1073741823)) w1"
  have sk: "sys_lseek fd 1073741823 w1 = (1073741823, w2)"
    using lseek_rw [OF n(2), of 1073741823] by (simp add: w2_def)
  have f2: "get_fd w2 fd = Some (rw_file n 1073741823)" using n(2) by (simp add: w2_def get_fd_set_fd)
  have w2: "w_dir w2 = w_dir w1" "w_fmax w2 = w_fmax w" "w_ino w2 n = empty_inode" using n by (simp_all add: w2_def)
  show ?thesis
  proof (cases "1073741824 \<le> w_fmax w")
    case False
    then have "fst (sys_write fd (\<lambda>_. 0) 1 w2) = -1"
      using f2 w2 by (simp add: sys_write_def write_at_def dio_ok_def room_def Let_def)
    then show ?thesis
      using assms(1) n(3) False op
      by (simp add: fs_write_main_def wp_bindP wp_call wp_halt say_def wp_update sk FILESIZE_def)
  next
    case True
    define g where "g = ino_put empty_inode 1073741823 (\<lambda>_. 0) 1"
    have g: "i_size g = 1073741824" "i_data g j = 0" for j
      by (simp_all add: g_def ino_put_def empty_inode_def)
    define w3 where "w3 = set_fd fd (Some (rw_file n 1073741824)) (set_ino n g w2)"
    have wr: "sys_write fd (\<lambda>_. 0) 1 w2 = (1, w3)"
      using sys_write_plain [OF f2, of 1 "\<lambda>_. 0"] True w2 by (simp add: w3_def g_def)
    have w3: "w_ino w3 n = g" "w_dir w3 (argv ! 1) = Some n" using n w2 by (simp_all add: w3_def)
    have f3: "get_fd w3 fd = Some (rw_file n 1073741824)" using f2 by (simp add: w3_def get_fd_set_fd)
    have mm: "sys_mmap 1073741824 True fd 0 w3 = Some (whole n 1073741824 True)"
      using f3 by (intro sys_mmap_whole) auto
    let ?I = "\<lambda>k (_ :: unit) (v :: world). w_dir v (argv ! 1) = Some n \<and> i_size (w_ino v n) = 1073741824
      \<and> (\<forall>j. i_data (w_ino v n) j = (if j mod 2097152 = 0 \<and> j < k * 2097152 then 100 else 0))"
    have loop: "wp (for_int 512 0 (\<lambda>i _. map_store (Some (whole n 1073741824 True)) (nat (2097152 * i)) (\<lambda>_. 100) 1) ())
        (?I 512) (\<lambda>_ _. False) w3"
    proof (rule wp_for_int [where I = ?I])
      fix k a v assume k: "k < (512 :: nat)" and I: "?I k a v"
      have pos: "nat (2097152 * (0 + int k)) = 2097152 * k" by (simp flip: of_nat_mult)
      have nxt: "j mod 2097152 = 0 \<and> j < Suc k * 2097152 \<longleftrightarrow> j = 2097152 * k \<or> j mod 2097152 = 0 \<and> j < k * 2097152" for j
        by auto
      show "wp (map_store (Some (whole n 1073741824 True)) (nat (2097152 * (0 + int k))) (\<lambda>_. 100) 1)
          (?I (Suc k)) (\<lambda>_ _. False) v"
        unfolding pos
      proof (rule wp_store_inside)
        show "?I (Suc k) () (set_ino n (poke (w_ino v n) (2097152 * k) (\<lambda>_. 100) 1) v)"
          using I nxt by auto
      qed (use k I in auto)
    qed (use w3 g in auto)
    have eq: "wp (fs_write_main argv) Q E w = wp (for_int 512 0
        (\<lambda>i _. map_store (Some (whole n 1073741824 True)) (nat (2097152 * i)) (\<lambda>_. 100) 1) ())
        (\<lambda>_. wp (bindP (call (sys_close fd)) (\<lambda>_. ret 0)) Q E) E w3" for Q E
      using assms(1) n(3) mm op wr
      by (simp add: fs_write_main_def wp_bindP wp_call wp_query sk FILESIZE_def)
    show ?thesis
      unfolding eq using loop
      by (rule wp_mono) (use True in \<open>auto simp: wp_simps spread_file_def\<close>)
  qed
qed

section \<open>Properties\<close>

lemma sync_sample:
  "sync_buf latency_argv = 8192" "sync_blocks latency_argv = 1" "pow2 8192" "\<not> pow2 12288"
proof -
  show b: "sync_buf latency_argv = 8192" by (simp add: sync_buf_def sync_bufsize_def latency_sample END_SIZE_value)
  show "sync_blocks latency_argv = 1" by (simp add: sync_blocks_def b latency_sample)
  show "pow2 8192" "\<not> pow2 12288" by code_simp+
qed

text \<open>
  How \<open>msync-test\<close> ends and what it leaves.  Its buffer is the file size up to 4 MB, and also
  its alignment: a smaller file whose size is no power of two ends in the message about memory.
  A request size of 0 divides by zero, one above the buffer size reads past the buffer.  Otherwise
  it returns 0, and the request at the start of the file holds the letter behind the last \<open>a\<close>
  that was stored through the mapping.
\<close>

theorem msync_test_result:
  assumes "lat_ok argv" and "sync_buf argv \<le> w_mem w" and "2147483648 \<le> w_fmax w"
  shows "fst (msync_test_main time1 argv w) = msync_end argv
    \<and> (msync_end argv = Inr 0 \<and> pow2 (sync_buf argv) \<longrightarrow>
        (\<exists>n. w_dir (snd (msync_test_main time1 argv w)) test1 = Some n
          \<and> (\<forall>j < sync_blocks argv * nat (sync_buf argv). i_data (w_ino (snd (msync_test_main time1 argv w)) n) j =
               (if 0 < j \<and> j < lat_size argv then first_byte (argv ! 3) else 97))))"
  using msync_test_wp [OF assms, of time1]
  by (cases "msync_test_main time1 argv w") (auto simp: wp_def split: sum.splits)

theorem msync_test_result_witness:
  "fst (msync_test_main 7 latency_argv fresh_world) = Inr 0
   \<and> (\<exists>n. w_dir (snd (msync_test_main 7 latency_argv fresh_world)) test1 = Some n
     \<and> i_data (w_ino (snd (msync_test_main 7 latency_argv fresh_world)) n) 1 = 120)"
proof -
  have x: "latency_argv ! 3 = ''x''" by (simp add: latency_argv_def)
  show ?thesis
    using msync_test_result [of latency_argv fresh_world 7] latency_sample(5) [OF x]
    by (auto simp: msync_end_def sync_sample latency_sample)
qed

text \<open>
  \<open>mprotect-test\<close> takes its write through the descriptor past the protection: on arguments
  that it accepts, the final \<open>write\<close> covers the whole first block with \<open>z\<close>, the store of \<open>d\<close>
  through the mapping and the page protected against writing included.
\<close>

theorem mprotect_test_result:
  assumes "lat_ok argv" and "sync_buf argv \<le> w_mem w" and "2147483648 \<le> w_fmax w"
  shows "fst (mprotect_test_main time1 argv w) = mprotect_end argv
    \<and> (mprotect_end argv = Inr 0 \<and> pow2 (sync_buf argv) \<longrightarrow>
        (\<exists>n. w_dir (snd (mprotect_test_main time1 argv w)) test1 = Some n
          \<and> (\<forall>j < sync_blocks argv * nat (sync_buf argv). i_data (w_ino (snd (mprotect_test_main time1 argv w)) n) j =
               (if j < nat (sync_buf argv) then 122 else 97))))"
  using mprotect_test_wp [OF assms, of time1]
  by (cases "mprotect_test_main time1 argv w") (auto simp: wp_def split: sum.splits)

theorem mprotect_test_result_witness:
  "fst (mprotect_test_main 7 latency_argv fresh_world) = Inr 0
   \<and> (\<exists>n. w_dir (snd (mprotect_test_main 7 latency_argv fresh_world)) test1 = Some n
     \<and> i_data (w_ino (snd (mprotect_test_main 7 latency_argv fresh_world)) n) 4097 = 122)"
  using mprotect_test_result [of latency_argv fresh_world 7]
  by (auto simp: mprotect_end_def sync_sample latency_sample)

text \<open>
  \<open>munmap-test\<close> maps the third page of its file whatever the size: with arguments for fewer
  than three pages, on a file that is not already longer, the store into it is a bus error;
  otherwise the program returns 0 and leaves \<open>b\<close> in the first, \<open>c\<close> in the third page and \<open>a\<close>
  in all others.
\<close>

theorem munmap_test_result:
  assumes "munmap_ok argv" and "RAM_PAGE \<le> w_mem w" and "2147483648 \<le> w_fmax w"
  shows "if max (i_size (test1_inode w)) (munmap_pages argv * 4096) \<le> 8192
    then fst (munmap_test_main time1 argv w) = Inl (Trap Bus_Error)
    else fst (munmap_test_main time1 argv w) = Inr 0
      \<and> (\<exists>n. w_dir (snd (munmap_test_main time1 argv w)) test1 = Some n
        \<and> (\<forall>j < munmap_pages argv * 4096. i_data (w_ino (snd (munmap_test_main time1 argv w)) n) j =
             (if j < 4096 then 98 else if 8192 \<le> j \<and> j < 12288 then 99 else 97)))"
  using munmap_test_wp [OF assms, of time1]
  by (cases "munmap_test_main time1 argv w") (auto simp: wp_def split: sum.splits)

theorem munmap_test_result_witness:
  "fst (munmap_test_main 7 [''t'', ''8K''] fresh_world) = Inl (Trap Bus_Error)
   \<and> fst (munmap_test_main 7 [''t'', ''9K''] (sized_world 9000)) = Inr 0"
proof -
  have "size_arg ''8K'' = Inr (Some 8192)" "size_arg ''9K'' = Inr (Some 9216)" by code_simp+
  then have a: "munmap_ok [''t'', ''8K'']" "munmap_pages [''t'', ''8K''] = 2"
    "munmap_ok [''t'', ''9K'']" "munmap_pages [''t'', ''9K''] = 2"
    by (simp_all add: munmap_ok_def munmap_pages_def clamp_size_def RAM_PAGE_def)
  show ?thesis
    using munmap_test_result [OF a(1), of fresh_world 7] munmap_test_result [OF a(3), of "sized_world 9000" 7]
    by (simp add: a RAM_PAGE_def test1_inode_def empty_inode_def)
qed

text \<open>
  \<open>mmap-truncate\<close> never comes back from its stores through the mapping: the one after the
  truncation to length 0 is a bus error at the latest, and the file is empty then.
\<close>

theorem mmap_truncate_dies:
  assumes "2 \<le> length argv" and "argv ! 1 \<noteq> []"
  shows "\<exists>w' n. mmap_truncate_main argv w = (Inl (Trap Bus_Error), w')
    \<and> w_dir w' (argv ! 1) = Some n \<and> i_size (w_ino w' n) = 0"
  using mmap_truncate_wp [OF assms, of w] by (auto simp: wp_def split: prod.splits sum.splits)

theorem mmap_truncate_dies_witness:
  "fst (mmap_truncate_main [''t'', ''/mnt/f''] fresh_world) = Inl (Trap Bus_Error)"
  using mmap_truncate_dies [of "[''t'', ''/mnt/f'']" fresh_world] by auto

text \<open>
  \<open>mmap_stale_pmd\<close> on a file system without the bug it looks for: a page of zeros that was
  read through a mapping shows the bytes that \<open>pwrite\<close> stores under it, the program reports
  nothing, returns 0 and leaves a file of 4 MB that holds the string at offset 4096 and zeros.
\<close>

theorem mmap_stale_pmd_coherent:
  assumes "2 \<le> length argv" and "argv ! 1 \<noteq> []" and "4194304 \<le> w_fmax w"
  shows "\<exists>w' n. mmap_stale_pmd_main argv w = (Inr 0, w') \<and> w_log w' = w_log w
    \<and> w_dir w' (argv ! 1) = Some n \<and> hello_file (w_ino w' n)"
  using wp_returns [OF mmap_stale_pmd_wp [OF assms]] by auto

theorem mmap_stale_pmd_coherent_witness:
  "\<exists>w' n. mmap_stale_pmd_main [''t'', ''/mnt/f''] fresh_world = (Inr 0, w') \<and> w_log w' = []
     \<and> i_data (w_ino w' n) 4096 = 72"
proof -
  have h: "string_bytes HELLO 0 = 72" by code_simp
  obtain w' n where "mmap_stale_pmd_main [''t'', ''/mnt/f''] fresh_world = (Inr 0, w')" "w_log w' = []"
      "hello_file (w_ino w' n)"
    using mmap_stale_pmd_coherent [of "[''t'', ''/mnt/f'']" fresh_world] by auto
  with h show ?thesis by (intro exI [of _ w'] exI [of _ n]) (simp add: hello_file_def string_bytes_HELLO)
qed

text \<open>
  \<open>fs-write\<close> ends in exit code 1 where the file system does not take a file of 1 GB, and
  otherwise returns 0 and leaves such a file with \<open>d\<close> at every multiple of 2 MB and zeros.
\<close>

theorem fs_write_result:
  assumes "length argv = 2" and "argv ! 1 \<noteq> []"
  shows "if w_fmax w < 1073741824 then fst (fs_write_main argv w) = Inl (Exit 1)
    else fst (fs_write_main argv w) = Inr 0
      \<and> (\<exists>n. w_dir (snd (fs_write_main argv w)) (argv ! 1) = Some n \<and> spread_file (w_ino (snd (fs_write_main argv w)) n))"
  using fs_write_wp [OF assms, of w] by (cases "fs_write_main argv w") (auto simp: wp_def split: sum.splits)

theorem fs_write_result_witness:
  "fst (fs_write_main [''t'', ''/mnt/f''] fresh_world) = Inr 0
   \<and> (\<exists>n. w_dir (snd (fs_write_main [''t'', ''/mnt/f''] fresh_world)) ''/mnt/f'' = Some n
     \<and> i_data (w_ino (snd (fs_write_main [''t'', ''/mnt/f''] fresh_world)) n) 2097152 = 100)"
  using fs_write_result [of "[''t'', ''/mnt/f'']" fresh_world] by (auto simp: spread_file_def)

end
