(* ===== verification/Ram_Bench.thy ===== *)
theory Ram_Bench
  imports Mmap_Tests
begin

text \<open>
  The benchmarks of plain \<open>read\<close> and \<open>write\<close> on the RAM disk: \<open>write_to_ram.c\<close>,
  \<open>write_to_ram_warm.c\<close>, \<open>read_from_ram.c\<close>, \<open>rewrite.c\<close>, \<open>write_files.c\<close>, \<open>pwrite.c\<close>,
  \<open>fsync.c\<close> and \<open>nvp-test.c\<close>.  Measured times are arguments.  Of the shell commands,
  \<open>rm -rf\<close> removes the name; the cache control of the kernel module changes no file.  The line
  that is appended to the result file is not modelled, only that it needs an open stream.
\<close>

section \<open>The programs\<close>

text \<open>
  The request size of \<open>write_to_ram\<close> with its unit: an \<open>int\<close> whose multiplication may overflow.
\<close>

definition request_arg :: "string \<Rightarrow> trap + int option" where
  "request_arg s =
     (case c_strcpy 20 s of
        Inl t \<Rightarrow> Inl t
      | Inr b \<Rightarrow>
          if b = [] then Inl Out_Of_Bounds
          else case unit_factor (last b) of
              None \<Rightarrow> Inr None
            | Some k \<Rightarrow>
                let v = s32 (atoll (butlast b)) * k
                in if - (2 ^ 31) \<le> v \<and> v < 2 ^ 31 then Inr (Some v) else Inl Int_Overflow)"

definition RAM_BUF :: int where
  "RAM_BUF = 64 * 1024 * 1024"

definition write_to_ram_main :: "int \<Rightarrow> string list \<Rightarrow> int wprog" where
  "write_to_ram_main time argv =
     (if length argv < 6 then bindP (say Usage) (\<lambda>_. ret 0)
      else
      bindP (try_res (c_strcpy 20 (argv ! 1))) (\<lambda>fs_type.
      bindP (try_res (c_strcpy 40 (argv ! 2))) (\<lambda>quill_enabled.
      bindP (try_res (request_arg (argv ! 3))) (\<lambda>rq.
      case rq of None \<Rightarrow> bindP (say Bad_Unit) (\<lambda>_. ret 0) | Some sz \<Rightarrow>
      with_size 4096 (argv ! 4) (\<lambda>FILE_SIZE.
      bindP (try_res (c_strcpy 60 (argv ! 5))) (\<lambda>filename.
      bindP (call (c_fopen_a filename)) (\<lambda>output.
      with_buffer RAM_BUF (\<lambda>buf.
      bindP (call (sys_unlink test1)) (\<lambda>_.
      bindP (call (sys_open test1 [O_CREAT, O_RDWR])) (\<lambda>fd.
      if sz < 0 \<or> RAM_BUF < sz then trap Buffer_Overflow
      else
      let buf = memset buf 0 97 (nat sz) in
      bindP (call (sys_lseek fd 0)) (\<lambda>_.
      bindP (call (sys_lseek fd 0)) (\<lambda>_.
      if sz = 0 then trap Div_By_Zero
      else
      let count = FILE_SIZE div sz in
      bindP (write_blocks (nat count) fd buf (nat sz)) (\<lambda>_.
      if count = 0 then trap Div_By_Zero
      else
      bindP (say (Report (per_op time count) 0)) (\<lambda>_.
      bindP (c_fprintf output) (\<lambda>_.
      bindP (c_fclose output) (\<lambda>_.
      bindP (call (sys_close fd)) (\<lambda>_. ret 0)))))))))))))))))"

definition write_to_ram_warm_main :: "int \<Rightarrow> string list \<Rightarrow> int wprog" where
  "write_to_ram_warm_main time argv =
     (if length argv < 6 then bindP (say Usage) (\<lambda>_. ret 0)
      else
      bindP (try_res (c_strcpy 20 (argv ! 1))) (\<lambda>fs_type.
      bindP (try_res (c_strcpy 20 (if argv ! 2 = ''0'' then ''No_XIP'' else ''XIP''))) (\<lambda>xip_enabled.
      bindP (try_res (c_strcpy 20 (if argv ! 3 = ''0'' then ''Posix'' else ''Quill''))) (\<lambda>quill_enabled.
      with_size 4096 (argv ! 4) (\<lambda>FILE_SIZE.
      bindP (try_res (c_strcpy 60 (argv ! 5))) (\<lambda>filename.
      bindP (call (c_fopen_a filename)) (\<lambda>output.
      with_buffer RAM_BUF (\<lambda>buf.
      bindP (call (sys_open test1 [O_CREAT, O_RDWR, O_DIRECT])) (\<lambda>fd.
      let buf = memset buf 0 97 4096 in
      bindP (call (sys_lseek fd 0)) (\<lambda>_.
      bindP (for_int 262144 0
               (\<lambda>i offset. bindP (call (sys_pwrite fd buf 4096 offset)) (\<lambda>r.
                           bindP (whenP (r \<noteq> 4096) (say Err_Plain)) (\<lambda>_. ret (offset + 4096)))) 0) (\<lambda>_.
      bindP (call (sys_lseek fd 0)) (\<lambda>_.
      let count = FILE_SIZE div 4096 in
      if count = 0 then trap Div_By_Zero
      else
      bindP (say (Report (per_op time count) 0)) (\<lambda>_.
      bindP (c_fprintf output) (\<lambda>_.
      bindP (c_fclose output) (\<lambda>_.
      bindP (call (sys_close fd)) (\<lambda>_. ret 0))))))))))))))))"

definition read_ram_round :: "int \<Rightarrow> int \<Rightarrow> int \<Rightarrow> buffer \<Rightarrow> buffer wprog" where
  "read_ram_round time FILE_SIZE output buf =
     bindP (call (sys_open test1 [O_CREAT, O_RDONLY])) (\<lambda>fd.
     let buf = memset buf 0 0 4096 in
     bindP (call (sys_read fd buf 4096)) (\<lambda>(r, buf).
     bindP (whenP (r \<noteq> 4096) (say Err_Plain)) (\<lambda>_.
     bindP (call (sys_lseek fd 0)) (\<lambda>_.
     let count = FILE_SIZE div 4096 in
     bindP (for_int (nat count) 0
              (\<lambda>i buf. bindP (call (sys_read fd buf 4096)) (\<lambda>(r, buf). ret buf)) buf) (\<lambda>buf.
     if count = 0 then trap Div_By_Zero
     else
     bindP (say (Report (per_op time count) 0)) (\<lambda>_.
     bindP (c_fprintf output) (\<lambda>_.
     bindP (call (sys_close fd)) (\<lambda>_. ret buf))))))))"

definition read_from_ram_main :: "int \<Rightarrow> string list \<Rightarrow> int wprog" where
  "read_from_ram_main time argv =
     (if length argv < 6 then bindP (say Usage) (\<lambda>_. ret 0)
      else
      bindP (try_res (c_strcpy 20 (argv ! 1))) (\<lambda>fs_type.
      bindP (try_res (c_strcpy 40 (argv ! 2))) (\<lambda>quill_enabled.
      with_size 4096 (argv ! 4) (\<lambda>FILE_SIZE.
      bindP (try_res (c_strcpy 60 (argv ! 5))) (\<lambda>filename.
      bindP (call (c_fopen_a filename)) (\<lambda>output.
      with_buffer (4 * 1024 * 4096) (\<lambda>buf.
      bindP (for_int 3 0 (\<lambda>j buf. read_ram_round time FILE_SIZE output buf) buf) (\<lambda>_.
      bindP (c_fclose output) (\<lambda>_. ret 0)))))))))"

definition rewrite_letter :: "int \<Rightarrow> byte" where
  "rewrite_letter retry = of_int (97 + retry smod 26)"

definition rewrite_main :: "int \<Rightarrow> string list \<Rightarrow> int wprog" where
  "rewrite_main time1 argv =
     (if length argv < 4 then bindP (say Usage) (\<lambda>_. ret 0)
      else
      let retry = atoi (argv ! 3); c = rewrite_letter retry in
      with_buffer END_SIZE (\<lambda>buf.
      bindP (call (sys_open test1 [O_CREAT, O_RDWR])) (\<lambda>fd.
      let sz = req_arg END_SIZE (argv ! 1);
          offset = atoi (argv ! 2);
          buf = memset buf 0 c (nat sz) in
      bindP (for_int (nat retry) 0
               (\<lambda>i _. bindP (call (sys_lseek fd offset)) (\<lambda>_.
                      bindP (call (sys_write fd buf (nat sz))) (\<lambda>r.
                      whenP (r \<noteq> sz) (say Err_Plain)))) ()) (\<lambda>_.
      if retry = 0 then trap Div_By_Zero
      else
      bindP (say (Report (time1 sdiv retry) 0)) (\<lambda>_.
      bindP (call (sys_close fd)) (\<lambda>_. ret 0))))))"

definition pwrite_main :: "int wprog" where
  "pwrite_main =
     bindP (call (sys_open test1 [O_CREAT, O_RDWR])) (\<lambda>fd.
     let buffer = memset (\<lambda>_. 0) 0 97 1 in
     bindP (call (sys_pwrite fd buffer 4096 0)) (\<lambda>_.
     bindP (call (sys_close fd)) (\<lambda>_. ret 0)))"

definition fsync_main :: "int wprog" where
  "fsync_main =
     bindP (call (sys_open test1 [O_CREAT, O_RDWR])) (\<lambda>fd.
     bindP (call (sys_fsync fd)) (\<lambda>_.
     bindP (call (sys_close fd)) (\<lambda>_. ret 0)))"

text \<open>
  \<open>nvp-test.c\<close> starts its first pass at an offset that is never set: \<open>offset0\<close> is its value.
\<close>

definition nvp_pass :: "int \<Rightarrow> int \<Rightarrow> buffer \<Rightarrow> (int \<times> buffer) wprog" where
  "nvp_pass fd offset buf =
     for_int 262144 0
       (\<lambda>i (offset, buf).
          bindP (call (sys_pread fd buf 4096 offset)) (\<lambda>(r, buf).
          bindP (whenP (r \<noteq> 4096) (say Err_Plain)) (\<lambda>_.
          if 2 ^ 63 \<le> offset + 4096 then trap Int_Overflow else ret (offset + 4096, buf)))) (offset, buf)"

definition nvp_test_main :: "int \<Rightarrow> int \<Rightarrow> int wprog" where
  "nvp_test_main offset0 time =
     with_buffer RAM_BUF (\<lambda>buf.
     bindP (call (sys_open test1 [O_CREAT, O_RDWR, O_DIRECT])) (\<lambda>fd.
     let buf = memset buf 0 97 (nat RAM_BUF) in
     bindP (nvp_pass fd offset0 buf) (\<lambda>(offset, buf).
     bindP (nvp_pass fd 0 buf) (\<lambda>_.
     bindP (say (Report (per_op time 262144) 0)) (\<lambda>_.
     bindP (call (sys_close fd)) (\<lambda>_. ret 0))))))"

section \<open>\<open>write_files\<close>\<close>

definition file_name :: "nat \<Rightarrow> string" where
  "file_name file_count = ''/mnt/ramdisk/file_'' @ decimal file_count"

definition create_round :: "int \<Rightarrow> unit wprog" where
  "create_round file_count =
     bindP (call (sys_open (file_name (nat file_count)) [O_CREAT, O_RDWR])) (\<lambda>fd.
     bindP (call (sys_close fd)) (\<lambda>_. ret ()))"

definition fill_round_files :: "nat \<Rightarrow> int \<Rightarrow> buffer \<Rightarrow> int \<Rightarrow> unit wprog" where
  "fill_round_files count sz buf file_count =
     bindP (call (sys_open (file_name (nat file_count)) [O_RDWR])) (\<lambda>fd.
     bindP (call (sys_lseek fd 0)) (\<lambda>_.
     bindP (for_int count 0
              (\<lambda>i _. bindP (call (sys_write fd buf (nat sz))) (\<lambda>r.
                     whenP (u64 r \<noteq> sz) (say (Err_Size sz r)))) ()) (\<lambda>_.
     bindP (call (sys_fsync fd)) (\<lambda>_.
     bindP (call (sys_close fd)) (\<lambda>_. ret ())))))"

definition delete_round :: "int \<Rightarrow> unit wprog" where
  "delete_round file_count =
     bindP (call (sys_unlink (file_name (nat file_count)))) (\<lambda>fd. ret ())"

definition write_files_main :: "int \<Rightarrow> int \<Rightarrow> int \<Rightarrow> string list \<Rightarrow> int wprog" where
  "write_files_main time1 time2 time3 argv =
     (if length argv < 4 then bindP (say Usage) (\<lambda>_. ret 0)
      else
      let num_files = atoi (argv ! 1) in
      with_size 0 (argv ! 2) (\<lambda>FILE_SIZE.
      let sz = req_arg END_SIZE (argv ! 3) in
      with_buffer END_SIZE (\<lambda>buf.
      let buf = memset buf 0 97 (nat sz) in
      if sz = 0 then trap Div_By_Zero
      else
      let count = FILE_SIZE div sz in
      bindP (for_int (nat num_files) 0 (\<lambda>i _. create_round i) ()) (\<lambda>_.
      if num_files = 0 then trap Div_By_Zero
      else
      bindP (say (Report (time1 sdiv num_files) 0)) (\<lambda>_.
      bindP (for_int (nat num_files) 0 (\<lambda>i _. fill_round_files (nat count) sz buf i) ()) (\<lambda>_.
      bindP (whenP (count \<noteq> 0)
               (say (Report (time2 sdiv num_files) (u64 time2 div u64 (num_files * count))))) (\<lambda>_.
      bindP (for_int (nat num_files) 0 (\<lambda>i _. delete_round i) ()) (\<lambda>_.
      bindP (say (Report (time3 sdiv num_files) 0)) (\<lambda>_. ret 0)))))))))"

section \<open>\<open>write_to_ram\<close> and \<open>read_from_ram\<close>\<close>

lemma unit_factor_ge: "unit_factor u = Some k \<Longrightarrow> 1024 \<le> k"
  by (auto simp: unit_factor_def split: if_splits)

lemma request_arg_unit:
  assumes "request_arg s = Inr (Some v)" and "0 < v"
  shows "1024 \<le> v"
proof -
  obtain k n where k: "1024 \<le> k" "v = n * k"
    using assms(1) by (auto simp: request_arg_def Let_def split: sum.splits option.splits if_splits dest: unit_factor_ge)
  then have "0 < n" using assms(2) by (simp add: zero_less_mult_iff)
  then have "1 * k \<le> n * k" using k(1) by (intro mult_right_mono) auto
  with k show ?thesis by (simp only: mult_1)
qed

lemma arg_file_range: "args_parsed argv \<Longrightarrow> 4096 \<le> arg_file_size argv \<and> arg_file_size argv \<le> 2147483648"
  using clamp_size_range [of 4096]
  by (auto simp: arg_file_size_def args_parsed_def split: sum.splits option.splits)

text \<open>Opening the result file and then creating the test file anew.\<close>

lemma fopen_frame:
  assumes "c_fopen_a p w = (out, w1)" and "p \<noteq> []"
  shows "0 \<le> out" "w_log w1 = w_log w" "w_mem w1 = w_mem w" "w_fmax w1 = w_fmax w" "w_junk w1 = w_junk w"
    "w_dio w1 = w_dio w" "w_dir w q = Some n \<Longrightarrow> w_dir w1 q = Some n"
    "wf_world w \<Longrightarrow> wf_world w1" "n \<noteq> w_next w \<Longrightarrow> w_ino w1 n = w_ino w n"
  by (rule sys_open_creat [OF assms(1) [unfolded c_fopen_a_def] assms(2)]; simp)+

lemma create_test1:
  assumes "sys_open test1 [O_CREAT, O_RDWR] (snd (sys_unlink test1 w)) = (fd, w')"
  obtains n where "w_dir w' test1 = Some n" and "get_fd w' fd = Some (rw_file n 0)"
    and "w_ino w' n = empty_inode" and "w_log w' = w_log w" and "w_fmax w' = w_fmax w"
proof -
  let ?v = "snd (sys_unlink test1 w)"
  have v: "w_dir ?v test1 = None" "w_log ?v = w_log w" "w_fmax ?v = w_fmax w"
    by (auto simp: sys_unlink_def split: option.splits)
  show thesis
    by (rule sys_open_creat [OF assms]) (use v that in \<open>auto simp: test1_def [symmetric]\<close>, simp add: test1_def)
qed

definition wtr_end :: "string list \<Rightarrow> int \<Rightarrow> stop + int" where
  "wtr_end argv sz =
     (if sz < 0 \<or> RAM_BUF < sz then Inl (Trap Buffer_Overflow)
      else if sz = 0 \<or> arg_file_size argv < sz then Inl (Trap Div_By_Zero)
      else Inr 0)"

lemma write_to_ram_wp:
  assumes ok: "args_parsed argv" "argv ! 5 \<noteq> []" and rq: "request_arg (argv ! 3) = Inr (Some sz)"
    and mem: "RAM_BUF \<le> w_mem w" and room: "2147483648 \<le> w_fmax w"
  shows "wp (write_to_ram_main time argv)
    (\<lambda>r w'. wtr_end argv sz = Inr r
      \<and> w_log w' = w_log w @ [Report (per_op time (arg_file_size argv div sz)) 0]
      \<and> (\<exists>n. w_dir w' test1 = Some n
           \<and> w_ino w' n = ino_put empty_inode 0 (\<lambda>_. 97) (nat (arg_file_size argv div sz * sz))))
    (\<lambda>e _. wtr_end argv sz = Inl e) w"
proof -
  note D = args_parsedD [OF ok(1)]
  obtain m where m: "size_arg (argv ! 4) = Inr (Some m)" "clamp_size 4096 m = arg_file_size argv"
    using D(5) by blast
  obtain out w1 where fo: "c_fopen_a (argv ! 5) w = (out, w1)" by fastforce
  note F = fopen_frame [OF fo ok(2)]
  obtain fd w2 where op: "sys_open test1 [O_CREAT, O_RDWR] (snd (sys_unlink test1 w1)) = (fd, w2)" by fastforce
  have mem1: "w_mem w1 = w_mem w" "w_junk w1 = w_junk w" by (rule F)+
  obtain n where n: "w_dir w2 test1 = Some n" "get_fd w2 fd = Some (rw_file n 0)" "w_ino w2 n = empty_inode"
      "w_log w2 = w_log w1" "w_fmax w2 = w_fmax w1"
    by (rule create_test1 [OF op])
  note sim = write_to_ram_main_def wp_bindP wp_call wp_try_res with_size_def with_buffer_def Let_def fo
  show ?thesis
  proof (cases "sz < 0 \<or> RAM_BUF < sz \<or> sz = 0")
    case True
    then show ?thesis
      using D(1-4) m rq mem mem1 op by (auto simp: sim wp_halt wtr_end_def cong: if_cong)
  next
    case False
    let ?fs = "arg_file_size argv" and ?c = "arg_file_size argv div sz"
    note R = arg_file_range [OF ok(1)]
    have s: "1024 \<le> sz" "0 < sz" using request_arg_unit [OF rq] False by auto
    have "?fs div sz \<le> ?fs div 1024" using s R by (intro zdiv_mono2) auto
    moreover have "?fs div 1024 \<le> 2097152" using R zdiv_mono1 [of ?fs 2147483648 1024] by simp
    ultimately have c: "0 \<le> ?c" "?c \<le> 2097152" using s R by (auto simp: pos_imp_zdiv_nonneg_iff)
    have zero: "?c = 0 \<longleftrightarrow> ?fs < sz"
      using s R c(1) pos_imp_zdiv_pos_iff [OF s(2), of ?fs] by (auto simp: div_pos_pos_trivial)
    have tot: "nat ?c * nat sz = nat (?c * sz)" using c s by (simp add: nat_mult_distrib)
    have "?c * sz \<le> ?fs" using s by (simp add: minus_mod_eq_div_mult [symmetric])
    then have fit: "nat ?c * nat sz \<le> w_fmax w2" unfolding tot using R room n(5) F(4) by linarith
    define w3 where "w3 = set_fd fd (Some (rw_file n 0)) w2"
    have sk: "sys_lseek fd 0 w2 = (0, w3)" using lseek_rw [OF n(2), of 0] by (simp add: w3_def)
    have f3: "get_fd w3 fd = Some (rw_file n 0)" using n(2) by (simp add: w3_def get_fd_set_fd)
    have sk3: "sys_lseek fd 0 w3 = (0, set_fd fd (Some (rw_file n 0)) w3)" using lseek_rw [OF f3, of 0] by simp
    have same: "set_fd fd (Some (rw_file n 0)) w3 = w3" by (simp add: w3_def set_fd_def)
    let ?buf = "memset (w_junk w) 0 97 (nat sz)"
    have wr: "wp (write_blocks (nat ?c) fd ?buf (nat sz)) (\<lambda>_. blocks_inv w3 fd n (nat sz) 97 (nat ?c)) (\<lambda>_ _. False) w3"
      using s c fit by (intro write_blocks_wp [OF f3]) (auto simp: w3_def)
    define rest where "rest = (if ?c = 0 then trap Div_By_Zero
      else
      bindP (say (Report (per_op time ?c) 0)) (\<lambda>_.
      bindP (c_fprintf out) (\<lambda>_.
      bindP (c_fclose out) (\<lambda>_.
      bindP (call (sys_close fd)) (\<lambda>_. ret (0 :: int))))))"
    have eq: "wp (write_to_ram_main time argv) Q E w = wp (write_blocks (nat ?c) fd ?buf (nat sz)) (\<lambda>_. wp rest Q E) E w3" for Q E
      using D(1-4) m rq mem mem1 op False
      by (simp add: sim rest_def sk sk3 same cong: if_cong split del: if_split)
    show ?thesis
      unfolding eq using wr
    proof (rule wp_mono)
      fix u v assume "blocks_inv w3 fd n (nat sz) 97 (nat ?c) v"
      then show "wp rest (\<lambda>r w'. wtr_end argv sz = Inr r \<and> w_log w' = w_log w @ [Report (per_op time ?c) 0]
          \<and> (\<exists>n. w_dir w' test1 = Some n \<and> w_ino w' n = ino_put empty_inode 0 (\<lambda>_. 97) (nat (?c * sz))))
          (\<lambda>e _. wtr_end argv sz = Inl e) v"
        using False zero n F(1,2)
        by (auto simp: rest_def wp_simps say_def c_fprintf_def c_fclose_def wtr_end_def blocks_inv_def tot w3_def)
    qed simp
  qed
qed

definition read_lines :: "nat \<Rightarrow> int \<Rightarrow> int \<Rightarrow> event list" where
  "read_lines z time FILE_SIZE =
     (if z < 4096 then [Err_Plain] else []) @ [Report (per_op time (FILE_SIZE div 4096)) 0]"

lemma sys_open_existing:
  assumes "w_dir w p = Some n" and "p \<noteq> []" and "O_TRUNC \<notin> set fl" "O_EXCL \<notin> set fl"
    and "sys_open p fl w = (fd, w')"
  shows "get_fd w' fd = Some (flags_ofile fl n)" "0 \<le> fd" "w_ino w' = w_ino w" "w_dir w' = w_dir w"
    "w_log w' = w_log w" "w_fmax w' = w_fmax w" "w_junk w' = w_junk w"
proof -
  have i: "install fl n w = (fd, w')" using assms by (simp add: sys_open_def)
  show "get_fd w' fd = Some (flags_ofile fl n)" "0 \<le> fd" "w_ino w' = w_ino w" "w_dir w' = w_dir w"
    "w_log w' = w_log w" "w_fmax w' = w_fmax w" "w_junk w' = w_junk w"
    by (rule install_spec [OF i])+
qed

lemma read_ram_round_wp:
  assumes n: "w_dir w test1 = Some n" and out: "0 \<le> output" and fs: "4096 \<le> FILE_SIZE" "FILE_SIZE \<le> 2147483648"
  shows "wp (read_ram_round time FILE_SIZE output buf)
    (\<lambda>_ w'. w_dir w' = w_dir w \<and> w_ino w' = w_ino w
       \<and> w_log w' = w_log w @ read_lines (i_size (w_ino w n)) time FILE_SIZE) (\<lambda>_ _. False) w"
proof -
  let ?c = "FILE_SIZE div 4096"
  have c: "1 \<le> ?c" "?c \<le> 524288"
    using fs zdiv_mono1 [of 4096 FILE_SIZE 4096] zdiv_mono1 [of FILE_SIZE 2147483648 4096] by simp_all
  obtain fd w1 where op: "sys_open test1 [O_CREAT, O_RDONLY] w = (fd, w1)" by fastforce
  have o: "get_fd w1 fd = Some (flags_ofile [O_CREAT, O_RDONLY] n)" "w_ino w1 = w_ino w" "w_dir w1 = w_dir w"
    "w_log w1 = w_log w"
    by (rule sys_open_existing [OF n _ _ _ op]; simp add: test1_def)+
  let ?buf = "memset buf 0 0 4096"
  obtain r b w2 where rd: "sys_read fd ?buf 4096 w1 = ((r, b), w2)" by (metis prod.exhaust)
  have r: "r \<noteq> 4096 \<longleftrightarrow> i_size (w_ino w n) < 4096"
    using rd o by (auto simp: sys_read_def read_at_def flags_ofile_def dio_ok_def avail_def Let_def)
  have w2: "w_ino w2 = w_ino w" "w_dir w2 = w_dir w" "w_log w2 = w_log w"
    using sys_read_frame [of fd ?buf 4096 w1] o unfolding rd by simp_all
  have loop: "wp (for_int (nat ?c) 0 (\<lambda>i buf. bindP (call (sys_read fd buf 4096)) (\<lambda>(r, buf). ret buf)) b)
      (\<lambda>_ v. w_dir v = w_dir u \<and> w_ino v = w_ino u \<and> w_log v = w_log u) (\<lambda>_ _. False) u" for u
    using c by (intro wp_for_int [where I = "\<lambda>_ _ v. w_dir v = w_dir u \<and> w_ino v = w_ino u \<and> w_log v = w_log u"])
      (auto simp: wp_simps case_prod_unfold)
  have "wp (read_ram_round time FILE_SIZE output buf) Q E w = wp (whenP (r \<noteq> 4096) (say Err_Plain)) (\<lambda>_.
      wp (call (sys_lseek fd 0)) (\<lambda>_.
      wp (for_int (nat ?c) 0 (\<lambda>i buf. bindP (call (sys_read fd buf 4096)) (\<lambda>(r, buf). ret buf)) b) (\<lambda>buf.
      wp (bindP (say (Report (per_op time ?c) 0)) (\<lambda>_.
     bindP (c_fprintf output) (\<lambda>_.
     bindP (call (sys_close fd)) (\<lambda>_. ret buf)))) Q E) E) E) E w2" for Q E
    using c by (simp add: read_ram_round_def wp_bindP wp_call op rd Let_def)
  then show ?thesis
    using w2 r out
    by (auto simp: wp_whenP wp_call say_def wp_update read_lines_def wp_bindP c_fprintf_def wp_ret
        intro!: wp_mono [OF loop])
qed

lemma read_from_ram_wp:
  assumes ok: "args_parsed argv" "argv ! 5 \<noteq> []" and mem: "4 * 1024 * 4096 \<le> w_mem w"
    and n: "w_dir w test1 = Some n" and wf: "wf_world w"
  shows "wp (read_from_ram_main time argv)
    (\<lambda>r w'. r = 0 \<and> w_dir w' test1 = Some n \<and> w_ino w' n = w_ino w n
      \<and> w_log w' = w_log w @ concat (replicate 3 (read_lines (i_size (w_ino w n)) time (arg_file_size argv))))
    (\<lambda>_ _. False) w"
proof -
  note D = args_parsedD [OF ok(1)] and R = arg_file_range [OF ok(1)]
  obtain m where m: "size_arg (argv ! 4) = Inr (Some m)" "clamp_size 4096 m = arg_file_size argv"
    using D(5) by blast
  obtain out w1 where fo: "c_fopen_a (argv ! 5) w = (out, w1)" by fastforce
  note F = fopen_frame [OF fo ok(2)]
  have "n \<noteq> w_next w" using wf n unfolding wf_world_def by blast
  then have w1: "w_dir w1 test1 = Some n" "w_ino w1 n = w_ino w n" "w_log w1 = w_log w" "w_mem w1 = w_mem w"
    "w_junk w1 = w_junk w" "0 \<le> out"
    using F n by auto
  let ?l = "read_lines (i_size (w_ino w n)) time (arg_file_size argv)"
  let ?I = "\<lambda>k (_ :: buffer) (v :: world). w_dir v test1 = Some n \<and> w_ino v n = w_ino w n
      \<and> w_log v = w_log w @ concat (replicate k ?l)"
  have loop: "wp (for_int 3 0 (\<lambda>j buf. read_ram_round time (arg_file_size argv) out buf) b) (?I 3) (\<lambda>_ _. False) w1" for b
  proof (rule wp_for_int [where I = ?I])
    fix k b v assume I: "?I k b v"
    have step: "concat (replicate k ?l) @ ?l = concat (replicate (Suc k) ?l)"
      by (simp flip: replicate_append_same)
    from I have "w_dir v test1 = Some n" by simp
    from read_ram_round_wp [OF this w1(6) R [THEN conjunct1] R [THEN conjunct2], of time b]
    show "wp (read_ram_round time (arg_file_size argv) out b) (?I (Suc k)) (\<lambda>_ _. False) v"
      by (rule wp_mono) (use I step in auto)
  qed (use w1 in auto)
  have eq: "wp (read_from_ram_main time argv) Q E w =
      wp (for_int 3 0 (\<lambda>j buf. read_ram_round time (arg_file_size argv) out buf) (w_junk w))
        (\<lambda>_. wp (bindP (c_fclose out) (\<lambda>_. ret 0)) Q E) E w1" for Q E
    using D(1-4) m mem w1
    by (simp add: read_from_ram_main_def wp_bindP wp_call wp_try_res with_size_def with_buffer_def Let_def fo)
  show ?thesis
    unfolding eq using loop
    by (rule wp_mono) (use w1 in \<open>auto simp: wp_simps c_fclose_def\<close>)
qed

section \<open>\<open>rewrite\<close>\<close>

lemma ino_put_idem: "ino_put (ino_put f off b n) off b n = ino_put f off b n"
  by (cases "n = 0") (auto simp: ino_put_def fun_eq_iff)

text \<open>The file after \<open>retry\<close> requests: one range again and again, or requests in sequence.\<close>

definition rewritten :: "inode \<Rightarrow> int \<Rightarrow> int \<Rightarrow> nat \<Rightarrow> inode" where
  "rewritten f retry offset s =
     (if retry \<le> 0 then f
      else if offset < 0 then ino_put f 0 (\<lambda>_. rewrite_letter retry) (nat retry * s)
      else ino_put f (nat offset) (\<lambda>_. rewrite_letter retry) s)"

lemma rewrite_wp:
  fixes argv defines "retry \<equiv> atoi (argv ! 3)" and "offset \<equiv> atoi (argv ! 2)" and "s \<equiv> lat_size argv"
  assumes len: "4 \<le> length argv" and mem: "END_SIZE \<le> w_mem w" and s: "0 < s"
    and room: "(if offset < 0 then nat retry * s else nat offset + s) \<le> w_fmax w"
  shows "wp (rewrite_main time1 argv)
    (\<lambda>r w'. r = 0 \<and> retry \<noteq> 0 \<and> w_log w' = w_log w @ [Report (time1 sdiv retry) 0]
      \<and> (\<exists>n. w_dir w' test1 = Some n \<and> w_ino w' n = rewritten (test1_inode w) retry offset s))
    (\<lambda>e _. e = Trap Div_By_Zero \<and> retry = 0) w"
proof -
  let ?c = "rewrite_letter retry" and ?f = "test1_inode w"
  obtain fd w1 where op: "sys_open test1 [O_CREAT, O_RDWR] w = (fd, w1)" by fastforce
  obtain n where n: "w_dir w1 test1 = Some n" "get_fd w1 fd = Some (rw_file n 0)" "w_ino w1 n = ?f"
      "w_fmax w1 = w_fmax w" "w_log w1 = w_log w"
    by (rule open_test1_inode [OF op])
  let ?buf = "memset (w_junk w) 0 ?c s"
  define pos where "pos = (\<lambda>k :: nat. if offset < 0 then k * s else if k = 0 then 0 else nat offset + s)"
  define ino where "ino = (\<lambda>k :: nat. if offset < 0 then ino_put ?f 0 (\<lambda>_. ?c) (k * s)
      else if k = 0 then ?f else ino_put ?f (nat offset) (\<lambda>_. ?c) s)"
  let ?I = "\<lambda>k (_ :: unit) (v :: world). get_fd v fd = Some (rw_file n (pos k)) \<and> w_ino v n = ino k
      \<and> w_dir v = w_dir w1 \<and> w_log v = w_log w1 \<and> w_fmax v = w_fmax w1"
  let ?body = "\<lambda>i _. bindP (call (sys_lseek fd offset)) (\<lambda>_.
      bindP (call (sys_write fd ?buf s)) (\<lambda>r. whenP (r \<noteq> int s) (say Err_Plain)))"
  have loop: "wp (for_int (nat retry) 0 ?body ()) (?I (nat retry)) (\<lambda>_ _. False) w1"
  proof (rule wp_for_int [where I = ?I])
    show "?I 0 () w1" using n by (simp add: pos_def ino_def ino_put_def)
    show "0 + int (nat retry) \<le> 2147483647" using atoi_bounds(2) [of "argv ! 3"] by (simp add: retry_def)
    fix k a v assume k: "k < nat retry" and I: "?I k a v"
    define off where "off = (if offset < 0 then k * s else nat offset)"
    define v1 where "v1 = snd (sys_lseek fd offset v)"
    have v1: "get_fd v1 fd = Some (rw_file n off)" "w_ino v1 = w_ino v" "w_dir v1 = w_dir v"
      "w_log v1 = w_log v" "w_fmax v1 = w_fmax v"
      using I by (auto simp: v1_def sys_lseek_def off_def pos_def get_fd_set_fd)
    have "Suc k * s \<le> nat retry * s" using k by (intro mult_le_mono1) simp
    then have fit: "off + s \<le> w_fmax v1" using room I n v1 by (auto simp: off_def split: if_splits)
    have put: "ino_put (ino k) off ?buf s = ino (Suc k)"
      using ino_put_cong [of s ?buf "\<lambda>_. ?c"] ino_put_again [of ?f ?c k s] ino_put_idem [of ?f "nat offset" "\<lambda>_. ?c" s]
      by (auto simp: ino_def off_def)
    have wr: "sys_write fd ?buf s v1 = (int s, set_fd fd (Some (rw_file n (off + s))) (set_ino n (ino (Suc k)) v1))"
      using sys_write_plain [OF v1(1), of s ?buf] fit s put I v1 by simp
    have p: "off + s = pos (Suc k)" by (simp add: off_def pos_def add.commute)
    show "wp (?body (0 + int k) a) (?I (Suc k)) (\<lambda>_ _. False) v"
      using I v1 by (simp add: wp_bindP wp_call wp_whenP v1_def [symmetric] wr p get_fd_set_fd)
  qed simp
  define rest where "rest = (\<lambda>_ :: unit. if retry = 0 then trap Div_By_Zero
      else bindP (say (Report (time1 sdiv retry) 0)) (\<lambda>_. bindP (call (sys_close fd)) (\<lambda>_. ret (0 :: int))))"
  have eq: "wp (rewrite_main time1 argv) Q E w = wp (for_int (nat retry) 0 ?body ()) (\<lambda>u. wp (rest u) Q E) E w1" for Q E
    using len mem lat_size_int [of argv]
    by (simp add: rewrite_main_def wp_bindP wp_call with_buffer_def Let_def op rest_def retry_def offset_def s_def
        cong: if_cong split del: if_split)
  have fin: "ino (nat retry) = rewritten ?f retry offset s"
    by (auto simp: ino_def rewritten_def ino_put_def)
  show ?thesis
    unfolding eq using loop
    by (rule wp_mono) (use n fin in \<open>auto simp: rest_def wp_simps say_def\<close>)
qed

section \<open>\<open>write_files\<close>\<close>

lemma file_name_inj: "file_name a = file_name b \<longleftrightarrow> a = b"
  using decimal_inj by (auto simp: file_name_def)

lemma file_name_not_Nil [simp]: "file_name k \<noteq> []"
  by (simp add: file_name_def)

definition files_made :: "world \<Rightarrow> nat \<Rightarrow> world \<Rightarrow> bool" where
  "files_made w0 k w \<longleftrightarrow> (\<forall>i < k. w_dir w (file_name i) \<noteq> None)
     \<and> (\<forall>p. (\<forall>i < k. p \<noteq> file_name i) \<longrightarrow> w_dir w p = w_dir w0 p)
     \<and> w_log w = w_log w0 \<and> w_fmax w = w_fmax w0"

lemma create_round_wp:
  assumes "files_made w0 k w"
  shows "wp (create_round (int k)) (\<lambda>_. files_made w0 (Suc k)) (\<lambda>_ _. False) w"
proof -
  obtain fd w1 where op: "sys_open (file_name k) [O_CREAT, O_RDWR] w = (fd, w1)" by fastforce
  have d: "w_dir w1 = (case w_dir w (file_name k) of None \<Rightarrow> (w_dir w)(file_name k := Some (w_next w)) | Some _ \<Rightarrow> w_dir w)
      \<and> w_log w1 = w_log w \<and> w_fmax w1 = w_fmax w"
    using op install_spec(5-) by (auto simp: sys_open_def split: option.splits)
  show ?thesis
    using assms d
    by (auto simp: create_round_def wp_bindP wp_call wp_ret op files_made_def less_Suc_eq file_name_inj
        split: option.splits)
qed

lemma fill_round_files_wp:
  assumes made: "files_made w0 m w" and k: "k < m" and s: "0 < s" "s \<le> 4194304" and cnt: "cnt < 2147483648"
    and room: "cnt * s \<le> w_fmax w"
  shows "wp (fill_round_files cnt (int s) buf (int k)) (\<lambda>_. files_made w0 m) (\<lambda>_ _. False) w"
proof -
  obtain n where n: "w_dir w (file_name k) = Some n" using made k by (auto simp: files_made_def)
  obtain fd w1 where op: "sys_open (file_name k) [O_RDWR] w = (fd, w1)" by fastforce
  have o: "get_fd w1 fd = Some (flags_ofile [O_RDWR] n)" "w_dir w1 = w_dir w" "w_log w1 = w_log w" "w_fmax w1 = w_fmax w"
    by (rule sys_open_existing [OF n _ _ _ op]; simp)+
  have rw: "flags_ofile [O_RDWR] n = rw_file n 0" by (simp add: flags_ofile_def rw_file_def)
  define w2 where "w2 = set_fd fd (Some (rw_file n 0)) w1"
  have sk: "sys_lseek fd 0 w1 = (0, w2)" using lseek_rw [of w1 fd n 0 0] o(1) by (simp add: w2_def rw)
  let ?body = "\<lambda>i _. bindP (call (sys_write fd buf s)) (\<lambda>r. whenP (u64 r \<noteq> int s) (say (Err_Size (int s) r)))"
  let ?I = "\<lambda>j (_ :: unit) (v :: world). get_fd v fd = Some (rw_file n (j * s)) \<and> w_dir v = w_dir w
      \<and> w_log v = w_log w \<and> w_fmax v = w_fmax w"
  have loop: "wp (for_int cnt 0 ?body ()) (?I cnt) (\<lambda>_ _. False) w2"
  proof (rule wp_for_int [where I = ?I])
    fix j a v assume j: "j < cnt" and I: "?I j a v"
    have f: "get_fd v fd = Some (rw_file n (j * s))" using I by simp
    have "Suc j * s \<le> cnt * s" using j by (intro mult_le_mono1) simp
    then have wr: "sys_write fd buf s v = (int s, set_fd fd (Some (rw_file n (j * s + s)))
        (set_ino n (ino_put (w_ino v n) (j * s) buf s) v))"
      using sys_write_plain [OF f, of s buf] room I s by simp
    have u: "u64 (int s) = int s" using s by (intro u64_id) simp_all
    show "wp (?body (0 + int j) a) (?I (Suc j)) (\<lambda>_ _. False) v"
      using I by (simp add: wp_bindP wp_call wp_whenP wr u get_fd_set_fd add.commute)
  qed (use o cnt in \<open>auto simp: w2_def get_fd_set_fd rw\<close>)
  have eq: "wp (fill_round_files cnt (int s) buf (int k)) Q E w = wp (for_int cnt 0 ?body ())
      (\<lambda>_. wp (bindP (call (sys_fsync fd)) (\<lambda>_. bindP (call (sys_close fd)) (\<lambda>_. ret ()))) Q E) E w2" for Q E
    by (simp add: fill_round_files_def wp_bindP wp_call op sk)
  show ?thesis
    unfolding eq using loop
    by (rule wp_mono) (use made in \<open>auto simp: wp_simps sys_fsync_def files_made_def\<close>)
qed

definition files_gone :: "world \<Rightarrow> nat \<Rightarrow> world \<Rightarrow> bool" where
  "files_gone w0 k w \<longleftrightarrow> (\<forall>p. w_dir w p = (if \<exists>i < k. p = file_name i then None else w_dir w0 p))
     \<and> w_log w = w_log w0"

lemma delete_round_wp:
  assumes "files_gone w0 k w"
  shows "wp (delete_round (int k)) (\<lambda>_. files_gone w0 (Suc k)) (\<lambda>_ _. False) w"
  using assms
  by (auto simp: delete_round_def wp_bindP wp_call wp_ret files_gone_def sys_unlink_def less_Suc_eq split: option.splits)

definition wf_size :: "string list \<Rightarrow> nat" where
  "wf_size argv = nat (req_arg END_SIZE (argv ! 3))"

definition wf_count :: "string list \<Rightarrow> nat" where
  "wf_count argv =
     nat ((case size_arg (argv ! 2) of Inr (Some n) \<Rightarrow> clamp_size 0 n | _ \<Rightarrow> 0) div int (wf_size argv))"

definition wf_args :: "string list \<Rightarrow> bool" where
  "wf_args argv \<longleftrightarrow> 4 \<le> length argv \<and> 0 < wf_size argv
     \<and> (case size_arg (argv ! 2) of Inr (Some n) \<Rightarrow> True | _ \<Rightarrow> False)"

lemma write_files_wp:
  fixes argv defines "num \<equiv> atoi (argv ! 1)" and "cnt \<equiv> wf_count argv"
  assumes ok: "wf_args argv" and mem: "END_SIZE \<le> w_mem w" and cnt: "cnt < 2147483648"
    and room: "cnt * wf_size argv \<le> w_fmax w"
  shows "wp (write_files_main time1 time2 time3 argv)
    (\<lambda>r w'. r = 0 \<and> num \<noteq> 0
      \<and> (\<forall>p. w_dir w' p = (if \<exists>i < nat num. p = file_name i then None else w_dir w p))
      \<and> w_log w' = w_log w @ [Report (time1 sdiv num) 0]
          @ (if cnt = 0 then [] else [Report (time2 sdiv num) (u64 time2 div u64 (num * int cnt))])
          @ [Report (time3 sdiv num) 0])
    (\<lambda>e w'. e = Trap Div_By_Zero \<and> num = 0 \<and> w_dir w' = w_dir w) w"
proof -
  let ?s = "wf_size argv"
  obtain m where m: "\<not> length argv < 4" "size_arg (argv ! 2) = Inr (Some m)" and s: "0 < ?s"
    using ok by (auto simp: wf_args_def split: sum.splits option.splits)
  have r: "req_arg END_SIZE (argv ! 3) = int ?s" and s4: "?s \<le> 4194304"
    using req_arg_END [of "argv ! 3"] by (auto simp: wf_size_def)
  have c: "clamp_size 0 m div int ?s = int cnt"
    using m(2) clamp_size_range [of 0 m] s by (simp add: cnt_def wf_count_def pos_imp_zdiv_nonneg_iff)
  have num: "0 + int (nat num) \<le> 2147483647" using atoi_bounds(2) [of "argv ! 1"] by (simp add: num_def)
  let ?buf = "memset (w_junk w) 0 97 ?s"
  have create: "wp (for_int (nat num) 0 (\<lambda>i _. create_round i) ()) (\<lambda>_. files_made w (nat num)) (\<lambda>_ _. False) w"
  proof (rule wp_for_int [where I = "\<lambda>k _. files_made w k"])
    show "wp (create_round (0 + int k)) (\<lambda>_. files_made w (Suc k)) (\<lambda>_ _. False) v" if "files_made w k v" for k v
      using create_round_wp [OF that] by simp
  qed (use num in \<open>auto simp: files_made_def\<close>)
  have fill: "wp (for_int (nat num) 0 (\<lambda>i _. fill_round_files cnt (int ?s) ?buf i) ())
      (\<lambda>_. files_made w0 (nat num)) (\<lambda>_ _. False) v" if v: "files_made w0 (nat num) v" "w_fmax w0 = w_fmax w" for v w0
  proof (rule wp_for_int [where I = "\<lambda>_ _. files_made w0 (nat num)"])
    fix k a u assume k: "k < nat num" and I: "files_made w0 (nat num) u"
    have "cnt * ?s \<le> w_fmax u" using I v(2) room by (simp add: files_made_def)
    from fill_round_files_wp [OF I k s s4 cnt this]
    show "wp (fill_round_files cnt (int ?s) ?buf (0 + int k)) (\<lambda>_. files_made w0 (nat num)) (\<lambda>_ _. False) u" by simp
  qed (use num v in auto)
  have delete: "wp (for_int (nat num) 0 (\<lambda>i _. delete_round i) ()) (\<lambda>_. files_gone v (nat num)) (\<lambda>_ _. False) v" for v
  proof (rule wp_for_int [where I = "\<lambda>k _. files_gone v k"])
    show "wp (delete_round (0 + int k)) (\<lambda>_. files_gone v (Suc k)) (\<lambda>_ _. False) u" if "files_gone v k u" for k u
      using delete_round_wp [OF that] by simp
  qed (use num in \<open>auto simp: files_gone_def\<close>)
  define tail where "tail = bindP (for_int (nat num) 0 (\<lambda>i _. delete_round i) ()) (\<lambda>_.
      bindP (say (Report (time3 sdiv num) 0)) (\<lambda>_. ret (0 :: int)))"
  define mid where "mid = bindP (whenP (int cnt \<noteq> 0)
      (say (Report (time2 sdiv num) (u64 time2 div u64 (num * int cnt))))) (\<lambda>_. tail)"
  let ?Q = "\<lambda>(r :: int) (w' :: world). r = 0 \<and> num \<noteq> 0
      \<and> (\<forall>p. w_dir w' p = (if \<exists>i < nat num. p = file_name i then None else w_dir w p))
      \<and> w_log w' = w_log w @ [Report (time1 sdiv num) 0]
          @ (if cnt = 0 then [] else [Report (time2 sdiv num) (u64 time2 div u64 (num * int cnt))])
          @ [Report (time3 sdiv num) 0]"
  let ?E = "\<lambda>e (w' :: world). e = Trap Div_By_Zero \<and> num = 0 \<and> w_dir w' = w_dir w"
  let ?w0 = "w\<lparr>w_log := w_log w @ [Report (time1 sdiv num) 0]\<rparr>"
  define post where "post = ?Q"
  define early where "early = ?E"
  have tail: "wp tail post early v"
    if "num \<noteq> 0" "\<And>p. (\<forall>i < nat num. p \<noteq> file_name i) \<Longrightarrow> w_dir v p = w_dir w p"
      "w_log v = w_log w @ [Report (time1 sdiv num) 0]
          @ (if cnt = 0 then [] else [Report (time2 sdiv num) (u64 time2 div u64 (num * int cnt))])" for v
    unfolding tail_def wp_bindP using delete [of v]
    by (rule wp_mono) (use that in \<open>auto simp: wp_ret say_def wp_update files_gone_def post_def\<close>)
  have mid: "wp mid post early v" if "num \<noteq> 0" "files_made ?w0 (nat num) v" for v
    using that by (auto simp: mid_def wp_bindP wp_whenP say_def wp_update files_made_def intro!: tail)
  have eq: "wp (write_files_main time1 time2 time3 argv) Q E w = wp (for_int (nat num) 0 (\<lambda>i _. create_round i) ())
      (\<lambda>_. wp (if num = 0 then trap Div_By_Zero
        else bindP (say (Report (time1 sdiv num) 0)) (\<lambda>_.
          bindP (for_int (nat num) 0 (\<lambda>i _. fill_round_files cnt (int ?s) ?buf i) ()) (\<lambda>_. mid))) Q E) E w" for Q E
    using m mem s
    by (simp add: write_files_main_def wp_bindP wp_call wp_try_res with_size_def with_buffer_def Let_def r c
        mid_def tail_def num_def [symmetric, simplified One_nat_def] cong: if_cong split del: if_split)
  show ?thesis
    unfolding eq post_def [symmetric] early_def [symmetric] using create
  proof (rule wp_mono)
    fix u v assume I: "files_made w (nat num) v"
    show "wp (if num = 0 then trap Div_By_Zero
        else bindP (say (Report (time1 sdiv num) 0)) (\<lambda>_.
          bindP (for_int (nat num) 0 (\<lambda>i _. fill_round_files cnt (int ?s) ?buf i) ()) (\<lambda>_. mid))) post early v"
    proof (cases "num = 0")
      case True
      with I show ?thesis by (auto simp: wp_halt files_made_def fun_eq_iff early_def)
    next
      case False
      let ?v = "v\<lparr>w_log := w_log v @ [Report (time1 sdiv num) 0]\<rparr>"
      have "files_made ?w0 (nat num) ?v" using I by (simp add: files_made_def)
      from fill [OF this] have "wp (for_int (nat num) 0 (\<lambda>i _. fill_round_files cnt (int ?s) ?buf i) ())
          (\<lambda>_. files_made ?w0 (nat num)) (\<lambda>_ _. False) ?v" by simp
      then have "wp (for_int (nat num) 0 (\<lambda>i _. fill_round_files cnt (int ?s) ?buf i) ()) (\<lambda>_. wp mid post early) early ?v"
        by (rule wp_mono) (use False mid in auto)
      with False show ?thesis by (simp add: wp_bindP say_def wp_update)
    qed
  qed simp
qed

section \<open>\<open>nvp-test\<close>\<close>

lemma nvp_pass_wp:
  assumes off: "offset < 2 ^ 63"
  shows "wp (nvp_pass fd offset buf)
    (\<lambda>_ v. offset + 1073741824 < 2 ^ 63 \<and> w_ino v = w_ino w \<and> w_dir v = w_dir w)
    (\<lambda>e _. e = Trap Int_Overflow \<and> 2 ^ 63 \<le> offset + 1073741824) w"
  unfolding nvp_pass_def
proof (rule wp_for_int [where I = "\<lambda>k ob v. fst ob = offset + 4096 * int k \<and> fst ob < 2 ^ 63
    \<and> w_ino v = w_ino w \<and> w_dir v = w_dir w"])
  fix k and ob :: "int \<times> buffer" and v :: world
  assume k: "k < (262144 :: nat)" and I: "fst ob = offset + 4096 * int k \<and> fst ob < 2 ^ 63
    \<and> w_ino v = w_ino w \<and> w_dir v = w_dir w"
  obtain b where ob: "ob = (offset + 4096 * int k, b)" using I by (cases ob) auto
  obtain r b' where rd: "sys_pread fd b 4096 (offset + 4096 * int k) v = ((r, b'), v)"
    by (cases "sys_pread fd b 4096 (offset + 4096 * int k) v") (auto simp: sys_pread_def split: option.splits)
  show "wp (case ob of (offset, buf) \<Rightarrow>
      bindP (call (sys_pread fd buf 4096 offset)) (\<lambda>(r, buf).
      bindP (whenP (r \<noteq> 4096) (say Err_Plain)) (\<lambda>_.
      if 2 ^ 63 \<le> offset + 4096 then trap Int_Overflow else ret (offset + 4096, buf))))
      (\<lambda>ob v. fst ob = offset + 4096 * int (Suc k) \<and> fst ob < 2 ^ 63 \<and> w_ino v = w_ino w \<and> w_dir v = w_dir w)
      (\<lambda>e _. e = Trap Int_Overflow \<and> 2 ^ 63 \<le> offset + 1073741824) v"
    using I k by (auto simp: ob rd wp_simps say_def)
qed (use off in auto)

lemma nvp_test_wp:
  assumes mem: "RAM_BUF \<le> w_mem w" and off: "offset0 < 2 ^ 63"
  shows "wp (nvp_test_main offset0 time)
    (\<lambda>r v. r = 0 \<and> offset0 + 1073741824 < 2 ^ 63 \<and> (\<forall>n. n \<noteq> w_next w \<longrightarrow> w_ino v n = w_ino w n))
    (\<lambda>e _. e = Trap Int_Overflow \<and> 2 ^ 63 \<le> offset0 + 1073741824) w"
proof -
  obtain fd w1 where op: "sys_open test1 [O_CREAT, O_RDWR, O_DIRECT] w = (fd, w1)" by fastforce
  have w1: "\<And>m. m \<noteq> w_next w \<Longrightarrow> w_ino w1 m = w_ino w m"
    by (rule sys_open_creat [OF op]) (auto simp: test1_def)
  let ?buf = "memset (w_junk w) 0 97 (nat RAM_BUF)"
  have eq: "wp (nvp_test_main offset0 time) Q E w = wp (nvp_pass fd offset0 ?buf)
      (\<lambda>x. wp (nvp_pass fd 0 (snd x)) (\<lambda>_. wp (bindP (say (Report (per_op time 262144) 0)) (\<lambda>_.
         bindP (call (sys_close fd)) (\<lambda>_. ret 0))) Q E) E) E w1" for Q E
    using mem by (simp add: nvp_test_main_def wp_bindP wp_call with_buffer_def Let_def op case_prod_unfold)
  show ?thesis
    unfolding eq
  proof (rule wp_mono [OF nvp_pass_wp [OF off]], goal_cases)
    case (1 x v)
    show ?case
      by (rule wp_mono [OF nvp_pass_wp [of 0]]) (use 1 w1 in \<open>auto simp: wp_simps say_def\<close>)
  qed simp
qed

section \<open>Properties\<close>

text \<open>
  How \<open>write_to_ram\<close> ends and what it leaves.  A request above 64 MB or below 0 overruns its
  buffer, a request of 0 and one above the file size divide by zero (the latter after its file was
  removed); otherwise it returns 0 and \<open>test1\<close> is a new file of whole requests of \<open>a\<close>.
\<close>

theorem write_to_ram_result:
  assumes "args_parsed argv" "argv ! 5 \<noteq> []" "request_arg (argv ! 3) = Inr (Some sz)"
    and "RAM_BUF \<le> w_mem w" "2147483648 \<le> w_fmax w"
  shows "fst (write_to_ram_main time argv w) = wtr_end argv sz
    \<and> (wtr_end argv sz = Inr 0 \<longrightarrow>
        (\<exists>n. w_dir (snd (write_to_ram_main time argv w)) test1 = Some n
           \<and> w_ino (snd (write_to_ram_main time argv w)) n
             = ino_put empty_inode 0 (\<lambda>_. 97) (nat (arg_file_size argv div sz * sz))))"
  using write_to_ram_wp [OF assms, of time]
  by (cases "write_to_ram_main time argv w") (auto simp: wp_def split: sum.splits)

definition ram_argv :: "string list" where
  "ram_argv = [''test'', ''pmfs'', ''posix'', ''4K'', ''8K'', ''out'']"

lemma ram_sample:
  "args_parsed ram_argv" "ram_argv ! 5 \<noteq> []" "request_arg (ram_argv ! 3) = Inr (Some 4096)"
  "arg_file_size ram_argv = 8192" "wtr_end ram_argv 4096 = Inr 0" "RAM_BUF = 67108864"
proof -
  have sz: "size_arg ''8K'' = Inr (Some 8192)" "request_arg ''4K'' = Inr (Some 4096)" by code_simp+
  show "args_parsed ram_argv" "ram_argv ! 5 \<noteq> []" by (simp_all add: args_parsed_def ram_argv_def sz)
  show "request_arg (ram_argv ! 3) = Inr (Some 4096)" by (simp add: ram_argv_def sz)
  show b: "RAM_BUF = 67108864" by (simp add: RAM_BUF_def)
  show f: "arg_file_size ram_argv = 8192" by (simp add: arg_file_size_def ram_argv_def sz clamp_size_def)
  show "wtr_end ram_argv 4096 = Inr 0" by (simp add: wtr_end_def f b)
qed

theorem write_to_ram_result_witness:
  "fst (write_to_ram_main 9 ram_argv (sized_world 5)) = Inr 0
   \<and> (\<exists>n. w_dir (snd (write_to_ram_main 9 ram_argv (sized_world 5))) test1 = Some n
        \<and> i_size (w_ino (snd (write_to_ram_main 9 ram_argv (sized_world 5))) n) = 8192)"
  using write_to_ram_result [of ram_argv 4096 "sized_world 5" 9]
  by (auto simp: ram_sample ino_put_def empty_inode_def)

text \<open>
  \<open>read_from_ram\<close> never changes the file it reads, returns 0 for all arguments it accepts and
  prints one line per round; each of its three rounds also reports an error exactly if the file
  is shorter than its first read of 4096 bytes.
\<close>

theorem read_from_ram_result:
  assumes "args_parsed argv" "argv ! 5 \<noteq> []" "4 * 1024 * 4096 \<le> w_mem w"
    and "w_dir w test1 = Some n" "wf_world w"
  shows "\<exists>w'. read_from_ram_main time argv w = (Inr 0, w') \<and> w_dir w' test1 = Some n \<and> w_ino w' n = w_ino w n
    \<and> w_log w' = w_log w @ concat (replicate 3 (read_lines (i_size (w_ino w n)) time (arg_file_size argv)))"
  using wp_returns [OF read_from_ram_wp [OF assms, of time]] by auto

theorem read_from_ram_result_witness:
  "\<exists>w'. read_from_ram_main 8 ram_argv (sized_world 100) = (Inr 0, w')
     \<and> w_log w' = [Err_Plain, Report 4 0, Err_Plain, Report 4 0, Err_Plain, Report 4 0]"
  using read_from_ram_result [of ram_argv "sized_world 100" 0 8]
  by (auto simp: per_op_def u64_def s64_def ram_sample read_lines_def numeral_3_eq_3)

text \<open>
  Rewriting is idempotent.  With an offset of 0 or more, \<open>rewrite\<close> leaves what a single request
  would leave, however often it repeats it, and nothing outside of the range changes; a negative
  offset makes every \<open>lseek\<close> fail, and the requests go one behind the other from the start of the
  file.  No repetition at all divides by zero.
\<close>

theorem rewrite_result:
  assumes "4 \<le> length argv" and "END_SIZE \<le> w_mem w" and "0 < lat_size argv"
    and "(if atoi (argv ! 2) < 0 then nat (atoi (argv ! 3)) * lat_size argv
          else nat (atoi (argv ! 2)) + lat_size argv) \<le> w_fmax w"
  shows "if atoi (argv ! 3) = 0 then fst (rewrite_main time1 argv w) = Inl (Trap Div_By_Zero)
    else \<exists>w' n. rewrite_main time1 argv w = (Inr 0, w') \<and> w_dir w' test1 = Some n
      \<and> w_log w' = w_log w @ [Report (time1 sdiv atoi (argv ! 3)) 0]
      \<and> w_ino w' n = rewritten (test1_inode w) (atoi (argv ! 3)) (atoi (argv ! 2)) (lat_size argv)"
  using rewrite_wp [OF assms, of time1]
  by (cases "rewrite_main time1 argv w") (auto simp: wp_def split: sum.splits)

theorem rewrite_result_witness:
  "\<exists>w' n. rewrite_main 6 [''t'', ''100'', ''50'', ''3''] (sized_world 10) = (Inr 0, w') \<and> w_dir w' test1 = Some n
     \<and> i_size (w_ino w' n) = 150 \<and> i_data (w_ino w' n) 149 = 100"
proof -
  have "atoi ''3'' = 3" "atoi ''50'' = 50" "rewrite_letter 3 = 100" "req_arg END_SIZE ''100'' = 100" by code_simp+
  then show ?thesis
    using rewrite_result [of "[''t'', ''100'', ''50'', ''3'']" "sized_world 10" 6]
    by (auto simp: END_SIZE_value lat_size_def rewritten_def ino_put_def test1_inode_def)
qed

text \<open>
  C37: \<open>write_files\<close> cleans up.  With room for the files it returns 0 without an error line, and
  afterwards the directory is the old one without the names it used (files that had one of these
  names before are gone); with 0 files it divides by zero.
\<close>

theorem write_files_cleans_up:
  assumes "wf_args argv" and "END_SIZE \<le> w_mem w" and "wf_count argv < 2147483648"
    and "wf_count argv * wf_size argv \<le> w_fmax w"
  shows "if atoi (argv ! 1) = 0
    then \<exists>w'. write_files_main time1 time2 time3 argv w = (Inl (Trap Div_By_Zero), w') \<and> w_dir w' = w_dir w
    else \<exists>w'. write_files_main time1 time2 time3 argv w = (Inr 0, w')
      \<and> w_dir w' = (\<lambda>p. if \<exists>i < nat (atoi (argv ! 1)). p = file_name i then None else w_dir w p)
      \<and> w_log w' = w_log w @ [Report (time1 sdiv atoi (argv ! 1)) 0]
          @ (if wf_count argv = 0 then []
             else [Report (time2 sdiv atoi (argv ! 1)) (u64 time2 div u64 (atoi (argv ! 1) * int (wf_count argv)))])
          @ [Report (time3 sdiv atoi (argv ! 1)) 0]"
  using write_files_wp [OF assms, of time1 time2 time3]
  by (cases "write_files_main time1 time2 time3 argv w") (auto simp: wp_def fun_eq_iff split: sum.splits)

theorem write_files_cleans_up_witness:
  "\<exists>w'. write_files_main 4 8 6 [''t'', ''2'', ''8K'', ''4096''] (sized_world 0) = (Inr 0, w')
     \<and> w_dir w' test1 = Some 0 \<and> w_log w' = [Report 2 0, Report 4 2, Report 3 0]"
proof -
  let ?a = "[''t'', ''2'', ''8K'', ''4096'']"
  have "atoi ''2'' = 2" "size_arg ''8K'' = Inr (Some 8192)" "req_arg END_SIZE ''4096'' = 4096" by code_simp+
  then have a: "wf_args ?a" "wf_size ?a = 4096" "wf_count ?a = 2" "atoi (?a ! 1) = 2"
    by (simp_all add: wf_args_def wf_size_def wf_count_def clamp_size_def)
  have t: "test1 \<noteq> file_name i" for i by (simp add: test1_def file_name_def)
  show ?thesis
    using write_files_cleans_up [of ?a "sized_world 0" 4 8 6] t a
    by (auto simp: END_SIZE_value u64_def signed_divide_int_def)
qed

text \<open>
  \<open>nvp-test\<close> reads from an offset that was never set: the first pass overflows it if its
  value is in the last GB of the range of \<open>off_t\<close>; otherwise the program returns 0, and it
  changes no file.
\<close>

theorem nvp_test_result:
  assumes "RAM_BUF \<le> w_mem w" and "offset0 < 2 ^ 63"
  shows "fst (nvp_test_main offset0 time w) = (if 2 ^ 63 \<le> offset0 + 1073741824 then Inl (Trap Int_Overflow) else Inr 0)
    \<and> (offset0 + 1073741824 < 2 ^ 63 \<longrightarrow>
        (\<forall>n. n \<noteq> w_next w \<longrightarrow> w_ino (snd (nvp_test_main offset0 time w)) n = w_ino w n))"
  using nvp_test_wp [OF assms, of time]
  by (cases "nvp_test_main offset0 time w") (auto simp: wp_def split: sum.splits)

theorem nvp_test_result_witness:
  "fst (nvp_test_main 9223372036854771712 1 fresh_world) = Inl (Trap Int_Overflow)"
  using nvp_test_result [of fresh_world 9223372036854771712 1] by (simp add: RAM_BUF_def)

end
