(* ===== verification/Flush_Lines.thy ===== *)
theory Flush_Lines
  imports Prelude
begin

text \<open>
  The cache-flush routines of \<open>mmap_write.c\<close>: three loops that issue one instruction for every
  64-byte line from the line of \<open>addr\<close> to the end of the range, and \<open>flush_movnti\<close>, which
  rewrites the lines counted from \<open>buf\<close> itself.  A routine is modelled by the list of addresses
  its instructions are given, in order.  Addresses are 64-bit words, so the loop counter wraps
  around; a run that never ends has the value \<open>None\<close>.
\<close>

section \<open>The loops\<close>

datatype flush_op = Clflush | Clflushopt | Clwb

type_synonym addr = "64 word"

partial_function (option) flush_loop ::
  "flush_op \<Rightarrow> addr \<Rightarrow> addr \<Rightarrow> (flush_op \<times> addr) list \<Rightarrow> (flush_op \<times> addr) list option" where
  "flush_loop opc uptr limit done_ops =
     (if uptr < limit then flush_loop opc (uptr + 64) limit (done_ops @ [(opc, uptr)])
      else Some done_ops)"

definition flush_clflush :: "addr \<Rightarrow> addr \<Rightarrow> (flush_op \<times> addr) list option" where
  "flush_clflush addr len = flush_loop Clflush (addr AND NOT (64 - 1)) (addr + len) []"

definition flush_clflushopt :: "addr \<Rightarrow> addr \<Rightarrow> (flush_op \<times> addr) list option" where
  "flush_clflushopt addr len = flush_loop Clflushopt (addr AND NOT (64 - 1)) (addr + len) []"

definition flush_clwb :: "addr \<Rightarrow> addr \<Rightarrow> (flush_op \<times> addr) list option" where
  "flush_clwb addr len = flush_loop Clwb (addr AND NOT (64 - 1)) (addr + len) []"

text \<open>
  \<open>for (i = 0; i < len; i += CACHELINE_SIZE)\<close> with an \<open>int i\<close> that is compared with a \<open>size_t\<close>.
\<close>

function movnti_loop :: "addr \<Rightarrow> int \<Rightarrow> int \<Rightarrow> addr list \<Rightarrow> trap + addr list" where
  "movnti_loop buf len i done_ops =
     (if 0 \<le> i \<and> i < len
      then if 2147483647 < i + 64 then Inl Int_Overflow
           else movnti_loop buf len (i + 64) (done_ops @ [buf + word_of_int i])
      else Inr done_ops)"
  by pat_completeness auto
termination
  by (relation "measure (\<lambda>(buf, len, i, done_ops). nat (len - i))") auto

declare movnti_loop.simps [simp del]

definition flush_movnti :: "addr \<Rightarrow> int \<Rightarrow> trap + addr list" where
  "flush_movnti buf len = movnti_loop buf len 0 []"

section \<open>Lines\<close>

definition line_of :: "nat \<Rightarrow> nat" where
  "line_of a = a div 64 * 64"

lemma unat_align: "unat ((a :: addr) AND NOT (64 - 1)) = line_of (unat a)"
proof -
  have m: "(63 :: addr) = mask 6" by (simp add: mask_eq_exp_minus_1)
  have "a AND NOT (64 - 1) = push_bit 6 (drop_bit 6 a)"
    by (rule bit_eqI) (auto simp: m bit_simps)
  moreover have "unat (push_bit 6 (drop_bit 6 a)) = unat a div 64 * 64"
  proof -
    have "unat a < 2 ^ 64" using unsigned_less [of a] by simp
    then have "unat a div 64 * 64 < 2 ^ 64" using div_times_less_eq_dividend [of "unat a" 64] by linarith
    then show ?thesis
      by (simp add: push_bit_eq_mult unat_word_ariths drop_bit_eq_div unat_div unat_drop_bit_eq
          del: push_bit_numeral_minus_1)
  qed
  ultimately show ?thesis by (simp add: line_of_def)
qed

definition lines_between :: "nat \<Rightarrow> nat \<Rightarrow> nat list" where
  "lines_between u e = map (\<lambda>k. u + 64 * k) [0..<(e - u + 63) div 64]"

lemma lines_between_Nil: "e \<le> u \<Longrightarrow> lines_between u e = []"
  by (simp add: lines_between_def)

lemma lines_between_Cons: "u < e \<Longrightarrow> lines_between u e = u # lines_between (u + 64) e"
proof -
  assume "u < e"
  then have "(e - u + 63) div 64 = Suc ((e - (u + 64) + 63) div 64)"
    by (cases "u + 64 \<le> e") (auto simp: div_eq_0_iff Suc_div_le_mono intro!: div_nat_eqI)
  moreover have "[0..<Suc m] = 0 # map Suc [0..<m]" for m
    by (simp add: map_Suc_upt upt_conv_Cons del: upt_Suc)
  ultimately show ?thesis unfolding lines_between_def by (simp only: list.map map_map) simp
qed

text \<open>The addresses as words, and the run of the loop on a range that leaves the last line free.\<close>

definition word_lines :: "addr \<Rightarrow> addr \<Rightarrow> addr list" where
  "word_lines u e = map of_nat (lines_between (unat u) (unat e))"

lemma unat_step:
  assumes "64 dvd unat (u :: addr)" "unat u < unat e" "unat e \<le> 2 ^ 64 - 64"
  shows "unat (u + 64) = unat u + 64" "64 dvd unat (u + 64)"
proof -
  have "unat u + 64 < 2 ^ 64"
  proof -
    have "unat u < 2 ^ 64 - 64" using assms(2,3) by linarith
    then show ?thesis by simp
  qed
  then show "unat (u + 64) = unat u + 64" by (simp add: unat_word_ariths)
  with assms(1) show "64 dvd unat (u + 64)" by simp
qed

lemma flush_loop_run:
  assumes "unat e \<le> 2 ^ 64 - 64"
  shows "64 dvd unat u \<Longrightarrow> flush_loop opc u e acc = Some (acc @ map (Pair opc) (word_lines u e))"
proof (induction "unat e - unat u" arbitrary: u acc rule: less_induct)
  case less
  show ?case
  proof (cases "u < e")
    case True
    then have ue: "unat u < unat e" by (simp add: word_less_nat_alt)
    note st = unat_step [OF less.prems ue assms]
    have "flush_loop opc (u + 64) e (acc @ [(opc, u)])
        = Some ((acc @ [(opc, u)]) @ map (Pair opc) (word_lines (u + 64) e))"
      using ue st by (intro less.hyps) linarith+
    moreover have "word_lines u e = u # word_lines (u + 64) e"
      using ue st(1) by (simp add: word_lines_def lines_between_Cons)
    ultimately show ?thesis using True by (subst flush_loop.simps) simp
  next
    case False
    then show ?thesis
      by (subst flush_loop.simps) (simp add: word_lines_def lines_between_Nil word_less_nat_alt)
  qed
qed

text \<open>A limit in the last line of the address space: the counter wraps around to 0.\<close>

lemma flush_loop_diverges:
  assumes "flush_loop opc u e acc = Some r"
  shows "\<not> (64 dvd unat u \<and> unat u < unat e \<and> 2 ^ 64 - 64 < unat e)"
proof (rule flush_loop.raw_induct [OF _ assms])
  fix f opc and u e :: addr and acc r
  assume IH: "\<And>opc (u :: addr) e acc r. f opc u e acc = Some r \<Longrightarrow>
      \<not> (64 dvd unat u \<and> unat u < unat e \<and> 2 ^ 64 - 64 < unat e)"
    and eq: "(if u < e then f opc (u + 64) e (acc @ [(opc, u)]) else Some acc) = Some r"
  show "\<not> (64 dvd unat u \<and> unat u < unat e \<and> 2 ^ 64 - 64 < unat e)"
  proof
    assume A: "64 dvd unat u \<and> unat u < unat e \<and> 2 ^ 64 - 64 < unat e"
    then have "u < e" by (simp add: word_less_nat_alt)
    with eq have "f opc (u + 64) e (acc @ [(opc, u)]) = Some r" by simp
    then have step: "\<not> (64 dvd unat (u + 64) \<and> unat (u + 64) < unat e \<and> 2 ^ 64 - 64 < unat e)"
      by (rule IH)
    have sum: "unat (u + 64) = (unat u + 64) mod 2 ^ 64" by (simp add: unat_word_ariths)
    show False
    proof (cases "unat u + 64 < 2 ^ 64")
      case True
      then have "unat (u + 64) = unat u + 64" using sum by simp
      moreover have "unat u + 64 \<le> 2 ^ 64 - 64"
      proof -
        obtain q where q: "unat u = 64 * q" using A by (auto elim: dvdE)
        with True have "q + 1 < 2 ^ 58" by simp
        then show ?thesis by (simp add: q)
      qed
      ultimately show False using step A by simp
    next
      case False
      have "unat u < 2 ^ 64" using unsigned_less [of u] by simp
      moreover obtain q where q: "unat u = 64 * q" using A by (auto elim: dvdE)
      ultimately have "unat u + 64 = 2 ^ 64" using False by simp
      then have "unat (u + 64) = 0" using sum by simp
      then show False using step A by simp
    qed
  qed
qed

section \<open>What the routines flush\<close>

lemma line_of_dvd: "64 dvd line_of a"
  by (simp add: line_of_def)

lemma line_of_le: "line_of a \<le> a"
  by (simp add: line_of_def)

lemma lines_between_set:
  "64 dvd u \<Longrightarrow> set (lines_between u e) = {l. 64 dvd l \<and> u \<le> l \<and> l < e}"
proof (intro set_eqI iffI)
  fix l assume "l \<in> set (lines_between u e)" and u: "64 dvd u"
  then obtain k where k: "l = u + 64 * k" "k < (e - u + 63) div 64"
    by (auto simp: lines_between_def)
  from k(2) have "Suc k * 64 \<le> e - u + 63" by (simp add: Suc_le_eq [symmetric] less_eq_div_iff_mult_less_eq)
  with k(1) u show "l \<in> {l. 64 dvd l \<and> u \<le> l \<and> l < e}" by auto
next
  fix l assume "l \<in> {l. 64 dvd l \<and> u \<le> l \<and> l < e}" and u: "64 dvd u"
  then have l: "64 dvd l" "u \<le> l" "l < e" by simp_all
  then have "64 dvd l - u" using u by (simp add: dvd_diff_nat)
  then obtain k where k: "l - u = 64 * k" by (auto elim: dvdE)
  with l(2,3) have "k < (e - u + 63) div 64"
    by (simp add: Suc_le_eq [symmetric] less_eq_div_iff_mult_less_eq)
  with k l(2) show "l \<in> set (lines_between u e)"
    by (auto simp: lines_between_def intro!: image_eqI [of _ _ k])
qed

lemma lines_between_ascending: "sorted_wrt (<) (lines_between u e)"
  by (simp add: lines_between_def sorted_wrt_map)

lemma flush_range:
  assumes "unat a + unat n \<le> 2 ^ 64 - 64"
  shows "flush_loop opc (a AND NOT (64 - 1)) (a + n) [] =
    Some (map (Pair opc) (map of_nat (lines_between (line_of (unat a)) (unat a + unat n))))"
proof -
  have "unat a + unat n < 2 ^ 64" using assms by simp
  then have s: "unat (a + n) = unat a + unat n" by (simp add: unat_word_ariths)
  have al: "64 dvd unat (a AND NOT (64 - 1))" unfolding unat_align by (rule line_of_dvd)
  have "unat (a + n) \<le> 2 ^ 64 - 64" unfolding s by (rule assms)
  from flush_loop_run [OF this al, of opc "[]"] show ?thesis
    unfolding word_lines_def unat_align s append_Nil .
qed

lemma line_of_meets: "64 dvd l \<Longrightarrow> line_of a \<le> l \<longleftrightarrow> a < l + 64"
proof -
  assume "64 dvd l"
  then obtain q where q: "l = q * 64" by (auto elim: dvdE simp: mult.commute)
  have "line_of a \<le> l \<longleftrightarrow> a div 64 < Suc q" by (simp add: q line_of_def less_Suc_eq_le)
  also have "\<dots> \<longleftrightarrow> a < Suc q * 64" by (rule div_less_iff_less_mult) simp
  finally show ?thesis by (simp add: q add.commute)
qed

lemma unat_lines:
  assumes "e < 2 ^ 64"
  shows "map unat (map of_nat (lines_between u e) :: addr list) = lines_between u e"
proof -
  have "unat (of_nat l :: addr) = l" if "l \<in> set (lines_between u e)" for l
  proof -
    from that obtain k where k: "l = u + 64 * k" "k < (e - u + 63) div 64"
      by (auto simp: lines_between_def)
    from k(2) have "Suc k * 64 \<le> e - u + 63" by (simp add: Suc_le_eq [symmetric] less_eq_div_iff_mult_less_eq)
    with k(1) have "l < e" by auto
    with assms show ?thesis by (simp add: unat_of_nat)
  qed
  then show ?thesis by (simp add: map_idI)
qed

text \<open>The three ways the loop can go from the first line of a range.\<close>

lemma flush_loop_outcome:
  "if unat e \<le> line_of (unat a) then flush_loop opc (a AND NOT (64 - 1)) e [] = Some []
   else if 2 ^ 64 - 64 < unat e then flush_loop opc (a AND NOT (64 - 1)) e [] = None
   else \<exists>r. flush_loop opc (a AND NOT (64 - 1)) e [] = Some r \<and> r \<noteq> []"
proof -
  let ?u = "a AND NOT (64 - 1)"
  have u: "unat ?u = line_of (unat a)" by (rule unat_align)
  have al: "64 dvd unat ?u" unfolding u by (rule line_of_dvd)
  show ?thesis
  proof (cases "unat e \<le> line_of (unat a)")
    case True
    then have "\<not> ?u < e" unfolding word_less_nat_alt u by simp
    then have "flush_loop opc ?u e [] = Some []" by (subst flush_loop.simps) simp
    then show ?thesis by (simp only: True if_True)
  next
    case False
    then have lt: "line_of (unat a) < unat e" by simp
    show ?thesis
    proof (cases "2 ^ 64 - 64 < unat e")
      case True
      have "flush_loop opc ?u e [] = None"
      proof (cases "flush_loop opc ?u e []")
        case (Some r)
        from flush_loop_diverges [OF Some] True lt al show ?thesis unfolding u by blast
      qed
      then show ?thesis by (simp only: True False if_True if_False)
    next
      case le: False
      have "word_lines ?u e \<noteq> []" unfolding word_lines_def u using lt by (simp add: lines_between_Cons)
      with flush_loop_run [OF _ al, of e opc "[]"] le
      have "\<exists>r. flush_loop opc ?u e [] = Some r \<and> r \<noteq> []" by simp
      then show ?thesis by (simp only: le False if_False)
    qed
  qed
qed

text \<open>The loop of \<open>flush_movnti\<close> from a multiple of 64 on.\<close>

lemma movnti_loop_run:
  "0 \<le> len \<Longrightarrow> movnti_loop buf len (64 * int j) acc =
     (if len \<le> 2147483584 \<or> len \<le> 64 * int j
      then Inr (acc @ map (\<lambda>k. buf + 64 * of_nat k) [j..<nat ((len + 63) div 64)])
      else Inl Int_Overflow)"
proof (induction "nat (len - 64 * int j)" arbitrary: j acc rule: less_induct)
  case less
  show ?case
  proof (cases "64 * int j < len")
    case True
    let ?N = "nat ((len + 63) div 64)"
    have "int j + 1 \<le> (len + 63) div 64" using True by linarith
    then have j: "j < ?N" by linarith
    have IH: "movnti_loop buf len (64 * int (Suc j)) acc' =
        (if len \<le> 2147483584 \<or> len \<le> 64 * int (Suc j)
         then Inr (acc' @ map (\<lambda>k. buf + 64 * of_nat k) [Suc j..<?N]) else Inl Int_Overflow)" for acc'
      using True less.prems by (intro less.hyps) auto
    show ?thesis
    proof (cases "2147483647 < 64 * int j + 64")
      case True
      then have "\<not> len \<le> 2147483584" using \<open>64 * int j < len\<close> by linarith
      with True \<open>64 * int j < len\<close> show ?thesis by (subst movnti_loop.simps) simp
    next
      case False
      then have "64 * int j \<le> 2147483520" by presburger
      then have c: "len \<le> 64 * int (Suc j) \<Longrightarrow> len \<le> 2147483584" by simp
      have w: "word_of_int (64 * int j) = (64 * of_nat j :: addr)" by simp
      have "movnti_loop buf len (64 * int j) acc
          = movnti_loop buf len (64 * int (Suc j)) (acc @ [buf + 64 * of_nat j])"
        using True False by (subst movnti_loop.simps) (simp add: w algebra_simps)
      also have "\<dots> = (if len \<le> 2147483584 then Inr (acc @ map (\<lambda>k. buf + 64 * of_nat k) [j..<?N])
          else Inl Int_Overflow)"
        unfolding IH using c j by (auto simp: upt_conv_Cons)
      finally show ?thesis using True by simp
    qed
  next
    case False
    then have "(len + 63) div 64 \<le> int j" by linarith
    with False less.prems show ?thesis by (subst movnti_loop.simps) simp
  qed
qed

section \<open>Properties\<close>

text \<open>
  C33: the three flush routines issue their instruction once for every 64-byte line that meets the
  range \<open>[addr, addr + len)\<close>, in ascending order of the addresses, for no other address, and
  return (also for an empty range that starts inside a line: that line is flushed).  The range
  must not reach the last line of the address space.
\<close>

theorem flush_covers_range:
  assumes "unat addr + unat len \<le> 2 ^ 64 - 64"
  shows "\<exists>ls. flush_clflush addr len = Some (map (Pair Clflush) ls)
    \<and> flush_clflushopt addr len = Some (map (Pair Clflushopt) ls)
    \<and> flush_clwb addr len = Some (map (Pair Clwb) ls) \<and> sorted_wrt (<) (map unat ls)
    \<and> unat ` set ls = {l. 64 dvd l \<and> l < unat addr + unat len \<and> unat addr < l + 64}"
proof -
  let ?l = "lines_between (line_of (unat addr)) (unat addr + unat len)"
  let ?ls = "map of_nat ?l :: addr list"
  have lt: "unat addr + unat len < 2 ^ 64" using assms by simp
  have d: "sorted_wrt (<) (map unat ?ls)" unfolding unat_lines [OF lt] by (rule lines_between_ascending)
  have "unat ` set ?ls = set (map unat ?ls)" by (rule set_map [symmetric])
  also have "\<dots> = {l. 64 dvd l \<and> line_of (unat addr) \<le> l \<and> l < unat addr + unat len}"
    unfolding unat_lines [OF lt] by (rule lines_between_set) (rule line_of_dvd)
  also have "\<dots> = {l. 64 dvd l \<and> l < unat addr + unat len \<and> unat addr < l + 64}"
    using line_of_meets by auto
  finally show ?thesis
    using d flush_range [OF assms] unfolding flush_clflush_def flush_clflushopt_def flush_clwb_def by blast
qed

theorem flush_covers_range_witness:
  "\<exists>ls. flush_clwb 100 200 = Some (map (Pair Clwb) ls) \<and> sorted_wrt (<) (map unat ls)
     \<and> unat ` set ls = {l. 64 dvd l \<and> l < 300 \<and> 100 < l + 64}"
  using flush_covers_range [of 100 200] by auto

text \<open>
  C34: when the three flush routines return.  Let \<open>e\<close> be the end of the range, \<open>addr + len\<close>
  computed with wrap-around.  If \<open>e\<close> is not behind the start of the first line (a range that
  wraps around, or an empty one that starts at a line), the routine returns at once and flushes
  nothing; if \<open>e\<close> is behind it and in the last line of the address space, the counter wraps
  around to 0 and the loop runs for ever; in all other cases the routine returns after flushing
  at least one line.
\<close>

theorem flush_returns_iff:
  "flush \<in> {flush_clflush, flush_clflushopt, flush_clwb} \<Longrightarrow>
     (if unat (addr + len) \<le> line_of (unat addr) then flush addr len = Some []
      else if 2 ^ 64 - 64 < unat (addr + len) then flush addr len = None
      else \<exists>r. flush addr len = Some r \<and> r \<noteq> [])"
  using flush_loop_outcome [where a = addr and e = "addr + len"]
  unfolding flush_clflush_def [abs_def] flush_clflushopt_def [abs_def] flush_clwb_def [abs_def] by auto

theorem flush_returns_iff_witness:
  "flush_clflush 100 (- 60) = Some [] \<and> flush_clflushopt 100 (- 110) = None
   \<and> (\<exists>r. flush_clwb 100 0 = Some r \<and> r \<noteq> [])"
  using flush_returns_iff [of flush_clflush 100 "- 60"] flush_returns_iff [of flush_clflushopt 100 "- 110"]
    flush_returns_iff [of flush_clwb 100 0]
  by (simp add: line_of_def)

text \<open>
  \<open>flush_movnti\<close> rewrites the blocks of 64 bytes counted from \<open>buf\<close>, without aligning it, so
  that the last one may reach up to 63 bytes past the range; above 2147483584 bytes its
  counter, an \<open>int\<close>, overflows.
\<close>

theorem flush_movnti_blocks:
  assumes "0 \<le> len"
  shows "flush_movnti buf len =
    (if len \<le> 2147483584 then Inr (map (\<lambda>k. buf + 64 * of_nat k) [0..<nat ((len + 63) div 64)])
     else Inl Int_Overflow)"
  using movnti_loop_run [OF assms, of buf 0 "[]"] assms by (auto simp: flush_movnti_def)

theorem flush_movnti_blocks_witness:
  "flush_movnti 1000 100 = Inr [1000, 1064]"
  using flush_movnti_blocks [of 100 1000] by (simp add: upt_rec)

end
