(* ===== verification/Fast_Rand.thy ===== *)
theory Fast_Rand
  imports Prelude
begin

text \<open>
  The random generators of \<open>Util/FastRand.hpp\<close>: the macro \<open>RAND_LFSR_DECL\<close> at its four
  widths, linear feedback shift registers whose state is the seed.  The value of \<open>rand ()\<close>,
  which the code uses for a seed of 0 only, is an argument.  A generator is linear on words over
  the field of two elements, so a power of it is a polynomial in it; squaring polynomials gives
  the period of all four, up to \<open>2 ^ 64 - 1\<close>.
\<close>

unbundle bit_operations_syntax

section \<open>The generators\<close>

definition TAP :: "nat \<Rightarrow> 64 word" where
  "TAP a = (if a = 0 then 0 else push_bit (a - 1) 1)"

definition RAND_LFSR :: "nat \<Rightarrow> nat \<Rightarrow> nat \<Rightarrow> nat \<Rightarrow> int \<Rightarrow> 'a::len word \<Rightarrow> 'a word" where
  "RAND_LFSR t1 t2 t3 t4 r seed0 =
     (let seed = (if seed0 = 0 then word_of_int r else seed0);
          mask_of_taps = ucast (TAP t1 OR TAP t2 OR TAP t3 OR TAP t4)
      in drop_bit 1 seed XOR (- (seed AND 1) AND mask_of_taps))"

definition RandLFSR64 :: "int \<Rightarrow> 64 word \<Rightarrow> 64 word" where
  "RandLFSR64 = RAND_LFSR 64 63 61 60"

definition RandLFSR32 :: "int \<Rightarrow> 32 word \<Rightarrow> 32 word" where
  "RandLFSR32 = RAND_LFSR 32 30 26 25"

definition RandLFSR16 :: "int \<Rightarrow> 16 word \<Rightarrow> 16 word" where
  "RandLFSR16 = RAND_LFSR 16 14 13 11"

definition RandLFSR8 :: "int \<Rightarrow> 8 word \<Rightarrow> 8 word" where
  "RandLFSR8 = RAND_LFSR 8 6 5 4"

definition RandLFSR :: "int \<Rightarrow> 64 word \<Rightarrow> 64 word" where
  "RandLFSR = RandLFSR64"

section \<open>Polynomials in a shift register\<close>

definition shift_step :: "'a::len word \<Rightarrow> 'a word \<Rightarrow> 'a word" where
  "shift_step m s = drop_bit 1 s XOR (if bit s 0 then m else 0)"

lemma RAND_LFSR_step:
  assumes "s \<noteq> 0"
  shows "RAND_LFSR t1 t2 t3 t4 r s = shift_step (ucast (TAP t1 OR TAP t2 OR TAP t3 OR TAP t4)) s"
proof -
  have "s AND 1 = (if bit s 0 then 1 else 0)"
    by (rule bit_eqI) (auto simp: bit_simps bit_1_iff intro!: gr0I)
  then show ?thesis using assms by (simp add: RAND_LFSR_def shift_step_def Let_def)
qed

lemma shift_step_0 [simp]: "shift_step m 0 = 0"
  by (simp add: shift_step_def)

lemma funpow_zero: "(shift_step m ^^ n) 0 = 0"
  by (induction n) simp_all

lemma shift_step_xor: "shift_step m (s XOR t) = shift_step m s XOR shift_step m t"
  by (rule bit_eqI) (auto simp: shift_step_def bit_simps)

definition top_bit :: "'a::len word" where
  "top_bit = push_bit (LENGTH('a) - 1) 1"

lemma bit_top_bit: "bit (top_bit :: 'a::len word) i \<longleftrightarrow> i = LENGTH('a) - 1"
  by (auto simp: top_bit_def bit_simps)

text \<open>\<open>ev m cs t\<close> is the exclusive or of the states \<open>i\<close> steps after \<open>t\<close>, for the \<open>i\<close> in \<open>cs\<close>.\<close>

fun ev :: "'a::len word \<Rightarrow> bool list \<Rightarrow> 'a word \<Rightarrow> 'a word" where
  "ev m [] t = 0"
| "ev m (c # cs) t = (if c then t else 0) XOR shift_step m (ev m cs t)"

lemma ev_0 [simp]: "ev m cs 0 = 0"
  by (induction cs) auto

lemma xor_interchange: "(a XOR b) XOR (c XOR d) = (a XOR c) XOR (b XOR d)" for a :: "'a::len word"
  by (rule bit_eqI) (auto simp: bit_simps)

lemma ev_xor: "ev m cs (s XOR t) = ev m cs s XOR ev m cs t"
proof (induction cs)
  case (Cons c cs)
  have "(if c then s XOR t else 0) = (if c then s else 0) XOR (if c then t else 0)" by simp
  then show ?case using Cons by (simp only: ev.simps shift_step_xor xor_interchange)
qed simp

lemma ev_step: "ev m cs (shift_step m t) = shift_step m (ev m cs t)"
  by (induction cs) (simp_all add: shift_step_xor)

lemma ev_ev: "ev m cs (ev m ds t) = ev m ds (ev m cs t)"
  by (induction ds) (simp_all add: ev_xor ev_step)

lemma ev_funpow: "ev m cs ((shift_step m ^^ n) t) = (shift_step m ^^ n) (ev m cs t)"
  by (induction n) (simp_all add: ev_step)

lemma step_inj:
  assumes m: "bit m (LENGTH('a) - 1)"
  shows "inj (shift_step (m :: 'a::len word))"
proof (rule injI)
  fix s t :: "'a word"
  assume eq: "shift_step m s = shift_step m t"
  have "shift_step m (s XOR t) = 0" using eq by (simp add: shift_step_xor)
  moreover have "u = 0" if z: "shift_step m u = 0" for u :: "'a word"
  proof -
    have "\<not> bit (shift_step m u) (LENGTH('a) - 1)" using z by simp
    then have even: "\<not> bit u 0" using m
      by (auto simp: shift_step_def bit_simps dest: bit_imp_le_length split: if_splits)
    then have shifted: "drop_bit 1 u = 0" using z by (simp add: shift_step_def)
    have "\<not> bit u i" for i
    proof (cases i)
      case (Suc j)
      have "\<not> bit (drop_bit 1 u) j" using shifted by simp
      then show ?thesis by (simp add: bit_simps Suc)
    qed (use even in simp)
    then show ?thesis by (simp add: bit_eq_iff)
  qed
  ultimately have "s XOR t = 0" by blast
  then show "s = t" by (metis xor.assoc xor.left_neutral xor.right_neutral xor_self_eq)
qed

section \<open>Powers of a generator\<close>

fun xor_list :: "bool list \<Rightarrow> bool list \<Rightarrow> bool list" where
  "xor_list [] ds = ds"
| "xor_list (c # cs) [] = c # cs"
| "xor_list (c # cs) (d # ds) = (c \<noteq> d) # xor_list cs ds"

fun mul_list :: "bool list \<Rightarrow> bool list \<Rightarrow> bool list" where
  "mul_list [] ds = []"
| "mul_list (c # cs) ds = (if c then xor_list ds (False # mul_list cs ds) else False # mul_list cs ds)"

fun spread :: "bool list \<Rightarrow> bool list" where
  "spread [] = []"
| "spread (c # cs) = c # False # spread cs"

definition fold_back :: "nat \<Rightarrow> bool list \<Rightarrow> bool list \<Rightarrow> bool list" where
  "fold_back n taps cs = xor_list (take n cs) (mul_list taps (drop n cs))"

function power_list :: "nat \<Rightarrow> bool list \<Rightarrow> nat \<Rightarrow> bool list" where
  "power_list n taps e =
     (if e = 0 then [True]
      else let sq = spread (power_list n taps (e div 2))
           in fold_back n taps (fold_back n taps (if odd e then False # sq else sq)))"
  by pat_completeness auto
termination by (relation "measure (\<lambda>(n, taps, e). e)") auto

declare power_list.simps [simp del]

lemma power_list_eval:
  "power_list n taps 0 = [True]"
  "power_list n taps (Suc 0) = fold_back n taps (fold_back n taps [False, True, False])"
  "power_list n taps (numeral num.One) = fold_back n taps (fold_back n taps [False, True, False])"
  "power_list n taps (numeral (num.Bit0 k)) =
     fold_back n taps (fold_back n taps (spread (power_list n taps (numeral k))))"
  "power_list n taps (numeral (num.Bit1 k)) =
     fold_back n taps (fold_back n taps (False # spread (power_list n taps (numeral k))))"
  by (simp_all add: power_list.simps [of n taps 0] power_list.simps [of n taps "Suc 0"]
      power_list.simps [of n taps "numeral num.One"] power_list.simps [of n taps "numeral (num.Bit0 k)"]
      power_list.simps [of n taps "numeral (num.Bit1 k)"] Let_def)

lemma ev_xor_list: "ev m (xor_list cs ds) t = ev m cs t XOR ev m ds t"
proof (induction cs ds rule: xor_list.induct)
  case (3 c cs d ds)
  have "(if c \<noteq> d then t else 0) = (if c then t else 0) XOR (if d then t else 0)" by simp
  then show ?case using 3 by (simp only: xor_list.simps ev.simps shift_step_xor xor_interchange)
qed simp_all

lemma ev_mul_list: "ev m (mul_list cs ds) t = ev m cs (ev m ds t)"
  by (induction cs) (simp_all add: ev_xor_list)

lemma ev_spread: "ev m (spread cs) t = ev m cs (ev m cs t)"
proof (induction cs)
  case (Cons c cs)
  show ?case
  proof (cases c)
    case True
    let ?u = "ev m cs t"
    have "ev m (c # cs) (ev m (c # cs) t)
        = (t XOR shift_step m ?u) XOR shift_step m (ev m cs (t XOR shift_step m ?u))"
      using True by simp
    also have "\<dots> = (t XOR shift_step m ?u) XOR (shift_step m ?u XOR shift_step m (shift_step m (ev m cs ?u)))"
      by (simp add: ev_xor ev_step shift_step_xor)
    also have "\<dots> = t XOR shift_step m (shift_step m (ev m cs ?u))"
      by (rule bit_eqI) (auto simp: bit_simps)
    finally show ?thesis using True Cons by simp
  qed (simp add: Cons ev_step)
qed simp

lemma ev_append: "ev m (cs @ ds) t = ev m cs t XOR (shift_step m ^^ length cs) (ev m ds t)"
  by (induction cs) (simp_all add: shift_step_xor xor.assoc)

text \<open>Shifting the top bit down: the powers of the generator on one state give all states.\<close>

lemma ev_bits:
  assumes "length cs \<le> LENGTH('a)" "i < LENGTH('a)"
  shows "bit (ev (m :: 'a::len word) cs top_bit) i
    \<longleftrightarrow> LENGTH('a) - 1 - i < length cs \<and> cs ! (LENGTH('a) - 1 - i)"
  using assms
proof (induction cs arbitrary: i)
  case (Cons c cs)
  have "\<not> bit (ev m cs top_bit) 0" using Cons.IH [of 0] Cons.prems(1) by auto
  then have step: "shift_step m (ev m cs top_bit) = drop_bit 1 (ev m cs top_bit)"
    by (simp add: shift_step_def)
  show ?case
  proof (cases "i = LENGTH('a) - 1")
    case True
    then have "\<not> bit (drop_bit 1 (ev m cs top_bit)) i"
      using Cons.prems by (auto simp: bit_simps dest: bit_imp_le_length)
    then show ?thesis using True step by (auto simp: bit_simps bit_top_bit)
  next
    case False
    then have i: "Suc i < LENGTH('a)" using Cons.prems by simp
    have "bit (ev m (c # cs) top_bit) i \<longleftrightarrow> bit (ev m cs top_bit) (Suc i)"
      using step False by (auto simp: bit_simps bit_top_bit split: if_splits)
    also have "\<dots> \<longleftrightarrow> LENGTH('a) - 1 - Suc i < length cs \<and> cs ! (LENGTH('a) - 1 - Suc i)"
      using Cons.IH [of "Suc i"] Cons.prems i by simp
    moreover have "LENGTH('a) - 1 - i = Suc (LENGTH('a) - 1 - Suc i)" using i by simp
    ultimately show ?thesis by simp
  qed
qed simp

lemma ev_all:
  assumes "\<And>i. i + k < LENGTH('a) \<Longrightarrow> \<not> bit (u :: 'a::len word) i" "k \<le> LENGTH('a)"
  shows "\<exists>cs. length cs = k \<and> u = ev m cs top_bit"
  using assms
proof (induction k arbitrary: u)
  case 0
  then have "u = 0" by (auto simp: bit_eq_iff)
  then show ?case by simp
next
  case (Suc k)
  let ?c = "bit u (LENGTH('a) - 1)"
  let ?r = "u XOR (if ?c then top_bit else 0)"
  have r_top: "\<not> bit ?r (LENGTH('a) - 1)" by (auto simp: bit_simps bit_top_bit)
  define v where "v = push_bit 1 ?r"
  have v: "bit v i \<longleftrightarrow> 0 < i \<and> i < LENGTH('a) \<and> bit ?r (i - 1)" for i
    unfolding v_def bit_push_bit_iff by (auto simp del: push_bit_of_1 dest: bit_imp_le_length)
  have "\<not> bit v i" if "i + k < LENGTH('a)" for i
    using Suc.prems(1) [of "i - 1"] Suc.prems(2) that by (auto simp: v bit_simps bit_top_bit)
  then obtain cs where cs: "length cs = k" "v = ev m cs top_bit" using Suc.IH [of v] Suc.prems by auto
  have "bit (drop_bit 1 v) i \<longleftrightarrow> bit ?r i" for i
  proof (cases "Suc i < LENGTH('a)")
    case False
    then have "\<not> bit ?r i"
      using r_top by (cases "i = LENGTH('a) - 1") (auto dest: bit_imp_le_length)
    then show ?thesis using False by (simp only: bit_drop_bit_eq v comp_def) simp
  qed (simp only: bit_drop_bit_eq v comp_def, simp)
  then have "drop_bit 1 v = ?r" by (simp add: bit_eq_iff)
  then have "shift_step m v = ?r" by (simp add: shift_step_def v)
  moreover have "u = (if ?c then top_bit else 0) XOR ?r" by (rule bit_eqI) (auto simp: bit_simps)
  ultimately have "u = ev m (?c # cs) top_bit" using cs(2) by simp
  then show ?case using cs(1) by (metis length_Cons)
qed

section \<open>The order of an element\<close>

definition irreducible :: "nat \<Rightarrow> bool" where
  "irreducible q \<longleftrightarrow> 1 < q \<and> (\<forall>k. k dvd q \<longrightarrow> k = 1 \<or> k = q)"

text \<open>Trial division by the numbers \<open>k\<close>, \<open>k + 2\<close>, \<open>k + 6\<close>, \<open>k + 8\<close> and so on.\<close>

fun no_divisor :: "nat \<Rightarrow> nat \<Rightarrow> nat \<Rightarrow> bool" where
  "no_divisor q k 0 = True"
| "no_divisor q k (Suc n) = (if q mod k = 0 \<or> q mod (k + 2) = 0 then False else no_divisor q (k + 6) n)"

lemma no_divisor_numeral:
  "no_divisor q k (numeral n) =
    (if q mod k = 0 \<or> q mod (k + 2) = 0 then False else no_divisor q (k + 6) (pred_numeral n))"
  by (simp add: numeral_eq_Suc)

lemma no_divisorD:
  assumes "no_divisor q k n" "k mod 6 = 5" "k \<le> j" "j < k + 6 * n" "j mod 6 = 1 \<or> j mod 6 = 5"
  shows "\<not> j dvd q"
  using assms
proof (induction n arbitrary: k)
  case (Suc n)
  show ?case
  proof (cases "k + 6 \<le> j")
    case True
    then show ?thesis using Suc.IH [of "k + 6"] Suc.prems by (simp split: if_splits)
  next
    case False
    then obtain d where d: "j = k + d" "d < 6" using Suc.prems(3) by (metis add_less_cancel_left le_Suc_ex not_le)
    have "j mod 6 = (5 + d) mod 6" using d(1) Suc.prems(2) by (metis mod_add_left_eq)
    moreover have "d \<in> {0, 1, 2, 3, 4, 5}" using d(2) by auto
    ultimately have "j = k \<or> j = k + 2" using d(1) Suc.prems(5) by auto
    then show ?thesis using Suc.prems(1) by (auto simp: dvd_eq_mod_eq_0 split: if_splits)
  qed
qed simp

lemma no_small_divisor:
  assumes "no_divisor q 5 n" "odd q" "\<not> 3 dvd q" "j dvd q" "j < 5 + 6 * n"
  shows "j \<le> 1"
proof (rule ccontr)
  assume j: "\<not> j \<le> 1"
  have "\<not> 2 dvd j" "\<not> 3 dvd j" using assms dvd_trans by blast+
  then have "j mod 6 = 1 \<or> j mod 6 = 5" by presburger
  moreover from this j have "5 \<le> j" by presburger
  ultimately show False using no_divisorD [OF assms(1), of j] assms by auto
qed

lemma irreducibleI:
  assumes "no_divisor q 5 n" "odd q" "\<not> 3 dvd q" and q: "q < (5 + 6 * n) * (5 + 6 * n)" "1 < q"
  shows "irreducible q"
  unfolding irreducible_def
proof (intro conjI allI impI)
  fix k assume k: "k dvd q"
  then obtain j where j: "q = k * j" by (elim dvdE)
  have "k < 5 + 6 * n \<or> j < 5 + 6 * n" using j q(1) by (metis leI mult_le_mono not_less)
  then have "k \<le> 1 \<or> j \<le> 1" using no_small_divisor [OF assms(1-3)] k j by auto
  then show "k = 1 \<or> k = q" using j q(2) by (cases k; cases j) auto
qed (use q in simp)

lemma proper_divisor:
  assumes "\<forall>q\<in>set qs. irreducible q" "d dvd prod_list qs" "d \<noteq> prod_list qs"
  shows "\<exists>q\<in>set qs. d dvd prod_list qs div q"
  using assms
proof (induction qs arbitrary: d)
  case (Cons q qs)
  have q: "1 < q" using Cons.prems(1) by (simp add: irreducible_def)
  show ?case
  proof (cases "q dvd d")
    case True
    then obtain e where d: "d = q * e" by (elim dvdE)
    then have "e dvd prod_list qs" "e \<noteq> prod_list qs" using Cons.prems q by auto
    then obtain p where p: "p \<in> set qs" "e dvd prod_list qs div p"
      using Cons.IH [of e] Cons.prems(1) by auto
    have "p dvd prod_list qs" using p(1) by (metis prod_list_dvd)
    then have "q * prod_list qs div p = q * (prod_list qs div p)" by (rule div_mult_swap [symmetric])
    then have "d dvd prod_list (q # qs) div p" using p(2) d by simp
    then show ?thesis using p(1) by auto
  next
    case False
    have "gcd d q = 1"
      using Cons.prems(1) False by (metis gcd_dvd1 gcd_dvd2 irreducible_def list.set_intros(1))
    then have "coprime d q" by (simp add: coprime_iff_gcd_eq_1)
    then have "d dvd prod_list qs" using Cons.prems(2) by (simp add: coprime_dvd_mult_right_iff)
    then show ?thesis using q by auto
  qed
qed simp

lemma funpow_twice: "(f ^^ i) ((f ^^ j) x) = (f ^^ (i + j)) x"
  by (simp add: funpow_add)

lemma card_nonzero: "card (- {0 :: 'a::len word}) = 2 ^ LENGTH('a) - 1"
  by (simp add: Compl_eq_Diff_UNIV card_Diff_singleton card_word)

lemma funpow_fixed: "(f ^^ d) x = x \<Longrightarrow> (f ^^ (d * k)) x = x"
  by (induction k) (simp_all add: funpow_add)

lemma order_exact:
  assumes "\<forall>q\<in>set qs. irreducible q" "(f ^^ prod_list qs) x = x"
    and "\<forall>q\<in>set qs. (f ^^ (prod_list qs div q)) x \<noteq> x" and d: "0 < d" "d < prod_list qs"
  shows "(f ^^ d) x \<noteq> x"
proof
  assume fixed: "(f ^^ d) x = x"
  define e where "e = (LEAST e. 0 < e \<and> (f ^^ e) x = x)"
  have e: "0 < e \<and> (f ^^ e) x = x" unfolding e_def by (rule LeastI [of _ d]) (use d fixed in simp)
  have e_le: "e \<le> k" if "0 < k" "(f ^^ k) x = x" for k
    unfolding e_def by (rule Least_le) (use that in simp)
  have "(f ^^ (prod_list qs mod e)) x = x" using e assms(2) by (metis funpow_mod_eq)
  then have "prod_list qs mod e = 0" using e_le [of "prod_list qs mod e"] e
    by (metis gr0I mod_less_divisor not_less)
  then have "e dvd prod_list qs" by (simp add: dvd_eq_mod_eq_0)
  moreover have "e \<noteq> prod_list qs" using e_le [of d] d fixed by simp
  ultimately obtain q where q: "q \<in> set qs" "e dvd prod_list qs div q"
    using proper_divisor [OF assms(1)] by blast
  then obtain k where "prod_list qs div q = e * k" by (elim dvdE)
  then have "(f ^^ (prod_list qs div q)) x = x" using funpow_fixed [of e f x k] e by simp
  then show False using assms(3) q(1) by blast
qed

section \<open>Generators of full period\<close>

fun is_one :: "bool list \<Rightarrow> bool" where
  "is_one [] = False"
| "is_one (c # cs) = (c \<and> list_all Not cs)"

lemma ev_none: "list_all Not cs \<Longrightarrow> ev m cs t = 0"
  by (induction cs) simp_all

lemma ev_is_one: "is_one cs \<Longrightarrow> ev m cs t = t"
  by (cases cs) (simp_all add: ev_none)

lemma ev_not_one_short:
  assumes "\<not> is_one cs" "length cs \<le> LENGTH('a)"
  shows "ev (m :: 'a::len word) cs top_bit \<noteq> top_bit"
proof
  assume eq: "ev m cs top_bit = top_bit"
  have bits: "i < length cs \<and> cs ! i \<longleftrightarrow> i = 0" if "i < LENGTH('a)" for i
    using ev_bits [of cs "LENGTH('a) - 1 - i" m] assms(2) that by (auto simp: eq bit_top_bit)
  have "cs = True # tl cs" using bits [of 0] by (cases cs) auto
  moreover have "list_all Not (tl cs)"
    using bits [of "Suc _"] assms(2) by (cases cs) (fastforce simp: list_all_length)+
  ultimately show False using assms(1) by (metis is_one.simps(2))
qed

definition fits :: "nat \<Rightarrow> bool list \<Rightarrow> bool" where
  "fits n cs \<longleftrightarrow> list_all Not (drop n cs)"

lemma ev_not_one:
  assumes "\<not> is_one cs" "fits LENGTH('a) cs"
  shows "ev (m :: 'a::len word) cs top_bit \<noteq> top_bit"
proof -
  let ?t = "take LENGTH('a) cs"
  have "ev m cs top_bit = ev m (?t @ drop LENGTH('a) cs) top_bit" by simp
  also have "\<dots> = ev m ?t top_bit"
    using assms(2) by (simp only: ev_append) (simp add: fits_def ev_none funpow_zero)
  also have "\<dots> \<noteq> top_bit"
  proof (rule ev_not_one_short)
    have "is_one (xs @ ys)" if "is_one xs" "list_all Not ys" for xs ys using that by (cases xs) auto
    then show "\<not> is_one ?t" using assms by (metis append_take_drop_id fits_def)
  qed simp
  finally show ?thesis .
qed

locale full_cycle =
  fixes gen :: "int \<Rightarrow> 'a::len word \<Rightarrow> 'a word"
    and m :: "'a word" and taps :: "bool list" and factors :: "nat list"
  assumes gen_step: "s \<noteq> 0 \<Longrightarrow> gen r s = shift_step m s"
    and tapped: "bit m (LENGTH('a) - 1)"
    and taps_of_m: "ev m taps top_bit = m"
    and irreducible_factors: "\<forall>q\<in>set factors. irreducible q"
    and product: "prod_list factors = 2 ^ LENGTH('a) - 1"
    and closes: "is_one (power_list LENGTH('a) taps (prod_list factors))"
    and no_shorter: "\<forall>q\<in>set factors. let cs = power_list LENGTH('a) taps (prod_list factors div q)
                      in \<not> is_one cs \<and> fits LENGTH('a) cs"
begin

lemma step_top: "(shift_step m ^^ LENGTH('a)) u = ev m taps u"
proof -
  have "(shift_step m ^^ (LENGTH('a) - 1)) top_bit = ev m (replicate (LENGTH('a) - 1) False @ [True]) top_bit"
    by (simp add: ev_append ev_none list_all_iff)
  also have "\<dots> = 1"
    by (rule bit_eqI) (auto simp: ev_bits bit_1_iff nth_append)
  finally have "(shift_step m ^^ LENGTH('a)) top_bit = shift_step m 1"
    by (metis One_nat_def Suc_pred funpow.simps(2) len_gt_0 o_apply)
  then have top: "(shift_step m ^^ LENGTH('a)) top_bit = ev m taps top_bit"
    by (simp add: shift_step_def taps_of_m)
  obtain cs where "u = ev m cs top_bit" using ev_all [of "LENGTH('a)" u m] by auto
  then show ?thesis by (metis ev_ev ev_funpow top)
qed

lemma ev_fold_back: "ev m (fold_back LENGTH('a) taps cs) t = ev m cs t"
proof (cases "length cs < LENGTH('a)")
  case True
  then show ?thesis by (simp add: fold_back_def ev_xor_list ev_mul_list)
next
  case False
  then have "ev m (take LENGTH('a) cs @ drop LENGTH('a) cs) t
      = ev m (take LENGTH('a) cs) t XOR ev m taps (ev m (drop LENGTH('a) cs) t)"
    by (simp only: ev_append) (simp add: step_top)
  then show ?thesis by (simp add: fold_back_def ev_xor_list ev_mul_list)
qed

lemma ev_power: "ev m (power_list LENGTH('a) taps e) t = (shift_step m ^^ e) t"
proof (induction e arbitrary: t rule: less_induct)
  case (less e)
  show ?case
  proof (cases "e = 0")
    case False
    then have "ev m (spread (power_list LENGTH('a) taps (e div 2))) t
        = (shift_step m ^^ (e div 2 + e div 2)) t"
      by (simp add: ev_spread less.IH funpow_add)
    moreover have "e = (if odd e then Suc (e div 2 + e div 2) else e div 2 + e div 2)" by presburger
    then have "(shift_step m ^^ e) t = (if odd e then shift_step m ((shift_step m ^^ (e div 2 + e div 2)) t)
        else (shift_step m ^^ (e div 2 + e div 2)) t)"
      by (metis funpow.simps(2) o_apply)
    ultimately show ?thesis using False
      by (subst power_list.simps) (simp add: Let_def ev_fold_back)
  qed (simp add: power_list.simps)
qed

lemma full_order:
  assumes "0 < d" "d < 2 ^ LENGTH('a) - 1"
  shows "(shift_step m ^^ d) top_bit \<noteq> top_bit"
proof (rule order_exact)
  show "(shift_step m ^^ prod_list factors) top_bit = top_bit"
    using closes ev_is_one by (metis ev_power)
  show "\<forall>q\<in>set factors. (shift_step m ^^ (prod_list factors div q)) top_bit \<noteq> top_bit"
    using no_shorter by (metis ev_not_one ev_power)
qed (use irreducible_factors product assms in auto)

lemma funpow_inj: "inj (shift_step m ^^ n)"
  using step_inj [OF tapped] by (rule inj_fn)

lemma never_zero: "s \<noteq> 0 \<Longrightarrow> (shift_step m ^^ n) s \<noteq> 0"
  using funpow_inj [of n] by (metis funpow_zero injD)

lemma gen_funpow: "s \<noteq> 0 \<Longrightarrow> (gen r ^^ n) s = (shift_step m ^^ n) s"
  by (induction n) (simp_all add: gen_step never_zero)

lemma orbit_distinct:
  assumes "i < j" "j < 2 ^ LENGTH('a) - 1"
  shows "(shift_step m ^^ i) top_bit \<noteq> (shift_step m ^^ j) top_bit"
proof
  assume "(shift_step m ^^ i) top_bit = (shift_step m ^^ j) top_bit"
  moreover have "(shift_step m ^^ j) top_bit = (shift_step m ^^ i) ((shift_step m ^^ (j - i)) top_bit)"
    using assms(1) by (simp add: funpow_twice)
  ultimately have "(shift_step m ^^ (j - i)) top_bit = top_bit" using funpow_inj [of i] by (metis injD)
  then show False using full_order [of "j - i"] assms by simp
qed

lemma orbit_all: "(\<lambda>i. (shift_step m ^^ i) top_bit) ` {..<2 ^ LENGTH('a) - 1} = - {0}"
proof (rule card_subset_eq)
  have nz: "(top_bit :: 'a word) \<noteq> 0" by (metis bit_0_eq bit_top_bit bot_apply bot_bool_def)
  show "(\<lambda>i. (shift_step m ^^ i) top_bit) ` {..<2 ^ LENGTH('a) - 1} \<subseteq> - {0}"
    using never_zero [OF nz] by auto
  have "inj_on (\<lambda>i. (shift_step m ^^ i) top_bit) {..<2 ^ LENGTH('a) - 1}"
    by (rule linorder_inj_onI) (auto dest: orbit_distinct)
  then show "card ((\<lambda>i. (shift_step m ^^ i) top_bit) ` {..<2 ^ LENGTH('a) - 1}) = card (- {0 :: 'a word})"
    by (simp add: card_image card_nonzero)
qed simp

lemma full_cycle:
  assumes s: "s \<noteq> 0"
  shows "bij_betw (\<lambda>i. (gen r ^^ i) s) {..<2 ^ LENGTH('a) - 1} (- {0})
    \<and> (gen r ^^ (2 ^ LENGTH('a) - 1)) s = s"
proof
  obtain k where k: "s = (shift_step m ^^ k) top_bit" using s orbit_all by auto
  have shift: "(shift_step m ^^ i) s = (shift_step m ^^ k) ((shift_step m ^^ i) top_bit)" for i
    by (simp add: k funpow_twice add.commute)
  have top: "(shift_step m ^^ (2 ^ LENGTH('a) - 1)) top_bit = top_bit"
    using closes ev_is_one product by (metis ev_power)
  show "(gen r ^^ (2 ^ LENGTH('a) - 1)) s = s" using gen_funpow [OF s] shift top k by metis
  have "(shift_step m ^^ k) ` (- {0}) = - {0}"
  proof (rule endo_inj_surj)
    show "(shift_step m ^^ k) ` (- {0}) \<subseteq> - {0}"
    proof (rule image_subsetI)
      fix u :: "'a word" assume "u \<in> - {0}"
      then have "u \<noteq> 0" by simp
      then have "(shift_step m ^^ k) u \<noteq> 0" by (rule never_zero)
      then show "(shift_step m ^^ k) u \<in> - {0}" by simp
    qed
    show "inj_on (shift_step m ^^ k) (- {0})" using funpow_inj inj_on_subset by blast
  qed simp
  then have "(\<lambda>i. (gen r ^^ i) s) ` {..<2 ^ LENGTH('a) - 1} = - {0}"
    using orbit_all
    by (simp only: gen_funpow [OF s] shift image_image [of "shift_step m ^^ k" "\<lambda>i. (shift_step m ^^ i) top_bit", symmetric])
  moreover have "inj_on (\<lambda>i. (gen r ^^ i) s) {..<2 ^ LENGTH('a) - 1}"
  proof (rule eq_card_imp_inj_on)
    show "card ((\<lambda>i. (gen r ^^ i) s) ` {..<2 ^ LENGTH('a) - 1}) = card {..<2 ^ LENGTH('a) - 1 :: nat}"
      using calculation by (simp add: card_nonzero)
  qed simp
  ultimately show "bij_betw (\<lambda>i. (gen r ^^ i) s) {..<2 ^ LENGTH('a) - 1} (- {0})"
    by (simp add: bij_betw_def)
qed

end

section \<open>The four generators have full period\<close>

lemma irreducible_3: "irreducible 3"
proof -
  have "k = 1 \<or> k = 3" if "k dvd 3" for k :: nat
  proof -
    have "k \<le> 3" using that by (simp add: dvd_imp_le)
    then have "k = 0 \<or> k = 1 \<or> k = 2 \<or> k = 3" by arith
    then show ?thesis using that by auto
  qed
  then show ?thesis by (simp add: irreducible_def)
qed

lemma irreducible_5: "irreducible 5"
  by (rule irreducibleI [where n = 0]) (simp_all add: no_divisor_numeral)

lemma irreducible_17: "irreducible 17"
  by (rule irreducibleI [where n = 0]) (simp_all add: no_divisor_numeral)

lemma irreducible_257: "irreducible 257"
  by (rule irreducibleI [where n = 2]) (simp_all add: no_divisor_numeral)

lemma irreducible_641: "irreducible 641"
  by (rule irreducibleI [where n = 4]) (simp_all add: no_divisor_numeral)

lemma irreducible_65537: "irreducible 65537"
  by (rule irreducibleI [where n = 42]) (simp_all add: no_divisor_numeral)

lemma no_divisor_add: "no_divisor q k (a + b) \<longleftrightarrow> no_divisor q k a \<and> no_divisor q (k + 6 * a) b"
  by (induction a arbitrary: k) (simp_all add: algebra_simps)

lemma no_divisor_low: "no_divisor 6700417 5 150"
  by (simp add: no_divisor_numeral)

lemma no_divisor_middle: "no_divisor 6700417 905 150"
  by (simp add: no_divisor_numeral)

lemma no_divisor_high: "no_divisor 6700417 1805 131"
  by (simp add: no_divisor_numeral)

lemma irreducible_6700417: "irreducible 6700417"
proof (rule irreducibleI [where n = "150 + (150 + 131)"])
  show "no_divisor 6700417 5 (150 + (150 + 131))"
    unfolding no_divisor_add using no_divisor_low no_divisor_middle no_divisor_high by simp
qed simp_all

lemmas irreducible_factors = irreducible_3 irreducible_5 irreducible_17 irreducible_257
  irreducible_641 irreducible_65537 irreducible_6700417

interpretation lfsr8: full_cycle RandLFSR8 "0xB8" "[True, False, True, True, True]" "[3, 5, 17]"
proof
  show "RandLFSR8 r s = shift_step 0xB8 s" if "s \<noteq> 0" for r s
    using RAND_LFSR_step [OF that, of 8 6 5 4 r] by (simp add: RandLFSR8_def TAP_def)
  show "bit (0xB8 :: 8 word) (LENGTH(8) - 1)" by simp
  show "ev 0xB8 [True, False, True, True, True] top_bit = (0xB8 :: 8 word)"
    by (simp add: top_bit_def shift_step_def)
  show "\<forall>q\<in>set [3, 5, 17]. irreducible q" using irreducible_factors by simp
  show "prod_list [3, 5, 17] = (2 :: nat) ^ LENGTH(8) - 1" by simp
  show "is_one (power_list LENGTH(8) [True, False, True, True, True] (prod_list [3, 5, 17]))"
    by (simp add: power_list_eval fold_back_def)
  show "\<forall>q\<in>set [3, 5, 17]. let cs = power_list LENGTH(8) [True, False, True, True, True] (prod_list [3, 5, 17] div q)
      in \<not> is_one cs \<and> fits LENGTH(8) cs"
    by (simp add: power_list_eval fold_back_def fits_def Let_def)
qed

interpretation lfsr16: full_cycle RandLFSR16 "0xB400" "[True, False, True, True, False, True]" "[3, 5, 17, 257]"
proof
  show "RandLFSR16 r s = shift_step 0xB400 s" if "s \<noteq> 0" for r s
    using RAND_LFSR_step [OF that, of 16 14 13 11 r] by (simp add: RandLFSR16_def TAP_def)
  show "bit (0xB400 :: 16 word) (LENGTH(16) - 1)" by simp
  show "ev 0xB400 [True, False, True, True, False, True] top_bit = (0xB400 :: 16 word)"
    by (simp add: top_bit_def shift_step_def)
  show "\<forall>q\<in>set [3, 5, 17, 257]. irreducible q" using irreducible_factors by simp
  show "prod_list [3, 5, 17, 257] = (2 :: nat) ^ LENGTH(16) - 1" by simp
  show "is_one (power_list LENGTH(16) [True, False, True, True, False, True] (prod_list [3, 5, 17, 257]))"
    by (simp add: power_list_eval fold_back_def)
  show "\<forall>q\<in>set [3, 5, 17, 257]. let cs = power_list LENGTH(16) [True, False, True, True, False, True] (prod_list [3, 5, 17, 257] div q)
      in \<not> is_one cs \<and> fits LENGTH(16) cs"
    by (simp add: power_list_eval fold_back_def fits_def Let_def)
qed

interpretation lfsr32: full_cycle RandLFSR32 "0xA3000000" "[True, False, True, False, False, False, True, True]" "[3, 5, 17, 257, 65537]"
proof
  show "RandLFSR32 r s = shift_step 0xA3000000 s" if "s \<noteq> 0" for r s
    using RAND_LFSR_step [OF that, of 32 30 26 25 r] by (simp add: RandLFSR32_def TAP_def)
  show "bit (0xA3000000 :: 32 word) (LENGTH(32) - 1)" by simp
  show "ev 0xA3000000 [True, False, True, False, False, False, True, True] top_bit = (0xA3000000 :: 32 word)"
    by (simp add: top_bit_def shift_step_def)
  show "\<forall>q\<in>set [3, 5, 17, 257, 65537]. irreducible q" using irreducible_factors by simp
  show "prod_list [3, 5, 17, 257, 65537] = (2 :: nat) ^ LENGTH(32) - 1" by simp
  show "is_one (power_list LENGTH(32) [True, False, True, False, False, False, True, True] (prod_list [3, 5, 17, 257, 65537]))"
    by (simp add: power_list_eval fold_back_def)
  show "\<forall>q\<in>set [3, 5, 17, 257, 65537]. let cs = power_list LENGTH(32) [True, False, True, False, False, False, True, True] (prod_list [3, 5, 17, 257, 65537] div q)
      in \<not> is_one cs \<and> fits LENGTH(32) cs"
    by (simp add: power_list_eval fold_back_def fits_def Let_def)
qed

interpretation lfsr64: full_cycle RandLFSR64 "0xD800000000000000" "[True, True, False, True, True]" "[3, 5, 17, 257, 641, 65537, 6700417]"
proof
  show "RandLFSR64 r s = shift_step 0xD800000000000000 s" if "s \<noteq> 0" for r s
    using RAND_LFSR_step [OF that, of 64 63 61 60 r] by (simp add: RandLFSR64_def TAP_def)
  show "bit (0xD800000000000000 :: 64 word) (LENGTH(64) - 1)" by simp
  show "ev 0xD800000000000000 [True, True, False, True, True] top_bit = (0xD800000000000000 :: 64 word)"
    by (simp add: top_bit_def shift_step_def)
  show "\<forall>q\<in>set [3, 5, 17, 257, 641, 65537, 6700417]. irreducible q" using irreducible_factors by simp
  show "prod_list [3, 5, 17, 257, 641, 65537, 6700417] = (2 :: nat) ^ LENGTH(64) - 1" by simp
  show "is_one (power_list LENGTH(64) [True, True, False, True, True] (prod_list [3, 5, 17, 257, 641, 65537, 6700417]))"
    by (simp add: power_list_eval fold_back_def)
  show "\<forall>q\<in>set [3, 5, 17, 257, 641, 65537, 6700417]. let cs = power_list LENGTH(64) [True, True, False, True, True] (prod_list [3, 5, 17, 257, 641, 65537, 6700417] div q)
      in \<not> is_one cs \<and> fits LENGTH(64) cs"
    by (simp add: power_list_eval fold_back_def fits_def Let_def)
qed

lemma word_of_int_0_iff: "(word_of_int r :: 'a::len word) = 0 \<longleftrightarrow> 2 ^ LENGTH('a) dvd r"
  using word_of_int_eq_iff [of r 0, where 'a = 'a] by (simp add: take_bit_eq_mod dvd_eq_mod_eq_0)

lemma zero_seed:
  "RandLFSR64 r 0 = 0 \<longleftrightarrow> 2 ^ 64 dvd r"
  "RandLFSR8 r 0 = 0 \<longleftrightarrow> 2 ^ 8 dvd r"
proof -
  have "RandLFSR64 r 0 = 0 \<longleftrightarrow> (word_of_int r :: 64 word) = 0"
    using lfsr64.gen_step [of "word_of_int r" r] injD [OF lfsr64.funpow_inj [of 1], of "word_of_int r" 0]
    by (cases "(word_of_int r :: 64 word) = 0") (auto simp: RandLFSR64_def RAND_LFSR_def Let_def)
  then show "RandLFSR64 r 0 = 0 \<longleftrightarrow> 2 ^ 64 dvd r" by (simp add: word_of_int_0_iff)
  have "RandLFSR8 r 0 = 0 \<longleftrightarrow> (word_of_int r :: 8 word) = 0"
    using lfsr8.gen_step [of "word_of_int r" r] injD [OF lfsr8.funpow_inj [of 1], of "word_of_int r" 0]
    by (cases "(word_of_int r :: 8 word) = 0") (auto simp: RandLFSR8_def RAND_LFSR_def Let_def)
  then show "RandLFSR8 r 0 = 0 \<longleftrightarrow> 2 ^ 8 dvd r" by (simp add: word_of_int_0_iff)
qed

text \<open>
  C27: all four generators have full period: from any seed but 0, \<open>2 ^ w - 1\<close> calls return every
  word of the width except 0, each exactly once, and come back to the seed.
\<close>

theorem lfsr_full_period:
  "(a \<noteq> 0 \<longrightarrow> bij_betw (\<lambda>i. (RandLFSR64 r ^^ i) a) {..<2 ^ 64 - 1} (- {0}) \<and> (RandLFSR64 r ^^ (2 ^ 64 - 1)) a = a)
   \<and> (b \<noteq> 0 \<longrightarrow> bij_betw (\<lambda>i. (RandLFSR32 r ^^ i) b) {..<2 ^ 32 - 1} (- {0}) \<and> (RandLFSR32 r ^^ (2 ^ 32 - 1)) b = b)
   \<and> (c \<noteq> 0 \<longrightarrow> bij_betw (\<lambda>i. (RandLFSR16 r ^^ i) c) {..<2 ^ 16 - 1} (- {0}) \<and> (RandLFSR16 r ^^ (2 ^ 16 - 1)) c = c)
   \<and> (d \<noteq> 0 \<longrightarrow> bij_betw (\<lambda>i. (RandLFSR8 r ^^ i) d) {..<2 ^ 8 - 1} (- {0}) \<and> (RandLFSR8 r ^^ (2 ^ 8 - 1)) d = d)"
  using lfsr64.full_cycle [of a r] lfsr32.full_cycle [of b r] lfsr16.full_cycle [of c r] lfsr8.full_cycle [of d r]
  by simp

theorem lfsr_full_period_witness:
  "bij_betw (\<lambda>i. (RandLFSR64 7 ^^ i) 1) {..<2 ^ 64 - 1} (- {0}) \<and> (RandLFSR8 7 ^^ (2 ^ 8 - 1)) 1 = 1"
proof -
  note full = lfsr_full_period [where r = 7 and a = 1 and b = 1 and c = 1 and d = 1]
  show ?thesis
    by (rule conjI [OF full [THEN conjunct1, THEN mp, OF one_neq_zero, THEN conjunct1]
          full [THEN conjunct2, THEN conjunct2, THEN conjunct2, THEN mp, OF one_neq_zero, THEN conjunct2]])
qed

end
