(* ===== verification/Atomic_Ops.thy ===== *)
theory Atomic_Ops
  imports Prelude "HOL-Library.Multiset"
begin

text \<open>
  The atomic operations of \<open>Util/AtomicOps.hpp\<close>.  An operation is one locked instruction, so
  it is a function from the memory cell to the returned value and the new cell, and a concurrent
  run of several threads is a list of operations in the order in which the cell sees them.
  Signed and unsigned cells are words; the instructions do not tell them apart.  \<open>MemoryBarrier\<close>
  has no effect in such a model.  \<open>atomic_exchange\<close> moves the cell through an \<open>int\<close>, so it is
  given at that width only.
\<close>

unbundle bit_operations_syntax

section \<open>The instructions\<close>

definition xadd :: "'a::len word \<Rightarrow> 'a word \<Rightarrow> 'a word \<times> 'a word" where
  "xadd dv cell = (cell, cell + dv)"

definition xchg :: "'a::len word \<Rightarrow> 'a word \<Rightarrow> 'a word \<times> 'a word" where
  "xchg dv cell = (cell, dv)"

text \<open>\<open>cmpxchg\<close> compares the cell with the accumulator, which holds the old value afterwards.\<close>

definition cmpxchg :: "'a::len word \<Rightarrow> 'a word \<Rightarrow> 'a word \<Rightarrow> 'a word \<times> 'a word" where
  "cmpxchg src acc cell = (if acc = cell then (acc, src) else (cell, cell))"

text \<open>\<open>cmpxchg8b\<close> on the registers \<open>edx:eax\<close> and \<open>ecx:ebx\<close>; the result is \<open>edx\<close>, \<open>eax\<close> and the cell.\<close>

definition cmpxchg8b :: "32 word \<Rightarrow> 32 word \<Rightarrow> 32 word \<Rightarrow> 32 word \<Rightarrow> 64 word \<Rightarrow> 32 word \<times> 32 word \<times> 64 word" where
  "cmpxchg8b edx eax ecx ebx cell =
     (if word_cat edx eax = cell then (edx, eax, word_cat ecx ebx)
      else (ucast (drop_bit 32 cell), ucast cell, cell))"

section \<open>The functions of the header\<close>

definition exchange_and_add_int :: "32 word \<Rightarrow> 32 word \<Rightarrow> 32 word \<times> 32 word" where
  "exchange_and_add_int dv pw = xadd dv pw"

definition exchange_and_add_uint :: "32 word \<Rightarrow> 32 word \<Rightarrow> 32 word \<times> 32 word" where
  "exchange_and_add_uint dv pw = xadd dv pw"

definition exchange_and_add_llong :: "64 word \<Rightarrow> 64 word \<Rightarrow> 64 word \<times> 64 word" where
  "exchange_and_add_llong dv pw = xadd dv pw"

definition exchange_and_add_vint :: "32 word \<Rightarrow> 32 word \<Rightarrow> 32 word \<times> 32 word" where
  "exchange_and_add_vint dv pw = xadd dv pw"

definition exchange_and_add_vllong :: "64 word \<Rightarrow> 64 word \<Rightarrow> 64 word \<times> 64 word" where
  "exchange_and_add_vllong dv pw = xadd dv pw"

definition atomic_exchange :: "32 word \<Rightarrow> 32 word \<Rightarrow> 32 word \<times> 32 word" where
  "atomic_exchange dv pw = xchg dv pw"

definition ll_low :: "64 word \<Rightarrow> 32 word" where
  "ll_low x = ucast x"

definition ll_high :: "64 word \<Rightarrow> 32 word" where
  "ll_high x = ucast (drop_bit 32 x)"

definition compare_and_exchange8 :: "64 word \<Rightarrow> 64 word \<Rightarrow> 64 word \<Rightarrow> 64 word \<times> 64 word" where
  "compare_and_exchange8 requiredOldValue newValue cell =
     (let ecx = ll_high newValue; ebx = ll_low newValue;
          eax = ll_low requiredOldValue; edx = ll_high requiredOldValue;
          (edx', eax', cell') = cmpxchg8b edx eax ecx ebx cell
      in (word_cat edx' eax', cell'))"

definition compare_and_exchange4 :: "32 word \<Rightarrow> 32 word \<Rightarrow> 32 word \<Rightarrow> 32 word \<times> 32 word" where
  "compare_and_exchange4 requiredOldValue newValue cell = cmpxchg newValue requiredOldValue cell"

text \<open>The overload without a size picks one by \<open>sizeof (T)\<close>; pointers have 8 bytes.\<close>

datatype sized_cell = Cell4 "32 word" | Cell8 "64 word"

fun compare_and_exchange :: "sized_cell \<Rightarrow> sized_cell \<Rightarrow> sized_cell \<Rightarrow> (sized_cell \<times> sized_cell) option" where
  "compare_and_exchange (Cell4 old) (Cell4 new) (Cell4 cell) =
     Some (map_prod Cell4 Cell4 (compare_and_exchange4 old new cell))"
| "compare_and_exchange (Cell8 old) (Cell8 new) (Cell8 cell) =
     Some (map_prod Cell8 Cell8 (compare_and_exchange8 old new cell))"
| "compare_and_exchange _ _ _ = None"

definition compare_and_exchange_ptr :: "64 word \<Rightarrow> 64 word \<Rightarrow> 64 word \<Rightarrow> (sized_cell \<times> sized_cell) option" where
  "compare_and_exchange_ptr requiredOldValue newValue cell =
     compare_and_exchange (Cell8 requiredOldValue) (Cell8 newValue) (Cell8 cell)"

definition increment_int :: "32 word \<Rightarrow> 32 word" where
  "increment_int pw = pw + 1"

definition increment_uint :: "32 word \<Rightarrow> 32 word" where
  "increment_uint pw = pw + 1"

definition increment_llong :: "64 word \<Rightarrow> 64 word" where
  "increment_llong pw = pw + 1"

definition increment_vint :: "32 word \<Rightarrow> 32 word" where
  "increment_vint pw = pw + 1"

definition increment_vllong :: "64 word \<Rightarrow> 64 word" where
  "increment_vllong pw = pw + 1"

definition decrement_int :: "32 word \<Rightarrow> 32 word" where
  "decrement_int pw = pw - 1"

section \<open>Halves of a word\<close>

lemma cat_halves [simp]: "word_cat (ll_high x) (ll_low x) = x"
  by (rule bit_eqI) (auto simp: ll_high_def ll_low_def bit_word_cat_iff bit_simps)

lemma cmpxchg8b_exact: "compare_and_exchange8 old new = cmpxchg new old"
  by (rule ext) (simp add: compare_and_exchange8_def cmpxchg8b_def cmpxchg_def Let_def ll_high_def [symmetric],
      simp add: ll_low_def [symmetric])

section \<open>Concurrent runs\<close>

fun run_cell :: "('c \<Rightarrow> 'r \<times> 'c) list \<Rightarrow> 'c \<Rightarrow> 'r list \<times> 'c" where
  "run_cell [] cell = ([], cell)"
| "run_cell (f # fs) cell = (let (r, cell') = f cell; (rs, cell'') = run_cell fs cell' in (r # rs, cell''))"

lemma run_cell_append:
  "run_cell (fs @ gs) cell = (let (rs, cell') = run_cell fs cell; (rs', cell'') = run_cell gs cell' in (rs @ rs', cell''))"
  by (induction fs arbitrary: cell) (auto simp: Let_def split: prod.splits)

lemma run_xadd:
  "run_cell (map xadd ds) cell = (map (\<lambda>k. cell + sum_list (take k ds)) [0..<length ds], cell + sum_list ds)"
proof (induction ds arbitrary: cell)
  case (Cons d ds)
  have "map (\<lambda>k. cell + sum_list (take k (d # ds))) [0..<length (d # ds)]
      = cell # map (\<lambda>k. cell + d + sum_list (take k ds)) [0..<length ds]"
    by (simp add: upt_conv_Cons map_Suc_upt [symmetric] add.assoc del: upt_Suc map_Suc_upt)
  then show ?case
    using Cons [of "cell + d"] by (simp add: xadd_def [of d cell] add.assoc del: upt_Suc)
qed simp

lemma xadd_any_order:
  assumes "mset ds = mset es"
  shows "snd (run_cell (map xadd ds) cell) = snd (run_cell (map xadd es) cell)"
  using assms by (simp add: run_xadd) (metis sum_mset_sum_list)

lemma xadd_tickets:
  assumes "n \<le> 2 ^ LENGTH('a)"
  shows "distinct (fst (run_cell (replicate n (xadd (1 :: 'a::len word))) cell))"
proof -
  have sum: "sum_list (take k (replicate n (1 :: 'a word))) = word_of_nat k" if "k < n" for k
    using that by (simp add: sum_list_replicate min_def)
  have "inj_on (\<lambda>k. cell + word_of_nat k) {..<n}"
    using assms by (auto simp: inj_on_def word_of_nat_eq_iff take_bit_nat_eq_self)
  moreover have "fst (run_cell (map xadd (replicate n (1 :: 'a word))) cell)
      = map (\<lambda>k. cell + word_of_nat k) [0..<n]"
    using sum by (simp add: run_xadd del: map_replicate take_replicate)
  ultimately show ?thesis by (simp add: distinct_map atLeast0LessThan)
qed

lemma lost_cmpxchg:
  "cell \<noteq> old \<Longrightarrow> run_cell (map (\<lambda>w. cmpxchg w old) ws) cell = (replicate (length ws) cell, cell)"
  by (induction ws) (simp_all add: cmpxchg_def)

lemma cmpxchg_one_winner:
  assumes "\<forall>w\<in>set (w # ws). w \<noteq> old"
  shows "run_cell (map (\<lambda>w. cmpxchg w old) (w # ws)) old = (old # replicate (length ws) w, w)"
  using assms by (simp add: cmpxchg_def [of w old old] lost_cmpxchg)

lemmas adds_defs = exchange_and_add_int_def exchange_and_add_uint_def exchange_and_add_llong_def
  exchange_and_add_vint_def exchange_and_add_vllong_def

text \<open>
  Concurrent calls of the two 64-bit \<open>atomic_exchange_and_add\<close> lose no update: whatever the
  order in which the cell sees the calls, it ends with the start plus the sum of all arguments,
  modulo \<open>2 ^ 64\<close>, and each call returns the sum of the calls before it.
\<close>

theorem atomic_adds_exact:
  assumes "mset ds = mset es"
  shows "snd (run_cell (map exchange_and_add_vllong ds) cell) = cell + sum_list es
    \<and> snd (run_cell (map exchange_and_add_llong ds) cell) = cell + sum_list es
    \<and> fst (run_cell (map exchange_and_add_vllong ds) cell) = map (\<lambda>k. cell + sum_list (take k ds)) [0..<length ds]"
proof -
  have v: "map exchange_and_add_vllong ds = map xadd ds" and l: "map exchange_and_add_llong ds = map xadd ds"
    by (simp_all add: adds_defs fun_eq_iff)
  have "sum_list ds = sum_list es" using assms by (metis sum_mset_sum_list)
  then show ?thesis by (simp add: v l run_xadd)
qed

theorem atomic_adds_exact_witness:
  "snd (run_cell (map exchange_and_add_vllong [5, 7]) (2 ^ 64 - 1)) = 11"
  using atomic_adds_exact [of "[5, 7]" "[7, 5]" "2 ^ 64 - 1"] by simp

text \<open>
  \<open>atomic_compare_and_exchange\<close> elects one winner: when several threads try to replace the
  same old value by others, the call that comes first returns the old value and stores its own;
  every later one returns what the first stored and changes nothing.  The 8-byte version on the
  halves of \<open>cmpxchg8b\<close> behaves like the 4-byte one.
\<close>

theorem compare_and_exchange_winner:
  assumes "\<forall>w\<in>set (w # ws). w \<noteq> old" "\<forall>v\<in>set (v # vs). v \<noteq> old'"
  shows "run_cell (map (\<lambda>w. compare_and_exchange8 old w) (w # ws)) old = (old # replicate (length ws) w, w)
    \<and> run_cell (map (\<lambda>v. compare_and_exchange4 old' v) (v # vs)) old' = (old' # replicate (length vs) v, v)"
  unfolding cmpxchg8b_exact compare_and_exchange4_def
  using cmpxchg_one_winner [OF assms(1)] cmpxchg_one_winner [OF assms(2)] by simp

theorem compare_and_exchange_winner_witness:
  "run_cell (map (\<lambda>w. compare_and_exchange8 0 w) [1, 2 ^ 32, 3]) 0 = ([0, 1, 1], 1)"
  using compare_and_exchange_winner [of 1 "[2 ^ 32, 3]" 0 1 "[]" 0] by simp

end
