(* ===== verification/Harness_Barrier.thy ===== *)
theory Harness_Barrier
  imports Prelude
begin

text \<open>
  The barriers of \<open>Util/HarnessBarrier.hpp\<close>: the class over \<open>pthread_barrier_t\<close>, modelled by
  what POSIX promises of \<open>pthread_barrier_wait\<close>, and the class that replaces it under
  \<open>NO_BARRIERS\<close>, a counter with a mutex and a condition variable.  The second is shown to
  implement the first as long as no wake-up is spurious; the safety of a barrier is proved once
  for both.
\<close>

section \<open>pthread barriers\<close>

record pbarrier =
  expected :: nat
  waiting :: "nat set"
  released :: "nat set"

definition pthread_barrier_init :: "nat \<Rightarrow> pbarrier" where
  "pthread_barrier_init count = \<lparr>expected = count, waiting = {}, released = {}\<rparr>"

definition barrier_enter :: "nat \<Rightarrow> pbarrier \<Rightarrow> pbarrier" where
  "barrier_enter t b =
     (if Suc (card (waiting b)) = expected b
      then b\<lparr>released := released b \<union> insert t (waiting b), waiting := {}\<rparr>
      else b\<lparr>waiting := insert t (waiting b)\<rparr>)"

definition barrier_leave :: "nat \<Rightarrow> pbarrier \<Rightarrow> pbarrier" where
  "barrier_leave t b = b\<lparr>released := released b - {t}\<rparr>"

text \<open>One step of a thread in \<open>Barrier::Join\<close>: it enters, or leaves when it is released.\<close>

definition pjoin_step :: "nat \<Rightarrow> pbarrier \<Rightarrow> pbarrier option" where
  "pjoin_step t b =
     (if t \<in> waiting b then None
      else if t \<in> released b then Some (barrier_leave t b)
      else Some (barrier_enter t b))"

section \<open>The barrier under \<open>NO_BARRIERS\<close>\<close>

datatype join_pc = Outside | Inside | Asleep | Awake | Leaving

record nbarrier =
  numThreads :: int
  joined :: int
  bar_lock :: "nat option"
  join_at :: "nat \<Rightarrow> join_pc"

definition nbarrier_new :: "int \<Rightarrow> nbarrier" where
  "nbarrier_new count = \<lparr>numThreads = count, joined = 0, bar_lock = None, join_at = \<lambda>_. Outside\<rparr>"

definition broadcast :: "(nat \<Rightarrow> join_pc) \<Rightarrow> nat \<Rightarrow> join_pc" where
  "broadcast pc u = (if pc u = Asleep then Awake else pc u)"

definition njoin_step :: "nat \<Rightarrow> nbarrier \<Rightarrow> nbarrier option" where
  "njoin_step t b =
     (case join_at b t of
        Outside \<Rightarrow>
          if bar_lock b = None then Some (b\<lparr>bar_lock := Some t, join_at := (join_at b)(t := Inside)\<rparr>) else None
      | Inside \<Rightarrow>
          let j = joined b + 1
          in if j = numThreads b
             then Some (b\<lparr>joined := 0, join_at := (broadcast (join_at b))(t := Leaving)\<rparr>)
             else Some (b\<lparr>joined := j, bar_lock := None, join_at := (join_at b)(t := Asleep)\<rparr>)
      | Asleep \<Rightarrow> None
      | Awake \<Rightarrow>
          if bar_lock b = None then Some (b\<lparr>bar_lock := Some t, join_at := (join_at b)(t := Leaving)\<rparr>) else None
      | Leaving \<Rightarrow> Some (b\<lparr>bar_lock := None, join_at := (join_at b)(t := Outside)\<rparr>))"

text \<open>\<open>pthread_cond_wait\<close> may return without a broadcast.\<close>

definition spurious_wakeup :: "nat \<Rightarrow> nbarrier \<Rightarrow> nbarrier option" where
  "spurious_wakeup t b =
     (if join_at b t = Asleep then Some (b\<lparr>join_at := (join_at b)(t := Awake)\<rparr>) else None)"

inductive nbarrier_reach :: "bool \<Rightarrow> nat \<Rightarrow> nbarrier \<Rightarrow> bool" for spurious n where
  new: "nbarrier_reach spurious n (nbarrier_new (int n))"
| join: "nbarrier_reach spurious n b \<Longrightarrow> t < n \<Longrightarrow> njoin_step t b = Some b' \<Longrightarrow> nbarrier_reach spurious n b'"
| wakeup: "nbarrier_reach spurious n b \<Longrightarrow> spurious \<Longrightarrow> t < n \<Longrightarrow> spurious_wakeup t b = Some b'
    \<Longrightarrow> nbarrier_reach spurious n b'"

section \<open>What a barrier promises\<close>

text \<open>
  A barrier for \<open>n\<close> threads, seen through the threads that wait in it and those it has released:
  a step of a thread changes nothing of this view, or makes the thread enter, or leave.  In the
  view every \<open>Join\<close> is counted when it enters and when it leaves.
\<close>

inductive counted :: "nat \<Rightarrow> ('b \<Rightarrow> nat set) \<Rightarrow> ('b \<Rightarrow> nat set) \<Rightarrow> (nat \<Rightarrow> 'b \<Rightarrow> 'b option) \<Rightarrow> 'b
    \<Rightarrow> 'b \<Rightarrow> (nat \<Rightarrow> nat) \<Rightarrow> (nat \<Rightarrow> nat) \<Rightarrow> bool"
  for n W R act b0 where
  start: "counted n W R act b0 b0 (\<lambda>_. 0) (\<lambda>_. 0)"
| move: "counted n W R act b0 b joins passes \<Longrightarrow> t < n \<Longrightarrow> act t b = Some b' \<Longrightarrow>
    counted n W R act b0 b'
      (if t \<notin> W b \<union> R b \<and> t \<in> W b' \<union> R b' then joins(t := Suc (joins t)) else joins)
      (if t \<in> R b \<and> t \<notin> R b' then passes(t := Suc (passes t)) else passes)"

definition enters :: "nat \<Rightarrow> nat \<Rightarrow> nat set \<times> nat set \<Rightarrow> nat set \<times> nat set \<Rightarrow> bool" where
  "enters n t v v' \<longleftrightarrow> t \<notin> fst v \<union> snd v \<and>
     (if Suc (card (fst v)) = n then v' = ({}, snd v \<union> insert t (fst v))
      else v' = (insert t (fst v), snd v))"

definition leaves :: "nat \<Rightarrow> nat set \<times> nat set \<Rightarrow> nat set \<times> nat set \<Rightarrow> bool" where
  "leaves t v v' \<longleftrightarrow> t \<in> snd v - fst v \<and> v' = (fst v, snd v - {t})"

locale rendezvous =
  fixes n :: nat and W R :: "'b \<Rightarrow> nat set" and act :: "nat \<Rightarrow> 'b \<Rightarrow> 'b option"
    and b0 :: 'b and inv :: "'b \<Rightarrow> bool"
  assumes inv_start: "inv b0" and empty_start: "W b0 = {}" "R b0 = {}"
    and inv_act: "inv b \<Longrightarrow> t < n \<Longrightarrow> act t b = Some b' \<Longrightarrow> inv b'"
    and act_view: "inv b \<Longrightarrow> t < n \<Longrightarrow> act t b = Some b' \<Longrightarrow>
      (W b', R b') = (W b, R b) \<or> enters n t (W b, R b) (W b', R b') \<or> leaves t (W b, R b) (W b', R b')"
begin

definition in_round :: "'b \<Rightarrow> (nat \<Rightarrow> nat) \<Rightarrow> (nat \<Rightarrow> nat) \<Rightarrow> nat \<Rightarrow> bool" where
  "in_round b joins passes r \<longleftrightarrow> W b \<union> R b \<subseteq> {..<n} \<and> W b \<inter> R b = {} \<and> card (W b) < max 1 n \<and>
     (\<forall>t<n. joins t = (if t \<in> W b then Suc r else r) \<and> Suc (passes t) = (if t \<in> R b then r else Suc r))"

lemma in_round_start: "in_round b0 (\<lambda>_. 0) (\<lambda>_. 0) 0"
  by (simp add: in_round_def empty_start)

lemma last_enters:
  assumes r: "in_round b joins passes r" and t: "t < n" "t \<notin> W b \<union> R b" "Suc (card (W b)) = n"
  shows "insert t (W b) = {..<n} \<and> R b = {}"
proof
  have fin: "finite (W b)" using r by (auto simp: in_round_def intro: finite_subset)
  show all: "insert t (W b) = {..<n}"
  proof (rule card_subset_eq)
    show "insert t (W b) \<subseteq> {..<n}" using r t(1) by (auto simp: in_round_def)
    show "card (insert t (W b)) = card {..<n}" using t fin by simp
  qed simp
  show "R b = {}" using r t(2) all by (auto simp: in_round_def)
qed

lemma in_round_step:
  assumes r: "in_round b joins passes r" and t: "t < n"
    and view: "(W b', R b') = (W b, R b) \<or> enters n t (W b, R b) (W b', R b') \<or> leaves t (W b, R b) (W b', R b')"
  shows "\<exists>r'. in_round b'
      (if t \<notin> W b \<union> R b \<and> t \<in> W b' \<union> R b' then joins(t := Suc (joins t)) else joins)
      (if t \<in> R b \<and> t \<notin> R b' then passes(t := Suc (passes t)) else passes) r'"
  using view
proof (elim disjE)
  assume "(W b', R b') = (W b, R b)"
  then have "in_round b' joins passes r" using r by (simp add: in_round_def)
  with \<open>(W b', R b') = (W b, R b)\<close> show ?thesis by auto
next
  assume e: "enters n t (W b, R b) (W b', R b')"
  then have out: "t \<notin> W b \<union> R b" by (simp add: enters_def)
  show ?thesis
  proof (cases "Suc (card (W b)) = n")
    case True
    then have all: "insert t (W b) = {..<n}" and none: "R b = {}" using last_enters [OF r t out] by auto
    then have b': "W b' = {}" "R b' = {..<n}" using e True by (auto simp: enters_def)
    have "in_round b' (joins(t := Suc (joins t))) passes (Suc r)"
      using r out all none t by (auto simp: in_round_def b')
    then show ?thesis using out b' t by (auto simp: none)
  next
    case False
    then have b': "W b' = insert t (W b)" "R b' = R b" using e by (auto simp: enters_def)
    have "finite (W b)" using r by (auto simp: in_round_def intro: finite_subset)
    then have "in_round b' (joins(t := Suc (joins t))) passes r"
      using r out t False by (auto simp: in_round_def b')
    then show ?thesis using out b' by auto
  qed
next
  assume l: "leaves t (W b, R b) (W b', R b')"
  then have b': "W b' = W b" "R b' = R b - {t}" "t \<in> R b" "t \<notin> W b" by (auto simp: leaves_def)
  then have "in_round b' joins (passes(t := Suc (passes t))) r"
    using r by (auto simp: in_round_def)
  then show ?thesis using b' by auto
qed

lemma counted_round: "counted n W R act b0 b joins passes \<Longrightarrow> inv b \<and> (\<exists>r. in_round b joins passes r)"
proof (induction rule: counted.induct)
  case start
  then show ?case using inv_start in_round_start by blast
next
  case (move b joins passes t b')
  then obtain r where "in_round b joins passes r" "inv b" by blast
  then show ?case using in_round_step [OF _ move(2) act_view [OF _ move(2,3)]] inv_act move(2,3) by blast
qed

lemma pass_needs_all:
  assumes "counted n W R act b0 b joins passes" "t < n" "u < n"
  shows "passes t \<le> joins u" "joins t \<le> Suc (passes t)"
proof -
  obtain r where r: "in_round b joins passes r" using counted_round assms(1) by blast
  then have "Suc (passes t) \<le> Suc r" "r \<le> joins u" using assms(2,3) by (auto simp: in_round_def)
  then show "passes t \<le> joins u" by simp
  have "W b \<inter> R b = {}" using r by (simp add: in_round_def)
  then show "joins t \<le> Suc (passes t)" using r assms(2) by (auto simp: in_round_def)
qed

end

section \<open>Both barriers keep the promise\<close>

definition pinv :: "nat \<Rightarrow> pbarrier \<Rightarrow> bool" where
  "pinv n b \<longleftrightarrow> expected b = n \<and> waiting b \<inter> released b = {}"

interpretation pb: rendezvous n waiting released pjoin_step "pthread_barrier_init n" "pinv n" for n
proof
  show "pinv n b'" if "pinv n b" "t < n" "pjoin_step t b = Some b'" for b b' t
    using that by (auto simp: pinv_def pjoin_step_def barrier_enter_def barrier_leave_def split: if_splits)
  show "(waiting b', released b') = (waiting b, released b)
      \<or> enters n t (waiting b, released b) (waiting b', released b')
      \<or> leaves t (waiting b, released b) (waiting b', released b')"
    if "pinv n b" "t < n" "pjoin_step t b = Some b'" for b b' t
    using that by (auto simp: pinv_def pjoin_step_def barrier_enter_def barrier_leave_def enters_def leaves_def
        split: if_splits)
qed (simp_all add: pinv_def pthread_barrier_init_def)

definition asleep :: "nat \<Rightarrow> nbarrier \<Rightarrow> nat set" where
  "asleep n b = {t. t < n \<and> join_at b t = Asleep}"

definition passing :: "nat \<Rightarrow> nbarrier \<Rightarrow> nat set" where
  "passing n b = {t. t < n \<and> join_at b t \<in> {Awake, Leaving}}"

definition ninv :: "nat \<Rightarrow> nbarrier \<Rightarrow> bool" where
  "ninv n b \<longleftrightarrow> numThreads b = int n \<and> joined b = int (card (asleep n b)) \<and> card (asleep n b) < max 1 n
     \<and> (\<forall>t<n. join_at b t \<in> {Inside, Leaving} \<longleftrightarrow> bar_lock b = Some t) \<and> (\<forall>t. bar_lock b = Some t \<longrightarrow> t < n)"

lemma finite_asleep [simp]: "finite (asleep n b)"
  by (simp add: asleep_def)

lemma ninv_njoin:
  assumes inv: "ninv n b" and t: "t < n" and step: "njoin_step t b = Some b'"
  shows "ninv n b'"
proof (cases "join_at b t")
  case Inside
  have awake: "t \<notin> asleep n b" using Inside by (simp add: asleep_def)
  have lock: "bar_lock b = Some t" using inv t Inside by (auto simp: ninv_def)
  have others: "join_at b u \<notin> {Inside, Leaving}" if "u < n" "u \<noteq> t" for u
    using inv that lock by (auto simp: ninv_def)
  show ?thesis
  proof (cases "joined b + 1 = numThreads b")
    case True
    then have b': "b' = b\<lparr>joined := 0, join_at := (broadcast (join_at b))(t := Leaving)\<rparr>"
      using step Inside by (simp add: njoin_step_def)
    have "asleep n b' = {}" by (auto simp: b' asleep_def broadcast_def)
    then show ?thesis using inv lock others by (auto simp: ninv_def b' broadcast_def)
  next
    case False
    then have b': "b' = b\<lparr>joined := joined b + 1, bar_lock := None, join_at := (join_at b)(t := Asleep)\<rparr>"
      using step Inside by (simp add: njoin_step_def Let_def)
    have "asleep n b' = insert t (asleep n b)" using t by (auto simp: b' asleep_def)
    then have "card (asleep n b') = Suc (card (asleep n b))" using awake by simp
    moreover from this have "card (asleep n b') < max 1 n" using inv False t by (auto simp: ninv_def)
    ultimately show ?thesis using inv others by (auto simp: ninv_def b')
  qed
next
  case Outside
  then have "b' = b\<lparr>bar_lock := Some t, join_at := (join_at b)(t := Inside)\<rparr> \<and> bar_lock b = None"
    using step by (simp add: njoin_step_def split: if_splits)
  moreover from this have "asleep n b' = asleep n b" using Outside by (auto simp: asleep_def)
  ultimately show ?thesis using inv t by (auto simp: ninv_def)
next
  case Awake
  then have "b' = b\<lparr>bar_lock := Some t, join_at := (join_at b)(t := Leaving)\<rparr> \<and> bar_lock b = None"
    using step by (simp add: njoin_step_def split: if_splits)
  moreover from this have "asleep n b' = asleep n b" using Awake by (auto simp: asleep_def)
  ultimately show ?thesis using inv t by (auto simp: ninv_def)
next
  case Leaving
  then have b': "b' = b\<lparr>bar_lock := None, join_at := (join_at b)(t := Outside)\<rparr>"
    using step by (simp add: njoin_step_def)
  moreover have "asleep n b' = asleep n b" using Leaving by (auto simp: asleep_def b')
  moreover have "bar_lock b = Some t" using inv t Leaving by (auto simp: ninv_def)
  ultimately show ?thesis using inv t by (auto simp: ninv_def)
qed (use step in \<open>simp add: njoin_step_def\<close>)

lemma njoin_view:
  assumes inv: "ninv n b" and t: "t < n" and step: "njoin_step t b = Some b'"
  shows "(asleep n b', passing n b') = (asleep n b, passing n b)
    \<or> enters n t (asleep n b, passing n b) (asleep n b', passing n b')
    \<or> leaves t (asleep n b, passing n b) (asleep n b', passing n b')"
proof (cases "join_at b t")
  case Inside
  have out: "t \<notin> asleep n b \<union> passing n b" using Inside by (simp add: asleep_def passing_def)
  have full: "joined b + 1 = numThreads b \<longleftrightarrow> Suc (card (asleep n b)) = n"
    using inv by (auto simp: ninv_def)
  have "enters n t (asleep n b, passing n b) (asleep n b', passing n b')"
  proof (cases "joined b + 1 = numThreads b")
    case True
    then have b': "b' = b\<lparr>joined := 0, join_at := (broadcast (join_at b))(t := Leaving)\<rparr>"
      using step Inside by (simp add: njoin_step_def)
    have "asleep n b' = {}" "passing n b' = passing n b \<union> insert t (asleep n b)"
      using t by (auto simp: b' asleep_def passing_def broadcast_def)
    then show ?thesis using out True full by (simp add: enters_def)
  next
    case False
    then have b': "b' = b\<lparr>joined := joined b + 1, bar_lock := None, join_at := (join_at b)(t := Asleep)\<rparr>"
      using step Inside by (simp add: njoin_step_def Let_def)
    have "asleep n b' = insert t (asleep n b)" "passing n b' = passing n b"
      using t Inside by (auto simp: b' asleep_def passing_def)
    then show ?thesis using out False full by (simp add: enters_def)
  qed
  then show ?thesis by blast
next
  case Leaving
  then have "b' = b\<lparr>bar_lock := None, join_at := (join_at b)(t := Outside)\<rparr>"
    using step by (simp add: njoin_step_def)
  then have "leaves t (asleep n b, passing n b) (asleep n b', passing n b')"
    using t Leaving by (auto simp: leaves_def asleep_def passing_def)
  then show ?thesis by blast
qed (use step t in \<open>auto simp: njoin_step_def asleep_def passing_def split: if_splits\<close>)

lemma ninv_new: "ninv n (nbarrier_new (int n))"
  by (simp add: ninv_def nbarrier_new_def asleep_def)

interpretation nb: rendezvous n "asleep n" "passing n" njoin_step "nbarrier_new (int n)" "ninv n" for n
  by unfold_locales
    (use ninv_new ninv_njoin njoin_view in \<open>auto simp: nbarrier_new_def asleep_def passing_def\<close>)

definition abs_barrier :: "nat \<Rightarrow> nbarrier \<Rightarrow> pbarrier" where
  "abs_barrier n b = \<lparr>expected = n, waiting = asleep n b, released = passing n b\<rparr>"

lemma view_step:
  assumes "enters n t (waiting b, released b) (waiting b', released b')
      \<or> leaves t (waiting b, released b) (waiting b', released b')"
    and "expected b = n" "expected b' = n"
  shows "pjoin_step t b = Some (b' :: pbarrier)"
  using assms
  by (auto simp: enters_def leaves_def pjoin_step_def barrier_enter_def barrier_leave_def split: if_splits)

lemma reach_ninv: "nbarrier_reach False n b \<Longrightarrow> ninv n b"
  by (induction rule: nbarrier_reach.induct) (auto intro: ninv_new ninv_njoin)

lemma ninv_moves:
  assumes inv: "ninv n b" and n: "0 < n"
  shows "\<exists>t<n. njoin_step t b \<noteq> None"
proof (cases "\<exists>t<n. bar_lock b = Some t")
  case True
  then obtain t where "t < n" "join_at b t \<in> {Inside, Leaving}" using inv by (auto simp: ninv_def)
  then show ?thesis by (auto simp: njoin_step_def Let_def split: if_splits)
next
  case False
  have "asleep n b \<noteq> {..<n}" using inv n by (auto simp: ninv_def)
  then obtain t where t: "t < n" "join_at b t \<noteq> Asleep" by (auto simp: asleep_def)
  moreover have "join_at b t \<notin> {Inside, Leaving}" using inv t(1) False by (auto simp: ninv_def)
  moreover have "bar_lock b = None" using inv False by (cases "bar_lock b") (auto simp: ninv_def)
  ultimately have "njoin_step t b \<noteq> None" by (cases "join_at b t") (auto simp: njoin_step_def)
  then show ?thesis using t(1) by blast
qed

fun nbarrier_exec :: "(nat + nat) list \<Rightarrow> nbarrier \<Rightarrow> nbarrier option" where
  "nbarrier_exec [] b = Some b"
| "nbarrier_exec (Inl t # ts) b = Option.bind (njoin_step t b) (nbarrier_exec ts)"
| "nbarrier_exec (Inr t # ts) b = Option.bind (spurious_wakeup t b) (nbarrier_exec ts)"

text \<open>
  C25: as long as no wake-up is spurious, the barrier under \<open>NO_BARRIERS\<close> implements the pthread
  barrier: every step of a thread in \<open>Join\<close> changes nothing that a pthread barrier shows, or is
  the step that it makes; and some thread can always go on.
\<close>

theorem nbarrier_implements:
  assumes "nbarrier_reach False n b" "0 < n"
  shows "(\<forall>t b'. t < n \<and> njoin_step t b = Some b' \<longrightarrow>
        abs_barrier n b' = abs_barrier n b \<or> pjoin_step t (abs_barrier n b) = Some (abs_barrier n b'))
    \<and> (\<exists>t<n. njoin_step t b \<noteq> None)"
proof (intro conjI allI impI)
  show "\<exists>t<n. njoin_step t b \<noteq> None" using ninv_moves reach_ninv assms by blast
  fix t b' assume step: "t < n \<and> njoin_step t b = Some b'"
  then have "(asleep n b', passing n b') = (asleep n b, passing n b)
    \<or> enters n t (asleep n b, passing n b) (asleep n b', passing n b')
    \<or> leaves t (asleep n b, passing n b) (asleep n b', passing n b')"
    using njoin_view reach_ninv [OF assms(1)] by blast
  then show "abs_barrier n b' = abs_barrier n b \<or> pjoin_step t (abs_barrier n b) = Some (abs_barrier n b')"
    using view_step [of n t "abs_barrier n b" "abs_barrier n b'"] by (auto simp: abs_barrier_def)
qed

theorem nbarrier_implements_witness:
  "\<exists>t<3. njoin_step t (nbarrier_new 3) \<noteq> None"
  using nbarrier_implements [of 3 "nbarrier_new 3"] nbarrier_reach.new [of False 3] by simp

text \<open>
  Both barriers keep threads together: no thread has left its \<open>k\<close>-th \<open>Join\<close> before every
  other thread has entered its own, and a thread is never more than one \<open>Join\<close> inside.
\<close>

theorem barrier_safe:
  assumes "t < n" "u < n"
  shows "(counted n waiting released pjoin_step (pthread_barrier_init n) p joins passes \<longrightarrow>
        passes t \<le> joins u \<and> joins t \<le> Suc (passes t))
    \<and> (counted n (asleep n) (passing n) njoin_step (nbarrier_new (int n)) b joins passes \<longrightarrow>
        passes t \<le> joins u \<and> joins t \<le> Suc (passes t))"
  using pb.pass_needs_all [of n p joins passes t u] nb.pass_needs_all [of n b joins passes t u] assms by blast

theorem barrier_safe_witness:
  "\<exists>p joins passes. counted 2 waiting released pjoin_step (pthread_barrier_init 2) p joins passes
    \<and> joins 0 = 1 \<and> passes 0 \<le> joins 1"
proof -
  let ?p = "\<lparr>expected = 2, waiting = {0}, released = {}\<rparr>" and ?j = "\<lambda>t :: nat. if t = 0 then Suc 0 else 0"
  have "counted 2 waiting released pjoin_step (pthread_barrier_init 2) ?p ?j (\<lambda>_. 0)"
    using counted.move [OF counted.start, of 0 2 pjoin_step "pthread_barrier_init 2" ?p waiting released]
    by (simp add: pthread_barrier_init_def pjoin_step_def barrier_enter_def fun_upd_def)
  moreover from this have "(\<lambda>_. 0 :: nat) 0 \<le> ?j 1"
    using barrier_safe [of 0 2 1 ?p ?j "\<lambda>_. 0"] by simp
  ultimately show ?thesis by (intro exI [of _ ?p] exI [of _ ?j] exI [of _ "\<lambda>_. 0"]) simp
qed

text \<open>
  \<open>Join\<close> waits for the condition variable once, without a loop that tests its counter: after
  one spurious wake-up a thread leaves although no other thread has joined, and leaves the
  counter one too high.
\<close>

theorem spurious_wakeup_passes:
  assumes "2 \<le> count"
  shows "nbarrier_exec [Inl t, Inl t, Inr t, Inl t, Inl t] (nbarrier_new count)
    = Some ((nbarrier_new count)\<lparr>joined := 1\<rparr>)"
  using assms by (simp add: nbarrier_new_def njoin_step_def spurious_wakeup_def fun_eq_iff)

theorem spurious_wakeup_passes_witness:
  "nbarrier_exec [Inl 1, Inl 1, Inr 1, Inl 1, Inl 1] (nbarrier_new 2) = Some ((nbarrier_new 2)\<lparr>joined := 1\<rparr>)"
  using spurious_wakeup_passes [of 2 1] by simp

end
