(* ===== verification/Workload_Harness.thy ===== *)
theory Workload_Harness
  imports Size_Arg Atomic_Ops Harness_Barrier "HOL-Library.Sublist"
begin

text \<open>
  The workload harness of \<open>Util/NVTMWorkloadHarness.hpp\<close>: \<open>Init\<close>, which parses the standard
  options and takes them out of \<open>argv\<close>, and \<open>RunOps\<close>, which starts threads that meet at two
  barriers and call an operation until the count or the time is over.  The static members are a
  record; the clock is left out, the alarm is a step that may come at any time once it is set.
  The operation is a parameter of the runs: per thread, a list of indivisible actions on the shared
  argument and the seed of the thread, calls of \<open>CompletedOperation\<close> among them.
\<close>

section \<open>The members and the options\<close>

record harness =
  footPrintB :: int
  runTimeSeconds :: int
  finished :: bool
  timingIsSuspended :: bool
  opCountSet :: bool
  threadCount :: int
  operationCount :: int
  operationsCompleted :: "64 word"
  operationsPerThread :: int
  reload :: bool
  create_flag :: bool
  hang :: bool
  file_name_opt :: string
  run_name :: string
  system_name :: string
  alarm_armed :: bool

definition harness0 :: harness where
  "harness0 = \<lparr>footPrintB = 0, runTimeSeconds = 0, finished = False, timingIsSuspended = False,
     opCountSet = False, threadCount = 1, operationCount = 0, operationsCompleted = 0,
     operationsPerThread = 0, reload = False, create_flag = False, hang = False, file_name_opt = [],
     run_name = [], system_name = [], alarm_armed = False\<rparr>"

text \<open>A product of \<open>long long\<close> values.\<close>

definition ll_mult :: "int \<Rightarrow> int \<Rightarrow> trap + int" where
  "ll_mult a b = (if - (2 ^ 63) \<le> a * b \<and> a * b < 2 ^ 63 then Inr (a * b) else Inl Int_Overflow)"

fun footprint :: "int \<Rightarrow> nat \<Rightarrow> trap + int" where
  "footprint v 0 = Inr (u64 v)"
| "footprint v (Suc n) = (case ll_mult v 1024 of Inl e \<Rightarrow> Inl e | Inr v' \<Rightarrow> footprint v' n)"

datatype option_name = Tc | Foot | FootMB | FootKB | FootB | Rt | Max | File_Opt | Reload | Create | Hang | Nondet

definition option_string :: "option_name \<Rightarrow> string" where
  "option_string opt =
     (case opt of Tc \<Rightarrow> ''-tc'' | Foot \<Rightarrow> ''-foot'' | FootMB \<Rightarrow> ''-footMB'' | FootKB \<Rightarrow> ''-footKB''
      | FootB \<Rightarrow> ''-footB'' | Rt \<Rightarrow> ''-rt'' | Max \<Rightarrow> ''-max'' | File_Opt \<Rightarrow> ''-file'' | Reload \<Rightarrow> ''-reload''
      | Create \<Rightarrow> ''-create'' | Hang \<Rightarrow> ''-hang'' | Nondet \<Rightarrow> ''-nondet'')"

definition option_list :: "option_name list" where
  "option_list = [Tc, Foot, FootMB, FootKB, FootB, Rt, Max, File_Opt, Reload, Create, Hang, Nondet]"

definition option_of :: "string \<Rightarrow> option_name option" where
  "option_of s = find (\<lambda>opt. s = option_string opt) option_list"

definition takes_value :: "option_name \<Rightarrow> bool" where
  "takes_value opt \<longleftrightarrow> opt \<in> {Tc, Foot, FootMB, FootKB, FootB, Rt, Max, File_Opt}"

definition set_footprint :: "harness \<Rightarrow> trap + int \<Rightarrow> trap + harness" where
  "set_footprint h r = map_sum id (\<lambda>v. h\<lparr>footPrintB := v\<rparr>) r"

text \<open>The effect of one option; \<open>v\<close> is \<open>argv[++i]\<close> for those that read it.\<close>

definition apply_option :: "option_name \<Rightarrow> string \<Rightarrow> harness \<Rightarrow> trap + harness" where
  "apply_option opt v h =
     (case opt of
        Tc \<Rightarrow> Inr (h\<lparr>threadCount := u32 (atoi v)\<rparr>)
      | Foot \<Rightarrow> set_footprint h (footprint (atoll v) 2)
      | FootMB \<Rightarrow> set_footprint h (footprint (atoll v) 2)
      | FootKB \<Rightarrow> set_footprint h (footprint (atoll v) 1)
      | FootB \<Rightarrow> set_footprint h (footprint (atoll v) 0)
      | Rt \<Rightarrow> Inr (h\<lparr>runTimeSeconds := atoi v\<rparr>)
      | Max \<Rightarrow> Inr (h\<lparr>opCountSet := True, operationCount := u64 (atoi v)\<rparr>)
      | File_Opt \<Rightarrow> Inr (h\<lparr>file_name_opt := v\<rparr>)
      | Reload \<Rightarrow> Inr (h\<lparr>reload := True\<rparr>)
      | Create \<Rightarrow> Inr (h\<lparr>create_flag := True\<rparr>)
      | Hang \<Rightarrow> Inr (h\<lparr>hang := True\<rparr>)
      | Nondet \<Rightarrow> Inr h)"

definition sets_duration :: "option_name \<Rightarrow> bool" where
  "sets_duration opt \<longleftrightarrow> opt \<in> {Rt, Max}"

text \<open>
  The loop over \<open>argv\<close> from index 2.  The pointer after the last argument is null: an option that
  reads its value there crashes in \<open>atoi\<close>, or in the assignment to the string.
\<close>

fun parse_options :: "string list \<Rightarrow> harness \<Rightarrow> bool \<Rightarrow> string list \<Rightarrow> trap + harness \<times> bool \<times> string list" where
  "parse_options [] h durationSet leftOvers = Inr (h, durationSet, leftOvers)"
| "parse_options (a # args) h durationSet leftOvers =
     (case option_of a of
        None \<Rightarrow> parse_options args h durationSet (leftOvers @ [a])
      | Some opt \<Rightarrow>
          if takes_value opt
          then (case args of
                  [] \<Rightarrow> Inl Null_Deref
                | v # args' \<Rightarrow>
                    (case apply_option opt v h of
                       Inl e \<Rightarrow> Inl e
                     | Inr h' \<Rightarrow> parse_options args' h' (durationSet \<or> sets_duration opt) leftOvers))
          else (case apply_option opt [] h of
                  Inl e \<Rightarrow> Inl e
                | Inr h' \<Rightarrow> parse_options args h' durationSet leftOvers))"

text \<open>\<open>StartTiming\<close>; with \<open>-hang\<close> it never returns.  An alarm of 0 seconds is none.\<close>

definition StartTiming :: "harness \<Rightarrow> harness option" where
  "StartTiming h =
     (if hang h then None
      else Some (h\<lparr>timingIsSuspended := False, alarm_armed := (u32 (runTimeSeconds h) \<noteq> 0)\<rparr>))"

definition SuspendTiming :: "harness \<Rightarrow> harness" where
  "SuspendTiming h = h\<lparr>timingIsSuspended := True\<rparr>"

definition StopSignal :: "harness \<Rightarrow> harness" where
  "StopSignal h = (if timingIsSuspended h then h else h\<lparr>finished := True\<rparr>)"

text \<open>
  The setters.  \<open>SetOperationCount\<close> has no \<open>return\<close> although it promises a value; the model has
  its effect on the members.
\<close>

definition SetRunTime :: "int \<Rightarrow> harness \<Rightarrow> harness" where
  "SetRunTime t h = h\<lparr>runTimeSeconds := t\<rparr>"

definition SetFootPrintMB :: "int \<Rightarrow> harness \<Rightarrow> harness" where
  "SetFootPrintMB mb h = h\<lparr>footPrintB := u64 (u64 (mb * 1024) * 1024)\<rparr>"

definition SetOperationCount :: "int \<Rightarrow> harness \<Rightarrow> trap + harness" where
  "SetOperationCount op_count h =
     (if threadCount h = 0 then Inl Div_By_Zero
      else Inr (h\<lparr>operationCount := op_count, operationsPerThread := op_count div threadCount h\<rparr>))"

definition CompletedOperations :: "64 word \<Rightarrow> harness \<Rightarrow> harness" where
  "CompletedOperations numOps h =
     h\<lparr>operationsCompleted := snd (exchange_and_add_vllong numOps (operationsCompleted h))\<rparr>"

definition isDone :: "harness \<Rightarrow> bool" where
  "isDone h =
     (if operationCount h = 0 \<and> opCountSet h then True
      else if operationCount h = 0 then finished h
      else operationCount h \<le> u32 (uint (operationsCompleted h)))"

text \<open>The checks after the loop; \<open>None\<close> in the result of \<open>Init\<close> means that it does not return.\<close>

definition check_options :: "harness \<Rightarrow> bool \<Rightarrow> stop + harness" where
  "check_options h durationSet =
     (if footPrintB h = 0 then Inl (Exit (-1))
      else if \<not> durationSet then Inl (Exit (-1))
      else if 0 < runTimeSeconds h \<and> 0 < operationCount h then Inl (Exit (-1))
      else if create_flag h \<and> reload h then Inl (Exit (-1))
      else if threadCount h = 0 then Inl (Trap Div_By_Zero)
      else Inr (h\<lparr>operationsPerThread := operationCount h div threadCount h\<rparr>))"

definition Init :: "string \<Rightarrow> string list \<Rightarrow> harness \<Rightarrow> (stop + string list \<times> harness) option" where
  "Init system argv h =
     (case argv of
        [] \<Rightarrow> Some (Inl (Trap Assert_Failed))
      | [_] \<Rightarrow> Some (Inl (Exit 1))
      | prog # name # args \<Rightarrow>
          (case parse_options args (h\<lparr>run_name := name, system_name := system\<rparr>) False [prog] of
             Inl e \<Rightarrow> Some (Inl (Trap e))
           | Inr (h', durationSet, leftOvers) \<Rightarrow>
               (case check_options h' durationSet of
                  Inl e \<Rightarrow> Some (Inl e)
                | Inr h'' \<Rightarrow> map_option (\<lambda>h3. Inr (leftOvers, h3)) (StartTiming h''))))"

section \<open>What \<open>Init\<close> accepts\<close>

lemma apply_option_keeps:
  "apply_option opt v h = Inr h' \<Longrightarrow> run_name h' = run_name h \<and> system_name h' = system_name h"
  by (cases opt) (auto simp: apply_option_def set_footprint_def map_sum_def split: sum.splits)

lemma parse_leftovers:
  "parse_options args h d l = Inr (h', d', l') \<Longrightarrow>
     (\<exists>rest. l' = l @ rest \<and> subseq rest args \<and> (\<forall>a\<in>set rest. option_of a = None))
     \<and> run_name h' = run_name h \<and> system_name h' = system_name h"
proof (induction args h d l rule: parse_options.induct)
  case (2 a args h d l)
  show ?case
  proof (cases "option_of a")
    case None
    then obtain rest where "l' = (l @ [a]) @ rest" "subseq rest args" "\<forall>a\<in>set rest. option_of a = None"
      and names: "run_name h' = run_name h" "system_name h' = system_name h"
      using 2 by auto
    then have "l' = l @ (a # rest) \<and> subseq (a # rest) (a # args) \<and> (\<forall>a\<in>set (a # rest). option_of a = None)"
      using None by simp
    then show ?thesis using names by blast
  next
    case (Some opt)
    show ?thesis
    proof (cases "takes_value opt")
      case True
      then obtain v args' h1 where args: "args = v # args'" and opt: "apply_option opt v h = Inr h1"
        and rest: "parse_options args' h1 (d \<or> sets_duration opt) l = Inr (h', d', l')"
        using 2(4) Some by (auto split: list.splits sum.splits)
      have "subseq zs args' \<Longrightarrow> subseq zs (a # args)" for zs by (simp add: args list_emb_Cons)
      then show ?thesis using 2(2) [OF Some True args opt rest] apply_option_keeps [OF opt] by auto
    next
      case False
      then obtain h1 where opt: "apply_option opt [] h = Inr h1"
        and rest: "parse_options args h1 d l = Inr (h', d', l')"
        using 2(4) Some by (auto split: sum.splits)
      have "subseq zs args \<Longrightarrow> subseq zs (a # args)" for zs by (simp add: list_emb_Cons)
      then show ?thesis using 2(3) [OF Some False opt rest] apply_option_keeps [OF opt] by auto
    qed
  qed
qed simp

lemma check_options_Inr:
  "check_options h d = Inr h' \<longleftrightarrow> footPrintB h \<noteq> 0 \<and> d \<and> \<not> (0 < runTimeSeconds h \<and> 0 < operationCount h)
     \<and> \<not> (create_flag h \<and> reload h) \<and> threadCount h \<noteq> 0
     \<and> h' = h\<lparr>operationsPerThread := operationCount h div threadCount h\<rparr>"
  by (auto simp: check_options_def)

lemma Init_Inr:
  "Init system argv h = Some (Inr (left, h')) \<longleftrightarrow>
     (\<exists>prog name args h1 d h2. argv = prog # name # args
        \<and> parse_options args (h\<lparr>run_name := name, system_name := system\<rparr>) False [prog] = Inr (h1, d, left)
        \<and> check_options h1 d = Inr h2 \<and> StartTiming h2 = Some h')"
  by (cases argv; cases "tl argv") (auto simp: Init_def split: sum.splits)

text \<open>
  What \<open>Init\<close> accepts: the arguments that it leaves in \<open>argv\<close> start with the program, keep
  their order and are no options, so that they and the null pointer fit into \<open>argv\<close>; there is a
  footprint and a thread, no time limit beside a limit of operations, and every thread gets the
  quotient of operations and threads.
\<close>

theorem init_accepts:
  assumes "Init system argv h = Some (Inr (left, h'))"
  shows "subseq left argv \<and> length left < length argv \<and> hd left = hd argv
    \<and> (\<forall>a\<in>set (tl left). option_of a = None)
    \<and> footPrintB h' \<noteq> 0 \<and> threadCount h' \<noteq> 0
    \<and> operationsPerThread h' = operationCount h' div threadCount h'
    \<and> \<not> (0 < runTimeSeconds h' \<and> 0 < operationCount h') \<and> \<not> (create_flag h' \<and> reload h') \<and> \<not> hang h'
    \<and> run_name h' = argv ! 1 \<and> system_name h' = system"
proof -
  obtain prog name args h1 d h2 where argv: "argv = prog # name # args"
    and parsed: "parse_options args (h\<lparr>run_name := name, system_name := system\<rparr>) False [prog] = Inr (h1, d, left)"
    and checked: "check_options h1 d = Inr h2" and started: "StartTiming h2 = Some h'"
    using assms by (auto simp: Init_Inr)
  obtain rest where rest: "left = prog # rest" "subseq rest args" "\<forall>a\<in>set rest. option_of a = None"
    using parse_leftovers [OF parsed] by auto
  have "subseq left argv" using rest by (simp add: argv list_emb_Cons)
  moreover have "length left < length argv" using rest(1) list_emb_length [OF rest(2)] by (simp add: argv)
  ultimately show ?thesis
    using rest parse_leftovers [OF parsed] checked started
    by (auto simp: argv check_options_Inr StartTiming_def split: if_splits)
qed

theorem init_accepts_witness:
  "length [''prog'', ''in''] < length [''prog'', ''run'', ''-max'', ''8'', ''in'', ''-footB'', ''64'', ''-tc'', ''2'']"
proof -
  have "Init ''sys'' [''prog'', ''run'', ''-max'', ''8'', ''in'', ''-footB'', ''64'', ''-tc'', ''2''] harness0
    = Some (Inr ([''prog'', ''in''], harness0\<lparr>footPrintB := 64, opCountSet := True, threadCount := 2,
        operationCount := 8, operationsPerThread := 4, run_name := ''run'', system_name := ''sys''\<rparr>))"
    by code_simp
  from init_accepts [OF this] show ?thesis by simp
qed

section \<open>Reading back a command line\<close>

text \<open>An argument list by its parts: plain words, options alone and options with their value.\<close>

datatype arg_word = Plain string | Alone option_name | With option_name string

fun word_ok :: "arg_word \<Rightarrow> bool" where
  "word_ok (Plain s) = (option_of s = None)"
| "word_ok (Alone opt) = (\<not> takes_value opt)"
| "word_ok (With opt v) = takes_value opt"

fun word_args :: "arg_word \<Rightarrow> string list" where
  "word_args (Plain s) = [s]"
| "word_args (Alone opt) = [option_string opt]"
| "word_args (With opt v) = [option_string opt, v]"

fun apply_word :: "arg_word \<Rightarrow> harness \<Rightarrow> trap + harness" where
  "apply_word (Plain s) h = Inr h"
| "apply_word (Alone opt) h = apply_option opt [] h"
| "apply_word (With opt v) h = apply_option opt v h"

fun apply_words :: "arg_word list \<Rightarrow> harness \<Rightarrow> trap + harness" where
  "apply_words [] h = Inr h"
| "apply_words (w # ws) h = (case apply_word w h of Inl e \<Rightarrow> Inl e | Inr h' \<Rightarrow> apply_words ws h')"

fun plain_words :: "arg_word list \<Rightarrow> string list" where
  "plain_words [] = []"
| "plain_words (Plain s # ws) = s # plain_words ws"
| "plain_words (_ # ws) = plain_words ws"

fun has_duration :: "arg_word list \<Rightarrow> bool" where
  "has_duration [] = False"
| "has_duration (With opt v # ws) = (sets_duration opt \<or> has_duration ws)"
| "has_duration (_ # ws) = has_duration ws"

lemma option_of_string [simp]: "option_of (option_string opt) = Some opt"
  by (cases opt) (simp_all add: option_of_def option_list_def option_string_def)

lemma parse_words:
  "list_all word_ok ws \<Longrightarrow> parse_options (concat (map word_args ws) @ args) h d l =
     (case apply_words ws h of
        Inl e \<Rightarrow> Inl e
      | Inr h' \<Rightarrow> parse_options args h' (d \<or> has_duration ws) (l @ plain_words ws))"
proof (induction ws arbitrary: h d l)
  case (Cons w ws)
  show ?case
  proof (cases w)
    case (Plain s)
    then show ?thesis using Cons by (cases "apply_words ws h") simp_all
  next
    case (Alone opt)
    then show ?thesis using Cons by (cases "apply_option opt [] h") (simp_all split: sum.split)
  next
    case (With opt v)
    then show ?thesis using Cons
      by (cases "apply_option opt v h") (simp_all add: disj_assoc split: sum.split)
  qed
qed simp

lemma option_without_value:
  "takes_value opt \<Longrightarrow> list_all word_ok ws \<Longrightarrow> apply_words ws h = Inr h' \<Longrightarrow>
     parse_options (concat (map word_args ws) @ [option_string opt]) h d l = Inl Null_Deref"
  by (simp add: parse_words)

text \<open>
  The settings a command line can make, with their values; \<open>Megabytes True n\<close> is written with
  \<open>-footMB\<close>, and \<open>Megabytes False n\<close> with \<open>-foot\<close>.
\<close>

datatype setting =
    Threads nat | Megabytes bool nat | Kilobytes nat | Bytes nat | Seconds nat | Max_Ops nat
  | Backing_File string | Do_Reload | Do_Create | Do_Hang | Do_Nondet | Word string

fun setting_word :: "setting \<Rightarrow> arg_word" where
  "setting_word (Threads n) = With Tc (decimal n)"
| "setting_word (Megabytes mb n) = With (if mb then FootMB else Foot) (decimal n)"
| "setting_word (Kilobytes n) = With FootKB (decimal n)"
| "setting_word (Bytes n) = With FootB (decimal n)"
| "setting_word (Seconds n) = With Rt (decimal n)"
| "setting_word (Max_Ops n) = With Max (decimal n)"
| "setting_word (Backing_File s) = With File_Opt s"
| "setting_word Do_Reload = Alone Reload"
| "setting_word Do_Create = Alone Create"
| "setting_word Do_Hang = Alone Hang"
| "setting_word Do_Nondet = Alone Nondet"
| "setting_word (Word s) = Plain s"

definition command_line :: "setting list \<Rightarrow> string list" where
  "command_line ws = concat (map (\<lambda>s. word_args (setting_word s)) ws)"

fun setting_ok :: "setting \<Rightarrow> bool" where
  "setting_ok (Threads n) = (n < 2 ^ 31)"
| "setting_ok (Megabytes mb n) = (n * 1048576 < 2 ^ 63)"
| "setting_ok (Kilobytes n) = (n * 1024 < 2 ^ 63)"
| "setting_ok (Bytes n) = (n < 2 ^ 63)"
| "setting_ok (Seconds n) = (n < 2 ^ 31)"
| "setting_ok (Max_Ops n) = (n < 2 ^ 31)"
| "setting_ok (Word s) = (option_of s = None)"
| "setting_ok _ = True"

text \<open>What a list of settings means: of several values for one member, the last counts.\<close>

definition latest :: "'a \<Rightarrow> 'a list \<Rightarrow> 'a" where
  "latest d xs = (if xs = [] then d else last xs)"

fun foot_bytes :: "setting \<Rightarrow> int list" where
  "foot_bytes (Megabytes mb n) = [int n * 1048576]"
| "foot_bytes (Kilobytes n) = [int n * 1024]"
| "foot_bytes (Bytes n) = [int n]"
| "foot_bytes _ = []"

definition settings :: "setting list \<Rightarrow> harness" where
  "settings ws = harness0
     \<lparr>footPrintB := latest 0 (concat (map foot_bytes ws)),
      runTimeSeconds := latest 0 [int n. Seconds n \<leftarrow> ws],
      opCountSet := (\<exists>n. Max_Ops n \<in> set ws),
      threadCount := latest 1 [int n. Threads n \<leftarrow> ws],
      operationCount := latest 0 [int n. Max_Ops n \<leftarrow> ws],
      reload := Do_Reload \<in> set ws, create_flag := Do_Create \<in> set ws, hang := Do_Hang \<in> set ws,
      file_name_opt := latest [] [f. Backing_File f \<leftarrow> ws]\<rparr>"

lemma latest_simps [simp]: "latest d [] = d" "latest d (xs @ [x]) = x"
  by (simp_all add: latest_def)

lemma apply_words_snoc:
  "apply_words (ws @ [w]) h = (case apply_words ws h of Inl e \<Rightarrow> Inl e | Inr h' \<Rightarrow> apply_word w h')"
  by (induction ws arbitrary: h) (simp_all split: sum.splits)

lemma footprint_1: "footprint v 1 = map_sum id u64 (ll_mult v 1024)"
  by (simp add: map_sum_def split: sum.split)

lemma footprint_2: "footprint v 2 = (case ll_mult v 1024 of Inl e \<Rightarrow> Inl e | Inr v' \<Rightarrow> map_sum id u64 (ll_mult v' 1024))"
  by (simp add: numeral_2_eq_2 map_sum_def split: sum.split)

lemma apply_settings:
  "\<forall>s\<in>set ws. setting_ok s \<Longrightarrow>
     apply_words (map setting_word ws) (harness0\<lparr>run_name := name, system_name := system\<rparr>)
       = Inr ((settings ws)\<lparr>run_name := name, system_name := system\<rparr>)"
proof (induction ws rule: rev_induct)
  case Nil
  then show ?case by (simp add: settings_def harness0_def)
next
  case (snoc s ws)
  have IH: "apply_words (map setting_word ws) (harness0\<lparr>run_name := name, system_name := system\<rparr>)
       = Inr ((settings ws)\<lparr>run_name := name, system_name := system\<rparr>)" using snoc by simp
  have ok: "setting_ok s" using snoc.prems by simp
  have "apply_word (setting_word s) ((settings ws)\<lparr>run_name := name, system_name := system\<rparr>)
      = Inr ((settings (ws @ [s]))\<lparr>run_name := name, system_name := system\<rparr>)"
    using ok
    by (cases s) (auto simp: apply_option_def set_footprint_def settings_def atoi_decimal atoll_decimal
        u32_id u64_id footprint_2 footprint_1 ll_mult_def harness0_def)
  then show ?case by (simp add: apply_words_snoc IH del: setting_word.simps apply_word.simps)
qed

lemma settings_words:
  "\<forall>s\<in>set ws. setting_ok s \<Longrightarrow> list_all word_ok (map setting_word ws)"
proof (induction ws)
  case (Cons s ws)
  then show ?case by (cases s) (simp_all add: takes_value_def)
qed simp

lemma settings_duration:
  "has_duration (map setting_word ws) \<longleftrightarrow> (\<exists>n. Seconds n \<in> set ws \<or> Max_Ops n \<in> set ws)"
proof (induction ws)
  case (Cons s ws)
  then show ?case by (cases s) (auto simp: sets_duration_def)
qed simp

lemma settings_plain: "plain_words (map setting_word ws) = [s. Word s \<leftarrow> ws]"
proof (induction ws)
  case (Cons s ws)
  then show ?case by (cases s) simp_all
qed simp

lemma settings_range: "\<forall>s\<in>set ws. setting_ok s \<Longrightarrow> 0 \<le> runTimeSeconds (settings ws) \<and> runTimeSeconds (settings ws) < 2 ^ 31"
proof (induction ws rule: rev_induct)
  case (snoc s ws)
  then show ?case by (cases s) (simp_all add: settings_def)
qed (simp add: settings_def)

text \<open>
  C26: \<open>Init\<close> reads back every setting of a command line whose numbers are written in decimal and
  fit: threads, footprint in bytes, KB or MB, seconds, operations, file, and the flags.  Of several
  values for one setting the last counts, and otherwise the order does not matter.  The program
  exits exactly if there is no footprint, neither a time nor a count, both of them, or both
  \<open>-create\<close> and \<open>-reload\<close>; with no threads it crashes, and with \<open>-hang\<close> it hangs.  If \<open>Init\<close>
  returns, \<open>argv\<close> keeps the plain words, and the alarm is set if there is a time.  A line that ends
  with an option whose value is missing crashes.
\<close>

theorem init_roundtrip:
  assumes "\<forall>s\<in>set ws. setting_ok s"
  shows "(Init system (prog # name # command_line ws) harness0 =
     (let h = (settings ws)\<lparr>run_name := name, system_name := system\<rparr> in
      if footPrintB h = 0 \<or> \<not> (\<exists>n. Seconds n \<in> set ws \<or> Max_Ops n \<in> set ws)
        \<or> 0 < runTimeSeconds h \<and> 0 < operationCount h \<or> Do_Create \<in> set ws \<and> Do_Reload \<in> set ws
      then Some (Inl (Exit (-1)))
      else if threadCount h = 0 then Some (Inl (Trap Div_By_Zero))
      else if Do_Hang \<in> set ws then None
      else Some (Inr (prog # [s. Word s \<leftarrow> ws],
        h\<lparr>operationsPerThread := operationCount h div threadCount h, alarm_armed := (runTimeSeconds h \<noteq> 0)\<rparr>))))
    \<and> (takes_value opt \<longrightarrow>
      Init system (prog # name # command_line ws @ [option_string opt]) harness0 = Some (Inl (Trap Null_Deref)))"
proof (rule conjI)
  let ?start = "harness0\<lparr>run_name := name, system_name := system\<rparr>"
  let ?h = "(settings ws)\<lparr>run_name := name, system_name := system\<rparr>" and ?d = "\<exists>n. Seconds n \<in> set ws \<or> Max_Ops n \<in> set ws"
  note applied = apply_settings [OF assms, where name = name and system = system] and words = settings_words [OF assms]
  have line: "command_line ws = concat (map word_args (map setting_word ws))" by (simp add: command_line_def comp_def)
  have parsed: "parse_options (command_line ws) ?start False [prog] = Inr (?h, ?d, prog # [s. Word s \<leftarrow> ws])"
    using parse_words [OF words, of "[]" ?start False "[prog]"] applied unfolding line
    by (simp add: settings_duration settings_plain del: map_map)
  have flags: "create_flag ?h = (Do_Create \<in> set ws)" "reload ?h = (Do_Reload \<in> set ws)" "hang ?h = (Do_Hang \<in> set ws)"
      "timingIsSuspended ?h = False"
    by (simp_all add: settings_def harness0_def)
  have alarm: "u32 (runTimeSeconds ?h) = runTimeSeconds ?h" using settings_range [OF assms] by (simp add: u32_id)
  have started: "StartTiming (?h\<lparr>operationsPerThread := q\<rparr>) = (if Do_Hang \<in> set ws then None
      else Some (?h\<lparr>operationsPerThread := q, alarm_armed := (runTimeSeconds ?h \<noteq> 0)\<rparr>))" for q
    using flags alarm by (simp add: StartTiming_def)
  show "Init system (prog # name # command_line ws) harness0 =
     (let h = ?h in
      if footPrintB h = 0 \<or> \<not> ?d
        \<or> 0 < runTimeSeconds h \<and> 0 < operationCount h \<or> Do_Create \<in> set ws \<and> Do_Reload \<in> set ws
      then Some (Inl (Exit (-1)))
      else if threadCount h = 0 then Some (Inl (Trap Div_By_Zero))
      else if Do_Hang \<in> set ws then None
      else Some (Inr (prog # [s. Word s \<leftarrow> ws],
        h\<lparr>operationsPerThread := operationCount h div threadCount h, alarm_armed := (runTimeSeconds h \<noteq> 0)\<rparr>)))"
    using started flags by (simp add: Init_def parsed check_options_def Let_def)
  show "takes_value opt \<longrightarrow>
      Init system (prog # name # command_line ws @ [option_string opt]) harness0 = Some (Inl (Trap Null_Deref))"
    using option_without_value [OF _ words applied, where opt = opt and l = "[prog]" and d = False] unfolding line by (simp add: Init_def)
qed

theorem init_roundtrip_witness:
  "Init ''pmem'' [''bench'', ''run'', ''-max'', ''10'', ''data'', ''-tc'', ''4'', ''-footKB'', ''64'', ''-file'', ''f''] harness0
     = Some (Inr ([''bench'', ''data''], harness0\<lparr>footPrintB := 65536, opCountSet := True, threadCount := 4,
          operationCount := 10, operationsPerThread := 2, file_name_opt := ''f'', run_name := ''run'',
          system_name := ''pmem''\<rparr>))
   \<and> Init ''pmem'' [''bench'', ''run'', ''-rt'', ''4'', ''-footMB'', ''64'', ''-create'', ''-reload''] harness0
     = Some (Inl (Exit (-1)))
   \<and> Init ''pmem'' [''bench'', ''run'', ''-rt'', ''4'', ''-tc''] harness0 = Some (Inl (Trap Null_Deref))"
proof -
  have d: "decimal 10 = ''10''" "decimal 4 = ''4''" "decimal 64 = ''64''" by code_simp+
  have "option_of ''data'' = None" by code_simp
  then show ?thesis
    using init_roundtrip [of "[Max_Ops 10, Word ''data'', Threads 4, Kilobytes 64, Backing_File ''f'']"
        "''pmem''" "''bench''" "''run''"]
      init_roundtrip [of "[Seconds 4, Megabytes True 64, Do_Create, Do_Reload]" "''pmem''" "''bench''" "''run''"]
      init_roundtrip [of "[Seconds 4]" "''pmem''" "''bench''" "''run''" Tc]
    by (simp add: settings_def latest_def command_line_def option_string_def d takes_value_def Let_def harness0_def)
qed

end
