(* ===== verification/Harness_Run.thy ===== *)
theory Harness_Run
  imports Workload_Harness
begin

text \<open>
  \<open>RunOps\<close> and \<open>GenericThread\<close> of \<open>Util/NVTMWorkloadHarness.hpp\<close>: the main thread starts
  \<open>count\<close> threads and joins them; every thread meets the others at the start barrier, thread 0
  starts the timing, all meet at the run barrier, call the operation, add up what they did and
  meet at the run barrier again.  A step is one of these actions of one thread, one action of the
  operation, a test of \<open>isDone\<close>, one half of a barrier's \<open>Join\<close>, or the alarm.  The calls of
  different threads overlap: between two actions of a call anything else can happen.
\<close>

section \<open>State and steps\<close>

datatype run_pc =
    Unborn
  | Fresh                 \<comment> \<open>created, nothing executed\<close>
  | StartIn int           \<comment> \<open>before \<open>_startBarrier->Join ()\<close>, with \<open>threadOps\<close>\<close>
  | StartOut int
  | Timed int             \<comment> \<open>after the start barrier\<close>
  | RunIn int
  | RunOut int
  | Until int             \<comment> \<open>the loop up to \<open>isDone ()\<close>, with the calls so far\<close>
  | UntilCall int nat     \<comment> \<open>in a call in that loop, with the actions done\<close>
  | Upto int int          \<comment> \<open>the loop up to \<open>threadOps\<close>, with \<open>j\<close>\<close>
  | UptoCall int int nat  \<comment> \<open>in a call in that loop, with the actions done\<close>
  | Adding int
  | EndIn
  | EndOut
  | Finished

datatype run_main = Starting nat | Waiting nat | Returned | Aborted

record 'a run_state =
  glob :: harness
  startBarrier :: pbarrier
  runBarrier :: pbarrier
  run_main_at :: run_main
  run_at :: "nat \<Rightarrow> run_pc"
  shared :: 'a
  seeds :: "nat \<Rightarrow> 64 word"

text \<open>
  The operation is a parameter.  What the thread with number \<open>t\<close> does in a call is a list of
  actions: an access to the memory behind \<open>arg\<close> (and the thread's own variables, which are part
  of it here) and to the seed of the thread, or a call of \<open>CompletedOperation\<close>.  Each is atomic;
  a call whose length depends on the data is filled up with accesses that change nothing.
\<close>

datatype 'a op_action = Access "'a \<Rightarrow> 64 word \<Rightarrow> 'a \<times> 64 word" | Completed

type_synonym 'a operation = "nat \<Rightarrow> 'a op_action list"

definition act_op :: "nat \<Rightarrow> 'a op_action \<Rightarrow> 'a run_state \<Rightarrow> 'a run_state" where
  "act_op t act s =
     (case act of
        Access f \<Rightarrow>
          (let (a, seed) = f (shared s) (seeds s t) in s\<lparr>shared := a, seeds := (seeds s)(t := seed)\<rparr>)
      | Completed \<Rightarrow> s\<lparr>glob := CompletedOperations 1 (glob s)\<rparr>)"

definition run_goto :: "nat \<Rightarrow> run_pc \<Rightarrow> 'a run_state \<Rightarrow> 'a run_state" where
  "run_goto t pc s = s\<lparr>run_at := (run_at s)(t := pc)\<rparr>"

definition join_start :: "nat \<Rightarrow> run_pc \<Rightarrow> 'a run_state \<Rightarrow> 'a run_state option" where
  "join_start t pc s = map_option (\<lambda>b. run_goto t pc (s\<lparr>startBarrier := b\<rparr>)) (pjoin_step t (startBarrier s))"

definition join_run :: "nat \<Rightarrow> run_pc \<Rightarrow> 'a run_state \<Rightarrow> 'a run_state option" where
  "join_run t pc s = map_option (\<lambda>b. run_goto t pc (s\<lparr>runBarrier := b\<rparr>)) (pjoin_step t (runBarrier s))"

text \<open>\<open>GenericThread\<close>; the thread's number is \<open>args->id\<close>.\<close>

definition thread_step :: "'a operation \<Rightarrow> nat \<Rightarrow> 'a run_state \<Rightarrow> 'a run_state option" where
  "thread_step opf t s =
     (case run_at s t of
        Unborn \<Rightarrow> None
      | Fresh \<Rightarrow> Some (run_goto t (StartIn (u32 (operationsPerThread (glob s)))) s)
      | StartIn k \<Rightarrow> join_start t (StartOut k) s
      | StartOut k \<Rightarrow> join_start t (Timed k) s
      | Timed k \<Rightarrow>
          if t = 0 then map_option (\<lambda>h. run_goto t (RunIn k) (s\<lparr>glob := h\<rparr>)) (StartTiming (glob s))
          else Some (run_goto t (RunIn k) s)
      | RunIn k \<Rightarrow> join_run t (RunOut k) s
      | RunOut k \<Rightarrow> join_run t (if k = 0 then Until 0 else Upto k 0) s
      | Until c \<Rightarrow>
          Some (if isDone (glob s) then run_goto t (Adding c) s else run_goto t (UntilCall c 0) s)
      | UntilCall c i \<Rightarrow>
          Some (if i < length (opf t) then run_goto t (UntilCall c (Suc i)) (act_op t (opf t ! i) s)
                else run_goto t (Until (u32 (c + 1))) s)
      | Upto k j \<Rightarrow>
          Some (if j < k then run_goto t (UptoCall k j 0) s else run_goto t (Adding k) s)
      | UptoCall k j i \<Rightarrow>
          Some (if i < length (opf t) then run_goto t (UptoCall k j (Suc i)) (act_op t (opf t ! i) s)
                else run_goto t (Upto k (j + 1)) s)
      | Adding c \<Rightarrow> Some (run_goto t EndIn (s\<lparr>glob := CompletedOperations (word_of_int c) (glob s)\<rparr>))
      | EndIn \<Rightarrow> join_run t EndOut s
      | EndOut \<Rightarrow> join_run t Finished s
      | Finished \<Rightarrow> None)"

text \<open>\<open>RunOps\<close>: \<open>rnd i\<close> is the value of \<open>rand ()\<close> in the constructor of the \<open>i\<close>-th \<open>RunArgs\<close>.\<close>

definition runops_step :: "(nat \<Rightarrow> 64 word) \<Rightarrow> nat \<Rightarrow> 'a run_state \<Rightarrow> 'a run_state option" where
  "runops_step rnd n s =
     (case run_main_at s of
        Starting i \<Rightarrow>
          if i < n
          then if rnd i = 0 then Some (s\<lparr>run_main_at := Aborted\<rparr>)
               else Some (run_goto i Fresh (s\<lparr>seeds := (seeds s)(i := rnd i), run_main_at := Starting (Suc i)\<rparr>))
          else Some (s\<lparr>run_main_at := Waiting 0\<rparr>)
      | Waiting i \<Rightarrow>
          if i < n then (if run_at s i = Finished then Some (s\<lparr>run_main_at := Waiting (Suc i)\<rparr>) else None)
          else Some (s\<lparr>run_main_at := Returned\<rparr>)
      | Returned \<Rightarrow> None
      | Aborted \<Rightarrow> None)"

definition alarm_step :: "'a run_state \<Rightarrow> 'a run_state option" where
  "alarm_step s =
     (if alarm_armed (glob s) then Some (s\<lparr>glob := StopSignal ((glob s)\<lparr>alarm_armed := False\<rparr>)\<rparr>) else None)"

definition run_init :: "nat \<Rightarrow> harness \<Rightarrow> 'a \<Rightarrow> 'a run_state" where
  "run_init n h a = \<lparr>glob = h, startBarrier = pthread_barrier_init n, runBarrier = pthread_barrier_init n,
     run_main_at = Starting 0, run_at = \<lambda>_. Unborn, shared = a, seeds = \<lambda>_. 0\<rparr>"

text \<open>After \<open>abort ()\<close> in the assertion no thread goes on.\<close>

inductive run_step :: "'a operation \<Rightarrow> (nat \<Rightarrow> 64 word) \<Rightarrow> nat \<Rightarrow> 'a run_state \<Rightarrow> 'a run_state \<Rightarrow> bool"
  for opf rnd n s where
  thread: "run_main_at s \<noteq> Aborted \<Longrightarrow> t < n \<Longrightarrow> thread_step opf t s = Some s' \<Longrightarrow> run_step opf rnd n s s'"
| main: "runops_step rnd n s = Some s' \<Longrightarrow> run_step opf rnd n s s'"
| alarm: "run_main_at s \<noteq> Aborted \<Longrightarrow> alarm_step s = Some s' \<Longrightarrow> run_step opf rnd n s s'"

inductive run_reach :: "'a operation \<Rightarrow> (nat \<Rightarrow> 64 word) \<Rightarrow> nat \<Rightarrow> 'a run_state \<Rightarrow> 'a run_state \<Rightarrow> bool"
  for opf rnd n s0 where
  init: "run_reach opf rnd n s0 s0"
| step: "run_reach opf rnd n s0 s \<Longrightarrow> run_step opf rnd n s s' \<Longrightarrow> run_reach opf rnd n s0 s'"

section \<open>The barriers in a run\<close>

fun start_joins :: "run_pc \<Rightarrow> nat" where
  "start_joins Unborn = 0" | "start_joins Fresh = 0" | "start_joins (StartIn k) = 0" | "start_joins _ = 1"

fun start_passes :: "run_pc \<Rightarrow> nat" where
  "start_passes (StartOut k) = 0" | "start_passes pc = start_joins pc"

fun run_joins :: "run_pc \<Rightarrow> nat" where
  "run_joins (RunOut k) = 1" | "run_joins (Until c) = 1" | "run_joins (UntilCall c i) = 1"
| "run_joins (Upto k j) = 1" | "run_joins (UptoCall k j i) = 1" | "run_joins (Adding c) = 1"
| "run_joins EndIn = 1" | "run_joins EndOut = 2" | "run_joins Finished = 2" | "run_joins _ = 0"

fun run_passes :: "run_pc \<Rightarrow> nat" where
  "run_passes (RunOut k) = 0" | "run_passes EndOut = 1" | "run_passes pc = run_joins pc"

lemma in_round_inside:
  assumes "pb.in_round n b joins passes r" "t < n"
  shows "t \<in> waiting b \<union> released b \<longleftrightarrow> joins t \<noteq> passes t"
  using assms by (auto simp: pb.in_round_def split: if_splits)

text \<open>A thread that takes one half of a \<open>Join\<close>, as its program counter says.\<close>

lemma join_round:
  fixes pcs :: "nat \<Rightarrow> run_pc"
  assumes r: "pb.in_round n b (f \<circ> pcs) (g \<circ> pcs) r" and b: "expected b = n" and t: "t < n"
    and step: "pjoin_step t b = Some b'"
    and pc: "(f (pcs t) = g (pcs t) \<and> f pc' = Suc (f (pcs t)) \<and> g pc' = g (pcs t))
      \<or> (f (pcs t) = Suc (g (pcs t)) \<and> f pc' = f (pcs t) \<and> g pc' = Suc (g (pcs t)))"
  shows "(\<exists>r'. pb.in_round n b' (f \<circ> pcs(t := pc')) (g \<circ> pcs(t := pc')) r') \<and> expected b' = n"
proof -
  have inv: "pinv n b" using r b by (simp add: pinv_def pb.in_round_def)
  have inside: "t \<in> waiting b \<union> released b \<longleftrightarrow> f (pcs t) \<noteq> g (pcs t)"
    using in_round_inside [OF r t] by simp
  obtain r' where r': "pb.in_round n b'
      (if t \<notin> waiting b \<union> released b \<and> t \<in> waiting b' \<union> released b' then (f \<circ> pcs)(t := Suc ((f \<circ> pcs) t)) else f \<circ> pcs)
      (if t \<in> released b \<and> t \<notin> released b' then (g \<circ> pcs)(t := Suc ((g \<circ> pcs) t)) else g \<circ> pcs) r'"
    using pb.in_round_step [OF r t pb.act_view [OF inv t step]] by blast
  have upd: "h \<circ> pcs(t := pc') = (if h pc' = h (pcs t) then h \<circ> pcs else (h \<circ> pcs)(t := h pc'))" for h :: "run_pc \<Rightarrow> nat"
    by (auto simp: fun_eq_iff)
  from pc show ?thesis
  proof (elim disjE)
    assume e: "f (pcs t) = g (pcs t) \<and> f pc' = Suc (f (pcs t)) \<and> g pc' = g (pcs t)"
    then have "t \<notin> waiting b \<union> released b" using inside by simp
    moreover from this have "t \<in> waiting b' \<union> released b'" "expected b' = n"
      using step b by (auto simp: pjoin_step_def barrier_enter_def split: if_splits)
    ultimately show ?thesis using r' e by (auto simp: upd)
  next
    assume l: "f (pcs t) = Suc (g (pcs t)) \<and> f pc' = f (pcs t) \<and> g pc' = Suc (g (pcs t))"
    then have "t \<in> waiting b \<union> released b" using inside by simp
    moreover from this have "t \<in> released b" "t \<notin> released b'" "expected b' = n"
      using step b by (auto simp: pjoin_step_def barrier_leave_def split: if_splits)
    ultimately show ?thesis using r' l by (auto simp: upd)
  qed
qed

definition barriers_ok :: "nat \<Rightarrow> 'a run_state \<Rightarrow> bool" where
  "barriers_ok n s \<longleftrightarrow> expected (startBarrier s) = n \<and> expected (runBarrier s) = n
     \<and> (\<exists>r. pb.in_round n (startBarrier s) (start_joins \<circ> run_at s) (start_passes \<circ> run_at s) r)
     \<and> (\<exists>r. pb.in_round n (runBarrier s) (run_joins \<circ> run_at s) (run_passes \<circ> run_at s) r)"

lemma run_sel [simp]:
  "run_at (run_goto t pc s) = (run_at s)(t := pc)" "glob (run_goto t pc s) = glob s"
  "startBarrier (run_goto t pc s) = startBarrier s" "runBarrier (run_goto t pc s) = runBarrier s"
  "run_main_at (run_goto t pc s) = run_main_at s" "shared (run_goto t pc s) = shared s"
  "seeds (run_goto t pc s) = seeds s"
  by (simp_all add: run_goto_def)

lemma act_sel [simp]:
  "run_at (act_op t x s) = run_at s" "startBarrier (act_op t x s) = startBarrier s"
  "runBarrier (act_op t x s) = runBarrier s" "run_main_at (act_op t x s) = run_main_at s"
  by (simp_all add: act_op_def case_prod_unfold Let_def split: op_action.split)

lemma act_glob:
  "alarm_armed (glob (act_op t x s)) = alarm_armed (glob s)" "hang (glob (act_op t x s)) = hang (glob s)"
  "finished (glob (act_op t x s)) = finished (glob s)"
  "timingIsSuspended (glob (act_op t x s)) = timingIsSuspended (glob s)"
  "runTimeSeconds (glob (act_op t x s)) = runTimeSeconds (glob s)"
  "operationsPerThread (glob (act_op t x s)) = operationsPerThread (glob s)"
  "operationCount (glob (act_op t x s)) = operationCount (glob s)"
  by (simp_all add: act_op_def case_prod_unfold Let_def CompletedOperations_def split: op_action.split)

lemma comp_upd_same:
  fixes pcs :: "nat \<Rightarrow> run_pc"
  shows "h pc = h (pcs t) \<Longrightarrow> h \<circ> pcs(t := pc) = h \<circ> pcs"
  by (auto simp: fun_eq_iff)

text \<open>A step that moves a thread outside the barriers, or none.\<close>

lemma barriers_same:
  assumes "barriers_ok n s" "startBarrier s' = startBarrier s" "runBarrier s' = runBarrier s"
    and "run_at s' = (run_at s)(t := pc)"
    and "start_joins pc = start_joins (run_at s t)" "start_passes pc = start_passes (run_at s t)"
    and "run_joins pc = run_joins (run_at s t)" "run_passes pc = run_passes (run_at s t)"
  shows "barriers_ok n s'"
  using assms by (simp add: barriers_ok_def comp_upd_same)

lemma barriers_join_start:
  assumes "barriers_ok n s" "t < n" "join_start t pc s = Some s'"
    and "run_joins pc = run_joins (run_at s t)" "run_passes pc = run_passes (run_at s t)"
    and "(start_joins (run_at s t) = start_passes (run_at s t) \<and> start_joins pc = Suc (start_joins (run_at s t))
           \<and> start_passes pc = start_passes (run_at s t))
      \<or> (start_joins (run_at s t) = Suc (start_passes (run_at s t)) \<and> start_joins pc = start_joins (run_at s t)
           \<and> start_passes pc = Suc (start_passes (run_at s t)))"
  shows "barriers_ok n s'"
proof -
  obtain b where b: "pjoin_step t (startBarrier s) = Some b" "s' = run_goto t pc (s\<lparr>startBarrier := b\<rparr>)"
    using assms(3) by (auto simp: join_start_def)
  obtain r where "pb.in_round n (startBarrier s) (start_joins \<circ> run_at s) (start_passes \<circ> run_at s) r"
    "expected (startBarrier s) = n" using assms(1) by (auto simp: barriers_ok_def)
  from join_round [OF this assms(2) b(1) assms(6)] show ?thesis
    using assms(1,4,5) by (simp add: barriers_ok_def b(2) comp_upd_same)
qed

lemma barriers_join_run:
  assumes "barriers_ok n s" "t < n" "join_run t pc s = Some s'"
    and "start_joins pc = start_joins (run_at s t)" "start_passes pc = start_passes (run_at s t)"
    and "(run_joins (run_at s t) = run_passes (run_at s t) \<and> run_joins pc = Suc (run_joins (run_at s t))
           \<and> run_passes pc = run_passes (run_at s t))
      \<or> (run_joins (run_at s t) = Suc (run_passes (run_at s t)) \<and> run_joins pc = run_joins (run_at s t)
           \<and> run_passes pc = Suc (run_passes (run_at s t)))"
  shows "barriers_ok n s'"
proof -
  obtain b where b: "pjoin_step t (runBarrier s) = Some b" "s' = run_goto t pc (s\<lparr>runBarrier := b\<rparr>)"
    using assms(3) by (auto simp: join_run_def)
  obtain r where "pb.in_round n (runBarrier s) (run_joins \<circ> run_at s) (run_passes \<circ> run_at s) r"
    "expected (runBarrier s) = n" using assms(1) by (auto simp: barriers_ok_def)
  from join_round [OF this assms(2) b(1) assms(6)] show ?thesis
    using assms(1,4,5) by (simp add: barriers_ok_def b(2) comp_upd_same)
qed

lemma barriers_thread:
  assumes ok: "barriers_ok n s" and t: "t < n" and step: "thread_step opf t s = Some s'"
  shows "barriers_ok n s'"
proof (cases "run_at s t")
  case (StartIn k)
  then show ?thesis using barriers_join_start [OF ok t, of "StartOut k" s'] step by (simp add: thread_step_def)
next
  case (StartOut k)
  then show ?thesis using barriers_join_start [OF ok t, of "Timed k" s'] step by (simp add: thread_step_def)
next
  case (RunIn k)
  then show ?thesis using barriers_join_run [OF ok t, of "RunOut k" s'] step by (simp add: thread_step_def)
next
  case (RunOut k)
  then show ?thesis
    using barriers_join_run [OF ok t, of "if k = 0 then Until 0 else Upto k 0" s'] step
    by (simp add: thread_step_def)
next
  case EndIn
  then show ?thesis using barriers_join_run [OF ok t, of EndOut s'] step by (simp add: thread_step_def)
next
  case EndOut
  then show ?thesis using barriers_join_run [OF ok t, of Finished s'] step by (simp add: thread_step_def)
qed (use step in \<open>auto simp: thread_step_def split: if_splits intro: barriers_same [OF ok]\<close>)

fun started :: "nat \<Rightarrow> run_main \<Rightarrow> nat" where
  "started n (Starting i) = i"
| "started n _ = n"

definition starts_ok :: "nat \<Rightarrow> 'a run_state \<Rightarrow> bool" where
  "starts_ok n s \<longleftrightarrow> (run_main_at s \<noteq> Aborted \<longrightarrow> started n (run_main_at s) \<le> n
     \<and> (\<forall>t. run_at s t = Unborn \<longleftrightarrow> started n (run_main_at s) \<le> t)
     \<and> (\<forall>i. run_main_at s = Waiting i \<longrightarrow> i \<le> n \<and> (\<forall>t<i. run_at s t = Finished))
     \<and> (run_main_at s = Returned \<longrightarrow> (\<forall>t<n. run_at s t = Finished)))"

lemma thread_moves_born:
  "thread_step opf t s = Some s' \<Longrightarrow> run_at s t \<noteq> Unborn \<and> run_at s t \<noteq> Finished
     \<and> run_main_at s' = run_main_at s \<and> (\<exists>pc. pc \<noteq> Unborn \<and> run_at s' = (run_at s)(t := pc))"
  by (cases "run_at s t")
    (auto simp: thread_step_def join_start_def join_run_def split: if_splits)

lemma starts_thread:
  assumes "starts_ok n s" "thread_step opf t s = Some s'"
  shows "starts_ok n s'"
  using assms(1) thread_moves_born [OF assms(2)] by (auto simp: starts_ok_def split: if_splits)

lemma runops_cases:
  assumes "runops_step rnd n s = Some s'"
  obtains i where "run_main_at s = Starting i" "i < n" "rnd i = 0" "s' = s\<lparr>run_main_at := Aborted\<rparr>"
  | i where "run_main_at s = Starting i" "i < n" "rnd i \<noteq> 0"
      "s' = run_goto i Fresh (s\<lparr>seeds := (seeds s)(i := rnd i), run_main_at := Starting (Suc i)\<rparr>)"
  | i where "run_main_at s = Starting i" "n \<le> i" "s' = s\<lparr>run_main_at := Waiting 0\<rparr>"
  | i where "run_main_at s = Waiting i" "i < n" "run_at s i = Finished" "s' = s\<lparr>run_main_at := Waiting (Suc i)\<rparr>"
  | i where "run_main_at s = Waiting i" "n \<le> i" "s' = s\<lparr>run_main_at := Returned\<rparr>"
  using assms by (cases "run_main_at s") (auto simp: runops_step_def split: if_splits)

lemma starts_main:
  assumes ok: "starts_ok n s" and step: "runops_step rnd n s = Some s'"
  shows "starts_ok n s'"
  using step
proof (cases rule: runops_cases)
  case (2 i)
  then have born: "run_at s t = Unborn \<longleftrightarrow> i \<le> t" for t using ok by (simp add: starts_ok_def)
  have "run_at s' t = Unborn \<longleftrightarrow> Suc i \<le> t" for t
    using born [of t] by (cases "t = i") (simp add: 2(4), simp add: 2(4), arith)
  then show ?thesis using 2 by (simp add: starts_ok_def)
next
  case (4 i)
  then have "\<forall>t<Suc i. run_at s t = Finished" using ok by (auto simp: starts_ok_def less_Suc_eq)
  then show ?thesis using 4 ok by (simp add: starts_ok_def)
qed (use ok in \<open>simp_all add: starts_ok_def\<close>)

lemma barriers_main:
  assumes ok: "barriers_ok n s" and starts: "starts_ok n s" and step: "runops_step rnd n s = Some s'"
  shows "barriers_ok n s'"
  using step
proof (cases rule: runops_cases)
  case (2 i)
  then have "run_at s i = Unborn" using starts by (simp add: starts_ok_def)
  then show ?thesis using barriers_same [OF ok, of s' i Fresh] 2 by simp
qed (use ok in \<open>auto simp: barriers_ok_def\<close>)

lemma barriers_init: "barriers_ok n (run_init n h a)"
proof -
  have "f \<circ> (\<lambda>_ :: nat. Unborn) = (\<lambda>_. 0)" if "f Unborn = 0" for f :: "run_pc \<Rightarrow> nat"
    using that by (simp add: fun_eq_iff)
  then have "pb.in_round n (pthread_barrier_init n) (f \<circ> (\<lambda>_. Unborn)) (g \<circ> (\<lambda>_. Unborn)) 0"
    if "f Unborn = 0" "g Unborn = 0" for f g :: "run_pc \<Rightarrow> nat"
    using pb.in_round_start [of n] that by simp
  then show ?thesis
    unfolding barriers_ok_def run_init_def by (auto simp: pthread_barrier_init_def intro!: exI [of _ 0])
qed

lemma run_reach_ok:
  "run_reach opf rnd n (run_init n h a) s \<Longrightarrow> barriers_ok n s \<and> starts_ok n s"
proof (induction rule: run_reach.induct)
  case init
  then show ?case using barriers_init by (simp add: starts_ok_def run_init_def)
next
  case (step s s')
  from step(2) show ?case
  proof (cases rule: run_step.cases)
    case alarm
    then show ?thesis using step.IH by (auto simp: alarm_step_def barriers_ok_def starts_ok_def split: if_splits)
  qed (use step.IH in \<open>auto intro: barriers_thread barriers_main starts_thread starts_main\<close>)
qed

lemma run_passes_joins:
  assumes ok: "barriers_ok n s" and t: "t < n" "u < n"
  shows "run_passes (run_at s t) \<le> run_joins (run_at s u)" "start_passes (run_at s t) \<le> start_joins (run_at s u)"
proof -
  have bound: "passes t \<le> joins u" if "pb.in_round n b joins passes r" for b joins passes r
  proof -
    have "Suc (passes t) \<le> Suc r" "r \<le> joins u" using that t by (auto simp: pb.in_round_def)
    then show ?thesis by simp
  qed
  show "run_passes (run_at s t) \<le> run_joins (run_at s u)" "start_passes (run_at s t) \<le> start_joins (run_at s u)"
    using ok bound by (fastforce simp: barriers_ok_def)+
qed

fun calling :: "run_pc \<Rightarrow> bool" where
  "calling (Until c) = True"
| "calling (UntilCall c i) = True"
| "calling (Upto k j) = True"
| "calling (UptoCall k j i) = True"
| "calling _ = False"

fun_cases callingE: "calling pc"

text \<open>Past the start barrier and, for thread 0, past \<open>StartTiming\<close>.\<close>

fun launched :: "run_pc \<Rightarrow> bool" where
  "launched Unborn = False" | "launched Fresh = False" | "launched (StartIn k) = False"
| "launched (StartOut k) = False" | "launched (Timed k) = False" | "launched _ = True"

text \<open>
  What \<open>StartTiming\<close> leaves in the members: the timing is not suspended, and if there is a time
  limit the alarm is set, or has come since then and ended the timed part.
\<close>

definition timing_on :: "harness \<Rightarrow> bool" where
  "timing_on h \<longleftrightarrow> \<not> timingIsSuspended h \<and> \<not> hang h \<and> (u32 (runTimeSeconds h) \<noteq> 0 \<longrightarrow> alarm_armed h \<or> finished h)"

lemma CompletedOperations_other [simp]:
  "timingIsSuspended (CompletedOperations w h) = timingIsSuspended h"
  "finished (CompletedOperations w h) = finished h"
  "runTimeSeconds (CompletedOperations w h) = runTimeSeconds h"
  "alarm_armed (CompletedOperations w h) = alarm_armed h" "hang (CompletedOperations w h) = hang h"
  by (simp_all add: CompletedOperations_def)

lemma timing_thread:
  assumes "launched (run_at s 0) \<longrightarrow> timing_on (glob s)" "thread_step opf t s = Some s'"
  shows "launched (run_at s' 0) \<longrightarrow> timing_on (glob s')"
  using assms
  by (cases "run_at s t"; cases "t = 0")
    (auto simp: thread_step_def join_start_def join_run_def timing_on_def StartTiming_def act_glob split: if_splits)

lemma timing_reach:
  "run_reach opf rnd n (run_init n h a) s \<Longrightarrow> launched (run_at s 0) \<longrightarrow> timing_on (glob s)"
proof (induction rule: run_reach.induct)
  case (step s s')
  from step(2) show ?case
  proof (cases rule: run_step.cases)
    case (thread t)
    from timing_thread [OF step.IH thread(3)] show ?thesis .
  next
    case main
    then show ?thesis using step.IH by (cases rule: runops_cases) (auto simp: timing_on_def)
  next
    case alarm
    then show ?thesis using step.IH by (auto simp: alarm_step_def timing_on_def StopSignal_def split: if_splits)
  qed
qed (simp add: run_init_def)

text \<open>The phases of a run, in their order: a thread enters the next one at each \<open>Join\<close>.\<close>

datatype run_phase = Assembling | Launching | Operating | Closing

fun phase_rank :: "run_phase \<Rightarrow> nat" where
  "phase_rank Assembling = 0" | "phase_rank Launching = 1" | "phase_rank Operating = 2" | "phase_rank Closing = 3"

lemma phase_rank_inj: "phase_rank p = phase_rank q \<longleftrightarrow> p = q"
  by (cases p; cases q) simp_all

instantiation run_phase :: linorder
begin

definition less_eq_run_phase :: "run_phase \<Rightarrow> run_phase \<Rightarrow> bool" where
  "less_eq_run_phase p q \<longleftrightarrow> phase_rank p \<le> phase_rank q"

definition less_run_phase :: "run_phase \<Rightarrow> run_phase \<Rightarrow> bool" where
  "less_run_phase p q \<longleftrightarrow> phase_rank p < phase_rank q"

instance
  by standard (auto simp: less_eq_run_phase_def less_run_phase_def phase_rank_inj)

end

definition phase_after :: "nat \<Rightarrow> nat \<Rightarrow> run_phase" where
  "phase_after starts runs =
     (if runs = 0 then if starts = 0 then Assembling else Launching
      else if runs = 1 then Operating else Closing)"

definition entered_phase :: "run_pc \<Rightarrow> run_phase" where
  "entered_phase pc = phase_after (start_joins pc) (run_joins pc)"

definition admitted_phase :: "run_pc \<Rightarrow> run_phase" where
  "admitted_phase pc = phase_after (start_passes pc) (run_passes pc)"

lemma phase_after_mono: "i \<le> j \<Longrightarrow> k \<le> l \<Longrightarrow> phase_after i k \<le> phase_after j l"
  by (auto simp: phase_after_def less_eq_run_phase_def)

text \<open>
  C24: the phases of a run, for every interleaving and every operation: no thread is admitted to a
  phase that another thread has not entered.  While any thread is in the loop that calls the
  operation, every thread has left the start barrier and \<open>StartTiming\<close> has been executed: the
  timing is not suspended (even if it was before the run), and the alarm of a time limit is set,
  or has come and set \<open>_finished\<close>.  Once a thread has finished, no thread calls the operation and
  every one has added its count.
\<close>

theorem run_phases:
  assumes "run_reach opf rnd n (run_init n h a) s" "t < n" "u < n"
  shows "admitted_phase (run_at s t) \<le> entered_phase (run_at s u)
    \<and> (calling (run_at s t) \<longrightarrow> launched (run_at s u) \<and> \<not> timingIsSuspended (glob s)
          \<and> (u32 (runTimeSeconds (glob s)) \<noteq> 0 \<longrightarrow> alarm_armed (glob s) \<or> finished (glob s)))
    \<and> (run_at s t = Finished \<longrightarrow> run_at s u = EndOut \<or> run_at s u = Finished)"
proof -
  have ok: "barriers_ok n s" using run_reach_ok [OF assms(1)] by blast
  note le = run_passes_joins [OF ok assms(2,3)]
  have "admitted_phase (run_at s t) \<le> entered_phase (run_at s u)"
    using phase_after_mono [OF le(2,1)] by (simp add: admitted_phase_def entered_phase_def)
  moreover have "launched (run_at s v)" if "calling (run_at s t)" "v < n" for v
    using that(1) run_passes_joins(1) [OF ok assms(2) that(2)] by (elim callingE) (cases "run_at s v"; simp)+
  then have "launched (run_at s u) \<and> timing_on (glob s)" if "calling (run_at s t)"
    using that assms(2,3) timing_reach [OF assms(1)] by simp
  moreover have "run_at s u = EndOut \<or> run_at s u = Finished" if "run_at s t = Finished"
    using that le(1) by (cases "run_at s u") simp_all
  ultimately show ?thesis unfolding timing_on_def by blast
qed

section \<open>Runs with a count\<close>

text \<open>\<open>L\<close> is the number of actions of a call, \<open>K\<close> that of the calls.\<close>

fun fixed_pc :: "nat \<Rightarrow> int \<Rightarrow> run_pc \<Rightarrow> bool" where
  "fixed_pc L K (StartIn k) = (k = K)" | "fixed_pc L K (StartOut k) = (k = K)" | "fixed_pc L K (Timed k) = (k = K)"
| "fixed_pc L K (RunIn k) = (k = K)" | "fixed_pc L K (RunOut k) = (k = K)" | "fixed_pc L K (Adding k) = (k = K)"
| "fixed_pc L K (Upto k j) = (k = K \<and> 0 \<le> j \<and> j \<le> K)"
| "fixed_pc L K (UptoCall k j i) = (k = K \<and> 0 \<le> j \<and> j < K \<and> i \<le> L)"
| "fixed_pc L K (Until c) = False" | "fixed_pc L K (UntilCall c i) = False" | "fixed_pc L K _ = True"

fun actions_of :: "nat \<Rightarrow> int \<Rightarrow> run_pc \<Rightarrow> nat" where
  "actions_of L K (Upto k j) = nat j * L" | "actions_of L K (UptoCall k j i) = nat j * L + i"
| "actions_of L K (Adding c) = nat K * L" | "actions_of L K EndIn = nat K * L"
| "actions_of L K EndOut = nat K * L" | "actions_of L K Finished = nat K * L" | "actions_of L K _ = 0"

text \<open>The calls of \<open>CompletedOperation\<close> in a list of actions, and what a thread has counted so far.\<close>

primrec is_completed :: "'a op_action \<Rightarrow> bool" where
  "is_completed (Access f) = False"
| "is_completed Completed = True"

definition completed_in :: "'a op_action list \<Rightarrow> nat" where
  "completed_in as = length (filter is_completed as)"

fun added_of :: "'a op_action list \<Rightarrow> int \<Rightarrow> run_pc \<Rightarrow> 64 word" where
  "added_of as K (Upto k j) = word_of_nat (nat j * completed_in as)"
| "added_of as K (UptoCall k j i) = word_of_nat (nat j * completed_in as + completed_in (take i as))"
| "added_of as K (Adding c) = word_of_nat (nat K * completed_in as)"
| "added_of as K EndIn = word_of_nat (nat K * completed_in as) + word_of_int K"
| "added_of as K EndOut = word_of_nat (nat K * completed_in as) + word_of_int K"
| "added_of as K Finished = word_of_nat (nat K * completed_in as) + word_of_int K"
| "added_of as K _ = 0"

lemma completed_in_take [simp]: "completed_in [] = 0" "completed_in (take (length as) as) = completed_in as"
  by (simp_all add: completed_in_def)

lemma completed_in_Suc:
  "i < length as \<Longrightarrow> completed_in (take (Suc i) as) = completed_in (take i as) + (if is_completed (as ! i) then 1 else 0)"
  by (simp add: completed_in_def take_Suc_conv_app_nth)

text \<open>
  A sequence of actions, by the threads that make them, on the memory, the seeds and the numbers
  of actions made: a thread goes through the actions of its calls in their order.
\<close>

definition apply_action :: "'a operation \<Rightarrow> 'a \<times> (nat \<Rightarrow> 64 word) \<times> (nat \<Rightarrow> nat) \<Rightarrow> nat
    \<Rightarrow> 'a \<times> (nat \<Rightarrow> 64 word) \<times> (nat \<Rightarrow> nat)" where
  "apply_action opf st t =
     (let (a, sds, made) = st
      in case opf t ! (made t mod length (opf t)) of
           Access f \<Rightarrow> (let (b, seed) = f a (sds t) in (b, sds(t := seed), made(t := Suc (made t))))
         | Completed \<Rightarrow> (a, sds, made(t := Suc (made t))))"

definition silent :: "'a operation \<Rightarrow> bool" where
  "silent opf \<longleftrightarrow> (\<forall>t. completed_in (opf t) = 0)"

definition eff_seeds :: "(nat \<Rightarrow> 64 word) \<Rightarrow> 'a run_state \<Rightarrow> nat \<Rightarrow> 64 word" where
  "eff_seeds rnd s t = (if run_at s t = Unborn then rnd t else seeds s t)"

definition called_by :: "'a operation \<Rightarrow> (nat \<Rightarrow> 64 word) \<Rightarrow> 'a \<Rightarrow> 'a run_state \<Rightarrow> nat list \<Rightarrow> bool" where
  "called_by opf rnd a s xs \<longleftrightarrow>
     foldl (apply_action opf) (a, rnd, \<lambda>_. 0) xs = (shared s, eff_seeds rnd s, count_list xs)"

definition fixed_inv :: "'a operation \<Rightarrow> (nat \<Rightarrow> 64 word) \<Rightarrow> nat \<Rightarrow> harness \<Rightarrow> 'a \<Rightarrow> 'a run_state \<Rightarrow> bool" where
  "fixed_inv opf rnd n h a s \<longleftrightarrow>
     (let K = u32 (operationsPerThread h) in
        operationsPerThread (glob s) = operationsPerThread h
        \<and> (\<forall>t. fixed_pc (length (opf t)) K (run_at s t))
        \<and> operationsCompleted (glob s) = operationsCompleted h + (\<Sum>t<n. added_of (opf t) K (run_at s t))
        \<and> (\<exists>xs. called_by opf rnd a s xs \<and> (\<forall>t. count_list xs t = actions_of (length (opf t)) K (run_at s t))))"

lemma CompletedOperations_sel [simp]:
  "operationsCompleted (CompletedOperations w h) = operationsCompleted h + w"
  "operationsPerThread (CompletedOperations w h) = operationsPerThread h"
  "operationCount (CompletedOperations w h) = operationCount h"
  by (simp_all add: CompletedOperations_def exchange_and_add_vllong_def xadd_def)

lemma sum_pc_upd:
  fixes f :: "nat \<Rightarrow> run_pc \<Rightarrow> 64 word" and t :: nat
  assumes "t < n"
  shows "(\<Sum>u<n. f u ((pcs(t := pc)) u)) = (\<Sum>u<n. f u (pcs u)) - f t (pcs t) + f t pc"
proof -
  have "(\<Sum>u<n. f u ((pcs(t := pc)) u)) = f t pc + (\<Sum>u\<in>{..<n} - {t}. f u (pcs u))"
    by (subst sum.remove [of "{..<n}" t]) (use assms in auto)
  moreover have "(\<Sum>u<n. f u (pcs u)) = f t (pcs t) + (\<Sum>u\<in>{..<n} - {t}. f u (pcs u))"
    by (subst sum.remove [of "{..<n}" t]) (use assms in auto)
  ultimately show ?thesis by simp
qed

text \<open>A step of a thread, without an action of the operation or with one.\<close>

lemma fixed_step:
  assumes inv: "fixed_inv opf rnd n h a s" and t: "t < n"
    and s': "run_at s' = (run_at s)(t := pc)"
    and g: "operationsPerThread (glob s') = operationsPerThread (glob s)"
    and K: "K = u32 (operationsPerThread h)"
    and ops: "operationsCompleted (glob s')
      = operationsCompleted (glob s) - added_of (opf t) K (run_at s t) + added_of (opf t) K pc"
    and pc: "fixed_pc (length (opf t)) K pc"
    and calls: "\<And>xs. called_by opf rnd a s xs \<Longrightarrow> \<forall>t. count_list xs t = actions_of (length (opf t)) K (run_at s t) \<Longrightarrow>
      \<exists>ys. called_by opf rnd a s' ys \<and> (\<forall>t. count_list ys t = actions_of (length (opf t)) K (run_at s' t))"
  shows "fixed_inv opf rnd n h a s'"
proof -
  have "\<exists>ys. called_by opf rnd a s' ys \<and> (\<forall>t. count_list ys t = actions_of (length (opf t)) K (run_at s' t))"
    using inv calls by (auto simp: fixed_inv_def Let_def K)
  moreover have "(\<Sum>u<n. added_of (opf u) K (run_at s' u))
      = (\<Sum>u<n. added_of (opf u) K (run_at s u)) - added_of (opf t) K (run_at s t) + added_of (opf t) K pc"
    by (simp only: s' sum_pc_upd [OF t, of "\<lambda>u. added_of (opf u) K"])
  then have "operationsCompleted (glob s') = operationsCompleted h + (\<Sum>t<n. added_of (opf t) K (run_at s' t))"
    using inv ops by (simp add: fixed_inv_def Let_def flip: K)
  moreover have "operationsPerThread (glob s') = operationsPerThread h"
    "\<forall>t. fixed_pc (length (opf t)) K (run_at s' t)"
    using inv pc g by (simp_all add: fixed_inv_def Let_def s' flip: K)
  ultimately show ?thesis by (simp add: fixed_inv_def Let_def flip: K)
qed

lemma fixed_quiet:
  assumes inv: "fixed_inv opf rnd n h a s" and t: "t < n" "run_at s t \<noteq> Unborn" "pc \<noteq> Unborn"
    and s': "run_at s' = (run_at s)(t := pc)" "shared s' = shared s" "seeds s' = seeds s"
    and g: "operationsPerThread (glob s') = operationsPerThread (glob s)"
    and K: "K = u32 (operationsPerThread h)"
    and ops: "operationsCompleted (glob s')
      = operationsCompleted (glob s) - added_of (opf t) K (run_at s t) + added_of (opf t) K pc"
    and pc: "fixed_pc (length (opf t)) K pc" "actions_of (length (opf t)) K pc = actions_of (length (opf t)) K (run_at s t)"
  shows "fixed_inv opf rnd n h a s'"
proof (rule fixed_step [OF inv t(1) s'(1) g K ops pc(1)])
  fix xs assume xs: "called_by opf rnd a s xs" "\<forall>t. count_list xs t = actions_of (length (opf t)) K (run_at s t)"
  have "eff_seeds rnd s' = eff_seeds rnd s" using t s' by (auto simp: eff_seeds_def fun_eq_iff)
  then have "called_by opf rnd a s' xs \<and> (\<forall>t. count_list xs t = actions_of (length (opf t)) K (run_at s' t))"
    using xs s' pc(2) by (simp add: called_by_def)
  then show "\<exists>ys. called_by opf rnd a s' ys \<and> (\<forall>t. count_list ys t = actions_of (length (opf t)) K (run_at s' t))" ..
qed

lemma fixed_act:
  assumes inv: "fixed_inv opf rnd n h a s" and t: "t < n" "run_at s t = UptoCall K j i" and i: "i < length (opf t)"
    and K: "K = u32 (operationsPerThread h)"
  shows "fixed_inv opf rnd n h a (run_goto t (UptoCall K j (Suc i)) (act_op t (opf t ! i) s))"
    (is "fixed_inv _ _ _ _ _ ?s'")
proof (rule fixed_step [OF inv t(1) _ _ K])
  have ok: "fixed_pc (length (opf t)) K (run_at s t)" using inv by (simp add: fixed_inv_def Let_def K)
  show "fixed_pc (length (opf t)) K (UptoCall K j (Suc i))" using ok i by (simp add: t(2))
  show "operationsCompleted (glob ?s')
      = operationsCompleted (glob s) - added_of (opf t) K (run_at s t) + added_of (opf t) K (UptoCall K j (Suc i))"
    using i by (cases "opf t ! i") (simp_all add: act_op_def case_prod_unfold Let_def t(2) completed_in_Suc)
  fix xs assume xs: "called_by opf rnd a s xs" "\<forall>t. count_list xs t = actions_of (length (opf t)) K (run_at s t)"
  have next_act: "count_list xs t mod length (opf t) = i" using xs(2) i by (simp add: t(2))
  have made: "(count_list xs)(t := Suc (count_list xs t)) = count_list (xs @ [t])" by (simp add: fun_eq_iff)
  have "called_by opf rnd a ?s' (xs @ [t])"
  proof (cases "opf t ! i")
    case (Access f)
    obtain b sd where f: "f (shared s) (seeds s t) = (b, sd)" by fastforce
    have e: "eff_seeds rnd s t = seeds s t" by (simp add: eff_seeds_def t(2))
    have "eff_seeds rnd ?s' = (eff_seeds rnd s)(t := sd)"
      by (auto simp: eff_seeds_def act_op_def Access f fun_eq_iff)
    then show ?thesis
      using xs(1) by (simp add: called_by_def apply_action_def next_act Access e f made del: count_list_append)
        (simp add: act_op_def Access f)
  next
    case Completed
    have "eff_seeds rnd ?s' = eff_seeds rnd s"
      by (auto simp: eff_seeds_def act_op_def Completed t(2) fun_eq_iff)
    then show ?thesis
      using xs(1) by (simp add: called_by_def apply_action_def next_act Completed made del: count_list_append)
        (simp add: act_op_def Completed)
  qed
  moreover have "\<forall>u. count_list (xs @ [t]) u = actions_of (length (opf u)) K (run_at ?s' u)"
    using xs(2) by (simp add: t(2))
  ultimately show "\<exists>ys. called_by opf rnd a ?s' ys \<and> (\<forall>u. count_list ys u = actions_of (length (opf u)) K (run_at ?s' u))"
    by blast
qed (simp_all add: act_glob)

lemma fixed_thread:
  assumes inv: "fixed_inv opf rnd n h a s" and t: "t < n" and step: "thread_step opf t s = Some s'"
    and K: "K = u32 (operationsPerThread h)" "K \<noteq> 0"
  shows "fixed_inv opf rnd n h a s'"
proof -
  have pc: "fixed_pc (length (opf t)) K (run_at s t)" and per: "u32 (operationsPerThread (glob s)) = K"
    using inv by (simp_all add: fixed_inv_def Let_def K)
  have K0: "0 \<le> K" by (simp add: K u32_def)
  note quiet = fixed_quiet [OF inv t _ _ _ _ _ _ K(1), of _ s']
  show ?thesis
  proof (cases "run_at s t")
    case Fresh
    then show ?thesis using quiet [of "StartIn K"] step per by (auto simp: thread_step_def)
  next
    case (StartIn k)
    then show ?thesis using quiet [of "StartOut K"] step pc by (auto simp: thread_step_def join_start_def)
  next
    case (StartOut k)
    then show ?thesis using quiet [of "Timed K"] step pc by (auto simp: thread_step_def join_start_def)
  next
    case (Timed k)
    then show ?thesis using quiet [of "RunIn K"] step pc
      by (auto simp: thread_step_def StartTiming_def split: if_splits)
  next
    case (RunIn k)
    then show ?thesis using quiet [of "RunOut K"] step pc by (auto simp: thread_step_def join_run_def)
  next
    case (RunOut k)
    then show ?thesis using quiet [of "Upto K 0"] step pc K(2) K0
      by (auto simp: thread_step_def join_run_def)
  next
    case (Until c)
    then show ?thesis using pc by simp
  next
    case (Upto k j)
    then have k: "k = K" "j \<le> K" using pc by auto
    then show ?thesis using quiet [of "if j < K then UptoCall K j 0 else Adding K"] step pc Upto
      by (auto simp: thread_step_def split: if_splits)
  next
    case (UntilCall c i)
    then show ?thesis using pc by simp
  next
    case (UptoCall k j i)
    then have k: "k = K" "0 \<le> j" "j < K" "i \<le> length (opf t)" using pc by auto
    show ?thesis
    proof (cases "i < length (opf t)")
      case True
      then show ?thesis using fixed_act [OF inv t _ True K(1)] UptoCall step k by (simp add: thread_step_def)
    next
      case False
      then have "i = length (opf t)" using k(4) by simp
      moreover have "nat (j + 1) = Suc (nat j)" using k(2) by simp
      ultimately show ?thesis using quiet [of "Upto K (j + 1)"] step UptoCall k
        by (auto simp: thread_step_def)
    qed
  next
    case (Adding c)
    then show ?thesis using quiet [of EndIn] step pc by (auto simp: thread_step_def)
  next
    case EndIn
    then show ?thesis using quiet [of EndOut] step by (auto simp: thread_step_def join_run_def)
  next
    case EndOut
    then show ?thesis using quiet [of Finished] step by (auto simp: thread_step_def join_run_def)
  qed (use step in \<open>simp_all add: thread_step_def\<close>)
qed

lemma fixed_same:
  assumes "fixed_inv opf rnd n h a s" "run_at s' = run_at s" "shared s' = shared s" "seeds s' = seeds s"
    "operationsPerThread (glob s') = operationsPerThread (glob s)"
    "operationsCompleted (glob s') = operationsCompleted (glob s)"
  shows "fixed_inv opf rnd n h a s'"
proof -
  have "eff_seeds rnd s' = eff_seeds rnd s" using assms by (simp add: eff_seeds_def fun_eq_iff)
  then show ?thesis using assms by (simp add: fixed_inv_def called_by_def)
qed

lemma fixed_main:
  assumes inv: "fixed_inv opf rnd n h a s" and starts: "starts_ok n s" and step: "runops_step rnd n s = Some s'"
  shows "fixed_inv opf rnd n h a s'"
  using step
proof (cases rule: runops_cases)
  case (2 i)
  then have i: "run_at s i = Unborn" using starts by (simp add: starts_ok_def)
  then have "eff_seeds rnd s' = eff_seeds rnd s" by (auto simp: 2(4) eff_seeds_def fun_eq_iff)
  moreover have "actions_of L K (run_at s' u) = actions_of L K (run_at s u)"
    "added_of (opf v) K (run_at s' u) = added_of (opf v) K (run_at s u)"
    "fixed_pc L K (run_at s' u) = fixed_pc L K (run_at s u)" for L K u v
    using i by (simp_all add: 2(4))
  ultimately show ?thesis using inv by (simp add: fixed_inv_def called_by_def 2(4))
qed (auto intro: fixed_same [OF inv])

lemma fixed_reach:
  assumes "run_reach opf rnd n (run_init n h a) s" "u32 (operationsPerThread h) \<noteq> 0"
  shows "fixed_inv opf rnd n h a s"
  using assms(1)
proof (induction rule: run_reach.induct)
  case init
  have "called_by opf rnd a (run_init n h a) []"
    by (simp add: called_by_def run_init_def eff_seeds_def fun_eq_iff)
  then show ?case
    unfolding fixed_inv_def Let_def by (intro conjI exI [of _ "[]"]) (simp_all add: run_init_def)
next
  case (step s s')
  from step(2) show ?case
  proof (cases rule: run_step.cases)
    case (thread t)
    then show ?thesis using fixed_thread [OF step.IH _ _ refl assms(2)] by blast
  next
    case main
    then show ?thesis using fixed_main [OF step.IH _ main] run_reach_ok [OF step(1)] by blast
  next
    case alarm
    then show ?thesis
      by (auto simp: alarm_step_def StopSignal_def split: if_splits intro: fixed_same [OF step.IH])
  qed
qed

text \<open>
  C22: a run with a count of operations, for every interleaving of the actions of the calls: when
  \<open>RunOps\<close> returns, every thread has made all actions of exactly \<open>_operationsPerThread\<close> calls (in
  its low 32 bits), in their order, and no others; the memory and the seeds are what these actions
  make of them in the order in which they happened.  \<open>_operationsCompleted\<close> has grown by exactly
  the number of all calls and of all calls of \<open>CompletedOperation\<close> inside of them (modulo
  \<open>2 ^ 64\<close>): no update of it is lost.
\<close>

theorem run_with_count:
  assumes reach: "run_reach opf rnd n (run_init n h a) s"
    and K: "u32 (operationsPerThread h) \<noteq> 0" and returned: "run_main_at s = Returned"
  shows "(\<exists>xs. (\<forall>t. count_list xs t = (if t < n then nat (u32 (operationsPerThread h)) * length (opf t) else 0))
      \<and> foldl (apply_action opf) (a, rnd, \<lambda>_. 0) xs = (shared s, eff_seeds rnd s, count_list xs))
    \<and> operationsCompleted (glob s) = operationsCompleted h
        + word_of_nat (nat (u32 (operationsPerThread h)) * (n + (\<Sum>t<n. completed_in (opf t))))"
proof -
  let ?K = "u32 (operationsPerThread h)"
  have fin: "run_at s t = (if t < n then Finished else Unborn)" for t
    using run_reach_ok [OF reach] returned by (auto simp: starts_ok_def)
  have inv: "fixed_inv opf rnd n h a s" using fixed_reach [OF reach K] .
  then obtain xs where xs: "called_by opf rnd a s xs" "\<forall>t. count_list xs t = actions_of (length (opf t)) ?K (run_at s t)"
    by (auto simp: fixed_inv_def Let_def)
  have made: "\<forall>t. count_list xs t = (if t < n then nat ?K * length (opf t) else 0)" using xs(2) by (simp add: fin)
  have "0 \<le> ?K" by (simp add: u32_def)
  then have "added_of (opf t) ?K Finished = word_of_nat (nat ?K * (1 + completed_in (opf t)))" for t
    by (simp add: distrib_left)
  then have "(\<Sum>t<n. added_of (opf t) ?K (run_at s t)) = (\<Sum>t<n. word_of_nat (nat ?K * (1 + completed_in (opf t))))"
    by (simp add: fin del: added_of.simps)
  also have "\<dots> = word_of_nat (\<Sum>t<n. nat ?K * (1 + completed_in (opf t)))" by (rule of_nat_sum [symmetric])
  also have "(\<Sum>t<n. nat ?K * (1 + completed_in (opf t))) = nat ?K * (n + (\<Sum>t<n. completed_in (opf t)))"
    by (simp add: distrib_left sum.distrib sum_distrib_left mult.commute)
  finally have "operationsCompleted (glob s) = operationsCompleted h
        + word_of_nat (nat ?K * (n + (\<Sum>t<n. completed_in (opf t))))"
    using inv by (simp only: fixed_inv_def Let_def)
  then show ?thesis using xs(1) made unfolding called_by_def by blast
qed

section \<open>Every run with a count ends\<close>

fun pc_weight :: "nat \<Rightarrow> int \<Rightarrow> run_pc \<Rightarrow> nat" where
  "pc_weight L K (Upto k j) = nat (K - j) * (L + 2) + 5"
| "pc_weight L K (UptoCall k j i) = nat (K - j) * (L + 2) + 4 - i"
| "pc_weight L K (Adding c) = 4" | "pc_weight L K EndIn = 3" | "pc_weight L K EndOut = 2"
| "pc_weight L K Finished = 0" | "pc_weight L K (Until c) = 5" | "pc_weight L K (UntilCall c i) = 5"
| "pc_weight L K (RunOut k) = nat K * (L + 2) + 6" | "pc_weight L K (RunIn k) = nat K * (L + 2) + 7"
| "pc_weight L K (Timed k) = nat K * (L + 2) + 10" | "pc_weight L K (StartOut k) = nat K * (L + 2) + 11"
| "pc_weight L K (StartIn k) = nat K * (L + 2) + 12" | "pc_weight L K _ = nat K * (L + 2) + 13"

fun main_weight :: "nat \<Rightarrow> run_main \<Rightarrow> nat" where
  "main_weight n (Starting i) = (n - i) + n + 3" | "main_weight n (Waiting i) = (n - i) + 1"
| "main_weight n _ = 0"

definition run_weight :: "'a operation \<Rightarrow> nat \<Rightarrow> int \<Rightarrow> 'a run_state \<Rightarrow> nat" where
  "run_weight opf n K s = (\<Sum>t<n. pc_weight (length (opf t)) K (run_at s t)) + main_weight n (run_main_at s)
     + (if alarm_armed (glob s) then 1 else 0)"

lemma sum_weight_upd:
  fixes f :: "nat \<Rightarrow> run_pc \<Rightarrow> nat" and t :: nat
  assumes "t < n"
  shows "(\<Sum>u<n. f u ((pcs(t := pc)) u)) + f t (pcs t) = (\<Sum>u<n. f u (pcs u)) + f t pc"
proof -
  have "(\<Sum>u<n. f u ((pcs(t := pc)) u)) = f t pc + (\<Sum>u\<in>{..<n} - {t}. f u (pcs u))"
    by (subst sum.remove [of "{..<n}" t]) (use assms in auto)
  moreover have "(\<Sum>u<n. f u (pcs u)) = f t (pcs t) + (\<Sum>u\<in>{..<n} - {t}. f u (pcs u))"
    by (subst sum.remove [of "{..<n}" t]) (use assms in auto)
  ultimately show ?thesis by simp
qed

text \<open>Weights in the loop: a call is as heavy as its actions, its start and its end.\<close>

lemma call_weights:
  assumes "j < K" "i \<le> L"
  shows "pc_weight L K (UptoCall k j 0) < pc_weight L K (Upto k j)"
    and "i < L \<Longrightarrow> pc_weight L K (UptoCall k j (Suc i)) < pc_weight L K (UptoCall k j i)"
    and "pc_weight L K (Upto k (j + 1)) < pc_weight L K (UptoCall k j L)"
    and "4 < pc_weight L K (Upto k j)"
proof -
  have "nat (K - j) = Suc (nat (K - (j + 1)))" using assms(1) by simp
  then have n: "nat (K - j) * (L + 2) = nat (K - (j + 1)) * (L + 2) + (L + 2)" by simp
  show "pc_weight L K (UptoCall k j 0) < pc_weight L K (Upto k j)" "4 < pc_weight L K (Upto k j)" by simp_all
  show "pc_weight L K (UptoCall k j (Suc i)) < pc_weight L K (UptoCall k j i)" if "i < L"
    using that unfolding pc_weight.simps n by linarith
  show "pc_weight L K (Upto k (j + 1)) < pc_weight L K (UptoCall k j L)"
    unfolding pc_weight.simps n by linarith
qed

lemma thread_lighter:
  assumes pc: "fixed_pc (length (opf t)) K (run_at s t)" and step: "thread_step opf t s = Some s'"
    and K: "0 < K" "K = u32 (operationsPerThread (glob s))"
  obtains pc' where "run_at s' = (run_at s)(t := pc')" "run_main_at s' = run_main_at s"
    "pc_weight (length (opf t)) K pc' + (if alarm_armed (glob s') then 1 else 0)
      < pc_weight (length (opf t)) K (run_at s t) + (if alarm_armed (glob s) then 1 else 0)"
proof -
  let ?L = "length (opf t)"
  have "\<exists>pc'. run_at s' = (run_at s)(t := pc') \<and> run_main_at s' = run_main_at s
    \<and> pc_weight ?L K pc' + (if alarm_armed (glob s') then 1 else 0)
      < pc_weight ?L K (run_at s t) + (if alarm_armed (glob s) then 1 else 0)"
  proof (cases "run_at s t")
    case (Upto k j)
    then have k: "k = K" "j \<le> K" using pc by auto
    show ?thesis
    proof (cases "j < K")
      case True
      then show ?thesis using step Upto k call_weights(1) [of j K 0 ?L K]
        by (intro exI [of _ "UptoCall K j 0"]) (auto simp: thread_step_def)
    next
      case False
      then show ?thesis using step Upto k
        by (intro exI [of _ "Adding K"]) (auto simp: thread_step_def)
    qed
  next
    case (UptoCall k j i)
    then have k: "k = K" "j < K" "i \<le> ?L" using pc by auto
    show ?thesis
    proof (cases "i < ?L")
      case True
      then show ?thesis using step UptoCall k call_weights(2) [OF k(2,3) True, of K]
        by (intro exI [of _ "UptoCall K j (Suc i)"]) (auto simp: thread_step_def act_glob simp del: pc_weight.simps)
    next
      case False
      then have "i = ?L" using k(3) by simp
      then show ?thesis using step UptoCall k call_weights(3) [OF k(2) order_refl, of ?L K]
        by (intro exI [of _ "Upto K (j + 1)"]) (auto simp: thread_step_def simp del: pc_weight.simps)
    qed
  qed (use pc step K(1) in \<open>auto simp: thread_step_def join_start_def join_run_def StartTiming_def K(2) [symmetric] split: if_splits
        intro!: exI [of _ "run_at s' t"]\<close>)
  then show ?thesis using that by blast
qed

lemma run_lighter:
  assumes inv: "fixed_inv opf rnd n h a s" and ok: "starts_ok n s" and step: "run_step opf rnd n s s'"
    and K: "K = u32 (operationsPerThread h)" "0 < K" and rnd: "\<forall>i<n. rnd i \<noteq> 0"
  shows "run_weight opf n K s' < run_weight opf n K s"
  using step
proof (cases rule: run_step.cases)
  case (thread t)
  have "fixed_pc (length (opf t)) K (run_at s t)" "K = u32 (operationsPerThread (glob s))"
    using inv by (simp_all add: fixed_inv_def Let_def K(1))
  from thread_lighter [of opf, OF this(1) thread(3) K(2) this(2)] obtain pc'
    where "run_at s' = (run_at s)(t := pc')" "run_main_at s' = run_main_at s"
      "pc_weight (length (opf t)) K pc' + (if alarm_armed (glob s') then 1 else 0)
        < pc_weight (length (opf t)) K (run_at s t) + (if alarm_armed (glob s) then 1 else 0)" by blast
  then show ?thesis using sum_weight_upd [OF thread(2), of "\<lambda>t. pc_weight (length (opf t)) K" "run_at s" pc']
    unfolding run_weight_def by simp
next
  case main
  show ?thesis
    using main
  proof (cases rule: runops_cases)
    case (2 i)
    then have "run_at s i = Unborn" using ok by (simp add: starts_ok_def)
    then have "pc_weight L K (run_at s' t) = pc_weight L K (run_at s t)" for L t by (simp add: 2(4))
    then show ?thesis using 2 by (simp add: run_weight_def)
  qed (use rnd in \<open>auto simp: run_weight_def\<close>)
next
  case alarm
  then have "run_at s' = run_at s" "run_main_at s' = run_main_at s" "alarm_armed (glob s)" "\<not> alarm_armed (glob s')"
    by (auto simp: alarm_step_def StopSignal_def split: if_splits)
  then show ?thesis by (simp add: run_weight_def)
qed

lemma nobody_waits_alone:
  assumes "pb.in_round n b joins passes r" "t < n" "t \<in> waiting b" "\<forall>u<n. joins t \<le> joins u"
  shows False
proof -
  have "joins t = Suc r" using assms(1-3) by (auto simp: pb.in_round_def)
  then have "{..<n} \<subseteq> waiting b" using assms(1,4) by (force simp: pb.in_round_def split: if_splits)
  moreover have "waiting b \<subseteq> {..<n}" "card (waiting b) < max 1 n" using assms(1) by (auto simp: pb.in_round_def)
  ultimately have "card {..<n} < max 1 n" by (metis subset_antisym)
  then show False using assms(2) by simp
qed

lemma blocked_where:
  assumes ok: "barriers_ok n s" and t: "t < n" "run_at s t \<noteq> Unborn" and stuck: "thread_step opf t s = None"
    and hang: "\<not> hang (glob s)"
  shows "run_at s t = Finished \<or> ((\<exists>k. run_at s t = StartOut k) \<and> t \<in> waiting (startBarrier s))
    \<or> (((\<exists>k. run_at s t = RunOut k) \<or> run_at s t = EndOut) \<and> t \<in> waiting (runBarrier s))"
proof -
  obtain r q where r: "pb.in_round n (startBarrier s) (start_joins \<circ> run_at s) (start_passes \<circ> run_at s) r"
    and q: "pb.in_round n (runBarrier s) (run_joins \<circ> run_at s) (run_passes \<circ> run_at s) q"
    using ok by (auto simp: barriers_ok_def)
  show ?thesis
    using stuck t(2) hang in_round_inside [OF r t(1)] in_round_inside [OF q t(1)]
    by (cases "run_at s t")
      (auto simp: thread_step_def join_start_def join_run_def pjoin_step_def StartTiming_def split: if_splits)
qed

lemma all_finished:
  assumes ok: "barriers_ok n s" and born: "\<forall>t<n. run_at s t \<noteq> Unborn" and hang: "\<not> hang (glob s)"
    and stuck: "\<forall>t<n. thread_step opf t s = None"
  shows "\<forall>t<n. run_at s t = Finished"
proof -
  obtain r q where r: "pb.in_round n (startBarrier s) (start_joins \<circ> run_at s) (start_passes \<circ> run_at s) r"
    and q: "pb.in_round n (runBarrier s) (run_joins \<circ> run_at s) (run_passes \<circ> run_at s) q"
    using ok by (auto simp: barriers_ok_def)
  have blocked: "run_at s t = Finished \<or> ((\<exists>k. run_at s t = StartOut k) \<and> t \<in> waiting (startBarrier s))
      \<or> (((\<exists>k. run_at s t = RunOut k) \<or> run_at s t = EndOut) \<and> t \<in> waiting (runBarrier s))" if "t < n" for t
  proof -
    have "run_at s t \<noteq> Unborn" "thread_step opf t s = None" using born stuck that by auto
    from blocked_where [OF ok that this hang] show ?thesis .
  qed
  have no_start: "\<not> (\<exists>k. run_at s t = StartOut k)" if t: "t < n" for t
  proof
    assume "\<exists>k. run_at s t = StartOut k"
    then have "t \<in> waiting (startBarrier s)" "start_joins (run_at s t) = 1" using blocked [OF t] by auto
    moreover have "1 \<le> start_joins (run_at s u)" if "u < n" for u using blocked [OF that] by auto
    ultimately show False using nobody_waits_alone [OF r t] by auto
  qed
  have no_run: "\<not> (\<exists>k. run_at s t = RunOut k)" if t: "t < n" for t
  proof
    assume "\<exists>k. run_at s t = RunOut k"
    then have "t \<in> waiting (runBarrier s)" "run_joins (run_at s t) = 1" using blocked [OF t] by auto
    moreover have "1 \<le> run_joins (run_at s u)" if "u < n" for u
      using blocked [OF that] no_start [OF that] by auto
    ultimately show False using nobody_waits_alone [OF q t] by auto
  qed
  have no_end: "run_at s t \<noteq> EndOut" if t: "t < n" for t
  proof
    assume "run_at s t = EndOut"
    then have "t \<in> waiting (runBarrier s)" "run_joins (run_at s t) = 2" using blocked [OF t] by auto
    moreover have "2 \<le> run_joins (run_at s u)" if "u < n" for u
      using blocked [OF that] no_start [OF that] no_run [OF that] by auto
    ultimately show False using nobody_waits_alone [OF q t] by auto
  qed
  show ?thesis using blocked no_start no_run no_end by blast
qed

lemma alarm_sel:
  "alarm_step s = Some s' \<Longrightarrow> hang (glob s') = hang (glob s) \<and> run_main_at s' = run_main_at s"
  by (auto simp: alarm_step_def StopSignal_def split: if_splits)

lemma thread_hang: "thread_step opf t s = Some s' \<Longrightarrow> hang (glob s') = hang (glob s)"
  by (cases "run_at s t")
    (auto simp: thread_step_def join_start_def join_run_def StartTiming_def act_glob split: if_splits)

lemma run_reach_hang:
  assumes "run_reach opf rnd n (run_init n h a) s" "\<forall>i<n. rnd i \<noteq> 0"
  shows "hang (glob s) = hang h \<and> run_main_at s \<noteq> Aborted"
  using assms(1)
proof (induction rule: run_reach.induct)
  case (step s s')
  from step(2) show ?case
  proof (cases rule: run_step.cases)
    case main
    from main show ?thesis using step.IH assms(2) by (cases rule: runops_cases) auto
  qed (use step.IH in \<open>auto dest: alarm_sel thread_hang thread_moves_born\<close>)
qed (simp add: run_init_def)

lemma main_can_go:
  assumes ok: "starts_ok n s" and main: "run_main_at s \<noteq> Returned" "run_main_at s \<noteq> Aborted"
    and fin: "\<forall>i. run_main_at s = Waiting i \<and> i < n \<longrightarrow> run_at s i = Finished"
  shows "runops_step rnd n s \<noteq> None"
  using main fin by (cases "run_main_at s") (auto simp: runops_step_def)

text \<open>
  C23: a run with a count of operations ends under every schedule: until \<open>RunOps\<close> has returned some
  thread can make a step, so that no barrier is ever left with all threads waiting, and each step
  of any thread makes a weight smaller, so that there are no infinite runs.
\<close>

theorem run_with_count_ends:
  assumes reach: "run_reach opf rnd n (run_init n h a) s"
    and K: "u32 (operationsPerThread h) \<noteq> 0" and rnd: "\<forall>i<n. rnd i \<noteq> 0" and hang: "\<not> hang h"
  shows "(run_main_at s \<noteq> Returned \<longrightarrow> (\<exists>s'. run_step opf rnd n s s'))
    \<and> (\<forall>s'. run_step opf rnd n s s' \<longrightarrow>
          run_weight opf n (u32 (operationsPerThread h)) s' < run_weight opf n (u32 (operationsPerThread h)) s)"
proof (intro conjI impI allI)
  have ok: "barriers_ok n s" "starts_ok n s" using run_reach_ok [OF reach] by auto
  have h: "\<not> hang (glob s)" "run_main_at s \<noteq> Aborted" using run_reach_hang [OF reach rnd] hang by auto
  have pos: "0 < u32 (operationsPerThread h)" using K by (simp add: u32_def order_less_le)
  show "run_weight opf n (u32 (operationsPerThread h)) s' < run_weight opf n (u32 (operationsPerThread h)) s"
    if "run_step opf rnd n s s'" for s'
    using run_lighter [OF fixed_reach [OF reach K] ok(2) that refl pos rnd] .
  assume main: "run_main_at s \<noteq> Returned"
  show "\<exists>s'. run_step opf rnd n s s'"
  proof (cases "\<exists>t<n. thread_step opf t s \<noteq> None")
    case True
    then show ?thesis using h(2) by (auto intro: run_step.thread)
  next
    case False
    have "run_at s i = Finished" if "run_main_at s = Waiting i" "i < n" for i
    proof -
      have "\<forall>t<n. run_at s t \<noteq> Unborn" using ok(2) that by (simp add: starts_ok_def)
      then show ?thesis using all_finished [OF ok(1) _ h(1)] False that(2) by blast
    qed
    then have "runops_step rnd n s \<noteq> None" using main_can_go [OF ok(2) main h(2)] by blast
    then show ?thesis by (auto intro: run_step.main)
  qed
qed

section \<open>Fewer operations than threads\<close>

fun stuck_pc :: "run_pc \<Rightarrow> bool" where
  "stuck_pc Unborn = True" | "stuck_pc Fresh = True"
| "stuck_pc (StartIn k) = (k = 0)" | "stuck_pc (StartOut k) = (k = 0)" | "stuck_pc (Timed k) = (k = 0)"
| "stuck_pc (RunIn k) = (k = 0)" | "stuck_pc (RunOut k) = (k = 0)"
| "stuck_pc (Until c) = True" | "stuck_pc (UntilCall c i) = True" | "stuck_pc _ = False"

definition stuck_inv :: "harness \<Rightarrow> 'a run_state \<Rightarrow> bool" where
  "stuck_inv h s \<longleftrightarrow> operationsPerThread (glob s) = operationsPerThread h
     \<and> operationCount (glob s) = operationCount h \<and> operationsCompleted (glob s) = operationsCompleted h
     \<and> (\<forall>t. stuck_pc (run_at s t))"

lemma stuck_thread:
  assumes inv: "stuck_inv h s" and step: "thread_step opf t s = Some s'" and opf: "silent opf"
    and K: "u32 (operationsPerThread h) = 0" and more: "u32 (uint (operationsCompleted h)) < operationCount h"
      "0 < operationCount h"
  shows "stuck_inv h s'"
proof -
  have not_done: "\<not> isDone (glob s)" using inv more by (simp add: stuck_inv_def isDone_def)
  have pc: "stuck_pc (run_at s t)" using inv by (simp add: stuck_inv_def)
  have quiet: "operationsCompleted (glob (act_op t (opf t ! i) s)) = operationsCompleted (glob s)"
    if "i < length (opf t)" for i
  proof -
    have "\<not> is_completed (opf t ! i)"
      using opf nth_mem [OF that] by (auto simp: silent_def completed_in_def filter_empty_conv)
    then show ?thesis by (cases "opf t ! i") (simp_all add: act_op_def case_prod_unfold Let_def)
  qed
  show ?thesis
    using pc inv step not_done K
    by (cases "run_at s t")
      (auto simp: stuck_inv_def thread_step_def join_start_def join_run_def StartTiming_def quiet act_glob
        split: if_splits)
qed

text \<open>
  C28: with a limit of operations below the number of threads (say \<open>-max 3 -tc 4\<close>) every thread
  gets the quotient 0 and takes the loop that waits for \<open>isDone\<close>, which looks at a counter that is
  added to only after the loop: unless the operation counts itself, \<open>RunOps\<close> never returns.
\<close>

theorem run_below_threads_hangs:
  assumes reach: "run_reach opf rnd n (run_init n h a) s" and opf: "silent opf" and n: "0 < n"
    and limit: "0 < operationCount h" "operationCount h < threadCount h"
    and per: "operationsPerThread h = operationCount h div threadCount h"
    and none_yet: "operationsCompleted h = 0"
  shows "run_main_at s \<noteq> Returned \<and> \<not> isDone (glob s)"
proof -
  have K: "u32 (operationsPerThread h) = 0" using limit per by (simp add: u32_def)
  have inv: "stuck_inv h s"
    using reach
  proof (induction rule: run_reach.induct)
    case (step s s')
    from step(2) show ?case
    proof (cases rule: run_step.cases)
      case (thread t)
      then show ?thesis using stuck_thread [OF step.IH _ opf K] limit none_yet by (simp add: u32_def)
    next
      case main
      from main show ?thesis using step.IH
        by (cases rule: runops_cases) (auto simp: stuck_inv_def)
    next
      case alarm
      then show ?thesis using step.IH by (auto simp: stuck_inv_def alarm_step_def StopSignal_def split: if_splits)
    qed
  qed (simp add: stuck_inv_def run_init_def)
  moreover have "run_main_at s \<noteq> Returned"
  proof
    assume "run_main_at s = Returned"
    then have "run_at s 0 = Finished" using run_reach_ok [OF reach] n by (simp add: starts_ok_def)
    moreover have "stuck_pc (run_at s 0)" using inv by (simp add: stuck_inv_def)
    ultimately show False by simp
  qed
  ultimately show ?thesis using limit none_yet by (simp add: stuck_inv_def isDone_def u32_def)
qed

section \<open>Concrete runs\<close>

fun run_exec :: "'a operation \<Rightarrow> (nat \<Rightarrow> 64 word) \<Rightarrow> nat \<Rightarrow> nat option list \<Rightarrow> 'a run_state \<Rightarrow> 'a run_state option" where
  "run_exec opf rnd n [] s = Some s"
| "run_exec opf rnd n (None # ts) s = Option.bind (runops_step rnd n s) (run_exec opf rnd n ts)"
| "run_exec opf rnd n (Some t # ts) s =
     (if t < n \<and> run_main_at s \<noteq> Aborted then Option.bind (thread_step opf t s) (run_exec opf rnd n ts) else None)"

lemma run_exec_reach:
  assumes "run_exec opf rnd n ts s = Some s'" "run_reach opf rnd n s0 s"
  shows "run_reach opf rnd n s0 s'"
  using assms
proof (induction opf rnd n ts s rule: run_exec.induct)
  case (2 opf rnd n ts s)
  then show ?case by (auto simp: bind_eq_Some_conv intro: run_reach.step run_step.main)
next
  case (3 opf rnd n t ts s)
  then obtain y where y: "run_main_at s \<noteq> Aborted" "t < n" "thread_step opf t s = Some y"
      "run_exec opf rnd n ts y = Some s'"
    by (auto simp: bind_eq_Some_conv split: if_splits)
  from run_reach.step [OF 3(3) run_step.thread [OF y(1-3)]] show ?case using 3(1) y by blast
qed simp

definition bump :: "nat operation" where
  "bump t = [Access (\<lambda>a seed. (a + 1, seed))]"

text \<open>An increment that is not atomic: every thread has a place of its own for the value it read.\<close>

definition plain_bump :: "(nat \<times> (nat \<Rightarrow> nat)) operation" where
  "plain_bump t = [Access (\<lambda>(x, local) seed. ((x, local(t := x)), seed)),
     Access (\<lambda>(x, local) seed. ((local t + 1, local), seed)), Completed]"

definition one_each :: harness where
  "one_each = harness0\<lparr>operationCount := 1, operationsPerThread := 1\<rparr>"

text \<open>A harness whose timing is suspended, with a time limit, as before \<open>RunOps\<close> after a setup phase.\<close>

definition suspended :: harness where
  "suspended = one_each\<lparr>timingIsSuspended := True, runTimeSeconds := 5\<rparr>"

lemmas run_exec_simps = run_init_def one_each_def harness0_def runops_step_def run_goto_def thread_step_def
  join_start_def join_run_def pjoin_step_def barrier_enter_def barrier_leave_def pthread_barrier_init_def
  StartTiming_def act_op_def bump_def CompletedOperations_def exchange_and_add_vllong_def xadd_def u32_def

lemma bump_silent: "silent bump"
  by (simp add: silent_def bump_def completed_in_def)

lemma exec_calling:
  "\<exists>s. run_exec bump (\<lambda>_. 1) 1 (None # map Some [0, 0, 0, 0, 0, 0, 0]) (run_init 1 suspended 0) = Some s
     \<and> run_at s 0 = UptoCall 1 0 0 \<and> runTimeSeconds (glob s) = 5"
  by (simp add: suspended_def run_exec_simps)

theorem run_phases_witness:
  "\<exists>s. run_reach bump (\<lambda>_. 1) 1 (run_init 1 suspended 0) s \<and> calling (run_at s 0)
     \<and> \<not> timingIsSuspended (glob s) \<and> (alarm_armed (glob s) \<or> finished (glob s))"
proof -
  obtain s where s: "run_reach bump (\<lambda>_. 1) 1 (run_init 1 suspended 0) s" "run_at s 0 = UptoCall 1 0 0"
      "runTimeSeconds (glob s) = 5"
    using run_exec_reach [OF _ run_reach.init] exec_calling by blast
  have "calling (run_at s 0)" by (simp add: s(2))
  then show ?thesis using run_phases [OF s(1), of 0 0] s by (auto simp: u32_def)
qed

text \<open>Two threads whose calls overlap, so that one of the two increments is lost.\<close>

definition overlap :: "nat option list" where
  "overlap = [None, None, Some 0, Some 1, Some 0, Some 1, Some 0, Some 1, Some 0, Some 1,
     Some 0, Some 1, Some 0, Some 1, Some 0, Some 1, Some 0, Some 1, Some 0, Some 1, Some 0, Some 1,
     Some 0, Some 1, Some 0, Some 1, Some 0, Some 1, Some 0, Some 1, Some 0, Some 1,
     None, None, None, None]"

lemma exec_returned:
  "\<exists>s. run_exec plain_bump (\<lambda>_. 1) 2 overlap (run_init 2 one_each (0, \<lambda>_. 0)) = Some s
     \<and> run_main_at s = Returned \<and> fst (shared s) = 1"
  by (simp add: overlap_def plain_bump_def run_exec_simps)

theorem run_with_count_witness:
  "\<exists>s. run_reach plain_bump (\<lambda>_. 1) 2 (run_init 2 one_each (0, \<lambda>_. 0)) s \<and> run_main_at s = Returned
     \<and> fst (shared s) = 1 \<and> operationsCompleted (glob s) = 4"
proof -
  obtain s where s: "run_reach plain_bump (\<lambda>_. 1) 2 (run_init 2 one_each (0, \<lambda>_. 0)) s" "run_main_at s = Returned"
      "fst (shared s) = 1"
    using exec_returned run_exec_reach [OF _ run_reach.init] by blast
  have "completed_in (plain_bump t) = 1" for t by (simp add: completed_in_def plain_bump_def)
  then show ?thesis
    using run_with_count [OF s(1) _ s(2)] s by (auto simp: one_each_def harness0_def u32_def)
qed

theorem run_with_count_ends_witness:
  "\<exists>s'. run_step bump (\<lambda>_. 1) 3 (run_init 3 one_each 0) s'"
  using run_with_count_ends [OF run_reach.init, where opf = bump and n = 3 and rnd = "\<lambda>_. 1" and h = one_each and a = 0]
  by (simp add: one_each_def harness0_def u32_def run_init_def)

theorem run_below_threads_hangs_witness:
  "\<not> isDone (glob (run_init 4 (harness0\<lparr>opCountSet := True, operationCount := 3, threadCount := 4\<rparr>) (0 :: nat)))"
  using run_below_threads_hangs
    [OF run_reach.init bump_silent, where n = 4 and h = "harness0\<lparr>opCountSet := True, operationCount := 3, threadCount := 4\<rparr>"]
  by (simp add: harness0_def)

end
