(* ===== verification/Mmap_Threads.thy ===== *)
theory Mmap_Threads
  imports Mapping_Io Integrity
begin

text \<open>
  \<open>mmap_to_ram_multithread.c\<close>.  The copy in its thread function is compiled out and the allocation
  of its buffer is a comment, so that \<open>buf\<close> is the null pointer; \<open>FILE_SIZE\<close> is never set and is
  an argument here.  \<open>malloc\<close> of the two small arrays and \<open>pthread_create\<close> succeed; \<open>msync\<close> and
  \<open>munmap\<close> have no effect on what the program sees.
\<close>

section \<open>The program\<close>

definition mmap_transfer :: "int \<Rightarrow> unit wprog" where
  "mmap_transfer arg = ret ()"

text \<open>\<open>memset\<close> of the null pointer\<close>

definition memset_null :: "byte \<Rightarrow> int \<Rightarrow> unit wprog" where
  "memset_null c n = whenP (0 < n) (trap Seg_Fault)"

text \<open>One thread: the size and its number in one \<open>int\<close>, and the call.\<close>

definition start_thread :: "int \<Rightarrow> int \<Rightarrow> unit wprog" where
  "start_thread sz i =
     (let pdata = sz * 256 + i in
      if 2 ^ 31 \<le> pdata then trap Int_Overflow else mmap_transfer pdata)"

function multi_rounds :: "int \<Rightarrow> int \<Rightarrow> int \<Rightarrow> int \<Rightarrow> byte \<Rightarrow> byte wprog" where
  "multi_rounds time FILE_SIZE num_threads sz c =
     (if 0 < sz \<and> sz \<le> FILE_SIZE div u64 num_threads
      then
        bindP (memset_null c FILE_SIZE) (\<lambda>_.
        bindP (for_int (nat num_threads) 0 (\<lambda>i _. start_thread sz i) ()) (\<lambda>_.
        bindP (say (Report sz time)) (\<lambda>_.
        if 2 ^ 31 \<le> sz * 2 then trap Int_Overflow
        else multi_rounds time FILE_SIZE num_threads (sz * 2) (c + 1))))
      else ret c)"
  by pat_completeness auto
termination
  by (relation "measure (\<lambda>(time, FILE_SIZE, num_threads, sz, c). nat (FILE_SIZE div u64 num_threads + 1 - sz))") auto

declare multi_rounds.simps [simp del]

definition multithread_main :: "int \<Rightarrow> int \<Rightarrow> string list \<Rightarrow> int wprog" where
  "multithread_main time FILE_SIZE argv =
     (let num_threads = (if length argv < 2 then 1 else atoi (argv ! 1)) in
      bindP (call (sys_open test1 [O_CREAT, O_RDWR])) (\<lambda>fd.
      bindP (query (sys_mmap FILE_SIZE True fd 0)) (\<lambda>data.
      if u64 num_threads = 0 then trap Div_By_Zero
      else
      bindP (multi_rounds time FILE_SIZE num_threads 512 65) (\<lambda>_.
      bindP (call (sys_close fd)) (\<lambda>_. ret 0)))))"

section \<open>Properties\<close>

text \<open>
  The program never measures anything: it divides by zero without threads, stores through the null
  pointer if the value left in \<open>FILE_SIZE\<close> gives every thread 512 bytes, and otherwise returns 0
  at once; it prints nothing and changes no file but a missing \<open>test1\<close>, which is empty.
\<close>

theorem multithread_ends:
  fixes argv defines "num \<equiv> (if length argv < 2 then 1 else atoi (argv ! 1))"
  assumes "0 \<le> FILE_SIZE"
  shows "fst (multithread_main time FILE_SIZE argv w) =
      (if u64 num = 0 then Inl (Trap Div_By_Zero)
       else if 512 \<le> FILE_SIZE div u64 num then Inl (Trap Seg_Fault) else Inr 0)
    \<and> w_log (snd (multithread_main time FILE_SIZE argv w)) = w_log w
    \<and> (\<forall>n. n \<noteq> w_next w \<longrightarrow> w_ino (snd (multithread_main time FILE_SIZE argv w)) n = w_ino w n)"
proof -
  obtain fd w1 where op: "sys_open test1 [O_CREAT, O_RDWR] w = (fd, w1)" by fastforce
  have w1: "w_log w1 = w_log w" "\<And>m. m \<noteq> w_next w \<Longrightarrow> w_ino w1 m = w_ino w m"
    by (rule sys_open_creat [OF op]; simp add: test1_def)+
  have pos: "0 < FILE_SIZE" if "512 \<le> FILE_SIZE div u64 num"
  proof (rule ccontr)
    assume "\<not> 0 < FILE_SIZE"
    with assms(2) have "FILE_SIZE = 0" by simp
    with that show False by simp
  qed
  have "wp (multithread_main time FILE_SIZE argv)
    (\<lambda>r u. r = 0 \<and> u64 num \<noteq> 0 \<and> \<not> 512 \<le> FILE_SIZE div u64 num \<and> w_log u = w_log w1 \<and> w_ino u = w_ino w1)
    (\<lambda>e u. e = (if u64 num = 0 then Trap Div_By_Zero else Trap Seg_Fault)
       \<and> (u64 num \<noteq> 0 \<longrightarrow> 512 \<le> FILE_SIZE div u64 num) \<and> w_log u = w_log w1 \<and> w_ino u = w_ino w1) w"
    using pos
    by (auto simp: multithread_main_def num_def [symmetric] multi_rounds.simps [of time FILE_SIZE num 512]
        memset_null_def wp_simps op Let_def)
  then show ?thesis
    using w1 by (cases "multithread_main time FILE_SIZE argv w") (auto simp: wp_def split: sum.splits if_splits)
qed

theorem multithread_ends_witness:
  "fst (multithread_main 1 4096 [''t'', ''2''] fresh_world) = Inl (Trap Seg_Fault)
   \<and> fst (multithread_main 1 4096 [''t'', ''-1''] fresh_world) = Inr 0"
proof -
  have "atoi ''2'' = 2" "atoi ''-1'' = -1" by code_simp+
  then show ?thesis
    using multithread_ends [of 4096 1 "[''t'', ''2'']" fresh_world] multithread_ends [of 4096 1 "[''t'', ''-1'']" fresh_world]
    by (simp add: u64_def)
qed

end
