(* ===== verification/Random_Io.thy ===== *)
theory Random_Io
  imports Ram_Bench "HOL-Library.Multiset"
begin

text \<open>
  Random access: the shuffled list of record numbers that \<open>random_perf_test.c\<close> and
  \<open>iozone_test.c\<close> compute, with \<open>srand48\<close> and \<open>lrand48\<close> as POSIX defines them, and the program
  \<open>random_perf_test.c\<close>, which reads all records of the file in that order twice and then writes
  them.  \<open>malloc\<close> of the list is taken to succeed there, as the program takes it.
\<close>

section \<open>Random numbers\<close>

definition srand48 :: "nat \<Rightarrow> nat" where
  "srand48 seed = seed mod 2 ^ 32 * 2 ^ 16 + 0x330E"

definition next48 :: "nat \<Rightarrow> nat" where
  "next48 x = (0x5DEECE66D * x + 0xB) mod 2 ^ 48"

definition lrand48 :: "nat \<Rightarrow> nat \<times> nat" where
  "lrand48 x = (let x' = next48 x in (x' div 2 ^ 17, x'))"

lemma next48_range: "next48 x < 2 ^ 48"
  by (simp add: next48_def)

lemma lrand48_range: "fst (lrand48 x) < 2 ^ 31"
proof -
  have "next48 x < 2 ^ 31 * 2 ^ 17" using next48_range [of x] by simp
  then show ?thesis by (simp only: lrand48_def Let_def fst_conv less_mult_imp_div_less)
qed

section \<open>The list of record numbers\<close>

text \<open>One round of the second loop: the random number, its remainder and the exchange.\<close>

definition exchange :: "nat \<Rightarrow> nat \<Rightarrow> nat list \<Rightarrow> nat list" where
  "exchange i big_rand recnum =
     (let tmp = recnum ! i; recnum = recnum[i := recnum ! big_rand] in recnum[big_rand := tmp])"

definition shuffle_round :: "nat \<Rightarrow> nat \<Rightarrow> nat list \<times> nat \<Rightarrow> nat list \<times> nat" where
  "shuffle_round records i rs =
     (let (recnum, x) = rs; (r, x) = lrand48 x; big_rand = r mod records
      in (exchange i big_rand recnum, x))"

definition recnum_list :: "nat \<Rightarrow> nat \<Rightarrow> nat list" where
  "recnum_list records x = fst (fold (shuffle_round records) [0..<records] ([0..<records], x))"

lemma shuffle_round_mset:
  assumes "i < length recnum" "length recnum = records"
  shows "mset (fst (shuffle_round records i (recnum, x))) = mset recnum"
    and "length (fst (shuffle_round records i (recnum, x))) = length recnum"
proof -
  obtain r y where r: "lrand48 x = (r, y)" by fastforce
  have "r mod records < length recnum" using assms by (metis mod_less_divisor not_less_zero gr0I)
  then show "mset (fst (shuffle_round records i (recnum, x))) = mset recnum"
    using assms by (simp add: shuffle_round_def exchange_def r Let_def mset_swap)
  show "length (fst (shuffle_round records i (recnum, x))) = length recnum"
    by (simp add: shuffle_round_def exchange_def r Let_def)
qed

lemma recnum_list_mset: "mset (recnum_list records x) = mset [0..<records]"
proof -
  have "mset (fst (fold (shuffle_round records) is rs)) = mset (fst rs)
      \<and> length (fst (fold (shuffle_round records) is rs)) = records"
    if "\<forall>i\<in>set is. i < records" "length (fst rs) = records" for "is" rs
    using that
  proof (induction "is" arbitrary: rs)
    case (Cons i "is")
    obtain recnum x where rs: "rs = (recnum, x)" by fastforce
    note s = shuffle_round_mset [of i recnum records x]
    show ?case using Cons.IH [of "shuffle_round records i rs"] Cons.prems s by (simp add: rs)
  qed simp
  from this [of "[0..<records]" "([0..<records], x)"] show ?thesis by (simp add: recnum_list_def)
qed

lemma recnum_list_length [simp]: "length (recnum_list records x) = records"
  using mset_eq_length [OF recnum_list_mset [of records x]] by simp

lemma recnum_list_set [simp]: "set (recnum_list records x) = {..<records}"
  using mset_eq_setD [OF recnum_list_mset [of records x]] by (simp add: atLeast0LessThan)

lemma recnum_list_distinct: "distinct (recnum_list records x)"
  using mset_eq_imp_distinct_iff [OF recnum_list_mset [of records x]] by simp

lemma recnum_list_nth: "i < records \<Longrightarrow> recnum_list records x ! i < records"
  using nth_mem [of i "recnum_list records x"] by simp

section \<open>\<open>random_perf_test\<close>\<close>

text \<open>
  Beside the buffer the loops carry a list that the program does not keep: what was accessed so
  far, a read or a write at the offset that \<open>lseek\<close> returned before it.
\<close>

datatype access = Read_At int | Write_At int

definition random_block :: "int \<Rightarrow> bool \<Rightarrow> int \<Rightarrow> buffer \<times> access list \<Rightarrow> (buffer \<times> access list) wprog" where
  "random_block fd reads rec buf_tr =
     (let (buf, tr) = buf_tr; offset64 = 4096 * rec in
      bindP (call (sys_lseek fd offset64)) (\<lambda>r.
      if r < 0 then exit_with 68
      else if reads
      then bindP (call (sys_read fd buf 4096)) (\<lambda>(n, buf).
           bindP (whenP (n \<noteq> 4096) (say Err_Plain)) (\<lambda>_. ret (buf, tr @ [Read_At r])))
      else bindP (call (sys_write fd buf 4096)) (\<lambda>n.
           bindP (whenP (n \<noteq> 4096) (say Err_Plain)) (\<lambda>_. ret (buf, tr @ [Write_At r])))))"

definition random_pass ::
  "int \<Rightarrow> int \<Rightarrow> int \<Rightarrow> nat list \<Rightarrow> int \<Rightarrow> buffer \<times> access list \<Rightarrow> (buffer \<times> access list) wprog" where
  "random_pass time output records recnum j buf_tr =
     bindP (call (sys_open test1 [O_CREAT, O_RDWR])) (\<lambda>fd.
     let (buf, tr) = buf_tr; buf = memset buf 0 0 4096 in
     bindP (call (sys_read fd buf 4096)) (\<lambda>(r, buf).
     bindP (whenP (r \<noteq> 4096) (say Err_Plain)) (\<lambda>_.
     bindP (call (sys_lseek fd 0)) (\<lambda>_.
     bindP (for_int (nat records) 0 (\<lambda>i. random_block fd (j < 2) (int (recnum ! nat i))) (buf, tr)) (\<lambda>buf_tr.
     if records = 0 then trap Div_By_Zero
     else
     bindP (say (Report (per_op time records) 0)) (\<lambda>_.
     bindP (c_fprintf output) (\<lambda>_.
     bindP (call (sys_close fd)) (\<lambda>_. ret buf_tr))))))))"

definition random_passes :: "int \<Rightarrow> int \<Rightarrow> int \<Rightarrow> nat list \<Rightarrow> buffer \<Rightarrow> (buffer \<times> access list) wprog" where
  "random_passes time output records recnum buf =
     for_int 3 0 (random_pass time output records recnum) (buf, [])"

definition random_perf_main :: "int \<Rightarrow> string list \<Rightarrow> int wprog" where
  "random_perf_main time argv =
     (if length argv < 6 then bindP (say Usage) (\<lambda>_. ret 0)
      else
      bindP (try_res (c_strcpy 20 (argv ! 1))) (\<lambda>fs_type.
      bindP (try_res (c_strcpy 40 (argv ! 2))) (\<lambda>quill_enabled.
      with_size 4096 (argv ! 4) (\<lambda>FILE_SIZE.
      bindP (try_res (c_strcpy 60 (argv ! 5))) (\<lambda>filename.
      bindP (call (c_fopen_a filename)) (\<lambda>output.
      with_buffer (4 * 1024 * 4096) (\<lambda>buf.
      let records = FILE_SIZE div 4096; recnum = recnum_list (nat records) (srand48 0) in
      bindP (random_passes time output records recnum buf) (\<lambda>_.
      bindP (c_fclose output) (\<lambda>_. ret 0)))))))))"

section \<open>A pass over the records\<close>

text \<open>The file after the records of a list have been overwritten with one block.\<close>

definition put_records :: "inode \<Rightarrow> buffer \<Rightarrow> nat \<Rightarrow> nat set \<Rightarrow> inode" where
  "put_records f b s R = f\<lparr>i_data := (\<lambda>x. if x div s \<in> R then b (x mod s) else i_data f x)\<rparr>"

lemma put_records_sel [simp]: "put_records f b s {} = f" "i_size (put_records f b s R) = i_size f"
  by (simp_all add: put_records_def)

lemma put_records_step:
  assumes "(r + 1) * s \<le> i_size f" "0 < s"
  shows "ino_put (put_records f b s R) (r * s) b s = put_records f b s (insert r R)"
proof -
  have le: "r * s + s \<le> i_size f" using assms by simp
  have in_block: "r * s \<le> x \<and> x < r * s + s \<longleftrightarrow> x div s = r" for x
    using assms(2) by (auto intro!: div_nat_eqI simp: mult.commute) (use dividend_less_div_times [OF assms(2), of x] in \<open>simp add: ac_simps\<close>)
  have mod_block: "x - r * s = x mod s" if "x div s = r" for x
    using that minus_div_mult_eq_mod [of x s] by simp
  show ?thesis
    using le in_block mod_block assms(2)
    by (auto simp: ino_put_def put_records_def fun_eq_iff)
qed

lemma put_records_all:
  "0 < s \<Longrightarrow> put_records f b s {..<c} = f\<lparr>i_data := (\<lambda>x. if x < c * s then b (x mod s) else i_data f x)\<rparr>"
  by (simp add: put_records_def fun_eq_iff div_less_iff_less_mult)

definition accesses :: "bool \<Rightarrow> nat list \<Rightarrow> access list" where
  "accesses reads l = map (\<lambda>r. if reads then Read_At (4096 * int r) else Write_At (4096 * int r)) l"

lemma accesses_simps [simp]: "accesses reads [] = []"
  "accesses reads (l @ [r]) = accesses reads l @ [if reads then Read_At (4096 * int r) else Write_At (4096 * int r)]"
  by (simp_all add: accesses_def)

definition pass_inv ::
  "world \<Rightarrow> int \<Rightarrow> nat \<Rightarrow> bool \<Rightarrow> buffer \<Rightarrow> access list \<Rightarrow> nat list \<Rightarrow> buffer \<times> access list \<Rightarrow> world \<Rightarrow> bool" where
  "pass_inv w fd n reads b tr l buf_tr v \<longleftrightarrow>
     snd buf_tr = tr @ accesses reads l
     \<and> (\<exists>off. get_fd v fd = Some (rw_file n off)) \<and> w_dir v = w_dir w \<and> w_log v = w_log w
     \<and> w_fmax v = w_fmax w \<and> (reads \<or> fst buf_tr = b)
     \<and> w_ino v n = (if reads then w_ino w n else put_records (w_ino w n) b 4096 (set l))"

lemma random_block_wp:
  assumes I: "pass_inv w fd n reads b tr l (buf, tr') v" and r: "(r + 1) * 4096 \<le> i_size (w_ino w n)"
    and fit: "i_size (w_ino w n) \<le> w_fmax w"
  shows "wp (random_block fd reads (int r) (buf, tr')) (pass_inv w fd n reads b tr (l @ [r])) (\<lambda>_ _. False) v"
proof -
  from I obtain off where fd: "get_fd v fd = Some (rw_file n off)" unfolding pass_inv_def by blast
  define v1 where "v1 = set_fd fd (Some (rw_file n (r * 4096))) v"
  have sk: "sys_lseek fd (4096 * int r) v = (4096 * int r, v1)"
    using lseek_rw [OF fd, of "4096 * int r"] by (simp add: v1_def nat_mult_distrib mult.commute)
  have fd1: "get_fd v1 fd = Some (rw_file n (r * 4096))" using fd by (simp add: v1_def get_fd_set_fd)
  have sz: "i_size (w_ino v1 n) = i_size (w_ino w n)" and fm: "w_fmax v1 = w_fmax w"
    using I by (simp_all add: v1_def pass_inv_def put_records_def)
  show ?thesis
  proof (cases reads)
    case True
    have "sys_read fd buf 4096 v1 = ((int 4096, blit buf 0 (i_data (w_ino v1 n)) (r * 4096) 4096),
        set_fd fd (Some (rw_file n (r * 4096 + 4096))) v1)"
      using sys_read_plain [OF fd1, of 4096 buf] sz r by simp
    then show ?thesis
      using I True fd1 by (auto simp: random_block_def wp_simps sk pass_inv_def get_fd_set_fd v1_def)
  next
    case False
    have "sys_write fd buf 4096 v1 = (int 4096, set_fd fd (Some (rw_file n (r * 4096 + 4096)))
        (set_ino n (ino_put (w_ino v1 n) (r * 4096) buf 4096) v1))"
      using sys_write_plain [OF fd1, of 4096 buf] fm fit r by simp
    then show ?thesis
      using I False fd1 put_records_step [of r 4096 "w_ino w n" b "set l"] r
      by (auto simp: random_block_def wp_simps sk pass_inv_def get_fd_set_fd v1_def)
  qed
qed

lemma random_blocks_wp:
  assumes I: "pass_inv w fd n reads b tr [] (b, tr) w" and bound: "c \<le> 524288"
    and list: "\<forall>r\<in>set recnum. (r + 1) * 4096 \<le> i_size (w_ino w n)" "length recnum = c"
    and fit: "i_size (w_ino w n) \<le> w_fmax w"
  shows "wp (for_int c 0 (\<lambda>i. random_block fd reads (int (recnum ! nat i))) (b, tr))
    (pass_inv w fd n reads b tr recnum) (\<lambda>_ _. False) w"
proof (rule wp_for_int [where I = "\<lambda>k. pass_inv w fd n reads b tr (take k recnum)"])
  fix k buf_tr v assume k: "k < c" and I: "pass_inv w fd n reads b tr (take k recnum) buf_tr v"
  obtain buf tr' where bt: "buf_tr = (buf, tr')" by (cases buf_tr)
  have "take (Suc k) recnum = take k recnum @ [recnum ! k]"
    using k list(2) by (simp add: take_Suc_conv_app_nth)
  moreover have "(recnum ! k + 1) * 4096 \<le> i_size (w_ino w n)" using k list by auto
  ultimately show "wp (random_block fd reads (int (recnum ! nat (0 + int k))) buf_tr)
      (pass_inv w fd n reads b tr (take (Suc k) recnum)) (\<lambda>_ _. False) v"
    using random_block_wp [OF I [unfolded bt] _ fit] by (simp add: bt)
qed (use assms in auto)

text \<open>A pass: two read only, the third puts the first block of the file everywhere.\<close>

definition pass_file :: "inode \<Rightarrow> int \<Rightarrow> nat \<Rightarrow> inode" where
  "pass_file f j c =
     (if j < 2 then f
      else f\<lparr>i_data := (\<lambda>x. if x < c * 4096 then i_data f (x mod 4096) else i_data f x)\<rparr>)"

lemma random_pass_wp:
  assumes n: "w_dir w test1 = Some n" and out: "0 \<le> output"
    and c: "records = int c" "0 < c" "c \<le> 524288" "c * 4096 \<le> i_size (w_ino w n)"
    and list: "set recnum = {..<c}" "length recnum = c"
    and fit: "i_size (w_ino w n) \<le> w_fmax w"
  shows "wp (random_pass time output records recnum j (buf, tr))
    (\<lambda>bt v. snd bt = tr @ accesses (j < 2) recnum \<and> w_dir v = w_dir w \<and> w_fmax v = w_fmax w \<and> w_ino v n = pass_file (w_ino w n) j c
       \<and> w_log v = w_log w @ [Report (per_op time records) 0]) (\<lambda>_ _. False) w"
proof -
  obtain fd w1 where op: "sys_open test1 [O_CREAT, O_RDWR] w = (fd, w1)" by fastforce
  have rw: "flags_ofile [O_CREAT, O_RDWR] n = rw_file n 0" by (simp add: flags_ofile_def rw_file_def)
  have o: "get_fd w1 fd = Some (flags_ofile [O_CREAT, O_RDWR] n)" "w_ino w1 = w_ino w" "w_dir w1 = w_dir w"
    "w_log w1 = w_log w" "w_fmax w1 = w_fmax w"
    by (rule sys_open_existing [OF n _ _ _ op]; simp add: test1_def)+
  note o = o [unfolded rw]
  define b where "b = blit (memset buf 0 0 4096) 0 (i_data (w_ino w n)) 0 4096"
  define w2 where "w2 = set_fd fd (Some (rw_file n 0)) w1"
  have rd: "sys_read fd (memset buf 0 0 4096) 4096 w1 = ((4096, b), set_fd fd (Some (rw_file n 4096)) w1)"
    using sys_read_plain [OF o(1), of 4096 "memset buf 0 0 4096"] c o(2) by (simp add: b_def)
  have "get_fd (set_fd fd (Some (rw_file n 4096)) w1) fd = Some (rw_file n 4096)"
    using o(1) by (simp add: get_fd_set_fd)
  from lseek_rw [OF this, of 0] have sk: "sys_lseek fd 0 (set_fd fd (Some (rw_file n 4096)) w1) = (0, w2)"
    by (simp add: w2_def set_fd_def)
  let ?body = "\<lambda>i. random_block fd (j < 2) (int (recnum ! nat i))"
  have I: "pass_inv w2 fd n (j < 2) b tr [] (b, tr) w2" using o by (auto simp: pass_inv_def w2_def get_fd_set_fd)
  have loop: "wp (for_int c 0 ?body (b, tr)) (pass_inv w2 fd n (j < 2) b tr recnum) (\<lambda>_ _. False) w2"
    by (rule random_blocks_wp [OF I c(3) _ list(2)]) (use c fit o list in \<open>auto simp: w2_def\<close>)
  have "put_records (w_ino w n) b 4096 {..<c}
      = (w_ino w n)\<lparr>i_data := (\<lambda>x. if x < c * 4096 then i_data (w_ino w n) (x mod 4096) else i_data (w_ino w n) x)\<rparr>"
    by (simp add: put_records_all b_def fun_eq_iff cong: if_cong)
  then have fin: "w_ino v n = pass_file (w_ino w n) j c" if "pass_inv w2 fd n (j < 2) b tr recnum a v" for a v
    using that o by (auto simp: pass_inv_def pass_file_def list w2_def)
  have eq: "wp (random_pass time output records recnum j (buf, tr)) Q E w = wp (for_int c 0 ?body (b, tr)) (\<lambda>bt.
      wp (bindP (say (Report (per_op time records) 0)) (\<lambda>_. bindP (c_fprintf output) (\<lambda>_.
      bindP (call (sys_close fd)) (\<lambda>_. ret bt)))) Q E) E w2" for Q E
    using c by (simp add: random_pass_def wp_simps op rd sk Let_def)
  show ?thesis
    unfolding eq using loop
  proof (rule wp_mono)
    fix a v assume I: "pass_inv w2 fd n (j < 2) b tr recnum a v"
    then have "snd a = tr @ accesses (j < 2) recnum" "w_dir v = w_dir w" "w_log v = w_log w" "w_fmax v = w_fmax w"
      using o by (simp_all add: pass_inv_def w2_def)
    with fin [OF I] out show "wp (bindP (say (Report (per_op time records) 0)) (\<lambda>_. bindP (c_fprintf output) (\<lambda>_.
        bindP (call (sys_close fd)) (\<lambda>_. ret a))))
        (\<lambda>bt v. snd bt = tr @ accesses (j < 2) recnum \<and> w_dir v = w_dir w \<and> w_fmax v = w_fmax w
          \<and> w_ino v n = pass_file (w_ino w n) j c \<and> w_log v = w_log w @ [Report (per_op time records) 0]) (\<lambda>_ _. False) v"
      by (simp add: wp_simps say_def c_fprintf_def)
  qed simp
qed

section \<open>Properties\<close>

definition random_records :: "string list \<Rightarrow> nat" where
  "random_records argv = nat (arg_file_size argv div 4096)"

text \<open>The accesses of the first \<open>k\<close> of the three passes.\<close>

definition pass_accesses :: "nat \<Rightarrow> nat list \<Rightarrow> access list" where
  "pass_accesses k l = concat (map (\<lambda>j. accesses (j < 2) l) [0..<k])"

lemma random_passes_wp:
  assumes n: "w_dir w test1 = Some n" and out: "0 \<le> out"
    and c: "0 < c" "c \<le> 524288" "c * 4096 \<le> i_size (w_ino w n)"
    and fit: "i_size (w_ino w n) \<le> w_fmax w"
  shows "wp (random_passes time out (int c) (recnum_list c x) buf)
    (\<lambda>bt v. snd bt = pass_accesses 3 (recnum_list c x) \<and> w_dir v test1 = Some n
       \<and> w_ino v n = pass_file (w_ino w n) 2 c
       \<and> w_log v = w_log w @ replicate 3 (Report (per_op time (int c)) 0)) (\<lambda>_ _. False) w"
proof -
  let ?f = "w_ino w n" and ?l = "Report (per_op time (int c)) 0" and ?recnum = "recnum_list c x"
  let ?I = "\<lambda>k (bt :: buffer \<times> access list) (v :: world). snd bt = pass_accesses k ?recnum
      \<and> w_dir v test1 = Some n \<and> w_fmax v = w_fmax w
      \<and> w_ino v n = (if k < 3 then ?f else pass_file ?f 2 c) \<and> w_log v = w_log w @ replicate k ?l"
  have "wp (for_int 3 0 (random_pass time out (int c) ?recnum) (buf, [])) (?I 3) (\<lambda>_ _. False) w"
  proof (rule wp_for_int [where I = ?I])
    fix k bt v assume k: "k < (3 :: nat)" and I: "?I k bt v"
    obtain b tr where bt: "bt = (b, tr)" by (cases bt)
    have v: "w_dir v test1 = Some n" "w_ino v n = ?f" "w_fmax v = w_fmax w" "tr = pass_accesses k ?recnum"
      using I k by (simp_all add: bt)
    have "pass_file ?f (int k) c = (if Suc k < 3 then ?f else pass_file ?f 2 c)"
      using k by (auto simp: pass_file_def)
    moreover have "pass_accesses (Suc k) ?recnum = tr @ accesses (int k < 2) ?recnum"
      using v(4) by (simp add: pass_accesses_def)
    moreover have "wp (random_pass time out (int c) ?recnum (int k) (b, tr)) (\<lambda>bt u. snd bt = tr @ accesses (int k < 2) ?recnum
        \<and> w_dir u = w_dir v \<and> w_fmax u = w_fmax v \<and> w_ino u n = pass_file (w_ino v n) (int k) c
        \<and> w_log u = w_log v @ [?l]) (\<lambda>_ _. False) v"
      by (rule random_pass_wp) (use v c out fit in auto)
    ultimately show "wp (random_pass time out (int c) ?recnum (0 + int k) bt) (?I (Suc k)) (\<lambda>_ _. False) v"
      using I v by (auto simp: bt elim!: wp_mono simp flip: replicate_append_same)
  qed (use n in \<open>auto simp: pass_accesses_def\<close>)
  then show ?thesis unfolding random_passes_def by (rule wp_mono) auto
qed

lemma random_perf_runs:
  assumes ok: "args_parsed argv" "argv ! 5 \<noteq> []" and mem: "4 * 1024 * 4096 \<le> w_mem w"
    and n: "w_dir w test1 = Some n" and wf: "wf_world w"
    and long: "random_records argv * 4096 \<le> i_size (w_ino w n)" and fit: "i_size (w_ino w n) \<le> w_fmax w"
    and c: "c = random_records argv" and l: "l = recnum_list c (srand48 0)"
  shows "\<exists>out w1 buf w2. c_fopen_a (argv ! 5) w = (out, w1)
    \<and> random_passes time out (int c) l (w_junk w) w1 = (Inr (buf, pass_accesses 3 l), w2)
    \<and> random_perf_main time argv w = (Inr 0, snd (sys_close out w2))
    \<and> w_ino w2 n = pass_file (w_ino w n) 2 c
    \<and> w_log w2 = w_log w @ replicate 3 (Report (per_op time (int c)) 0)"
proof -
  note D = args_parsedD [OF ok(1)] and R = arg_file_range [OF ok(1)]
  obtain m where m: "size_arg (argv ! 4) = Inr (Some m)" "clamp_size 4096 m = arg_file_size argv"
    using D(5) by blast
  obtain out w1 where fo: "c_fopen_a (argv ! 5) w = (out, w1)" by fastforce
  note F = fopen_frame [OF fo ok(2)]
  have "n \<noteq> w_next w" using wf n unfolding wf_world_def by blast
  then have w1: "w_dir w1 test1 = Some n" "w_ino w1 n = w_ino w n" "w_log w1 = w_log w" "w_mem w1 = w_mem w"
    "w_junk w1 = w_junk w" "w_fmax w1 = w_fmax w" "0 \<le> out"
    using F n by auto
  have cr: "arg_file_size argv div 4096 = int c" "0 < c" "c \<le> 524288"
    using R zdiv_mono1 [of 4096 "arg_file_size argv" 4096] zdiv_mono1 [of "arg_file_size argv" 2147483648 4096]
    by (simp_all add: c random_records_def)
  have "wp (random_passes time out (int c) l (w_junk w)) (\<lambda>bt v. snd bt = pass_accesses 3 l \<and> w_dir v test1 = Some n
       \<and> w_ino v n = pass_file (w_ino w1 n) 2 c \<and> w_log v = w_log w1 @ replicate 3 (Report (per_op time (int c)) 0)) (\<lambda>_ _. False) w1"
    unfolding l by (rule random_passes_wp) (use w1 cr long fit c in auto)
  from wp_returns [OF this] obtain buf w2 where two:
    "random_passes time out (int c) l (w_junk w) w1 = (Inr (buf, pass_accesses 3 l), w2)"
    "w_ino w2 n = pass_file (w_ino w n) 2 c" "w_log w2 = w_log w @ replicate 3 (Report (per_op time (int c)) 0)"
    by (auto simp: w1)
  have "random_perf_main time argv w = (Inr 0, snd (sys_close out w2))"
    using D(1-4) m mem w1 cr(1) two(1)
    by (simp add: random_perf_main_def bindP_def call_def ret_def try_res_def with_size_def with_buffer_def Let_def fo l
        c_fclose_def)
  with fo two show ?thesis by blast
qed

text \<open>
  C38: \<open>random_perf_test\<close> on a test file that holds all records.  It returns 0 without an error
  line.  Its loop accesses every record exactly once in each of the three passes, in the same
  shuffled order: two passes read and change nothing, the third writes, and leaves every record a
  copy of the first one, with the size and the rest of the file as before.
\<close>

theorem random_perf_test_result:
  assumes "args_parsed argv" "argv ! 5 \<noteq> []" "4 * 1024 * 4096 \<le> w_mem w"
    and "w_dir w test1 = Some n" "wf_world w"
    and "random_records argv * 4096 \<le> i_size (w_ino w n)" "i_size (w_ino w n) \<le> w_fmax w"
  shows "\<exists>out w1 buf w2 w' order.
    order = recnum_list (random_records argv) (srand48 0) \<and> mset order = mset [0..<random_records argv]
    \<and> c_fopen_a (argv ! 5) w = (out, w1)
    \<and> random_passes time out (int (random_records argv)) order (w_junk w) w1
        = (Inr (buf, map (\<lambda>r. Read_At (4096 * int r)) order @ map (\<lambda>r. Read_At (4096 * int r)) order
                     @ map (\<lambda>r. Write_At (4096 * int r)) order), w2)
    \<and> w' = snd (sys_close out w2)
    \<and> random_perf_main time argv w = (Inr 0, w')
    \<and> w_log w' = w_log w @ replicate 3 (Report (per_op time (int (random_records argv))) 0)
    \<and> i_size (w_ino w' n) = i_size (w_ino w n)
    \<and> (\<forall>x. i_data (w_ino w' n) x =
          (if x < random_records argv * 4096 then i_data (w_ino w n) (x mod 4096) else i_data (w_ino w n) x))"
proof -
  define order where "order = recnum_list (random_records argv) (srand48 0)"
  have a: "pass_accesses 3 order = map (\<lambda>r. Read_At (4096 * int r)) order @ map (\<lambda>r. Read_At (4096 * int r)) order
                     @ map (\<lambda>r. Write_At (4096 * int r)) order"
    by (simp add: pass_accesses_def accesses_def numeral_3_eq_3)
  have p: "mset order = mset [0..<random_records argv]" unfolding order_def by (rule recnum_list_mset)
  from random_perf_runs [OF assms refl order_def, of time, unfolded a] obtain out w1 buf w2 where
    "c_fopen_a (argv ! 5) w = (out, w1)"
    "random_passes time out (int (random_records argv)) order (w_junk w) w1
        = (Inr (buf, map (\<lambda>r. Read_At (4096 * int r)) order @ map (\<lambda>r. Read_At (4096 * int r)) order
                     @ map (\<lambda>r. Write_At (4096 * int r)) order), w2)"
    "random_perf_main time argv w = (Inr 0, snd (sys_close out w2))"
    "w_ino w2 n = pass_file (w_ino w n) 2 (random_records argv)"
    "w_log w2 = w_log w @ replicate 3 (Report (per_op time (int (random_records argv))) 0)" by blast
  then show ?thesis
    using p order_def
    by (intro exI [of _ out] exI [of _ w1] exI [of _ buf] exI [of _ w2] exI [of _ "snd (sys_close out w2)"] exI [of _ order])
      (simp add: pass_file_def del: mset_upt)
qed

definition patterned_world :: world where
  "patterned_world = (sized_world 8193)\<lparr>w_ino := (\<lambda>_. \<lparr>i_data = (\<lambda>x. if x < 4096 then 2 else 7), i_size = 8193\<rparr>)\<rparr>"

theorem random_perf_test_result_witness:
  "\<exists>w'. random_perf_main 12 ram_argv patterned_world = (Inr 0, w')
     \<and> w_log w' = [Report 6 0, Report 6 0, Report 6 0]
     \<and> i_data (w_ino w' 0) 5 = 2 \<and> i_data (w_ino w' 0) 4101 = 2"
proof -
  have "w_dir patterned_world test1 = Some 0" "w_mem patterned_world = 67108864" "wf_world patterned_world"
      "w_fmax patterned_world = 2147483648" "w_log patterned_world = []"
      "w_ino patterned_world 0 = \<lparr>i_data = (\<lambda>x. if x < 4096 then 2 else 7), i_size = 8193\<rparr>"
    using sized_world_sel [of 8193] by (simp_all add: patterned_world_def wf_world_def)
  then show ?thesis
    using random_perf_test_result [of ram_argv patterned_world 0 12]
    by (auto simp: ram_sample random_records_def numeral_3_eq_3 per_op_def u64_def s64_def)
qed

text \<open>
  The exchange with any of the records is not the shuffle of Fisher, Yates and Knuth: of the 27
  sequences of draws for three records, 4 lead to the order 0, 1, 2 and 5 to 1, 0, 2.
\<close>

definition outcomes :: "nat \<Rightarrow> nat list list" where
  "outcomes records =
     map (\<lambda>draws. fold (\<lambda>(i, big_rand). exchange i big_rand) (zip [0..<records] draws) [0..<records])
       (product_lists (replicate records [0..<records]))"

theorem shuffle_biased: "count_list (outcomes 3) [0, 1, 2] = 4 \<and> count_list (outcomes 3) [1, 0, 2] = 5"
  by code_simp

end
