(* ===== verification/Iozone.thy ===== *)
theory Iozone
  imports Random_Io
begin

text \<open>
  \<open>iozone_test.c\<close>: sequential writes, sequential reads, and reads and writes in random order, each
  as a function of its own, and \<open>main\<close>, which calls three of the four.  The times and the rates
  printed from them are arguments; lines that only inform are left out.  \<open>mainbuffer\<close> is \<open>None\<close> if
  \<open>posix_memalign\<close> failed, which \<open>main\<close> does not check: the kernel refuses transfers with a null
  buffer.  \<open>write_perf_test1\<close> creates the test file without any permission bits; whether the kernel
  grants each of its \<open>open\<close>s is the parameter \<open>granted\<close>.  The \<open>double\<close> arrays of the functions have two elements; an access to a third is a trap.
\<close>

section \<open>The program\<close>

text \<open>A loop with a 64-bit counter that cannot reach its limits.\<close>

primrec for_n :: "nat \<Rightarrow> nat \<Rightarrow> (nat \<Rightarrow> 'a \<Rightarrow> ('w, 'a) prog) \<Rightarrow> 'a \<Rightarrow> ('w, 'a) prog" where
  "for_n 0 i body a = ret a"
| "for_n (Suc n) i body a = bindP (body i a) (for_n n (Suc i) body)"

definition MAIN_BUF :: int where
  "MAIN_BUF = 4 * 1024 * 4096"

text \<open>\<open>read\<close> and \<open>write\<close> between a descriptor and \<open>mainbuffer\<close>.\<close>

definition buf_read :: "int \<Rightarrow> buffer option \<Rightarrow> int \<Rightarrow> (int \<times> buffer option) wprog" where
  "buf_read fd mainbuffer n =
     (case mainbuffer of
        None \<Rightarrow> ret (-1, None)
      | Some b \<Rightarrow>
          if MAIN_BUF < n then trap Buffer_Overflow
          else bindP (call (sys_read fd b (nat n))) (\<lambda>(r, b). ret (r, Some b)))"

definition buf_write :: "int \<Rightarrow> buffer option \<Rightarrow> int \<Rightarrow> int wprog" where
  "buf_write fd mainbuffer n =
     (case mainbuffer of
        None \<Rightarrow> ret (-1)
      | Some b \<Rightarrow> if MAIN_BUF < n then trap Buffer_Overflow else call (sys_write fd b (nat n)))"

text \<open>The rates: two arrays of two elements are read and written at \<open>j\<close>.\<close>

definition print_rates :: "nat \<Rightarrow> (nat \<Rightarrow> int) \<Rightarrow> unit wprog" where
  "print_rates ltest rate =
     for_n ltest 0 (\<lambda>j _. if 2 \<le> j then trap Out_Of_Bounds else say (Report (int j) (rate j))) ()"

definition read_perf_round :: "int \<Rightarrow> int \<Rightarrow> nat \<Rightarrow> buffer option \<Rightarrow> buffer option wprog" where
  "read_perf_round numrecs64 reclen j mainbuffer =
     bindP (call (sys_open test1 [O_RDONLY])) (\<lambda>fd.
     if fd < 0 then exit_with 58
     else
     bindP (call (sys_fsync fd)) (\<lambda>_.
     bindP (buf_read fd mainbuffer 4096) (\<lambda>(r, mainbuffer).
     if r \<noteq> reclen then bindP (say Err_Plain) (\<lambda>_. exit_with 60)
     else
     bindP (call (sys_lseek fd 0)) (\<lambda>_.
     bindP (for_n (nat numrecs64) 0
              (\<lambda>i mainbuffer. bindP (buf_read fd mainbuffer 4096) (\<lambda>(wval, mainbuffer).
                 if wval \<noteq> reclen then bindP (say Err_Plain) (\<lambda>_. exit_with 61)
                 else ret mainbuffer)) mainbuffer) (\<lambda>mainbuffer.
     if 2 \<le> j then trap Out_Of_Bounds
     else
     bindP (call (sys_fsync fd)) (\<lambda>_.
     bindP (call (sys_close fd)) (\<lambda>_. ret mainbuffer)))))))"

definition read_perf_test :: "(nat \<Rightarrow> int) \<Rightarrow> int \<Rightarrow> int \<Rightarrow> buffer option \<Rightarrow> buffer option wprog" where
  "read_perf_test rate kilo64 reclen mainbuffer =
     (if reclen = 0 then trap Div_By_Zero
      else
      let numrecs64 = u64 (kilo64 * 1024) div u64 reclen; ltest = 3 in
      bindP (for_n ltest 0 (read_perf_round numrecs64 reclen) mainbuffer) (\<lambda>mainbuffer.
      bindP (print_rates ltest rate) (\<lambda>_. ret mainbuffer)))"

definition write_perf_round :: "int \<Rightarrow> int \<Rightarrow> buffer option \<Rightarrow> nat \<Rightarrow> unit wprog" where
  "write_perf_round numrecs64 reclen mainbuffer j =
     bindP (call (sys_open test1 [O_CREAT, O_RDWR])) (\<lambda>fd.
     if fd < 0 then exit_with 58
     else
     bindP (call (sys_fsync fd)) (\<lambda>_.
     bindP (buf_write fd mainbuffer 4096) (\<lambda>r.
     if r \<noteq> reclen then bindP (say Err_Plain) (\<lambda>_. exit_with 60)
     else
     bindP (call (sys_lseek fd 0)) (\<lambda>_.
     bindP (for_n (nat numrecs64) 0
              (\<lambda>i _. bindP (buf_write fd mainbuffer 4096) (\<lambda>wval.
                 if wval \<noteq> reclen then bindP (say Err_Plain) (\<lambda>_. exit_with 61) else ret ())) ()) (\<lambda>_.
     if 2 \<le> j then trap Out_Of_Bounds
     else
     bindP (call (sys_fsync fd)) (\<lambda>_.
     bindP (call (sys_close fd)) (\<lambda>_. ret ())))))))"

definition write_perf_test :: "(nat \<Rightarrow> int) \<Rightarrow> int \<Rightarrow> int \<Rightarrow> buffer option \<Rightarrow> unit wprog" where
  "write_perf_test rate kilo64 reclen mainbuffer =
     (if reclen = 0 then trap Div_By_Zero
      else
      let numrecs64 = u64 (kilo64 * 1024) div u64 reclen; ltest = 3 in
      bindP (for_n ltest 0 (\<lambda>j _. write_perf_round numrecs64 reclen mainbuffer j) ()) (\<lambda>_.
      print_rates ltest rate))"

text \<open>\<open>(kilo64*1024)/reclen\<close> in \<open>off64_t\<close>\<close>

definition record_count :: "int \<Rightarrow> int \<Rightarrow> trap + int" where
  "record_count kilo64 reclen =
     (let b = kilo64 * 1024 in
      if b < - (2 ^ 63) \<or> 2 ^ 63 \<le> b then Inl Int_Overflow
      else if reclen = 0 then Inl Div_By_Zero
      else if b = - (2 ^ 63) \<and> reclen = -1 then Inl Int_Overflow
      else Inr (b sdiv reclen))"

definition write_record :: "int \<Rightarrow> int \<Rightarrow> buffer option \<Rightarrow> unit wprog" where
  "write_record fd reclen mainbuffer =
     bindP (buf_write fd mainbuffer (u64 reclen)) (\<lambda>r.
     let wval = s32 r in whenP (wval \<noteq> reclen) (say Err_Plain))"

text \<open>
  \<open>write_perf_test1\<close> opens its file with the mode 0, and opens it again in every round: whether
  the kernel's permission check lets the process do so is an argument, \<open>granted k\<close> for its
  \<open>k\<close>-th \<open>open\<close>.
\<close>

definition open_granted :: "bool \<Rightarrow> string \<Rightarrow> oflag list \<Rightarrow> world \<Rightarrow> int \<times> world" where
  "open_granted ok path fl w = (if ok then sys_open path fl w else (-1, w))"

definition write1_round :: "(nat \<Rightarrow> bool) \<Rightarrow> int \<Rightarrow> int \<Rightarrow> buffer option \<Rightarrow> nat \<Rightarrow> int \<Rightarrow> int wprog" where
  "write1_round granted numrecs64 reclen mainbuffer j fd =
     bindP (whenP (fd \<noteq> 0) (bindP (call (sys_close fd)) (\<lambda>_. ret ()))) (\<lambda>_.
     bindP (call (open_granted (granted (Suc j)) test1 [O_RDWR])) (\<lambda>fd.
     if fd < 0 then exit_with 44
     else
     bindP (call (sys_fsync fd)) (\<lambda>_.
     bindP (for_n (nat numrecs64) 0 (\<lambda>i _. write_record fd reclen mainbuffer) ()) (\<lambda>_.
     if 2 \<le> j then trap Out_Of_Bounds
     else
     bindP (call (sys_close fd)) (\<lambda>_. ret fd)))))"

definition write_perf_test1 ::
  "(nat \<Rightarrow> bool) \<Rightarrow> (nat \<Rightarrow> int) \<Rightarrow> int \<Rightarrow> int \<Rightarrow> buffer option \<Rightarrow> unit wprog" where
  "write_perf_test1 granted rate kilo64 reclen mainbuffer =
     bindP (try_res (record_count kilo64 reclen)) (\<lambda>numrecs64.
     bindP (call (open_granted (granted 0) test1 [O_CREAT, O_RDWR])) (\<lambda>fd.
     if fd < 0 then exit_with 44
     else
     let ltest = 3 in
     bindP (for_n ltest 0 (write1_round granted numrecs64 reclen mainbuffer) fd) (\<lambda>_.
     print_rates ltest rate)))"

text \<open>The offset of the \<open>i\<close>-th access: from the list, or drawn anew if there is no list.\<close>

definition random_offset :: "int \<Rightarrow> int \<Rightarrow> nat list option \<Rightarrow> nat \<Rightarrow> nat \<Rightarrow> int \<times> nat" where
  "random_offset numrecs64 reclen recnum i x =
     (case recnum of
        Some l \<Rightarrow> (reclen * int (l ! i), x)
      | None \<Rightarrow> (let (r, x) = lrand48 x in (reclen * (int r smod numrecs64), x)))"

definition random_read :: "int \<Rightarrow> int \<Rightarrow> nat list option \<Rightarrow> int \<Rightarrow> nat \<Rightarrow> nat \<times> buffer option \<Rightarrow> (nat \<times> buffer option) wprog" where
  "random_read numrecs64 reclen recnum fd i xb =
     (let (x, mainbuffer) = xb; (offset64, x) = random_offset numrecs64 reclen recnum i x in
      bindP (call (sys_lseek fd offset64)) (\<lambda>r.
      if r < 0 then exit_with 68
      else
      bindP (buf_read fd mainbuffer (u64 reclen)) (\<lambda>(r, mainbuffer).
      if r \<noteq> reclen then bindP (say Err_Plain) (\<lambda>_. exit_with 70)
      else ret (x, mainbuffer))))"

definition random_write :: "int \<Rightarrow> int \<Rightarrow> nat list option \<Rightarrow> int \<Rightarrow> nat \<Rightarrow> nat \<times> buffer option \<Rightarrow> (nat \<times> buffer option) wprog" where
  "random_write numrecs64 reclen recnum fd i xb =
     (let (x, mainbuffer) = xb; (offset64, x) = random_offset numrecs64 reclen recnum i x in
      bindP (call (sys_lseek fd offset64)) (\<lambda>_.
      bindP (write_record fd reclen mainbuffer) (\<lambda>_. ret (x, mainbuffer))))"

definition iozone_pass :: "int \<Rightarrow> int \<Rightarrow> nat list option \<Rightarrow> nat \<Rightarrow> buffer option \<Rightarrow> buffer option wprog" where
  "iozone_pass numrecs64 reclen recnum j mainbuffer =
     bindP (call (sys_open test1 [O_CREAT, O_RDWR])) (\<lambda>fd.
     if fd < 0 then exit_with 66
     else
     let body = (if j = 0 then random_read else random_write) in
     bindP (for_n (nat numrecs64) 0 (body numrecs64 reclen recnum fd) (srand48 0, mainbuffer)) (\<lambda>(x, mainbuffer).
     bindP (call (sys_fsync fd)) (\<lambda>_.
     bindP (call (sys_close fd)) (\<lambda>_. ret mainbuffer))))"

text \<open>\<open>malloc\<close> takes the size modulo the range of \<open>size_t\<close>; its failure is handled.\<close>

definition random_perf_test :: "(nat \<Rightarrow> int) \<Rightarrow> int \<Rightarrow> int \<Rightarrow> buffer option \<Rightarrow> buffer option wprog" where
  "random_perf_test rate kilo64 reclen mainbuffer =
     bindP (try_res (record_count kilo64 reclen)) (\<lambda>numrecs64.
     bindP (call (sys_memalign (u64 (8 * numrecs64)))) (\<lambda>p.
     let recnum = (case p of None \<Rightarrow> None | Some _ \<Rightarrow> Some (recnum_list (nat numrecs64) (srand48 0))) in
     bindP (for_n 2 0 (iozone_pass numrecs64 reclen recnum) mainbuffer) (\<lambda>mainbuffer.
     bindP (print_rates 2 rate) (\<lambda>_. ret mainbuffer))))"

definition iozone_main ::
  "(nat \<Rightarrow> bool) \<Rightarrow> (nat \<Rightarrow> int) \<Rightarrow> (nat \<Rightarrow> int) \<Rightarrow> (nat \<Rightarrow> int) \<Rightarrow> int wprog" where
  "iozone_main granted rate1 rate2 rate3 =
     bindP (call (sys_memalign MAIN_BUF)) (\<lambda>mainbuffer.
     bindP (write_perf_test1 granted rate1 1048576 4096 mainbuffer) (\<lambda>_.
     bindP (read_perf_test rate2 1048576 4096 mainbuffer) (\<lambda>mainbuffer.
     bindP (random_perf_test rate3 1048576 4096 mainbuffer) (\<lambda>_. ret 0))))"

section \<open>Loops\<close>

lemma wp_for_n:
  assumes "I 0 a w"
    and "\<And>k a w. k < n \<Longrightarrow> I k a w \<Longrightarrow> wp (body (i + k) a) (I (Suc k)) E w"
    and "\<And>a w. I n a w \<Longrightarrow> Q a w"
  shows "wp (for_n n i body a) Q E w"
proof -
  have "wp (for_n m (i + k) body a) Q E w" if "k + m = n" "I k a w" for m k a w
    using that
  proof (induction m arbitrary: k a w)
    case 0
    then show ?case by (simp add: wp_ret assms(3))
  next
    case (Suc m)
    have "wp (body (i + k) a) (I (Suc k)) E w" using Suc.prems assms(2) by simp
    moreover have "wp (for_n m (Suc (i + k)) body a') Q E w'" if "I (Suc k) a' w'" for a' w'
      using Suc.IH [of "Suc k"] Suc.prems(1) that by simp
    ultimately show ?case by (auto simp: wp_bindP elim!: wp_mono)
  qed
  from this [of 0 n a w] assms(1) show ?thesis by simp
qed

text \<open>A loop whose last round never gets to its end.\<close>

lemma wp_for_n_last:
  assumes "I 0 a w"
    and "\<And>k a w. k < n \<Longrightarrow> I k a w \<Longrightarrow> wp (body (i + k) a) (I (Suc k)) E w"
    and "\<And>a w. I n a w \<Longrightarrow> wp (body (i + n) a) (\<lambda>_ _. False) E w"
  shows "wp (for_n (Suc n) i body a) Q E w"
proof (rule wp_for_n [where I = "\<lambda>k a w. k \<le> n \<and> I k a w"])
  show "wp (body (i + k) a) (\<lambda>a w. Suc k \<le> n \<and> I (Suc k) a w) E w" if "k < Suc n" "k \<le> n \<and> I k a w" for k a w
  proof (cases "k = n")
    case True
    with that show ?thesis by (auto intro: wp_mono [OF assms(3)])
  next
    case False
    with that show ?thesis by (intro wp_mono [OF assms(2)]) auto
  qed
qed (use assms(1) in auto)

section \<open>Sequential writes\<close>

lemma MAIN_BUF_value: "MAIN_BUF = 16777216"
  by (simp add: MAIN_BUF_def)

text \<open>The file after \<open>k\<close> copies of a buffer have been written one behind the other.\<close>

definition copies :: "inode \<Rightarrow> buffer \<Rightarrow> nat \<Rightarrow> nat \<Rightarrow> inode" where
  "copies f b s k = ino_put f 0 (\<lambda>x. b (x mod s)) (k * s)"

lemma copies_0 [simp]: "copies f b s 0 = f"
  by (simp add: copies_def ino_put_def)

lemma copies_Suc:
  assumes "0 < s"
  shows "ino_put (copies f b s k) (k * s) b s = copies f b s (Suc k)"
proof -
  have m: "x - k * s = x mod s" if "k * s \<le> x" "x < k * s + s" for x
  proof -
    have "x div s = k" using that assms by (intro div_nat_eqI) (simp_all add: mult.commute)
    then show ?thesis using minus_div_mult_eq_mod [of x s] by simp
  qed
  show ?thesis
    using assms m by (cases "k = 0") (auto simp: copies_def ino_put_def fun_eq_iff add.commute)
qed

lemma copies_again [simp]: "copies (copies f b s k) b s k = copies f b s k"
  by (simp add: copies_def ino_put_idem)

lemma write_record_frame:
  assumes "0 < reclen" "reclen \<le> MAIN_BUF"
  shows "wp (write_record fd reclen mb) (\<lambda>_ u. w_dir u = w_dir v \<and> w_fmax u = w_fmax v) (\<lambda>_ _. False) v"
  using assms
  by (auto simp: write_record_def buf_write_def MAIN_BUF_value u64_id wp_simps say_def split: option.splits)

lemma write_record_put:
  assumes "0 < reclen" "reclen \<le> MAIN_BUF" and fd: "get_fd v fd = Some (rw_file n off)"
    and fit: "off + nat reclen \<le> w_fmax v"
  shows "wp (write_record fd reclen (Some b)) (\<lambda>_ u. get_fd u fd = Some (rw_file n (off + nat reclen))
      \<and> w_log u = w_log v \<and> w_dir u = w_dir v \<and> w_fmax u = w_fmax v
      \<and> w_ino u n = ino_put (w_ino v n) off b (nat reclen)) (\<lambda>_ _. False) v"
proof -
  have wr: "sys_write fd b (nat reclen) v = (reclen, set_fd fd (Some (rw_file n (off + nat reclen)))
      (set_ino n (ino_put (w_ino v n) off b (nat reclen)) v))"
    using sys_write_plain [OF fd, of "nat reclen" b] fit assms(1) by simp
  have "get_fd (set_ino n i v) fd \<noteq> None" for i using fd by simp
  moreover have "s32 reclen = reclen" "u64 reclen = reclen"
    using assms(1,2) by (simp_all add: MAIN_BUF_value s32_id u64_id)
  ultimately show ?thesis
    using assms(1,2) by (simp add: write_record_def buf_write_def wp_simps wr get_fd_set_fd Let_def)
qed

definition seq_done :: "buffer option \<Rightarrow> int \<Rightarrow> nat \<Rightarrow> nat \<Rightarrow> world \<Rightarrow> world \<Rightarrow> bool" where
  "seq_done mb reclen n k v u \<longleftrightarrow>
     w_dir u = w_dir v \<and> w_fmax u = w_fmax v
     \<and> (\<forall>b. mb = Some b \<and> k * nat reclen \<le> w_fmax v \<longrightarrow>
          w_log u = w_log v \<and> w_ino u n = copies (w_ino v n) b (nat reclen) k)"

lemma write_records_wp:
  assumes r: "0 < reclen" "reclen \<le> MAIN_BUF" and fd: "get_fd v fd = Some (rw_file n 0)"
  shows "wp (for_n c 0 (\<lambda>i _. write_record fd reclen mb) ()) (\<lambda>_. seq_done mb reclen n c v) (\<lambda>_ _. False) v"
proof (cases "\<exists>b. mb = Some b \<and> c * nat reclen \<le> w_fmax v")
  case True
  then obtain b where b: "mb = Some b" and fit: "c * nat reclen \<le> w_fmax v" by blast
  let ?s = "nat reclen"
  show ?thesis
  proof (rule wp_for_n [where I = "\<lambda>k _ u. get_fd u fd = Some (rw_file n (k * ?s)) \<and> w_log u = w_log v
      \<and> w_dir u = w_dir v \<and> w_fmax u = w_fmax v \<and> w_ino u n = copies (w_ino v n) b ?s k"])
    fix k a u assume k: "k < c" and I: "get_fd u fd = Some (rw_file n (k * ?s)) \<and> w_log u = w_log v
      \<and> w_dir u = w_dir v \<and> w_fmax u = w_fmax v \<and> w_ino u n = copies (w_ino v n) b ?s k"
    have "Suc k * ?s \<le> c * ?s" using k by (intro mult_le_mono1) simp
    then have "k * ?s + ?s \<le> w_fmax u" using fit I by simp
    from write_record_put [OF r conjunct1 [OF I] this]
    show "wp (write_record fd reclen mb) (\<lambda>_ u. get_fd u fd = Some (rw_file n (Suc k * ?s)) \<and> w_log u = w_log v
      \<and> w_dir u = w_dir v \<and> w_fmax u = w_fmax v \<and> w_ino u n = copies (w_ino v n) b ?s (Suc k)) (\<lambda>_ _. False) u"
      unfolding b by (rule wp_mono) (use I r copies_Suc [of ?s] in \<open>auto simp: add.commute\<close>)
  qed (use fd b in \<open>auto simp: seq_done_def\<close>)
next
  case False
  have step: "wp (write_record fd reclen mb) (\<lambda>_ u. w_dir u = w_dir v \<and> w_fmax u = w_fmax v) (\<lambda>_ _. False) u"
    if "w_dir u = w_dir v \<and> w_fmax u = w_fmax v" for u
    by (rule wp_mono [OF write_record_frame [OF r, of fd mb u]]) (use that in auto)
  show ?thesis
    by (rule wp_for_n [where I = "\<lambda>k _ u. w_dir u = w_dir v \<and> w_fmax u = w_fmax v"])
      (use False step in \<open>auto simp: seq_done_def\<close>)
qed

lemma open_rw_flags: "flags_ofile [O_RDWR] n = rw_file n 0"
  by (simp add: flags_ofile_def rw_file_def)

lemma test1_path [simp]: "test1 \<noteq> []"
  by (simp add: test1_def)

lemma write1_round_wp:
  assumes r: "0 < reclen" "reclen \<le> MAIN_BUF" and n: "w_dir v test1 = Some n"
  shows "wp (write1_round granted numrecs64 reclen mb j fd)
    (\<lambda>_ u. granted (Suc j) \<and> j < 2 \<and> seq_done mb reclen n (nat numrecs64) v u)
    (\<lambda>e u. if granted (Suc j) then e = Trap Out_Of_Bounds \<and> \<not> j < 2 \<and> seq_done mb reclen n (nat numrecs64) v u
           else e = Exit 44) v"
proof (cases "granted (Suc j)")
  case False
  then show ?thesis
    by (cases "fd = 0") (simp_all add: write1_round_def open_granted_def wp_bindP wp_whenP wp_call wp_simps)
next
  case True
  define v1 where "v1 = (if fd \<noteq> 0 then snd (sys_close fd v) else v)"
  have v1: "w_dir v1 = w_dir v" "w_fmax v1 = w_fmax v" "w_log v1 = w_log v" "w_ino v1 = w_ino v"
    by (simp_all add: v1_def)
  obtain fd' v2 where op: "sys_open test1 [O_RDWR] v1 = (fd', v2)" by fastforce
  have n1: "w_dir v1 test1 = Some n" using n v1 by simp
  have o: "get_fd v2 fd' = Some (flags_ofile [O_RDWR] n)" "0 \<le> fd'" "w_ino v2 = w_ino v1" "w_dir v2 = w_dir v1"
      "w_log v2 = w_log v1" "w_fmax v2 = w_fmax v1"
    by (rule sys_open_existing [OF n1 _ _ _ op]; simp)+
  note loop = write_records_wp [OF r o(1) [unfolded open_rw_flags], of "nat numrecs64" mb]
  have eq: "wp (write1_round granted numrecs64 reclen mb j fd) Q E v =
      wp (for_n (nat numrecs64) 0 (\<lambda>i _. write_record fd' reclen mb) ())
        (\<lambda>_. wp (if 2 \<le> j then trap Out_Of_Bounds else bindP (call (sys_close fd')) (\<lambda>_. ret fd')) Q E) E v2" for Q E
    using o(2) op True
    by (cases "fd = 0")
      (simp_all add: write1_round_def open_granted_def v1_def wp_bindP wp_whenP wp_call wp_ret sys_fsync_def cong: if_cong)
  show ?thesis
    unfolding eq
    by (rule wp_mono [OF loop]) (use o v1 True in \<open>auto simp: wp_simps seq_done_def\<close>)
qed

text \<open>What is known after \<open>k\<close> rounds of \<open>write_perf_test1\<close> started in \<open>v\<close>.\<close>

definition rounds_done :: "buffer option \<Rightarrow> int \<Rightarrow> nat \<Rightarrow> nat \<Rightarrow> nat \<Rightarrow> world \<Rightarrow> world \<Rightarrow> bool" where
  "rounds_done mb reclen n c k v u \<longleftrightarrow>
     w_dir u test1 = Some n \<and> w_fmax u = w_fmax v
     \<and> (\<forall>b. mb = Some b \<and> c * nat reclen \<le> w_fmax v \<longrightarrow> w_log u = w_log v
          \<and> w_ino u n = (if k = 0 then test1_inode v else copies (test1_inode v) b (nat reclen) c))"

lemma rounds_done_step:
  assumes r: "0 < reclen" "reclen \<le> MAIN_BUF" and I: "rounds_done mb reclen n (nat numrecs64) k v u"
  shows "wp (write1_round granted numrecs64 reclen mb j fd)
    (\<lambda>_ u. granted (Suc j) \<and> j < 2 \<and> rounds_done mb reclen n (nat numrecs64) (Suc k) v u)
    (\<lambda>e u. if granted (Suc j) then e = Trap Out_Of_Bounds \<and> \<not> j < 2 \<and> rounds_done mb reclen n (nat numrecs64) (Suc k) v u
           else e = Exit 44) u"
proof -
  have "w_dir u test1 = Some n" using I by (simp add: rounds_done_def)
  from write1_round_wp [OF r this, of granted numrecs64 mb j fd] show ?thesis
    by (rule wp_mono) (use I in \<open>auto simp: seq_done_def rounds_done_def split: if_splits\<close>)
qed

lemma open_rounds_done:
  assumes "open_granted True test1 [O_CREAT, O_RDWR] v = (fd, v1)"
  obtains n where "0 \<le> fd" "rounds_done mb reclen n c 0 v v1"
proof -
  from assms have op: "sys_open test1 [O_CREAT, O_RDWR] v = (fd, v1)" by (simp add: open_granted_def)
  obtain n where "w_dir v1 test1 = Some n" "w_ino v1 n = test1_inode v" "w_fmax v1 = w_fmax v"
      "w_log v1 = w_log v" "0 \<le> fd"
    by (rule open_test1_inode [OF op])
  then show thesis by (intro that [of n]) (simp_all add: rounds_done_def)
qed

text \<open>
  A permission that is refused ends the test; if none is, the first two rounds return, and the
  third ends in its first access past an array.
\<close>

lemma write_perf_test1_refused:
  assumes r: "0 < reclen" "reclen \<le> MAIN_BUF" and c: "record_count kilo64 reclen = Inr numrecs64"
    and no: "\<not> granted j" "j \<le> 3"
  shows "fst (write_perf_test1 granted rate kilo64 reclen mb v) = Inl (Exit 44)"
proof (cases "granted 0")
  case True
  obtain fd v1 where op: "open_granted True test1 [O_CREAT, O_RDWR] v = (fd, v1)" by fastforce
  obtain n where fd: "0 \<le> fd" and n: "rounds_done mb reclen n (nat numrecs64) 0 v v1" by (rule open_rounds_done [OF op])
  let ?I = "\<lambda>(k :: nat) (_ :: int) (u :: world). rounds_done mb reclen n (nat numrecs64) k v u \<and> (\<forall>i\<le>k. granted i)"
  let ?E = "\<lambda>e (_ :: world). e = Exit 44"
  have last: "\<not> (\<forall>i\<le>3. granted i)" using no by auto
  have step: "wp (write1_round granted numrecs64 reclen mb k fd) (?I (Suc k)) ?E u"
    if "k < 3" "?I k a u" for k a u fd
  proof (rule wp_mono [OF rounds_done_step [OF r conjunct1 [OF that(2)], where j = k]])
    fix e u assume "if granted (Suc k) then e = Trap Out_Of_Bounds \<and> \<not> k < 2 \<and> rounds_done mb reclen n (nat numrecs64) (Suc k) v u
           else e = Exit 44"
    moreover have "\<not> (granted (Suc k) \<and> \<not> k < 2)"
    proof
      assume g: "granted (Suc k) \<and> \<not> k < 2"
      with that(1) have "k = 2" by simp
      with g that(2) have "\<forall>i\<le>3. granted i" by (auto simp: le_Suc_eq numeral_3_eq_3)
      with last show False by simp
    qed
    ultimately show "e = Exit 44" by auto
  qed (use that in \<open>auto simp: le_Suc_eq\<close>)
  have "wp (for_n 3 0 (write1_round granted numrecs64 reclen mb) fd) (\<lambda>_ _. False) ?E v1"
    by (rule wp_for_n [where I = ?I]) (use n True step last in auto)
  then have "wp (write_perf_test1 granted rate kilo64 reclen mb) (\<lambda>_ _. False) ?E v"
    using fd by (simp add: write_perf_test1_def wp_bindP wp_try_res wp_call c op True Let_def) (erule wp_mono; auto)
  then show ?thesis
    by (cases "write_perf_test1 granted rate kilo64 reclen mb v") (auto simp: wp_def split: sum.splits)
qed (simp add: write_perf_test1_def open_granted_def bindP_def try_res_def call_def c halt_def ret_def)

lemma wp_stops: "wp m (\<lambda>_ _. False) E w \<Longrightarrow> \<exists>e u. m w = (Inl e, u) \<and> E e u"
  by (cases "m w") (auto simp: wp_def split: sum.splits)

lemma for_n_3: "for_n 3 0 body a = bindP (for_n 2 0 body a) (body 2)"
  by (auto simp: numeral_3_eq_3 numeral_2_eq_2 bindP_def ret_def fun_eq_iff split: prod.splits sum.splits)

lemma write_perf_test1_third:
  assumes r: "0 < reclen" "reclen \<le> MAIN_BUF" and c: "record_count kilo64 reclen = Inr numrecs64"
    and yes: "\<forall>j\<le>3. granted j"
  shows "\<exists>fd v1 fd' v' u n. sys_open test1 [O_CREAT, O_RDWR] v = (fd, v1)
    \<and> for_n 2 0 (write1_round granted numrecs64 reclen mb) fd v1 = (Inr fd', v')
    \<and> write1_round granted numrecs64 reclen mb 2 fd' v' = (Inl (Trap Out_Of_Bounds), u)
    \<and> write_perf_test1 granted rate kilo64 reclen mb v = (Inl (Trap Out_Of_Bounds), u)
    \<and> rounds_done mb reclen n (nat numrecs64) 3 v u"
proof -
  let ?c = "nat numrecs64" and ?body = "write1_round granted numrecs64 reclen mb"
  obtain fd v1 where op: "open_granted True test1 [O_CREAT, O_RDWR] v = (fd, v1)" by fastforce
  obtain n where fd: "0 \<le> fd" and n: "rounds_done mb reclen n ?c 0 v v1" by (rule open_rounds_done [OF op])
  have g: "granted (Suc 0)" "granted 2" "granted 3" "granted 0" using yes by auto
  have "wp (for_n 2 0 ?body fd) (\<lambda>_. rounds_done mb reclen n ?c 2 v) (\<lambda>_ _. False) v1"
  proof (rule wp_for_n [where I = "\<lambda>k _. rounds_done mb reclen n ?c k v"])
    show "wp (?body (0 + k) a) (\<lambda>_. rounds_done mb reclen n ?c (Suc k) v) (\<lambda>_ _. False) u"
      if "k < 2" "rounds_done mb reclen n ?c k v u" for k a u
      by (rule wp_mono [OF rounds_done_step [OF r that(2), where j = "0 + k"]]) (use that(1) yes in auto)
  qed (use n in auto)
  from wp_returns [OF this] obtain fd' v' where two: "for_n 2 0 ?body fd v1 = (Inr fd', v')"
    and I: "rounds_done mb reclen n ?c 2 v v'" by blast
  have "wp (?body 2 fd') (\<lambda>_ _. False) (\<lambda>e u. e = Trap Out_Of_Bounds \<and> rounds_done mb reclen n ?c 3 v u) v'"
    by (rule wp_mono [OF rounds_done_step [OF r I, where j = 2]]) (use g in \<open>auto simp: numeral_3_eq_3\<close>)
  from wp_stops [OF this] obtain u where three: "?body 2 fd' v' = (Inl (Trap Out_Of_Bounds), u)"
    and u: "rounds_done mb reclen n ?c 3 v u" by blast
  have "write_perf_test1 granted rate kilo64 reclen mb v = (Inl (Trap Out_Of_Bounds), u)"
    using fd g by (simp add: write_perf_test1_def for_n_3 bindP_def try_res_def call_def ret_def c op two three Let_def)
  then show ?thesis using op two three u unfolding open_granted_def by auto
qed

section \<open>Sequential reads\<close>

text \<open>
  How the read test ends on a test file of \<open>z\<close> bytes: at the first short read, or, if there is
  none, at the third element of an array.
\<close>

definition read_perf_end :: "nat \<Rightarrow> nat \<Rightarrow> stop" where
  "read_perf_end z c = (if z < 4096 then Exit 60 else if z < c * 4096 then Exit 61 else Trap Out_Of_Bounds)"

definition ro_file :: "nat \<Rightarrow> nat \<Rightarrow> ofile" where
  "ro_file n off = (flags_ofile [O_RDONLY] n)\<lparr>o_off := off\<rparr>"

lemma ro_file_sel [simp]:
  "o_ino (ro_file n off) = n" "o_off (ro_file n off) = off" "o_rd (ro_file n off)"
  "\<not> o_app (ro_file n off)" "\<not> o_dio (ro_file n off)" "(ro_file n off)\<lparr>o_off := k\<rparr> = ro_file n k"
  "flags_ofile [O_RDONLY] n = ro_file n 0"
  by (simp_all add: ro_file_def flags_ofile_def)

text \<open>One read of 4096 bytes, which is complete or followed by an exit.\<close>

lemma buf_read_ro:
  assumes fd: "get_fd v fd = Some (ro_file n off)" and z: "i_size (w_ino v n) = z"
  shows "wp (buf_read fd (Some b) 4096)
    (\<lambda>(r, mb) u. w_ino u = w_ino v \<and> w_dir u = w_dir v \<and> w_log u = w_log v
       \<and> (if off + 4096 \<le> z then r = 4096 \<and> (\<exists>b'. mb = Some b') \<and> get_fd u fd = Some (ro_file n (off + 4096))
          else r \<noteq> 4096)) (\<lambda>_ _. False) v"
proof (cases "off + 4096 \<le> z")
  case True
  have rd: "sys_read fd b 4096 v = ((4096, blit b 0 (i_data (w_ino v n)) off 4096), set_fd fd (Some (ro_file n (off + 4096))) v)"
    using sys_read_plain [OF fd, of 4096 b] True z by simp
  then show ?thesis using True fd by (simp add: buf_read_def MAIN_BUF_value wp_simps get_fd_set_fd)
next
  case False
  have "fst (fst (sys_read fd b 4096 v)) < 4096" using sys_read_short [OF fd, of 4096 b] False z by simp
  then show ?thesis using False by (simp add: buf_read_def MAIN_BUF_value wp_simps case_prod_unfold)
qed

lemma read_perf_round_wp:
  assumes n: "w_dir v test1 = Some n" and z: "i_size (w_ino v n) = z"
  shows "wp (read_perf_round numrecs64 4096 j (Some b))
    (\<lambda>mb u. j < 2 \<and> (\<exists>b'. mb = Some b') \<and> w_ino u = w_ino v \<and> w_dir u = w_dir v)
    (\<lambda>e u. e = read_perf_end z (nat numrecs64) \<and> (e = Trap Out_Of_Bounds \<longrightarrow> \<not> j < 2)) v"
proof -
  let ?c = "nat numrecs64"
  obtain fd v1 where op: "sys_open test1 [O_RDONLY] v = (fd, v1)" by fastforce
  have o: "get_fd v1 fd = Some (flags_ofile [O_RDONLY] n)" "0 \<le> fd" "w_ino v1 = w_ino v" "w_dir v1 = w_dir v"
    by (rule sys_open_existing [OF n _ _ _ op]; simp)+
  let ?E = "\<lambda>e (u :: world). e = read_perf_end z ?c \<and> (e = Trap Out_Of_Bounds \<longrightarrow> \<not> j < 2)"
  let ?body = "\<lambda>(i :: nat) mb. bindP (buf_read fd mb 4096) (\<lambda>(wval, mb).
      if wval \<noteq> 4096 then bindP (say Err_Plain) (\<lambda>_. exit_with 61) else ret mb)"
  let ?I = "\<lambda>k (mb :: buffer option) (u :: world). (\<exists>b. mb = Some b) \<and> get_fd u fd = Some (ro_file n (k * 4096)) \<and> w_ino u = w_ino v
      \<and> w_dir u = w_dir v \<and> k * 4096 \<le> z"
  let ?rest = "\<lambda>mb :: buffer option. if 2 \<le> j then trap Out_Of_Bounds
     else bindP (call (sys_fsync fd)) (\<lambda>_. bindP (call (sys_close fd)) (\<lambda>_. ret mb))"
  let ?Q = "\<lambda>(mb :: buffer option) (u :: world). j < 2 \<and> (\<exists>b'. mb = Some b') \<and> w_ino u = w_ino v \<and> w_dir u = w_dir v"
  have loop: "wp (for_n ?c 0 ?body (Some b)) (\<lambda>mb. wp (?rest mb) ?Q ?E) ?E u"
    if u: "get_fd u fd = Some (ro_file n 0)" "w_ino u = w_ino v" "w_dir u = w_dir v" "4096 \<le> z" for u b
  proof (rule wp_for_n [where I = ?I])
    fix k mb x assume k: "k < ?c" and I: "?I k mb x"
    then obtain b where b: "mb = Some b" by blast
    have "(k + 1) * 4096 \<le> ?c * 4096" using k by (intro mult_le_mono1) simp
    then have e: "\<not> k * 4096 + 4096 \<le> z \<Longrightarrow> Exit 61 = read_perf_end z ?c" using u(4) by (simp add: read_perf_end_def)
    have "wp (buf_read fd (Some b) 4096) (\<lambda>(r, mb) u. w_ino u = w_ino x \<and> w_dir u = w_dir x \<and> w_log u = w_log x
       \<and> (if k * 4096 + 4096 \<le> z then r = 4096 \<and> (\<exists>b'. mb = Some b') \<and> get_fd u fd = Some (ro_file n (k * 4096 + 4096))
          else r \<noteq> 4096)) (\<lambda>_ _. False) x"
      using I z by (intro buf_read_ro) auto
    then show "wp (?body (0 + k) mb) (?I (Suc k)) ?E x"
      unfolding b wp_bindP
      by (rule wp_mono) (use I e in \<open>auto simp: wp_simps say_def add.commute split: if_splits\<close>)
  qed (use u in \<open>auto simp: wp_simps read_perf_end_def sys_fsync_def\<close>)
  have eq: "wp (read_perf_round numrecs64 4096 j (Some b)) ?Q ?E v = wp (buf_read fd (Some b) 4096) (\<lambda>a.
      wp (case a of (r, mb) \<Rightarrow> if r \<noteq> 4096 then bindP (say Err_Plain) (\<lambda>_. exit_with 60)
        else bindP (call (sys_lseek fd 0)) (\<lambda>_. bindP (for_n ?c 0 ?body mb) ?rest)) ?Q ?E) ?E v1"
    using o(2) by (simp add: read_perf_round_def wp_bindP wp_call op sys_fsync_def case_prod_unfold cong: if_cong)
  have "wp (buf_read fd (Some b) 4096) (\<lambda>(r, mb) u. w_ino u = w_ino v1 \<and> w_dir u = w_dir v1 \<and> w_log u = w_log v1
       \<and> (if 0 + 4096 \<le> z then r = 4096 \<and> (\<exists>b'. mb = Some b') \<and> get_fd u fd = Some (ro_file n (0 + 4096))
          else r \<noteq> 4096)) (\<lambda>_ _. False) v1"
    using o z by (intro buf_read_ro) auto
  then show ?thesis
    unfolding eq
  proof (rule wp_mono)
    fix a :: "int \<times> buffer option" and u
    assume A: "(case a of (r, mb) \<Rightarrow> \<lambda>u. w_ino u = w_ino v1 \<and> w_dir u = w_dir v1 \<and> w_log u = w_log v1
       \<and> (if 0 + 4096 \<le> z then r = 4096 \<and> (\<exists>b'. mb = Some b') \<and> get_fd u fd = Some (ro_file n (0 + 4096))
          else r \<noteq> 4096)) u"
    obtain r mb where a: "a = (r, mb)" by (cases a)
    show "wp (case a of (r, mb) \<Rightarrow> if r \<noteq> 4096 then bindP (say Err_Plain) (\<lambda>_. exit_with 60)
        else bindP (call (sys_lseek fd 0)) (\<lambda>_. bindP (for_n ?c 0 ?body mb) ?rest)) ?Q ?E u"
    proof (cases "4096 \<le> z")
      case True
      with A a obtain b' where u: "mb = Some b'" "r = 4096" "get_fd u fd = Some (ro_file n 4096)"
          "w_ino u = w_ino v" "w_dir u = w_dir v"
        using o by auto
      have "sys_lseek fd 0 u = (0, set_fd fd (Some (ro_file n 0)) u)" using u(3) by (simp add: sys_lseek_def)
      moreover have "wp (for_n ?c 0 ?body (Some b')) (\<lambda>mb. wp (?rest mb) ?Q ?E) ?E (set_fd fd (Some (ro_file n 0)) u)"
        by (rule loop) (use u True in \<open>auto simp: get_fd_set_fd\<close>)
      ultimately show ?thesis by (simp add: a u(1,2) wp_bindP wp_call)
    next
      case False
      with A a show ?thesis by (auto simp: wp_simps say_def read_perf_end_def)
    qed
  qed simp
qed

text \<open>The test as a whole never returns, whatever the file is.\<close>

lemma read_perf_test_wp:
  assumes n: "w_dir v test1 = Some n"
  shows "wp (read_perf_test rate kilo64 4096 (Some b)) (\<lambda>_ _. False)
    (\<lambda>e _. e = read_perf_end (i_size (w_ino v n)) (nat (u64 (kilo64 * 1024) div 4096))) v"
proof -
  let ?N = "u64 (kilo64 * 1024) div 4096" and ?z = "i_size (w_ino v n)"
  let ?E = "\<lambda>e (u :: world). e = read_perf_end ?z (nat ?N)"
  let ?I = "\<lambda>(k :: nat) (mb :: buffer option) (u :: world). (\<exists>b. mb = Some b) \<and> w_ino u = w_ino v \<and> w_dir u = w_dir v"
  have round: "wp (read_perf_round ?N 4096 j mb) (\<lambda>mb u. j < 2 \<and> ?I k mb u) ?E u" if I: "?I k mb u" for j k mb u
  proof -
    obtain b where b: "mb = Some b" using I by blast
    have "w_dir u test1 = Some n" "i_size (w_ino u n) = ?z" using I n by auto
    from read_perf_round_wp [OF this] show ?thesis
      unfolding b by (rule wp_mono) (use I in auto)
  qed
  have "wp (for_n (Suc 2) 0 (read_perf_round ?N 4096) (Some b)) (\<lambda>_ _. False) ?E v"
  proof (rule wp_for_n_last [where I = ?I])
    show "wp (read_perf_round ?N 4096 (0 + k) mb) (?I (Suc k)) ?E u" if "?I k mb u" for k mb u
      by (rule wp_mono [OF round [OF that]]) auto
    show "wp (read_perf_round ?N 4096 (0 + 2) mb) (\<lambda>_ _. False) ?E u" if "?I 2 mb u" for mb u
      by (rule wp_mono [OF round [OF that]]) auto
  qed simp
  then show ?thesis
    by (simp add: read_perf_test_def wp_bindP Let_def u64_id) (erule wp_mono; simp)
qed

text \<open>The same for the write test that \<open>main\<close> does not call, on any file and with any buffer.\<close>

definition write_perf_ends :: "stop set" where
  "write_perf_ends = {Exit 58, Exit 60, Exit 61, Trap Out_Of_Bounds}"

lemma write_perf_ends_in:
  "Exit 58 \<in> write_perf_ends" "Exit 60 \<in> write_perf_ends" "Exit 61 \<in> write_perf_ends"
  "Trap Out_Of_Bounds \<in> write_perf_ends"
  by (simp_all add: write_perf_ends_def)

lemma buf_write_wp: "wp (buf_write fd mb 4096) (\<lambda>_ _. True) (\<lambda>_ _. False) v"
  by (auto simp: buf_write_def MAIN_BUF_value wp_simps split: option.splits)

lemma write_perf_round_wp: "wp (write_perf_round numrecs64 reclen mb j) (\<lambda>_ _. j < 2) (\<lambda>e _. e \<in> write_perf_ends) v"
proof -
  let ?E = "\<lambda>e (_ :: world). e \<in> write_perf_ends"
  let ?body = "\<lambda>fd (i :: nat) (_ :: unit). bindP (buf_write fd mb 4096) (\<lambda>wval.
      if wval \<noteq> reclen then bindP (say Err_Plain) (\<lambda>_. exit_with 61) else ret ())"
  have body: "wp (?body fd i a) (\<lambda>_ _. True) ?E u" for fd i a u
    unfolding wp_bindP by (rule wp_mono [OF buf_write_wp]) (simp_all add: wp_simps say_def write_perf_ends_in)
  have loop: "wp (for_n c 0 (?body fd) ()) Q ?E u" if "\<And>a w. Q a w" for c fd Q u
    by (rule wp_for_n [where I = "\<lambda>_ _ _. True"]) (use body that in auto)
  have first: "wp (buf_write fd mb 4096) Q ?E u" if "\<And>r w. Q r w" for fd Q u
    by (rule wp_mono [OF buf_write_wp]) (use that in auto)
  show ?thesis
    unfolding write_perf_round_def wp_bindP wp_call
    by (auto simp: wp_simps say_def sys_fsync_def write_perf_ends_in intro!: first loop [unfolded wp_bindP])
qed

lemma write_perf_test_wp:
  assumes "reclen \<noteq> 0"
  shows "wp (write_perf_test rate kilo64 reclen mb) (\<lambda>_ _. False) (\<lambda>e _. e \<in> write_perf_ends) v"
proof -
  let ?N = "u64 (kilo64 * 1024) div u64 reclen" and ?E = "\<lambda>e (_ :: world). e \<in> write_perf_ends"
  have "wp (for_n (Suc 2) 0 (\<lambda>j _. write_perf_round ?N reclen mb j) ()) (\<lambda>_ _. False) ?E v"
  proof (rule wp_for_n_last [where I = "\<lambda>_ _ _. True"])
    show "wp (write_perf_round ?N reclen mb (0 + k)) (\<lambda>_ _. True) ?E u" for k u
      by (rule wp_mono [OF write_perf_round_wp]) auto
    show "wp (write_perf_round ?N reclen mb (0 + 2)) (\<lambda>_ _. False) ?E u" for u
      by (rule wp_mono [OF write_perf_round_wp]) auto
  qed simp
  then show ?thesis using assms by (simp add: write_perf_test_def wp_bindP Let_def) (erule wp_mono; simp)
qed

section \<open>Random reads and writes\<close>

lemma random_read_wp:
  assumes s: "0 < s" "int s \<le> MAIN_BUF" and fd: "get_fd v fd = Some (rw_file n off)"
    and z: "i_size (w_ino v n) = z"
  shows "wp (random_read numrecs64 (int s) (Some l) fd i (x, Some b))
    (\<lambda>(x', mb) u. (l ! i + 1) * s \<le> z \<and> w_ino u = w_ino v \<and> w_dir u = w_dir v \<and> w_log u = w_log v
       \<and> w_fmax u = w_fmax v \<and> (\<exists>off. get_fd u fd = Some (rw_file n off))
       \<and> (\<exists>b. mb = Some b \<and> (\<forall>k < s. b k = i_data (w_ino v n) (l ! i * s + k))))
    (\<lambda>e _. e = Exit 70 \<and> z < (l ! i + 1) * s) v"
proof -
  let ?o = "l ! i * s"
  define v1 where "v1 = set_fd fd (Some (rw_file n ?o)) v"
  have sk: "sys_lseek fd (int s * int (l ! i)) v = (int s * int (l ! i), v1)"
    using lseek_rw [OF fd, of "int s * int (l ! i)"] by (simp add: v1_def nat_mult_distrib mult.commute)
  have fd1: "get_fd v1 fd = Some (rw_file n ?o)" using fd by (simp add: v1_def get_fd_set_fd)
  have s64: "u64 (int s) = int s" using s by (simp add: u64_id MAIN_BUF_value)
  have nn: "\<not> int s * int (l ! i) < 0" by (simp add: not_less)
  show ?thesis
  proof (cases "?o + s \<le> z")
    case True
    then have "sys_read fd b s v1 = ((int s, blit b 0 (i_data (w_ino v n)) ?o s), set_fd fd (Some (rw_file n (?o + s))) v1)"
      using sys_read_plain [OF fd1, of s b] z by (simp add: v1_def)
    then show ?thesis
      using True s fd1 by (auto simp: random_read_def random_offset_def wp_simps sk s64 nn buf_read_def v1_def get_fd_set_fd fd)
  next
    case False
    have "fst (fst (sys_read fd b s v1)) < int s"
      using sys_read_short [OF fd1, of s b] False z s by (simp add: v1_def)
    then show ?thesis
      using False s by (auto simp: random_read_def random_offset_def wp_simps sk s64 nn buf_read_def case_prod_unfold say_def Let_def)
  qed
qed

lemma random_write_wp:
  assumes s: "0 < s" "int s \<le> MAIN_BUF" and fd: "get_fd v fd = Some (rw_file n off)"
    and fit: "(l ! i + 1) * s \<le> w_fmax v"
  shows "wp (random_write numrecs64 (int s) (Some l) fd i (x, Some b))
    (\<lambda>(x', mb) u. mb = Some b \<and> w_ino u n = ino_put (w_ino v n) (l ! i * s) b s \<and> w_dir u = w_dir v
       \<and> w_log u = w_log v \<and> w_fmax u = w_fmax v \<and> (\<exists>off. get_fd u fd = Some (rw_file n off))) (\<lambda>_ _. False) v"
proof -
  let ?o = "l ! i * s"
  define v1 where "v1 = set_fd fd (Some (rw_file n ?o)) v"
  have sk: "sys_lseek fd (int s * int (l ! i)) v = (int s * int (l ! i), v1)"
    using lseek_rw [OF fd, of "int s * int (l ! i)"] by (simp add: v1_def nat_mult_distrib mult.commute)
  have fd1: "get_fd v1 fd = Some (rw_file n ?o)" using fd by (simp add: v1_def get_fd_set_fd)
  have "?o + nat (int s) \<le> w_fmax v1" "0 < int s" using fit s by (simp_all add: v1_def)
  from write_record_put [OF this(2) s(2) fd1 this(1), of b] show ?thesis
    by (simp add: random_write_def random_offset_def wp_bindP wp_call sk)
      (erule wp_mono; auto simp: wp_ret v1_def)
qed

text \<open>A list of all records, in any order.\<close>

definition all_records :: "nat list \<Rightarrow> nat \<Rightarrow> bool" where
  "all_records l c \<longleftrightarrow> length l = c \<and> set l = {..<c}"

lemma all_recordsD:
  assumes "all_records l c"
  shows "length l = c" "i < c \<Longrightarrow> (l ! i + 1) * s \<le> c * s"
    and "(\<And>j. j < c \<Longrightarrow> (l ! j + 1) * s \<le> z) \<Longrightarrow> c * s \<le> z"
proof -
  show len: "length l = c" using assms by (simp add: all_records_def)
  show "(l ! i + 1) * s \<le> c * s" if "i < c"
  proof -
    have "l ! i \<in> {..<c}" using assms that nth_mem [of i l] by (simp add: all_records_def)
    then show ?thesis by (intro mult_le_mono1) simp
  qed
  show "c * s \<le> z" if le: "\<And>j. j < c \<Longrightarrow> (l ! j + 1) * s \<le> z"
  proof (cases c)
    case (Suc m)
    then have "m \<in> set l" using assms by (simp add: all_records_def)
    then obtain j where "j < c" "l ! j = m" using len by (auto simp: in_set_conv_nth)
    with le [of j] Suc show ?thesis by simp
  qed simp
qed

definition last_block :: "inode \<Rightarrow> nat list \<Rightarrow> nat \<Rightarrow> nat \<Rightarrow> buffer \<Rightarrow> bool" where
  "last_block f l s k b \<longleftrightarrow> (0 < k \<longrightarrow> (\<forall>j < s. b j = i_data f (l ! (k - 1) * s + j)))"

lemma random_reads_wp:
  assumes s: "0 < s" "int s \<le> MAIN_BUF" and l: "all_records l c" and fd: "get_fd v fd = Some (rw_file n off)"
    and f: "w_ino v n = f"
  shows "wp (for_n c 0 (random_read numrecs64 (int s) (Some l) fd) (x, Some b))
    (\<lambda>(x', mb) u. c * s \<le> i_size f \<and> w_ino u = w_ino v \<and> w_dir u = w_dir v \<and> w_log u = w_log v
       \<and> w_fmax u = w_fmax v \<and> (\<exists>b. mb = Some b \<and> last_block f l s c b))
    (\<lambda>e _. e = Exit 70 \<and> i_size f < c * s) v"
proof (rule wp_for_n [where I = "\<lambda>k (x, mb) u. (\<exists>off. get_fd u fd = Some (rw_file n off)) \<and> w_ino u = w_ino v
    \<and> w_dir u = w_dir v \<and> w_log u = w_log v \<and> w_fmax u = w_fmax v \<and> (\<exists>b. mb = Some b \<and> last_block f l s k b)
    \<and> (\<forall>j < k. (l ! j + 1) * s \<le> i_size f)"], goal_cases)
  case 1
  then show ?case using fd by (auto simp: last_block_def)
next
  case (2 k xb u)
  then obtain y b off where y: "xb = (y, Some b)" and u: "get_fd u fd = Some (rw_file n off)" "w_ino u = w_ino v"
      "w_dir u = w_dir v" "w_log u = w_log v" "w_fmax u = w_fmax v" "\<forall>j < k. (l ! j + 1) * s \<le> i_size f"
    by (cases xb) auto
  have bound: "(l ! k + 1) * s \<le> c * s" using all_recordsD(2) [OF l 2(1)] .
  show ?case
    unfolding y add_0
    by (rule wp_mono [OF random_read_wp [OF s u(1) refl]])
      (use u bound f in \<open>auto simp: last_block_def less_Suc_eq\<close>)
next
  case (3 xb u)
  then show ?case using all_recordsD(3) [OF l, of s "i_size f"] by auto
qed

lemma random_writes_wp:
  assumes s: "0 < s" "int s \<le> MAIN_BUF" and l: "all_records l c" and fd: "get_fd v fd = Some (rw_file n off)"
    and f: "w_ino v n = f" and fit: "c * s \<le> i_size f" "i_size f \<le> w_fmax v"
  shows "wp (for_n c 0 (random_write numrecs64 (int s) (Some l) fd) (x, Some b))
    (\<lambda>(x', mb) u. mb = Some b \<and> w_ino u n = put_records f b s {..<c} \<and> w_dir u = w_dir v \<and> w_log u = w_log v
       \<and> w_fmax u = w_fmax v) (\<lambda>_ _. False) v"
proof (rule wp_for_n [where I = "\<lambda>k (x, mb) u. (\<exists>off. get_fd u fd = Some (rw_file n off))
    \<and> w_ino u n = put_records f b s (set (take k l)) \<and> w_dir u = w_dir v \<and> w_log u = w_log v
    \<and> w_fmax u = w_fmax v \<and> mb = Some b"], goal_cases)
  case 1
  then show ?case using fd f by auto
next
  case (2 k xb u)
  then obtain y off where y: "xb = (y, Some b)" and u: "get_fd u fd = Some (rw_file n off)"
      "w_ino u n = put_records f b s (set (take k l))" "w_dir u = w_dir v" "w_log u = w_log v" "w_fmax u = w_fmax v"
    by (cases xb) auto
  have bound: "(l ! k + 1) * s \<le> c * s" using all_recordsD(2) [OF l 2(1)] .
  have step: "ino_put (put_records f b s (set (take k l))) (l ! k * s) b s = put_records f b s (set (take (Suc k) l))"
    using put_records_step [of "l ! k" s f b] bound fit s 2(1) all_recordsD(1) [OF l] by (simp add: take_Suc_conv_app_nth)
  have "(l ! k + 1) * s \<le> w_fmax u" using bound fit u by simp
  from random_write_wp [OF s u(1) this] show ?case
    unfolding y add_0 by (rule wp_mono) (use u step in auto)
next
  case (3 xb u)
  then show ?case using l by (auto simp: all_records_def)
qed

lemma iozone_pass_wp:
  assumes s: "0 < s" "int s \<le> MAIN_BUF" and l: "all_records l c" and c: "nat numrecs64 = c"
    and n: "w_dir v test1 = Some n" and f: "w_ino v n = f"
  shows "wp (iozone_pass numrecs64 (int s) (Some l) 0 (Some b))
      (\<lambda>mb u. c * s \<le> i_size f \<and> w_ino u n = f \<and> w_dir u = w_dir v \<and> w_log u = w_log v \<and> w_fmax u = w_fmax v
         \<and> (\<exists>b. mb = Some b \<and> last_block f l s c b)) (\<lambda>e _. e = Exit 70 \<and> i_size f < c * s) v"
    and "c * s \<le> i_size f \<Longrightarrow> i_size f \<le> w_fmax v \<Longrightarrow> wp (iozone_pass numrecs64 (int s) (Some l) (Suc 0) (Some b))
      (\<lambda>_ u. w_ino u n = put_records f b s {..<c} \<and> w_dir u = w_dir v \<and> w_log u = w_log v) (\<lambda>_ _. False) v"
proof -
  obtain fd v1 where op: "sys_open test1 [O_CREAT, O_RDWR] v = (fd, v1)" by fastforce
  have o: "get_fd v1 fd = Some (flags_ofile [O_CREAT, O_RDWR] n)" "0 \<le> fd" "w_ino v1 = w_ino v" "w_dir v1 = w_dir v"
      "w_log v1 = w_log v" "w_fmax v1 = w_fmax v"
    by (rule sys_open_existing [OF n _ _ _ op]; simp)+
  have fd: "get_fd v1 fd = Some (rw_file n 0)" using o(1) by (simp add: flags_ofile_def rw_file_def)
  have eq: "wp (iozone_pass numrecs64 (int s) (Some l) j (Some b)) Q E v =
      wp (for_n c 0 ((if j = 0 then random_read else random_write) numrecs64 (int s) (Some l) fd) (srand48 0, Some b))
        (\<lambda>xb u. Q (snd xb) (snd (sys_close fd u))) E v1" for j Q E
    using o(2) c by (simp add: iozone_pass_def wp_bindP wp_call wp_ret op sys_fsync_def case_prod_unfold Let_def cong: if_cong)
  show "wp (iozone_pass numrecs64 (int s) (Some l) 0 (Some b))
      (\<lambda>mb u. c * s \<le> i_size f \<and> w_ino u n = f \<and> w_dir u = w_dir v \<and> w_log u = w_log v \<and> w_fmax u = w_fmax v
         \<and> (\<exists>b. mb = Some b \<and> last_block f l s c b)) (\<lambda>e _. e = Exit 70 \<and> i_size f < c * s) v"
    unfolding eq by (simp only: if_True simp_thms)
      (rule wp_mono [OF random_reads_wp [OF s l fd]]; use o f in auto)
  show "wp (iozone_pass numrecs64 (int s) (Some l) (Suc 0) (Some b))
      (\<lambda>_ u. w_ino u n = put_records f b s {..<c} \<and> w_dir u = w_dir v \<and> w_log u = w_log v) (\<lambda>_ _. False) v"
    if "c * s \<le> i_size f" "i_size f \<le> w_fmax v"
    unfolding eq using that o f
    by (simp only: if_False nat.simps) (rule wp_mono [OF random_writes_wp [OF s l fd]]; auto)
qed

text \<open>The file after the test: every record is a copy of the one that was read last.\<close>

definition last_record :: "nat \<Rightarrow> nat" where
  "last_record c = recnum_list c (srand48 0) ! (c - 1)"

lemma random_perf_test_wp:
  assumes s: "0 < s" "int s \<le> MAIN_BUF" and cnt: "record_count kilo64 (int s) = Inr numrecs64" "nat numrecs64 = c"
    and mem: "u64 (8 * numrecs64) \<le> w_mem v" and n: "w_dir v test1 = Some n" and fit: "i_size (w_ino v n) \<le> w_fmax v"
  shows "wp (random_perf_test rate kilo64 (int s) (Some b))
    (\<lambda>_ u. c * s \<le> i_size (w_ino v n) \<and> w_log u = w_log v @ [Report 0 (rate 0), Report 1 (rate 1)]
       \<and> w_ino u n = (w_ino v n)\<lparr>i_data := (\<lambda>x. if x < c * s then i_data (w_ino v n) (last_record c * s + x mod s)
                                              else i_data (w_ino v n) x)\<rparr>)
    (\<lambda>e _. e = Exit 70 \<and> i_size (w_ino v n) < c * s) v"
proof -
  let ?l = "recnum_list c (srand48 0)" and ?f = "w_ino v n"
  have l: "all_records ?l c" by (simp add: all_records_def)
  let ?E = "\<lambda>e (_ :: world). e = Exit 70 \<and> i_size ?f < c * s"
  let ?Q = "\<lambda>(_ :: buffer option) u. c * s \<le> i_size ?f \<and> w_log u = w_log v @ [Report 0 (rate 0), Report 1 (rate 1)]
       \<and> w_ino u n = ?f\<lparr>i_data := (\<lambda>x. if x < c * s then i_data ?f (last_record c * s + x mod s) else i_data ?f x)\<rparr>"
  have eq: "wp (random_perf_test rate kilo64 (int s) (Some b)) ?Q ?E v =
      wp (iozone_pass numrecs64 (int s) (Some ?l) 0 (Some b)) (\<lambda>mb.
        wp (iozone_pass numrecs64 (int s) (Some ?l) (Suc 0) mb) (\<lambda>mb u.
          ?Q mb (u\<lparr>w_log := w_log u @ [Report 0 (rate 0), Report 1 (rate 1)]\<rparr>)) ?E) ?E v"
    using cnt mem
    by (simp add: random_perf_test_def print_rates_def wp_simps say_def Let_def numeral_2_eq_2)
  have fill: "put_records ?f a s {..<c} = ?f\<lparr>i_data := (\<lambda>x. if x < c * s then i_data ?f (last_record c * s + x mod s)
      else i_data ?f x)\<rparr>" if "last_block ?f ?l s c a" for a
    using that s by (auto simp: put_records_all last_block_def last_record_def fun_eq_iff intro!: arg_cong [where f = "\<lambda>d. ?f\<lparr>i_data := d\<rparr>"])
  show ?thesis
    unfolding eq
  proof (rule wp_mono [OF iozone_pass_wp(1) [OF s l cnt(2) n refl]])
    fix mb and u :: world assume U: "c * s \<le> i_size ?f \<and> w_ino u n = ?f \<and> w_dir u = w_dir v \<and> w_log u = w_log v \<and> w_fmax u = w_fmax v
         \<and> (\<exists>b. mb = Some b \<and> last_block ?f ?l s c b)"
    then obtain a where a: "mb = Some a" "last_block ?f ?l s c a" by blast
    have "wp (iozone_pass numrecs64 (int s) (Some ?l) (Suc 0) (Some a))
      (\<lambda>_ w. w_ino w n = put_records ?f a s {..<c} \<and> w_dir w = w_dir u \<and> w_log w = w_log u) (\<lambda>_ _. False) u"
      by (rule iozone_pass_wp(2) [OF s l cnt(2)]) (use U n fit in auto)
    then show "wp (iozone_pass numrecs64 (int s) (Some ?l) (Suc 0) mb) (\<lambda>mb u.
          ?Q mb (u\<lparr>w_log := w_log u @ [Report 0 (rate 0), Report 1 (rate 1)]\<rparr>)) ?E u"
      unfolding a(1) by (rule wp_mono) (use U fill [OF a(2)] in auto)
  qed simp
qed

section \<open>Properties\<close>

text \<open>
  C39: \<open>iozone_test\<close> only writes: whatever file system, memory and permissions it has, \<open>main\<close> ends
  where \<open>write_perf_test1\<close> ends, and none of the tests that read is reached.  If one of the four
  \<open>open\<close>s is refused, the program exits with 44.  Otherwise the first two rounds of
  \<open>write_perf_test1\<close> return, and the third dies at an access past the array of two times; by then,
  if there was room and memory, the first gigabyte of the test file holds copies of the buffer,
  and no error was reported.
\<close>

theorem iozone_only_writes:
  "\<exists>x u. let mb = (if MAIN_BUF \<le> w_mem w then Some (w_junk w) else None) in
     iozone_main granted rate1 rate2 rate3 w = (Inl x, u)
     \<and> write_perf_test1 granted rate1 1048576 4096 mb w = (Inl x, u)
     \<and> (if \<exists>j\<le>3. \<not> granted j then x = Exit 44
        else x = Trap Out_Of_Bounds
          \<and> (\<exists>fd v fd' v'. sys_open test1 [O_CREAT, O_RDWR] w = (fd, v)
               \<and> for_n 2 0 (write1_round granted 262144 4096 mb) fd v = (Inr fd', v')
               \<and> write1_round granted 262144 4096 mb 2 fd' v' = (Inl x, u))
          \<and> (MAIN_BUF \<le> w_mem w \<and> 1073741824 \<le> w_fmax w \<longrightarrow> w_log u = w_log w
               \<and> (\<exists>n. w_dir u test1 = Some n
                    \<and> w_ino u n = copies (test1_inode w) (w_junk w) 4096 262144)))"
proof -
  have c: "record_count 1048576 4096 = Inr 262144" by (simp add: record_count_def Let_def)
  have r: "0 < (4096 :: int)" "4096 \<le> MAIN_BUF" by (simp_all add: MAIN_BUF_value)
  define mb where "mb = (if MAIN_BUF \<le> w_mem w then Some (w_junk w) else None)"
  have main: "iozone_main granted rate1 rate2 rate3 w = (Inl x, u)"
    if "write_perf_test1 granted rate1 1048576 4096 mb w = (Inl x, u)" for x u
    using that by (simp add: iozone_main_def bindP_def call_def sys_memalign_eq mb_def)
  show ?thesis
  proof (cases "\<exists>j\<le>3. \<not> granted j")
    case True
    then obtain u where "write_perf_test1 granted rate1 1048576 4096 mb w = (Inl (Exit 44), u)"
      using write_perf_test1_refused [OF r c] by (metis prod.collapse)
    with main True show ?thesis unfolding mb_def Let_def by auto
  next
    case False
    then have "\<forall>j\<le>3. granted j" by blast
    from write_perf_test1_third [OF r c this, where mb = mb and v = w and rate = rate1] obtain fd v1 fd' v' u n where
        o: "sys_open test1 [O_CREAT, O_RDWR] w = (fd, v1)"
        "for_n 2 0 (write1_round granted 262144 4096 mb) fd v1 = (Inr fd', v')"
        "write1_round granted 262144 4096 mb 2 fd' v' = (Inl (Trap Out_Of_Bounds), u)"
        "write_perf_test1 granted rate1 1048576 4096 mb w = (Inl (Trap Out_Of_Bounds), u)"
      and d: "rounds_done mb 4096 n (nat 262144) 3 w u" by auto
    have "MAIN_BUF \<le> w_mem w \<and> 1073741824 \<le> w_fmax w \<longrightarrow> w_log u = w_log w
               \<and> (\<exists>n. w_dir u test1 = Some n \<and> w_ino u n = copies (test1_inode w) (w_junk w) 4096 262144)"
      using d by (auto simp: rounds_done_def mb_def)
    with o main [OF o(4)] False show ?thesis unfolding mb_def [symmetric] Let_def
      by (intro exI [of _ "Trap Out_Of_Bounds"] exI [of _ u]) simp
  qed
qed

theorem iozone_only_writes_witness:
  "fst (iozone_main (\<lambda>_. True) (\<lambda>_. 0) (\<lambda>_. 0) (\<lambda>_. 0) (sized_world 5)) = Inl (Trap Out_Of_Bounds)
   \<and> (\<exists>n. i_size (w_ino (snd (iozone_main (\<lambda>_. True) (\<lambda>_. 0) (\<lambda>_. 0) (\<lambda>_. 0) (sized_world 5))) n) = 1073741824)
   \<and> fst (iozone_main (\<lambda>j. j \<noteq> 1) (\<lambda>_. 0) (\<lambda>_. 0) (\<lambda>_. 0) (sized_world 5)) = Inl (Exit 44)"
proof -
  let ?r = "\<lambda>g. iozone_main g (\<lambda>_. 0) (\<lambda>_. 0) (\<lambda>_. 0) (sized_world 5)"
  have z: "i_size (copies (test1_inode (sized_world 5)) b 4096 262144) = 1073741824" for b
    by (simp add: copies_def ino_put_def)
  have "fst (?r (\<lambda>_. True)) = Inl (Trap Out_Of_Bounds) \<and> (\<exists>n. w_ino (snd (?r (\<lambda>_. True))) n
      = copies (test1_inode (sized_world 5)) (w_junk (sized_world 5)) 4096 262144)"
    using iozone_only_writes [of "sized_world 5" "\<lambda>_. True" "\<lambda>_. 0" "\<lambda>_. 0" "\<lambda>_. 0"] by (auto simp: MAIN_BUF_value Let_def)
  moreover have "fst (?r (\<lambda>j. j \<noteq> 1)) = Inl (Exit 44)"
    using iozone_only_writes [of "sized_world 5" "\<lambda>j. j \<noteq> 1" "\<lambda>_. 0" "\<lambda>_. 0" "\<lambda>_. 0"] by (auto simp: Let_def)
  ultimately show ?thesis using z by metis
qed

text \<open>
  The random test of iozone, called on its own with a record size of up to 16 MB: exactly if
  the test file holds all records it returns, with its two rates and no error, and then every
  record of the file is a copy of the record read last, the rest as before; on a shorter file it
  exits with 70 in the reading pass.
\<close>

theorem random_perf_test_copies:
  assumes "0 < s" "int s \<le> MAIN_BUF" and "record_count kilo64 (int s) = Inr numrecs64"
    and "u64 (8 * numrecs64) \<le> w_mem w" "w_dir w test1 = Some n" "i_size (w_ino w n) \<le> w_fmax w"
  shows "if nat numrecs64 * s \<le> i_size (w_ino w n)
    then \<exists>mb w'. random_perf_test rate kilo64 (int s) (Some b) w = (Inr mb, w')
      \<and> w_log w' = w_log w @ [Report 0 (rate 0), Report 1 (rate 1)]
      \<and> i_size (w_ino w' n) = i_size (w_ino w n)
      \<and> (\<forall>x. i_data (w_ino w' n) x =
            (if x < nat numrecs64 * s then i_data (w_ino w n) (last_record (nat numrecs64) * s + x mod s)
             else i_data (w_ino w n) x))
    else fst (random_perf_test rate kilo64 (int s) (Some b) w) = Inl (Exit 70)"
  using random_perf_test_wp [OF assms(1,2,3) refl assms(4,5,6), of rate b]
  by (cases "random_perf_test rate kilo64 (int s) (Some b) w") (auto simp: wp_def split: sum.splits)

theorem random_perf_test_copies_witness:
  "\<exists>mb w'. random_perf_test (\<lambda>_. 5) 8 4096 (Some (\<lambda>_. 0)) patterned_world = (Inr mb, w')
     \<and> w_log w' = [Report 0 5, Report 1 5] \<and> i_data (w_ino w' 0) 7 = i_data (w_ino w' 0) 4103"
proof -
  have "w_dir patterned_world test1 = Some 0" "w_mem patterned_world = 67108864"
      "w_fmax patterned_world = 2147483648" "w_log patterned_world = []" "i_size (w_ino patterned_world 0) = 8193"
    using sized_world_sel [of 8193] by (simp_all add: patterned_world_def)
  moreover have "record_count 8 (int 4096) = Inr 2" by (simp add: record_count_def Let_def signed_divide_int_def)
  ultimately show ?thesis
    using random_perf_test_copies [of 4096 8 2 patterned_world 0 "\<lambda>_. 5" "\<lambda>_. 0"]
    by (auto simp: MAIN_BUF_value u64_def)
qed

text \<open>
  The read test never returns either: it ends at its first short read, and on a file that is long
  enough at the third element of an array.
\<close>

theorem read_perf_test_ends:
  assumes "w_dir w test1 = Some n"
  shows "fst (read_perf_test rate kilo64 4096 (Some b) w)
    = Inl (read_perf_end (i_size (w_ino w n)) (nat (u64 (kilo64 * 1024) div 4096)))"
  using read_perf_test_wp [OF assms, of rate kilo64 b]
  by (cases "read_perf_test rate kilo64 4096 (Some b) w") (auto simp: wp_def split: sum.splits)

theorem read_perf_test_ends_witness:
  "fst (read_perf_test (\<lambda>_. 0) 8 4096 (Some (\<lambda>_. 0)) patterned_world) = Inl (Trap Out_Of_Bounds)"
proof -
  have "w_dir patterned_world test1 = Some 0" "i_size (w_ino patterned_world 0) = 8193"
    using sized_world_sel [of 8193] by (simp_all add: patterned_world_def)
  then show ?thesis
    using read_perf_test_ends [of patterned_world 0 "\<lambda>_. 0" 8 "\<lambda>_. 0"] by (simp add: read_perf_end_def u64_def)
qed

end
