(* ===== verification/Test_Rand.thy ===== *)
theory Test_Rand
  imports Random_Io
begin

text \<open>
  \<open>test_rand.c\<close>, which exchanges random elements of an array with the macro \<open>FUNC\<close>.  The product
  \<open>n * drand48()\<close> is taken exactly; for \<open>n = 1000\<close> and the seed of the program no product comes so
  close to an integer that the rounding of \<open>double\<close> could change its \<open>ceil\<close>.
\<close>

unbundle bit_operations_syntax

section \<open>The program\<close>

text \<open>The macro, on two elements that may be the same.\<close>

definition FUNC :: "32 word list \<Rightarrow> nat \<Rightarrow> nat \<Rightarrow> trap + 32 word list" where
  "FUNC tab i1 i2 =
     (if length tab \<le> i1 \<or> length tab \<le> i2 then Inl Out_Of_Bounds
      else
      let tab = tab[i1 := tab ! i1 XOR tab ! i2];
          tab = tab[i2 := tab ! i2 XOR tab ! i1];
          tab = tab[i1 := tab ! i1 XOR tab ! i2]
      in Inr tab)"

text \<open>\<open>(int)ceil(n * drand48())\<close>, where \<open>drand48\<close> is the new state divided by \<open>2 ^ 48\<close>\<close>

definition ceil_index :: "nat \<Rightarrow> nat \<Rightarrow> nat" where
  "ceil_index n x = (n * x + (2 ^ 48 - 1)) div 2 ^ 48"

fun rand_rounds :: "nat \<Rightarrow> nat \<Rightarrow> 32 word list \<Rightarrow> nat \<Rightarrow> trap + 32 word list" where
  "rand_rounds n 0 tab x = Inr tab"
| "rand_rounds n (Suc m) tab x =
     (let x = next48 x; i1 = ceil_index n x; x = next48 x; i2 = ceil_index n x
      in case FUNC tab i1 i2 of Inl t \<Rightarrow> Inl t | Inr tab \<Rightarrow> rand_rounds n m tab x)"

text \<open>What is printed: the array after \<open>n\<close> rounds.\<close>

definition test_rand_main :: "nat \<Rightarrow> trap + 32 word list" where
  "test_rand_main n = rand_rounds n n (map of_nat [0..<n]) (srand48 0)"

section \<open>The exchange\<close>

lemma FUNC_length: "FUNC tab i1 i2 = Inr tab' \<Longrightarrow> length tab' = length tab"
  by (auto simp: FUNC_def Let_def split: if_splits)

lemma FUNC_bounds: "FUNC tab i1 i2 = Inl t \<longleftrightarrow> t = Out_Of_Bounds \<and> (length tab \<le> i1 \<or> length tab \<le> i2)"
  by (auto simp: FUNC_def Let_def)

lemma FUNC_within: "FUNC tab i1 i2 = Inr tab' \<Longrightarrow> i1 < length tab \<and> i2 < length tab"
  by (auto simp: FUNC_def Let_def split: if_splits)

text \<open>The index never is 0 unless the state is, and it is \<open>n\<close> for the largest states.\<close>

lemma ceil_index_range:
  assumes "0 < n" "x < 2 ^ 48" "0 < x"
  shows "0 < ceil_index n x \<and> ceil_index n x \<le> n"
proof -
  have "2 ^ 48 \<le> n * x + (2 ^ 48 - 1)" using assms by (cases "n * x") auto
  then have "0 < ceil_index n x" by (simp add: ceil_index_def div_greater_zero_iff)
  moreover have "n * x + (2 ^ 48 - 1) < (n + 1) * 2 ^ 48"
  proof -
    have "n * x \<le> n * 2 ^ 48" using assms(2) by (intro mult_le_mono2) simp
    then show ?thesis unfolding distrib_right mult_1 by (rule add_le_less_mono) simp
  qed
  then have "ceil_index n x < n + 1" unfolding ceil_index_def by (rule less_mult_imp_div_less)
  ultimately show ?thesis by simp
qed

text \<open>Whether an index of the sequence is outside the array.\<close>

fun runs_out :: "nat \<Rightarrow> nat \<Rightarrow> nat \<Rightarrow> bool" where
  "runs_out n 0 x = False"
| "runs_out n (Suc m) x =
     (let x = next48 x; i1 = ceil_index n x; x = next48 x; i2 = ceil_index n x
      in if n \<le> i1 then True else if n \<le> i2 then True else runs_out n m x)"

lemma rand_rounds_trap:
  "length tab = n \<Longrightarrow> rand_rounds n m tab x = Inl Out_Of_Bounds \<longleftrightarrow> runs_out n m x"
proof (induction n m tab x rule: rand_rounds.induct)
  case (2 n m tab x)
  define y i1 i2 where d: "y = next48 (next48 x)" "i1 = ceil_index n (next48 x)" "i2 = ceil_index n y"
  have R: "rand_rounds n (Suc m) tab x = (case FUNC tab i1 i2 of Inl t \<Rightarrow> Inl t | Inr tab \<Rightarrow> rand_rounds n m tab y)"
    by (simp only: d rand_rounds.simps Let_def)
  have O: "runs_out n (Suc m) x \<longleftrightarrow> n \<le> i1 \<or> n \<le> i2 \<or> runs_out n m y" by (simp add: d Let_def)
  show ?case
  proof (cases "FUNC tab i1 i2")
    case (Inl t)
    then show ?thesis using FUNC_bounds [of tab i1 i2 t] 2(2) unfolding R O by auto
  next
    case (Inr tab')
    then have "length tab' = n" "i1 < n" "i2 < n" using FUNC_length FUNC_within 2(2) by fastforce+
    moreover have "rand_rounds n m tab' y = Inl Out_Of_Bounds \<longleftrightarrow> runs_out n m y"
      using "2.IH" [OF refl refl refl refl] Inr calculation(1) by (simp add: d)
    ultimately show ?thesis unfolding R O by (simp add: Inr)
  qed
qed simp

lemma runs_out_at:
  "n \<le> ceil_index n ((next48 ^^ Suc j) x) \<Longrightarrow> j < 2 * m \<Longrightarrow> runs_out n m x"
proof (induction m arbitrary: j x)
  case (Suc m)
  show ?case
  proof (cases "j < 2")
    case True
    then consider "j = 0" | "j = 1" by linarith
    then show ?thesis using Suc.prems by cases (simp_all add: Let_def)
  next
    case False
    then obtain k where k: "j = k + 2" by (metis add.commute le_Suc_ex not_less)
    have "(next48 ^^ Suc j) x = (next48 ^^ Suc k) (next48 (next48 x))"
      by (simp add: k funpow_swap1)
    with Suc.IH [of k "next48 (next48 x)"] Suc.prems k show ?thesis by (simp add: Let_def)
  qed
qed simp

lemma rand_rounds_inside:
  "length tab = n \<Longrightarrow> \<not> runs_out n m x \<Longrightarrow> \<exists>tab'. rand_rounds n m tab x = Inr tab' \<and> length tab' = n"
proof (induction m arbitrary: tab x)
  case (Suc m)
  let ?i1 = "ceil_index n (next48 x)" and ?i2 = "ceil_index n (next48 (next48 x))"
  have "?i1 < n" "?i2 < n" "\<not> runs_out n m (next48 (next48 x))" using Suc.prems(2) by (auto simp: Let_def split: if_splits)
  moreover obtain tab' where t: "FUNC tab ?i1 ?i2 = Inr tab'"
    using Suc.prems(1) calculation(1,2) by (cases "FUNC tab ?i1 ?i2") (auto simp: FUNC_bounds)
  moreover have "length tab' = n" using FUNC_length [OF t] Suc.prems(1) by simp
  ultimately show ?case using Suc.IH [of tab'] by (simp add: Let_def)
qed simp

text \<open>The draws of the program, evaluated.\<close>

lemma next48_numeral: "next48 (numeral k) = (0x5DEECE66D * numeral k + 0xB) mod 281474976710656"
  by (simp add: next48_def)

lemma runs_out_numeral:
  "runs_out n (numeral k) x =
     (let x = next48 x; i1 = ceil_index n x; x = next48 x; i2 = ceil_index n x
      in if n \<le> i1 then True else if n \<le> i2 then True else runs_out n (pred_numeral k) x)"
  by (simp add: numeral_eq_Suc)

lemma runs_out_72: "\<not> runs_out 1000 72 (srand48 0)"
  by (simp add: runs_out_numeral Let_def next48_numeral ceil_index_def srand48_def)

lemma draw_145:
  "(next48 ^^ 145) (srand48 0) = 62631589785425" "(next48 ^^ 146) (srand48 0) = 281291068533640"
proof -
  have ten: "(f ^^ 10) y = f (f (f (f (f (f (f (f (f (f y)))))))))" for f :: "nat \<Rightarrow> nat" and y
    by (simp add: eval_nat_numeral)
  have five: "(f ^^ 5) y = f (f (f (f (f y))))" for f :: "nat \<Rightarrow> nat" and y
    by (simp add: eval_nat_numeral)
  have "(145 :: nat) = 10 + (10 + (10 + (10 + (10 + (10 + (10 + (10 + (10 + (10 + (10 + (10 + (10 + (10 + 5)))))))))))))" by simp
  then show *: "(next48 ^^ 145) (srand48 0) = 62631589785425"
    by (simp only: funpow_add o_apply ten five) (simp add: next48_numeral srand48_def)
  have "(next48 ^^ 146) (srand48 0) = next48 ((next48 ^^ 145) (srand48 0))"
    using funpow.simps(2) [of 145 next48] by (simp only: Suc_numeral o_apply) simp
  then show "(next48 ^^ 146) (srand48 0) = 281291068533640" unfolding * by (simp add: next48_numeral)
qed

section \<open>Properties\<close>

text \<open>
  The macro exchanges two different elements and leaves the others alone; of an element with
  itself it makes 0.
\<close>

theorem FUNC_exchanges:
  assumes "i1 < length tab" "i2 < length tab"
  shows "FUNC tab i1 i2 = Inr (if i1 = i2 then tab[i1 := 0] else tab[i1 := tab ! i2, i2 := tab ! i1])"
proof (cases "i1 = i2")
  case True
  then show ?thesis using assms by (simp add: FUNC_def Let_def)
next
  case False
  have x: "b XOR (a XOR b) = a" "(a XOR b) XOR a = b" for a b :: "32 word"
    by (metis xor.commute xor.left_commute xor.right_neutral xor_self_eq)+
  show ?thesis using False assms
    by (simp add: FUNC_def Let_def x list_update_swap [of i1 i2] del: list_update_overwrite) 
      (simp add: list_update_swap [of i1 i2] x)
qed

theorem FUNC_exchanges_witness: "FUNC [7, 8, 9] 0 2 = Inr [9, 8, 7] \<and> FUNC [7, 8, 9] 1 1 = Inr [7, 0, 9]"
  using FUNC_exchanges [of 0 "[7, 8, 9]" 2] FUNC_exchanges [of 1 "[7, 8, 9]" 1] by simp

text \<open>
  C40: \<open>test_rand\<close> never prints its array.  Its first 72 rounds exchange elements within the array;
  in the 73rd the first index is inside, but \<open>ceil\<close> gives 1000 for the second, and the program
  accesses the element behind the end.
\<close>

theorem test_rand_overruns:
  "(\<exists>tab. rand_rounds 1000 72 (map of_nat [0..<1000]) (srand48 0) = Inr tab \<and> length tab = 1000)
   \<and> ceil_index 1000 ((next48 ^^ 145) (srand48 0)) < 1000
   \<and> ceil_index 1000 ((next48 ^^ 146) (srand48 0)) = 1000
   \<and> rand_rounds 1000 73 (map of_nat [0..<1000]) (srand48 0) = Inl Out_Of_Bounds
   \<and> test_rand_main 1000 = Inl Out_Of_Bounds"
proof (intro conjI)
  let ?tab = "map of_nat [0..<1000] :: 32 word list"
  have l: "length ?tab = 1000" by simp
  have in72: "\<not> runs_out 1000 72 (srand48 0)" by (rule runs_out_72)
  show "\<exists>tab. rand_rounds 1000 72 ?tab (srand48 0) = Inr tab \<and> length tab = 1000"
    using rand_rounds_inside [OF l in72] .
  show "ceil_index 1000 ((next48 ^^ 145) (srand48 0)) < 1000" "ceil_index 1000 ((next48 ^^ 146) (srand48 0)) = 1000"
    by (simp_all only: draw_145) (simp_all add: ceil_index_def)
  then have out: "runs_out 1000 m (srand48 0)" if "73 \<le> m" for m
    using runs_out_at [of 1000 145 "srand48 0" m] that by simp
  show "rand_rounds 1000 73 ?tab (srand48 0) = Inl Out_Of_Bounds"
    using rand_rounds_trap [OF l] out by simp
  show "test_rand_main 1000 = Inl Out_Of_Bounds"
    using rand_rounds_trap [OF l] out by (simp add: test_rand_main_def)
qed

end
