(* ===== verification/Spec2Isabelle.thy ===== *)
theory Spec2Isabelle
  imports Holetest Latency Pthread_Test Pthread_Once Pthread_Mmap Pthread_Noposix Ram_Bench Flush_Lines
    Fast_Rand Harness_Run Mmap_Threads Iozone Test_Rand
begin

text \<open>
  \<^bold>\<open>The repository.\<close>  A collection of C programs that compare file access through system calls with
  access through memory mappings, on a RAM disk mounted at \<open>/mnt/ramdisk\<close>.  Almost every program
  is one \<open>main\<close> that works on the file \<open>test1\<close>; what they share is copied from one to the next.
  Around them stand a library, \<open>lib/fileops_noposix.c\<close>, that replaces \<open>read\<close> and its kin by loads
  from cached mappings, routines that copy and flush (\<open>memcpy.h\<close>, \<open>mmap_write.c\<close>), and the headers
  of a C++ workload harness (\<open>Util/\<close>).  The programs with threads (\<open>pthread_*.c\<close>) synchronise by
  doorbells, words of shared memory that are polled, or by a mutex and condition variables.

  \<^bold>\<open>The model.\<close>  Sequential code is a function in the monad \<open>prog\<close> of \<open>Prelude\<close>: it returns a value,
  \<open>Exit n\<close>, or a \<open>Trap\<close> (a signal or undefined behaviour), and a state.  C integers are HOL integers
  with every conversion written out (\<open>u64\<close>, \<open>s64\<close>, \<open>u32\<close>, \<open>s32\<close>), or words where the code works on
  bits.  Threads are deterministic step functions of one thread (\<open>worker_step\<close>, \<open>main_step\<close>, ...)
  whose interleavings are an inductive step relation (\<open>dstep\<close>, \<open>once_step\<close>, \<open>nstep\<close>, \<open>kstep\<close>,
  \<open>run_step\<close>).  A step is one access to a word that the threads synchronise by, one call of the
  system or one copy.  Coarser steps are a call of the library in \<open>Pthread_Noposix\<close> (the threads use
  different descriptors) and \<open>StartTiming\<close> and a test of \<open>isDone\<close> in \<open>Harness_Run\<close>; the operation of the harness is
  not one step but a list of actions, between which all other threads can go on.  Addresses that
  the kernel and the allocator choose, measured times, values of uninitialised variables, thread
  identities, permissions (where \<open>write_perf_test1\<close> depends on them) and the shell are arguments.
  \<open>random_perf_test\<close> carries a list of its accesses that the program does not have, so that its
  order can be stated.  The statistics of the library (\<open>hit_count\<close>, \<open>mmap_count\<close>) are natural
  numbers: their \<open>int\<close> overflow is not modelled.

  \<^bold>\<open>Theories and sources.\<close>

  \<^item> \<open>Prelude\<close>: integers, the monad, loops with an \<open>int\<close> counter, weakest preconditions, buffers.
  \<^item> \<open>Posix\<close>: directory, inodes, descriptors and the file calls of libc; \<open>Mapping_Io\<close>: mappings, with
    the signals of accesses outside of them.  These two model no code of the repository.
  \<^item> \<open>Size_Arg\<close>, \<open>Integrity\<close>: the arguments all programs parse, and \<open>integrity_test2_*.c\<close>.
  \<^item> \<open>Latency\<close>, \<open>Mmap_Bench\<close>, \<open>Mmap_Tests\<close>, \<open>Ram_Bench\<close>, \<open>Random_Io\<close>, \<open>Iozone\<close>, \<open>Test_Rand\<close>,
    \<open>Mmap_Threads\<close>: the other sequential programs, from \<open>latency_*.c\<close> to
    \<open>mmap_to_ram_multithread.c\<close>; each theory names its files.
  \<^item> \<open>Noposix\<close> (state and operations of \<open>lib/fileops_noposix.c\<close>, in its order), \<open>Noposix_Tree\<close> (the
    radix tree), \<open>Noposix_Ops\<close> (\<open>get_mmap_address\<close> as a cache), \<open>Noposix_Files\<close> (the calls that
    programs make), \<open>Noposix_Local\<close> (frames, and a typing of call sequences).
  \<^item> \<open>Doorbell\<close> and \<open>Pthread_Test\<close>: \<open>pthread_test.c\<close>; \<open>Pthread_Noposix\<close>: \<open>pthread_test_noposix.c\<close>,
    which runs the same protocol on the library; \<open>Doorbell_Once\<close> and \<open>Pthread_Once\<close>:
    \<open>pthread_test_create.c\<close> and \<open>pthread_counter.c\<close>; \<open>Pthread_Mmap\<close>: \<open>pthread_test_mmap.c\<close>.
  \<^item> \<open>Holetest\<close>: \<open>holetest.c\<close>.  \<open>Memcpy\<close>, \<open>Flush_Lines\<close>: \<open>memcpy.h\<close> and the flush routines of
    \<open>mmap_write.c\<close>.
  \<^item> \<open>Fast_Rand\<close>, \<open>Atomic_Ops\<close>, \<open>Harness_Barrier\<close>, \<open>Workload_Harness\<close>, \<open>Harness_Run\<close>:
    \<open>Util/FastRand.hpp\<close>, \<open>Util/AtomicOps.hpp\<close>, \<open>Util/HarnessBarrier.hpp\<close> and
    \<open>Util/NVTMWorkloadHarness.hpp\<close> (\<open>Init\<close> and the setters; \<open>RunOps\<close> with its threads).

  Definitions carry the names of the C functions and variables; a \<open>main\<close> is \<open><program>_main\<close>, its
  loops are the \<open>..._round\<close>, \<open>..._loop\<close> and \<open>..._pass\<close> before it.

  \<^bold>\<open>Interfaces.\<close>  \<open>chunk_store\<close> (a store that is written chunk by chunk; inodes), \<open>mapping_cache\<close> (a
  cache of mappings; \<open>get_mmap_address\<close>), \<open>partition\<close> (slices of a file; the offsets of the threads),
  \<open>round_work\<close> (the work of one round of doorbells; the two single-round programs), \<open>block_copier\<close> (a
  routine that copies disjoint blocks; libc's, \<open>mmx2_memcpy\<close> and \<open>memcpy1\<close> on the lengths for which
  they do), \<open>full_cycle\<close> (a generator that runs through all nonzero words; the four widths of
  \<open>RandLFSR\<close>) and \<open>rendezvous\<close> (a barrier; the pthread barrier and the one under \<open>NO_BARRIERS\<close>).

  \<^bold>\<open>What is shown.\<close>

  \<^item> The library: a file's tree is a partial map from chunk numbers to addresses, \<open>get_mmap_address\<close>
    refines a cache over that map, every chunk is mapped at most once over any history of accesses,
    \<open>read1\<close> and \<open>pread1\<close> serve what is in range, and well-typed call sequences never crash unless
    the kernel refuses a mapping; and the inputs on which it fails (\<open>O_RDONLY\<close>, offsets from 8 PB on
    in a tree of height 0, leaves lost by \<open>close1\<close>).  \<open>env_ok\<close> says that \<open>malloc\<close> succeeds with fresh
    addresses, \<open>env_total\<close> that \<open>mmap\<close> succeeds as well; \<open>noposix_threads_clean\<close> needs both.
  \<^item> The doorbell protocols: exclusion between the main thread and the workers, the contents of the
    file when a round is over (with short transfers on a full file system, which are an error line),
    and that from every reachable state the run can be completed, for
    every number of threads and every interleaving; for \<open>pthread_test_mmap.c\<close> mutual exclusion, the
    stale first batch, the slices that fall short, and that \<open>main\<close> never returns.
  \<^item> The sequential programs: how each ends on all accepted arguments, what it leaves in the file and
    what it reports; the integrity reader accepts exactly what the writer leaves; \<open>mmap_write\<close> against
    \<open>write\<close>; random access visits every record once per pass; \<open>iozone_test\<close> and \<open>test_rand\<close> overrun
    an array, and in which round.
  \<^item> \<open>holetest\<close> finds no error under any interleaving of its markers; the copy routines against
    \<open>memcpy\<close>; the lines that the flush routines touch and when they return.
  \<^item> The harness: \<open>Init\<close> reads back what was written, the generators have full period, the barrier
    under \<open>NO_BARRIERS\<close> implements the pthread barrier when there is no spurious wake-up, runs with a
    count of operations make every call exactly as often as computed, lose no update of the shared
    counter and end, and no thread calls the operation before the timing has been started
    (\<open>timing_on\<close>) or after another one has finished.

  \<^bold>\<open>Bounds and fuel.\<close>  Loops are structural recursions over the number of rounds left, which the code
  computes before it enters them, or functions with a measure; there is no fuel.  Only the flush
  loops may run forever; they are partial functions into \<open>option\<close>, and \<open>flush_returns_iff\<close> says
  when they return.  Loops of threads that poll are steps.  \<open>w_fmax\<close> bounds a file, \<open>w_mem\<close> a block
  of memory; theorems that need room say how much.

  \<^bold>\<open>Not modelled.\<close>  Measured times, bandwidths and informing output; the contents of the lines
  appended to result files, which stay apart from \<open>test1\<close>; permissions (but for \<open>write_perf_test1\<close>
  and \<open>mmap\<close> in the library) and I/O errors other than a full file system; dead code: the branch of \<open>fileops_noposix.c\<close> that is not compiled, the bell
  functions of \<open>pthread_test_mmap.c\<close>, the reads of \<open>prefault_mapping\<close>.  Of the harness \<open>PrintResults\<close>,
  the clock, fractions of seconds and a second call of \<open>RunOps\<close>; \<open>Util/WorkloadTimer.hpp\<close> is one
  system call.  The single-purpose probes (\<open>test_fallocate.c\<close>, \<open>test_io_unalign.c\<close>,
  \<open>test_thread_jump.c\<close>, \<open>cache_test.c\<close>, \<open>mode_switch_test.c\<close>, \<open>mutex_test.c\<close>, \<open>bankshot2/\<close>) have no
  state or result of their own, or rest on behaviour that POSIX leaves undefined.  The scripts only
  call the programs.
\<close>

end
